(* ===== verification/Prelude.thy ===== *)
theory Prelude
  imports Complex_Main "HOL-Library.Multiset"
begin

text \<open>
  Shared vocabulary of the development: results of code that may raise, loops whose
  body may raise, a contract for components that are driven one step at a time, and
  generic facts about lists and maps that several components use.
\<close>

section \<open>Results: a raised error or a value\<close>

text \<open>
  A Python function that may raise is modelled as a sum: \<open>Inl e\<close> is the raised
  exception, \<open>Inr v\<close> the returned value.
\<close>

type_synonym ('e, 'a) result = "'e + 'a"

fun rbind :: "('e, 'a) result \<Rightarrow> ('a \<Rightarrow> ('e, 'b) result) \<Rightarrow> ('e, 'b) result" where
  "rbind (Inl e) f = Inl e"
| "rbind (Inr a) f = f a"

definition require :: "bool \<Rightarrow> 'e \<Rightarrow> ('e, unit) result" where
  "require b e = (if b then Inr () else Inl e)"

definition is_ok :: "('e, 'a) result \<Rightarrow> bool" where
  "is_ok r \<longleftrightarrow> (case r of Inl _ \<Rightarrow> False | Inr _ \<Rightarrow> True)"

named_theorems result_simps \<open>equations that open results\<close>

lemma rbind_Inr_iff [result_simps]: "rbind r f = Inr b \<longleftrightarrow> (\<exists>a. r = Inr a \<and> f a = Inr b)"
  by (cases r) auto

lemma rbind_Inl_iff [result_simps]:
  "rbind r f = Inl e \<longleftrightarrow> r = Inl e \<or> (\<exists>a. r = Inr a \<and> f a = Inl e)"
  by (cases r) auto

lemma require_Inr_iff [result_simps]: "require b e = Inr u \<longleftrightarrow> b"
  by (simp add: require_def)

lemma require_Inl_iff [result_simps]: "require b e = Inl e' \<longleftrightarrow> \<not> b \<and> e' = e"
  by (auto simp: require_def)

lemma require_True [simp]: "require True e = Inr ()"
  by (simp add: require_def)

lemma require_False [simp]: "require False e = Inl e"
  by (simp add: require_def)

lemma is_ok_simps [simp]: "is_ok (Inr a)" "\<not> is_ok (Inl e)"
  by (simp_all add: is_ok_def)

lemma is_ok_iff: "is_ok r \<longleftrightarrow> (\<exists>a. r = Inr a)"
  by (cases r) auto

definition expect_some :: "'e \<Rightarrow> 'a option \<Rightarrow> ('e, 'a) result" where
  "expect_some e v = (case v of Some x \<Rightarrow> Inr x | None \<Rightarrow> Inl e)"

lemma is_ok_rbind [result_simps]: "is_ok (rbind r f) \<longleftrightarrow> (\<exists>a. r = Inr a \<and> is_ok (f a))"
  by (cases r) auto

lemma is_ok_require [result_simps]: "is_ok (require b e) \<longleftrightarrow> b"
  by (simp add: require_def)

lemma rbind_cong [fundef_cong]:
  "r = r' \<Longrightarrow> (\<And>a. r' = Inr a \<Longrightarrow> f a = g a) \<Longrightarrow> rbind r f = rbind r' g"
  by (cases r') auto

section \<open>Loops whose body may raise\<close>

fun rfold :: "('s \<Rightarrow> 'a \<Rightarrow> ('e, 's) result) \<Rightarrow> 's \<Rightarrow> 'a list \<Rightarrow> ('e, 's) result" where
  "rfold f s [] = Inr s"
| "rfold f s (x # xs) = rbind (f s x) (\<lambda>s'. rfold f s' xs)"

fun rmap :: "('a \<Rightarrow> ('e, 'b) result) \<Rightarrow> 'a list \<Rightarrow> ('e, 'b list) result" where
  "rmap f [] = Inr []"
| "rmap f (x # xs) = rbind (f x) (\<lambda>y. rbind (rmap f xs) (\<lambda>ys. Inr (y # ys)))"

lemma rmap_Inr: "rmap f xs = Inr ys \<Longrightarrow> x \<in> set xs \<Longrightarrow> \<exists>y \<in> set ys. f x = Inr y"
  by (induction xs arbitrary: ys) (auto simp: result_simps)

lemma rfold_append: "rfold f s (xs @ ys) = rbind (rfold f s xs) (\<lambda>s'. rfold f s' ys)"
proof (induction xs arbitrary: s)
  case (Cons x xs)
  then show ?case by (cases "f s x") auto
qed simp

text \<open>
  The loop rule: an invariant relating the state to the part of the input already
  consumed, kept by the body, holds at the end for the whole input.
\<close>

lemma rfold_invariant:
  assumes "rfold f s xs = Inr s'"
    and "P s []"
    and "\<And>s ys x s'. P s ys \<Longrightarrow> x \<in> set xs \<Longrightarrow> f s x = Inr s' \<Longrightarrow> P s' (ys @ [x])"
  shows "P s' xs"
proof -
  have "rfold f s zs = Inr s' \<Longrightarrow> set zs \<subseteq> set xs \<Longrightarrow> P s ys \<Longrightarrow> P s' (ys @ zs)" for zs ys
  proof (induction zs arbitrary: s ys)
    case Nil
    then show ?case by simp
  next
    case (Cons z zs)
    from Cons.prems(1) obtain t where t: "f s z = Inr t" "rfold f t zs = Inr s'"
      by (auto simp: result_simps)
    from Cons.prems t have "P t (ys @ [z])" by (auto intro: assms(3))
    from Cons.IH [OF t(2) _ this] Cons.prems(2) show ?case by simp
  qed
  from this [of xs "[]"] assms(1,2) show ?thesis by simp
qed

lemma rfold_preserves:
  assumes "rfold f s xs = Inr s'" and "P s"
    and "\<And>s x s'. P s \<Longrightarrow> f s x = Inr s' \<Longrightarrow> P s'"
  shows "P s'"
  using assms(1,2)
proof (induction xs arbitrary: s)
  case (Cons x xs)
  then show ?case by (auto simp: result_simps dest: assms(3))
qed simp

section \<open>The contract of a stepped component\<close>

text \<open>
  Several components (the form editor, the pressure controller, the event buffer, the
  heartbeat ledger, the live scheduler) are objects driven by a sequence of calls. What
  they share is an invariant that every call keeps; a call that raises leaves the run.
\<close>

locale stepped =
  fixes step :: "'s \<Rightarrow> 'a \<Rightarrow> ('e, 's) result"
    and inv :: "'s \<Rightarrow> bool"
  assumes step_inv: "inv s \<Longrightarrow> step s a = Inr s' \<Longrightarrow> inv s'"
begin

lemma run_inv: "inv s \<Longrightarrow> rfold step s as = Inr s' \<Longrightarrow> inv s'"
  by (rule rfold_preserves) (auto intro: step_inv)

lemma run_prefix_inv:
  assumes "inv s" and "rfold step s (as @ bs) = Inr s'"
  obtains t where "rfold step s as = Inr t" "inv t" "rfold step t bs = Inr s'"
  using assms by (auto simp: rfold_append result_simps intro: run_inv)

end

section \<open>Lists and maps\<close>

definition distinct_keys :: "('k \<times> 'v) list \<Rightarrow> bool" where
  "distinct_keys kvs \<longleftrightarrow> distinct (map fst kvs)"

lemma map_of_filter_neq: "k \<noteq> k' \<Longrightarrow> map_of (filter (\<lambda>e. fst e \<noteq> k) kvs) k' = map_of kvs k'"
  by (induction kvs) auto

lemma map_of_filter_eq: "map_of (filter (\<lambda>e. fst e \<noteq> k) kvs) k = None"
  by (induction kvs) auto

lemma map_of_tl_le: "distinct (map fst kvs) \<Longrightarrow> map_of (tl kvs) k = Some v \<Longrightarrow> map_of kvs k = Some v"
  by (cases kvs) (auto dest: map_of_SomeD simp: rev_image_eqI)

lemma distinct_map_fst_filter: "distinct (map fst kvs) \<Longrightarrow> distinct (map fst (filter P kvs))"
  by (induction kvs) auto

lemma map_snoc_last:
  assumes "map f xs = ys @ [y]"
  shows "xs \<noteq> []" and "f (last xs) = y"
  using assms by (auto simp: map_eq_append_conv)

lemma set_tl_subset: "set (tl xs) \<subseteq> set xs"
  by (cases xs) auto

lemma distinct_set_single: "distinct xs \<Longrightarrow> set xs = {x} \<Longrightarrow> xs = [x]"
proof (cases xs)
  case (Cons y ys)
  assume d: "distinct xs" and s: "set xs = {x}"
  with Cons have "set ys \<subseteq> {x}" "y = x" "y \<notin> set ys" by auto
  then have "set ys = {}" by (cases ys) auto
  with Cons \<open>y = x\<close> show ?thesis by simp
qed simp

lemma bex_image_conj: "(\<exists>x \<in> S. f x = y \<and> P (f x)) \<longleftrightarrow> y \<in> f ` S \<and> P y"
  by auto

lemma half_less: "a \<le> n div 2 \<Longrightarrow> n < 2 * p \<Longrightarrow> a < (p::nat)"
  by linarith

lemma sum_list_nonneg_int: "(\<And>x. x \<in> set xs \<Longrightarrow> 0 \<le> f x) \<Longrightarrow> (0::int) \<le> sum_list (map f xs)"
  by (induction xs) auto

end
