(* ===== verification/Packing.thy ===== *)
theory Packing
  imports Prelude
begin

text \<open>
  Deterministic whole-file-first planning of container volumes, after
  \<^verbatim>\<open>src/ls/core/openpgp/container_packing.py\<close>. The size callback is code of the caller
  (it encrypts and serializes a candidate volume) and is a parameter \<open>cb\<close> of the model;
  the documented contract, that it is deterministic, is what makes it a function.
  Python integers are \<open>int\<close>; the tolerance is the decimal \<open>coeff * 10 ^ - scale\<close> that
  \<open>Decimal(str(tolerance))\<close> denotes. The dynamic type checks (\<open>isinstance\<close>,
  \<open>callable\<close>, \<open>math.isfinite\<close>) are discharged by the types.
\<close>

section \<open>Data\<close>

datatype packing_error =
    PackingError string
  | PackingLimitError string
  | PackingValueError string

record packing_item =
  pi_identity :: string
  pi_size :: int

record packed_part =
  p_identity :: string
  p_offset :: int
  p_length :: int
  p_segment_index :: int
  p_segment_count :: int
  p_segmented :: bool

record packing_volume =
  v_index :: nat
  v_parts :: "packed_part list"
  v_serialized :: int

record decimal =
  d_coeff :: int
  d_scale :: nat

record packing_limits =
  target_bytes :: int
  tolerance :: decimal
  hard_ceiling_bytes :: "int option"
  max_entries :: int
  max_parts :: int
  max_volumes :: int
  max_split_iterations :: int
  max_measure_calls :: int
  max_total_plaintext_bytes :: int

record packing_plan =
  pl_volumes :: "packing_volume list"
  pl_target :: int
  pl_tolerance :: decimal
  pl_ceiling :: int
  pl_measure_calls :: int

definition whole_part :: "packing_item \<Rightarrow> packed_part" where
  "whole_part item = \<lparr>p_identity = pi_identity item, p_offset = 0, p_length = pi_size item,
     p_segment_index = 0, p_segment_count = 1, p_segmented = False\<rparr>"

definition positive_limit :: "string \<Rightarrow> int \<Rightarrow> (packing_error, unit) result" where
  "positive_limit name v = require (0 < v) (PackingValueError (name @ '' must be a positive integer''))"

definition limits_post_init :: "packing_limits \<Rightarrow> (packing_error, unit) result" where
  "limits_post_init lims =
     rbind (positive_limit ''target_bytes'' (target_bytes lims)) (\<lambda>_.
     rbind (positive_limit ''max_entries'' (max_entries lims)) (\<lambda>_.
     rbind (positive_limit ''max_parts'' (max_parts lims)) (\<lambda>_.
     rbind (positive_limit ''max_volumes'' (max_volumes lims)) (\<lambda>_.
     rbind (positive_limit ''max_split_iterations'' (max_split_iterations lims)) (\<lambda>_.
     rbind (positive_limit ''max_measure_calls'' (max_measure_calls lims)) (\<lambda>_.
     rbind (positive_limit ''max_total_plaintext_bytes'' (max_total_plaintext_bytes lims)) (\<lambda>_.
     rbind (require (case hard_ceiling_bytes lims of None \<Rightarrow> True | Some c \<Rightarrow> 0 < c)
              (PackingValueError ''hard_ceiling_bytes must be a positive integer or None'')) (\<lambda>_.
     require (0 \<le> d_coeff (tolerance lims) \<and> d_coeff (tolerance lims) \<le> 10 ^ d_scale (tolerance lims))
       (PackingValueError ''tolerance must be a finite number between zero and one'')))))))))"

section \<open>The effective ceiling\<close>

text \<open>
  \<open>Decimal\<close> multiplication is exact up to the 28 significant digits of the default
  context and rounds half to even beyond; \<open>int\<close> truncates.
\<close>

fun digits10 :: "nat \<Rightarrow> nat" where
  "digits10 n = (if n < 10 then 1 else Suc (digits10 (n div 10)))"

declare digits10.simps [simp del]

definition round28 :: "nat \<Rightarrow> nat" where
  "round28 c =
     (let d = digits10 c in
      if d \<le> 28 then c
      else let u = 10 ^ (d - 28); q = c div u; r = c mod u
           in (if u < 2 * r \<or> (2 * r = u \<and> odd q) then (q + 1) * u else q * u))"

definition soft_ceiling :: "packing_limits \<Rightarrow> int" where
  "soft_ceiling lims =
     target_bytes lims +
     int (round28 (nat (target_bytes lims) * nat (d_coeff (tolerance lims)))
          div 10 ^ d_scale (tolerance lims))"

definition effective_ceiling :: "packing_limits \<Rightarrow> int" where
  "effective_ceiling lims =
     min (soft_ceiling lims)
         (case hard_ceiling_bytes lims of Some c \<Rightarrow> c | None \<Rightarrow> soft_ceiling lims)"

section \<open>The memoising measurer\<close>

record measured =
  m_cache :: "(packed_part \<times> int) list"
  m_calls :: int

definition measured_init :: measured where
  "measured_init = \<lparr>m_cache = [], m_calls = 0\<rparr>"

text \<open>\<open>OrderedDict\<close>: insertion order, oldest first.\<close>

definition move_to_end :: "'k \<Rightarrow> ('k \<times> 'v) list \<Rightarrow> ('k \<times> 'v) list" where
  "move_to_end k c = filter (\<lambda>e. fst e \<noteq> k) c @ filter (\<lambda>e. fst e = k) c"

definition cache_store :: "'k \<Rightarrow> 'v \<Rightarrow> ('k \<times> 'v) list \<Rightarrow> ('k \<times> 'v) list" where
  "cache_store k v c = (let c' = c @ [(k, v)] in if length c' > 4096 then tl c' else c')"

definition measured_call ::
  "(packed_part list \<Rightarrow> int) \<Rightarrow> packing_limits \<Rightarrow> measured \<Rightarrow> packed_part list
     \<Rightarrow> (packing_error, int \<times> measured) result" where
  "measured_call cb lims m parts =
     (let key = (case parts of [p] \<Rightarrow> Some p | _ \<Rightarrow> None)
      in case Option.bind key (map_of (m_cache m)) of
           Some v \<Rightarrow> Inr (v, m\<lparr>m_cache := move_to_end (the key) (m_cache m)\<rparr>)
         | None \<Rightarrow>
             rbind (require (m_calls m < max_measure_calls lims)
                (PackingLimitError ''serialized-size measurement count exceeds the configured limit'')) (\<lambda>_.
             let v = cb parts; m1 = m\<lparr>m_calls := m_calls m + 1\<rparr> in
             rbind (require (0 < v)
                (PackingError ''size callback must return a positive serialized byte count'')) (\<lambda>_.
             Inr (v, case key of None \<Rightarrow> m1
                     | Some k \<Rightarrow> m1\<lparr>m_cache := cache_store k v (m_cache m1)\<rparr>))))"

section \<open>Segments of an oversized file\<close>

function segments_from :: "packing_item \<Rightarrow> int \<Rightarrow> int \<Rightarrow> int \<Rightarrow> int \<Rightarrow> packed_part list" where
  "segments_from item seg cnt idx off =
     (if 0 < seg \<and> off < pi_size item
      then \<lparr>p_identity = pi_identity item, p_offset = off,
            p_length = min seg (pi_size item - off),
            p_segment_index = idx, p_segment_count = cnt, p_segmented = True\<rparr>
           # segments_from item seg cnt (idx + 1) (off + seg)
      else [])"
  by pat_completeness auto
termination
  by (relation "measure (\<lambda>(item, seg, cnt, idx, off). nat (pi_size item - off))") auto

declare segments_from.simps [simp del]

definition iter_segments_for :: "packing_item \<Rightarrow> int \<Rightarrow> int \<Rightarrow> packed_part list" where
  "iter_segments_for item seg cnt = segments_from item seg cnt 0 0"

type_synonym 'm measure_fun =
  "'m \<Rightarrow> packed_part list \<Rightarrow> (packing_error, int \<times> 'm) result"

text \<open>\<open>all(measure((segment,)) <= ceiling for ...)\<close>: stops at the first that does not fit.\<close>

fun all_fit :: "'m measure_fun \<Rightarrow> int \<Rightarrow> 'm \<Rightarrow> packed_part list
    \<Rightarrow> (packing_error, bool \<times> 'm) result" where
  "all_fit meas ceil m [] = Inr (True, m)"
| "all_fit meas ceil m (p # ps) =
     rbind (meas m [p]) (\<lambda>(v, m'). if v \<le> ceil then all_fit meas ceil m' ps else Inr (False, m'))"

definition candidate_count :: "packing_item \<Rightarrow> int \<Rightarrow> int" where
  "candidate_count item seg = (pi_size item + seg - 1) div seg"

function split_search ::
  "'m measure_fun \<Rightarrow> packing_limits \<Rightarrow> int \<Rightarrow> packing_item \<Rightarrow> int \<Rightarrow> 'm \<Rightarrow> int \<Rightarrow> int \<Rightarrow> int
     \<Rightarrow> (int \<times> int) option \<Rightarrow> (packing_error, (int \<times> int) option \<times> 'm) result" where
  "split_search meas lims ceil item remaining m low high iterations best =
     (if low \<le> high \<and> iterations < max_split_iterations lims then
        let cand = (low + high) div 2; cnt = candidate_count item cand in
        if remaining < cnt then
          split_search meas lims ceil item remaining m (cand + 1) high (iterations + 1) best
        else
          (case all_fit meas ceil m (iter_segments_for item cand cnt) of
             Inl e \<Rightarrow> Inl e
           | Inr (fits, m') \<Rightarrow>
               if fits then
                 split_search meas lims ceil item remaining m' (cand + 1) high (iterations + 1)
                   (Some (cand, cnt))
               else
                 split_search meas lims ceil item remaining m' low (cand - 1) (iterations + 1) best)
      else Inr (best, m))"
  by pat_completeness auto
termination
  by (relation "measure (\<lambda>(meas, lims, ceil, item, remaining, m, low, high, iterations, best).
        nat (high - low + 1))") auto

declare split_search.simps [simp del]

definition split_oversized_item ::
  "'m measure_fun \<Rightarrow> packing_limits \<Rightarrow> int \<Rightarrow> int \<Rightarrow> 'm \<Rightarrow> packing_item
     \<Rightarrow> (packing_error, (int \<times> packed_part list) \<times> 'm) result" where
  "split_oversized_item meas lims ceil remaining m item =
     rbind (require (2 \<le> pi_size item)
        (PackingError ''an item exceeds a fresh-volume ceiling and cannot be segmented'')) (\<lambda>_.
     rbind (require (0 < remaining)
        (PackingLimitError ''planned part count exceeds the configured limit'')) (\<lambda>_.
     rbind (split_search meas lims ceil item remaining m 1 (pi_size item - 1) 0 None) (\<lambda>(best, m').
     case best of
       None \<Rightarrow> Inl (PackingLimitError ''no safe segment size found within the configured resource limits'')
     | Some (seg, cnt) \<Rightarrow> Inr ((seg, iter_segments_for item seg cnt), m'))))"

section \<open>The planner\<close>

record 'm plan_state =
  ps_completed :: "packing_volume list"
  ps_current :: "packed_part list"
  ps_current_size :: int
  ps_part_count :: int
  ps_meas :: 'm

definition plan_init :: "'m \<Rightarrow> 'm plan_state" where
  "plan_init m = \<lparr>ps_completed = [], ps_current = [], ps_current_size = 0,
     ps_part_count = 0, ps_meas = m\<rparr>"

definition close_current ::
  "packing_limits \<Rightarrow> 'm plan_state \<Rightarrow> (packing_error, 'm plan_state) result" where
  "close_current lims st =
     (if ps_current st = [] then Inr st
      else rbind (require (int (length (ps_completed st)) < max_volumes lims)
             (PackingLimitError ''volume count exceeds the configured limit'')) (\<lambda>_.
           Inr (st\<lparr>ps_completed := ps_completed st @
                    [\<lparr>v_index = length (ps_completed st), v_parts = ps_current st,
                      v_serialized = ps_current_size st\<rparr>],
                  ps_current := [], ps_current_size := 0\<rparr>)))"

definition add_part :: "packed_part \<Rightarrow> int \<Rightarrow> 'm plan_state \<Rightarrow> 'm plan_state" where
  "add_part p sz st = st\<lparr>ps_current := ps_current st @ [p], ps_current_size := sz,
     ps_part_count := ps_part_count st + 1\<rparr>"

definition parts_room :: "packing_limits \<Rightarrow> 'm plan_state \<Rightarrow> (packing_error, unit) result" where
  "parts_room lims st = require (ps_part_count st < max_parts lims)
     (PackingLimitError ''planned part count exceeds the configured limit'')"

definition append_measured ::
  "'m measure_fun \<Rightarrow> packing_limits \<Rightarrow> int \<Rightarrow> 'm plan_state \<Rightarrow> packed_part
     \<Rightarrow> (packing_error, 'm plan_state) result" where
  "append_measured meas lims ceil st p =
     rbind (parts_room lims st) (\<lambda>_.
     let fresh = (\<lambda>st1. rbind (meas (ps_meas st1) [p]) (\<lambda>(v, m).
           rbind (require (v \<le> ceil) (PackingError ''planned part does not fit in a fresh volume'')) (\<lambda>_.
           Inr (add_part p v (st1\<lparr>ps_current := [], ps_meas := m\<rparr>)))))
     in if ps_current st \<noteq> [] then
          rbind (meas (ps_meas st) (ps_current st @ [p])) (\<lambda>(v, m).
          let st' = st\<lparr>ps_meas := m\<rparr> in
          if v \<le> ceil then Inr (add_part p v st')
          else rbind (close_current lims st') fresh)
        else fresh st)"

definition plan_fresh ::
  "'m measure_fun \<Rightarrow> packing_limits \<Rightarrow> int \<Rightarrow> packing_item \<Rightarrow> 'm plan_state
     \<Rightarrow> (packing_error, 'm plan_state) result" where
  "plan_fresh meas lims ceil item st =
     rbind (meas (ps_meas st) [whole_part item]) (\<lambda>(v, m).
     let st' = st\<lparr>ps_meas := m\<rparr> in
     if v \<le> ceil then
       rbind (parts_room lims st') (\<lambda>_. Inr (add_part (whole_part item) v (st'\<lparr>ps_current := []\<rparr>)))
     else
       rbind (split_oversized_item meas lims ceil (max_parts lims - ps_part_count st') m item)
         (\<lambda>((seg, segments), m'). rfold (append_measured meas lims ceil) (st'\<lparr>ps_meas := m'\<rparr>) segments))"

definition plan_item ::
  "'m measure_fun \<Rightarrow> packing_limits \<Rightarrow> int \<Rightarrow> 'm plan_state \<Rightarrow> packing_item
     \<Rightarrow> (packing_error, 'm plan_state) result" where
  "plan_item meas lims ceil st item =
     (if ps_current st \<noteq> [] then
        rbind (meas (ps_meas st) (ps_current st @ [whole_part item])) (\<lambda>(v, m).
        let st' = st\<lparr>ps_meas := m\<rparr> in
        if v \<le> ceil then
          rbind (parts_room lims st') (\<lambda>_. Inr (add_part (whole_part item) v st'))
        else rbind (close_current lims st') (plan_fresh meas lims ceil item))
      else plan_fresh meas lims ceil item st)"

definition admit_item ::
  "packing_limits \<Rightarrow> string list \<times> int \<Rightarrow> packing_item \<Rightarrow> (packing_error, string list \<times> int) result" where
  "admit_item lims = (\<lambda>(seen, total) item.
     rbind (require (pi_identity item \<noteq> '''' \<and> pi_identity item \<notin> set seen)
        (PackingError ''item identities must be non-empty and unique'')) (\<lambda>_.
     rbind (require (0 \<le> pi_size item)
        (PackingError ''item size must be a non-negative integer'')) (\<lambda>_.
     rbind (require (total + pi_size item \<le> max_total_plaintext_bytes lims)
        (PackingLimitError ''total plaintext size exceeds the configured limit'')) (\<lambda>_.
     Inr (pi_identity item # seen, total + pi_size item)))))"

definition plan_volumes ::
  "(packed_part list \<Rightarrow> int) \<Rightarrow> packing_limits \<Rightarrow> packing_item list
     \<Rightarrow> (packing_error, packing_plan) result" where
  "plan_volumes cb lims items =
     rbind (require (int (length items) \<le> max_entries lims)
        (PackingLimitError ''entry count exceeds the configured limit'')) (\<lambda>_.
     rbind (rfold (admit_item lims) ([], 0) items) (\<lambda>_.
     let ceil = effective_ceiling lims; meas = measured_call cb lims in
     rbind (rfold (plan_item meas lims ceil) (plan_init measured_init) items) (\<lambda>st.
     rbind (close_current lims st) (\<lambda>st'.
     Inr \<lparr>pl_volumes = ps_completed st', pl_target = target_bytes lims,
          pl_tolerance = tolerance lims, pl_ceiling = ceil,
          pl_measure_calls = m_calls (ps_meas st')\<rparr>))))"

section \<open>Specification vocabulary\<close>

text \<open>Contiguous parts from offset \<open>a\<close> to offset \<open>b\<close>.\<close>

fun contiguous :: "int \<Rightarrow> packed_part list \<Rightarrow> int \<Rightarrow> bool" where
  "contiguous a [] b \<longleftrightarrow> a = b"
| "contiguous a (p # ps) b \<longleftrightarrow> p_offset p = a \<and> 0 \<le> p_length p \<and> contiguous (a + p_length p) ps b"

definition tiles :: "packing_item \<Rightarrow> packed_part list \<Rightarrow> bool" where
  "tiles item ps \<longleftrightarrow> ps \<noteq> [] \<and> (\<forall>p \<in> set ps. p_identity p = pi_identity item)
     \<and> contiguous 0 ps (pi_size item)"

definition feasible_segment ::
  "(packed_part list \<Rightarrow> int) \<Rightarrow> int \<Rightarrow> packing_item \<Rightarrow> int \<Rightarrow> int \<Rightarrow> bool" where
  "feasible_segment size_of ceil item remaining seg \<longleftrightarrow>
     1 \<le> seg \<and> seg < pi_size item \<and> candidate_count item seg \<le> remaining
     \<and> (\<forall>p \<in> set (iter_segments_for item seg (candidate_count item seg)). size_of [p] \<le> ceil)"

text \<open>What the planner makes of one file: the whole, or the segments of one size, and only
  when the whole does not fit a fresh volume.\<close>

definition item_parts ::
  "(packed_part list \<Rightarrow> int) \<Rightarrow> int \<Rightarrow> int \<Rightarrow> packing_item \<Rightarrow> packed_part list \<Rightarrow> bool" where
  "item_parts size_of ceil maxp item ps \<longleftrightarrow>
     ps = [whole_part item]
     \<or> (ceil < size_of [whole_part item]
        \<and> (\<exists>seg. feasible_segment size_of ceil item maxp seg
               \<and> ps = iter_segments_for item seg (candidate_count item seg)))"

text \<open>Why a volume was closed before \<open>p\<close>: adding \<open>p\<close>, or the whole file that \<open>p\<close> is the
  first segment of, would have exceeded the ceiling.\<close>

definition blocked ::
  "(packed_part list \<Rightarrow> int) \<Rightarrow> int \<Rightarrow> packing_item list \<Rightarrow> packed_part list \<Rightarrow> packed_part \<Rightarrow> bool" where
  "blocked size_of ceil items v p \<longleftrightarrow>
     ceil < size_of (v @ [p])
     \<or> (\<exists>item \<in> set items. pi_identity item = p_identity p \<and> p_offset p = 0
          \<and> ceil < size_of (v @ [whole_part item]))"

fun greedy ::
  "(packed_part list \<Rightarrow> int) \<Rightarrow> int \<Rightarrow> packing_item list \<Rightarrow> packed_part list list \<Rightarrow> bool" where
  "greedy size_of ceil items (v # w # vs) \<longleftrightarrow>
     blocked size_of ceil items v (hd w) \<and> greedy size_of ceil items (w # vs)"
| "greedy size_of ceil items _ \<longleftrightarrow> True"

lemma greedy_snoc2:
  "greedy s c its (vs @ [v, w]) \<longleftrightarrow> greedy s c its (vs @ [v]) \<and> blocked s c its v (hd w)"
proof (induction vs)
  case (Cons u vs)
  then show ?case by (cases vs) auto
qed simp

lemma greedy_snoc_grow: "v \<noteq> [] \<Longrightarrow> greedy s c its (vs @ [v]) \<Longrightarrow> greedy s c its (vs @ [v @ [p]])"
proof (induction vs)
  case (Cons u vs)
  then show ?case by (cases vs) auto
qed simp

lemma greedy_butlast: "greedy s c its (vs @ [v]) \<Longrightarrow> greedy s c its vs"
proof (induction vs)
  case (Cons u vs)
  then show ?case by (cases vs) auto
qed simp

section \<open>Segments tile the file\<close>

lemma segments_from_nonempty: "0 < seg \<Longrightarrow> off < pi_size item \<Longrightarrow> segments_from item seg cnt idx off \<noteq> []"
  by (simp add: segments_from.simps [of item seg cnt idx off])

lemma segments_from_contiguous:
  "0 < seg \<Longrightarrow> off \<le> pi_size item \<Longrightarrow>
     contiguous off (segments_from item seg cnt idx off) (pi_size item)"
proof (induction item seg cnt idx off rule: segments_from.induct)
  case (1 item seg cnt idx off)
  show ?case
  proof (cases "off < pi_size item")
    case True
    show ?thesis
    proof (cases "off + seg \<le> pi_size item")
      case le: True
      from True le "1.prems" "1.IH" show ?thesis
        by (subst segments_from.simps) (simp add: min_def)
    next
      case gt: False
      then have "segments_from item seg cnt (idx + 1) (off + seg) = []"
        by (subst segments_from.simps) simp
      with True gt "1.prems" show ?thesis
        by (subst segments_from.simps) (simp add: min_def)
    qed
  next
    case False
    with "1.prems" show ?thesis by (subst segments_from.simps) simp
  qed
qed

lemma segments_from_fields:
  "p \<in> set (segments_from item seg cnt idx off) \<Longrightarrow>
     p_identity p = pi_identity item \<and> p_segmented p \<and> p_segment_count p = cnt
     \<and> 0 < p_length p \<and> p_length p \<le> seg"
proof (induction item seg cnt idx off rule: segments_from.induct)
  case (1 item seg cnt idx off)
  then show ?case by (subst (asm) (2) segments_from.simps) (auto split: if_splits)
qed

lemma hd_segments_from:
  "0 < seg \<Longrightarrow> off < pi_size item \<Longrightarrow> p_offset (hd (segments_from item seg cnt idx off)) = off"
  by (simp add: segments_from.simps [of item seg cnt idx off])

lemma hd_segments_from_length:
  "0 < seg \<Longrightarrow> off < pi_size item \<Longrightarrow>
     p_length (hd (segments_from item seg cnt idx off)) = min seg (pi_size item - off)"
  by (simp add: segments_from.simps [of item seg cnt idx off])

lemma length_segments_from:
  "0 < seg \<Longrightarrow> off \<le> pi_size item \<Longrightarrow>
     int (length (segments_from item seg cnt idx off)) = (pi_size item - off + seg - 1) div seg"
proof (induction item seg cnt idx off rule: segments_from.induct)
  case (1 item seg cnt idx off)
  show ?case
  proof (cases "off < pi_size item")
    case True
    have step: "(pi_size item - off + seg - 1) div seg = (pi_size item - off - 1) div seg + 1"
      using "1.prems" by (metis add_diff_eq diff_add_eq div_add_self2 less_irrefl)
    show ?thesis
    proof (cases "off + seg \<le> pi_size item")
      case le: True
      from True le "1.prems" "1.IH" step show ?thesis
        by (subst segments_from.simps) (simp add: algebra_simps)
    next
      case gt: False
      then have "segments_from item seg cnt (idx + 1) (off + seg) = []"
        by (subst segments_from.simps) simp
      moreover from True gt have "(pi_size item - off - 1) div seg = 0"
        by (intro div_pos_pos_trivial) auto
      ultimately show ?thesis using True "1.prems" step
        by (subst segments_from.simps) simp
    qed
  next
    case False
    with "1.prems" have "(pi_size item - off + seg - 1) div seg = 0"
      by (intro div_pos_pos_trivial) auto
    with False show ?thesis by (subst segments_from.simps) simp
  qed
qed

lemma iter_segments_tiles: "0 < seg \<Longrightarrow> 0 < pi_size item \<Longrightarrow> tiles item (iter_segments_for item seg cnt)"
  by (auto simp: tiles_def iter_segments_for_def segments_from_nonempty
      intro: segments_from_contiguous dest: segments_from_fields)

lemma length_iter_segments:
  "0 < seg \<Longrightarrow> 0 \<le> pi_size item \<Longrightarrow>
     int (length (iter_segments_for item seg cnt)) = candidate_count item seg"
  by (simp add: iter_segments_for_def length_segments_from candidate_count_def)

lemma whole_part_tiles: "0 \<le> pi_size item \<Longrightarrow> tiles item [whole_part item]"
  by (simp add: tiles_def whole_part_def)

lemma candidate_count_antimono:
  "1 \<le> a \<Longrightarrow> a \<le> b \<Longrightarrow> 1 \<le> pi_size item \<Longrightarrow> candidate_count item b \<le> candidate_count item a"
proof -
  assume a: "1 \<le> a" "a \<le> b" "1 \<le> pi_size item"
  have eq: "candidate_count item c = (pi_size item - 1) div c + 1" if "1 \<le> c" for c
    using that unfolding candidate_count_def
    by (metis add_diff_eq diff_add_eq div_add_self2 not_one_le_zero)
  from a have "(pi_size item - 1) div b \<le> (pi_size item - 1) div a"
    by (intro zdiv_mono2) auto
  with a show ?thesis by (simp add: eq)
qed

lemma item_parts_tiles:
  "item_parts s c n item ps \<Longrightarrow> 0 \<le> pi_size item \<Longrightarrow> tiles item ps"
  by (auto simp: item_parts_def feasible_segment_def whole_part_tiles iter_segments_tiles)

lemma split_search_cases:
  assumes "split_search meas lims c item rem m low high it best = Inr (best', m')"
  obtains (stop) "\<not> (low \<le> high \<and> it < max_split_iterations lims)" "best' = best" "m' = m"
  | (few) "low \<le> high" "it < max_split_iterations lims"
      "rem < candidate_count item ((low + high) div 2)"
      "split_search meas lims c item rem m ((low + high) div 2 + 1) high (it + 1) best = Inr (best', m')"
  | (fits) m1 where "low \<le> high" "it < max_split_iterations lims"
      "candidate_count item ((low + high) div 2) \<le> rem"
      "all_fit meas c m (iter_segments_for item ((low + high) div 2)
         (candidate_count item ((low + high) div 2))) = Inr (True, m1)"
      "split_search meas lims c item rem m1 ((low + high) div 2 + 1) high (it + 1)
         (Some ((low + high) div 2, candidate_count item ((low + high) div 2))) = Inr (best', m')"
  | (over) m1 where "low \<le> high" "it < max_split_iterations lims"
      "candidate_count item ((low + high) div 2) \<le> rem"
      "all_fit meas c m (iter_segments_for item ((low + high) div 2)
         (candidate_count item ((low + high) div 2))) = Inr (False, m1)"
      "split_search meas lims c item rem m1 low ((low + high) div 2 - 1) (it + 1) best = Inr (best', m')"
  using assms
  by (subst (asm) split_search.simps) (auto simp: Let_def split: if_splits sum.splits)

section \<open>The measurer's contract and its clients\<close>

text \<open>
  The planner and the segment search only rely on this of the measurer: a call that
  returns yields the exact positive size of the parts and leaves a good measurer.
\<close>

locale size_oracle =
  fixes meas :: "'m measure_fun"
    and ok :: "'m \<Rightarrow> bool"
    and size_of :: "packed_part list \<Rightarrow> int"
  assumes meas_ok: "ok m \<Longrightarrow> meas m ps = Inr (v, m') \<Longrightarrow> ok m' \<and> v = size_of ps \<and> 0 < v"
begin

lemma all_fit_exact:
  "ok m \<Longrightarrow> all_fit meas c m ps = Inr (b, m') \<Longrightarrow> ok m' \<and> (b \<longleftrightarrow> (\<forall>p \<in> set ps. size_of [p] \<le> c))"
proof (induction ps arbitrary: m)
  case (Cons p ps)
  from Cons.prems(2) obtain v m1 where m1: "meas m [p] = Inr (v, m1)"
    and rest: "(if v \<le> c then all_fit meas c m1 ps else Inr (False, m1)) = Inr (b, m')"
    by (auto simp: result_simps)
  from meas_ok [OF Cons.prems(1) m1] have "ok m1" "v = size_of [p]" by auto
  with rest Cons.IH show ?case by (auto split: if_splits)
qed simp

lemma split_search_feasible:
  assumes "ok m" and "1 \<le> low" and "high < pi_size item"
    and "split_search meas lims c item rem m low high it best = Inr (best', m')"
    and "\<And>seg cnt. best = Some (seg, cnt) \<Longrightarrow>
           cnt = candidate_count item seg \<and> feasible_segment size_of c item rem seg"
  shows "ok m' \<and> (\<forall>seg cnt. best' = Some (seg, cnt) \<longrightarrow>
           cnt = candidate_count item seg \<and> feasible_segment size_of c item rem seg)"
  using assms
proof (induction "nat (high - low + 1)" arbitrary: m low high it best rule: less_induct)
  case less
  from less.prems(4) show ?case
  proof (cases rule: split_search_cases)
    case stop
    with less.prems show ?thesis by auto
  next
    case few
    show ?thesis
      by (rule less.hyps [OF _ less.prems(1) _ less.prems(3) few(4) less.prems(5)])
        (use few less.prems in auto)
  next
    case (fits m1)
    from all_fit_exact [OF less.prems(1) fits(4)] have m1: "ok m1" and
      all: "\<forall>p \<in> set (iter_segments_for item ((low + high) div 2)
         (candidate_count item ((low + high) div 2))). size_of [p] \<le> c" by auto
    have feas: "feasible_segment size_of c item rem ((low + high) div 2)"
      using fits(1,3) all less.prems(2,3) by (auto simp: feasible_segment_def)
    show ?thesis
      by (rule less.hyps [OF _ m1 _ less.prems(3) fits(5)])
        (use fits(1) feas less.prems(2) in auto)
  next
    case (over m1)
    from all_fit_exact [OF less.prems(1) over(4)] have m1: "ok m1" by auto
    show ?thesis
      by (rule less.hyps [OF _ m1 less.prems(2) _ over(5) less.prems(5)])
        (use over(1) less.prems(3) in auto)
  qed
qed

lemma split_oversized_feasible:
  assumes "ok m" and "split_oversized_item meas lims c rem m item = Inr ((seg, ps), m')"
  shows "ok m' \<and> feasible_segment size_of c item rem seg
     \<and> ps = iter_segments_for item seg (candidate_count item seg)"
proof -
  from assms(2) obtain cnt where
    s: "split_search meas lims c item rem m 1 (pi_size item - 1) 0 None = Inr (Some (seg, cnt), m')"
    and ps: "ps = iter_segments_for item seg cnt"
    by (auto simp: split_oversized_item_def result_simps split: option.splits)
  from split_search_feasible [OF assms(1) _ _ s] ps show ?thesis by auto
qed

text \<open>
  The search is optimal when fitting is monotone: whenever segments of one size fit,
  so do those of every smaller size that the part budget admits.
\<close>

lemma split_search_optimal:
  assumes "ok m" and "1 \<le> low" and "high < pi_size item"
    and "split_search meas lims c item rem m low high it best = Inr (best', m')"
    and "nat (high - low + 1) < 2 ^ nat (max_split_iterations lims - it)"
    and mono: "\<And>a b. feasible_segment size_of c item rem b \<Longrightarrow> 1 \<le> a \<Longrightarrow> a \<le> b
           \<Longrightarrow> candidate_count item a \<le> rem \<Longrightarrow> feasible_segment size_of c item rem a"
    and "\<And>seg. feasible_segment size_of c item rem seg \<Longrightarrow> seg \<le> high"
    and "\<And>seg. feasible_segment size_of c item rem seg \<Longrightarrow> seg < low \<Longrightarrow>
           \<exists>b cnt. best = Some (b, cnt) \<and> seg \<le> b"
    and "\<And>b cnt. best = Some (b, cnt) \<Longrightarrow> b < low"
  shows "feasible_segment size_of c item rem seg \<Longrightarrow> \<exists>b cnt. best' = Some (b, cnt) \<and> seg \<le> b"
  using assms(1-5,7-9)
proof (induction "nat (high - low + 1)" arbitrary: m low high it best rule: less_induct)
  case less
  let ?mid = "(low + high) div 2"
  have halve: "nat (high' - low' + 1) < 2 ^ nat (max_split_iterations lims - (it + 1))"
    if "low \<le> high" "it < max_split_iterations lims" "nat (high' - low' + 1) \<le> nat (high - low + 1) div 2"
    for low' high'
  proof -
    have e: "nat (max_split_iterations lims - it) = Suc (nat (max_split_iterations lims - (it + 1)))"
      using that by simp
    from less.prems(6) have "nat (high - low + 1) < 2 * 2 ^ nat (max_split_iterations lims - (it + 1))"
      unfolding e by simp
    with that(3) show ?thesis by (rule half_less)
  qed
  from less.prems(5) show ?case
  proof (cases rule: split_search_cases)
    case stop
    show ?thesis
    proof (cases "low \<le> high")
      case True
      with stop less.prems(6) show ?thesis by simp
    next
      case False
      with less.prems(1,7) have "seg < low" by fastforce
      from less.prems(8) [OF less.prems(1) this] stop show ?thesis by auto
    qed
  next
    case few
    have out: "?mid < s" if "feasible_segment size_of c item rem s" for s
    proof (rule ccontr)
      assume "\<not> ?mid < s"
      with that have "candidate_count item ?mid \<le> candidate_count item s"
        by (intro candidate_count_antimono) (auto simp: feasible_segment_def)
      with few(3) that show False by (simp add: feasible_segment_def)
    qed
    show ?thesis
    proof (rule less.hyps [OF _ less.prems(1,2) _ less.prems(4) few(4)])
      show "nat (high - (?mid + 1) + 1) < 2 ^ nat (max_split_iterations lims - (it + 1))"
        by (rule halve) (use few in auto)
    qed (use few less.prems out in force)+
  next
    case (fits m1)
    from all_fit_exact [OF less.prems(2) fits(4)] have m1: "ok m1" by auto
    show ?thesis
    proof (rule less.hyps [OF _ less.prems(1) m1 _ less.prems(4) fits(5)])
      show "nat (high - (?mid + 1) + 1) < 2 ^ nat (max_split_iterations lims - (it + 1))"
        by (rule halve) (use fits in auto)
    qed (use fits less.prems(3,7) in force)+
  next
    case (over m1)
    from all_fit_exact [OF less.prems(2) over(4)] have m1: "ok m1" and
      bad: "\<not> feasible_segment size_of c item rem ?mid"
      by (auto simp: feasible_segment_def)
    have out: "s < ?mid" if "feasible_segment size_of c item rem s" for s
      using mono [OF that, of ?mid] bad over(1,3) less.prems(3) by force
    show ?thesis
    proof (rule less.hyps [OF _ less.prems(1) m1 less.prems(3) _ over(5)])
      show "nat (?mid - 1 - low + 1) < 2 ^ nat (max_split_iterations lims - (it + 1))"
        by (rule halve) (use over in auto)
    qed (use over less.prems(4,8,9) out in force)+
  qed
qed

end

section \<open>The planner keeps its invariant\<close>

definition all_parts :: "'m plan_state \<Rightarrow> packed_part list" where
  "all_parts st = concat (map v_parts (ps_completed st)) @ ps_current st"

definition volume_parts :: "'m plan_state \<Rightarrow> packed_part list list" where
  "volume_parts st = map v_parts (ps_completed st) @ (if ps_current st = [] then [] else [ps_current st])"

definition volume_ok :: "(packed_part list \<Rightarrow> int) \<Rightarrow> int \<Rightarrow> packing_volume \<Rightarrow> bool" where
  "volume_ok size_of ceil v \<longleftrightarrow> v_parts v \<noteq> [] \<and> v_serialized v = size_of (v_parts v)
     \<and> 0 < v_serialized v \<and> v_serialized v \<le> ceil"

definition plan_inv ::
  "('m \<Rightarrow> bool) \<Rightarrow> (packed_part list \<Rightarrow> int) \<Rightarrow> packing_limits \<Rightarrow> int \<Rightarrow> packing_item list
     \<Rightarrow> 'm plan_state \<Rightarrow> bool" where
  "plan_inv ok size_of lims ceil items st \<longleftrightarrow>
     ok (ps_meas st)
     \<and> (\<forall>v \<in> set (ps_completed st). volume_ok size_of ceil v)
     \<and> map v_index (ps_completed st) = [0..<length (ps_completed st)]
     \<and> (ps_current st \<noteq> [] \<longrightarrow> ps_current_size st = size_of (ps_current st)
          \<and> 0 < ps_current_size st \<and> ps_current_size st \<le> ceil)
     \<and> ps_part_count st = int (length (all_parts st))
     \<and> ps_part_count st \<le> max_parts lims
     \<and> int (length (ps_completed st)) \<le> max_volumes lims
     \<and> greedy size_of ceil items (volume_parts st)"

lemma close_current_inv:
  assumes "plan_inv ok size_of lims ceil items st" and "close_current lims st = Inr st'"
  shows "plan_inv ok size_of lims ceil items st' \<and> ps_current st' = [] \<and> all_parts st' = all_parts st
     \<and> ps_meas st' = ps_meas st
     \<and> map v_parts (ps_completed st') = volume_parts st"
  using assms
  by (auto simp: close_current_def result_simps plan_inv_def volume_ok_def all_parts_def
      volume_parts_def split: if_splits)

lemma plan_inv_meas:
  "plan_inv ok size_of lims ceil items st \<Longrightarrow> ok m \<Longrightarrow>
     plan_inv ok size_of lims ceil items (st\<lparr>ps_meas := m\<rparr>)"
  by (auto simp: plan_inv_def all_parts_def volume_parts_def)

lemma add_part_all_parts [simp]: "all_parts (add_part p sz st) = all_parts st @ [p]"
  by (simp add: add_part_def all_parts_def)

lemma add_part_current_inv:
  assumes inv: "plan_inv ok size_of lims ceil items st" and ne: "ps_current st \<noteq> []"
    and sz: "sz = size_of (ps_current st @ [p])" "0 < sz" "sz \<le> ceil"
    and room: "ps_part_count st < max_parts lims"
  shows "plan_inv ok size_of lims ceil items (add_part p sz st)"
proof -
  from inv have "greedy size_of ceil items (map v_parts (ps_completed st) @ [ps_current st])"
    by (simp add: plan_inv_def volume_parts_def ne)
  then have "greedy size_of ceil items (map v_parts (ps_completed st) @ [ps_current st @ [p]])"
    by (rule greedy_snoc_grow [OF ne])
  with inv sz room show ?thesis
    by (simp add: plan_inv_def add_part_def all_parts_def volume_parts_def)
qed

lemma add_part_fresh_inv:
  assumes inv: "plan_inv ok size_of lims ceil items st" and e: "ps_current st = []"
    and sz: "sz = size_of [p]" "0 < sz" "sz \<le> ceil"
    and room: "ps_part_count st < max_parts lims"
    and bl: "ps_completed st \<noteq> [] \<Longrightarrow> blocked size_of ceil items (v_parts (last (ps_completed st))) p"
  shows "plan_inv ok size_of lims ceil items (add_part p sz st)"
proof -
  from inv have g: "greedy size_of ceil items (map v_parts (ps_completed st))"
    by (simp add: plan_inv_def volume_parts_def e)
  have "greedy size_of ceil items (map v_parts (ps_completed st) @ [[p]])"
  proof (cases "ps_completed st" rule: rev_cases)
    case (snoc vs v)
    with g bl show ?thesis by (simp add: greedy_snoc2)
  qed simp
  with inv sz room e show ?thesis
    by (simp add: plan_inv_def add_part_def all_parts_def volume_parts_def)
qed

context size_oracle
begin

lemma append_measured_inv:
  assumes inv: "plan_inv ok size_of lims ceil items st"
    and run: "append_measured meas lims ceil st p = Inr st'"
    and bl: "ps_current st = [] \<Longrightarrow> ps_completed st \<noteq> [] \<Longrightarrow>
       blocked size_of ceil items (v_parts (last (ps_completed st))) p"
  shows "plan_inv ok size_of lims ceil items st' \<and> all_parts st' = all_parts st @ [p] \<and> ps_current st' \<noteq> []"
proof -
  have okm: "ok (ps_meas st)" using inv by (simp add: plan_inv_def)
  have room: "ps_part_count st < max_parts lims"
    using run by (auto simp: append_measured_def parts_room_def result_simps)
  show ?thesis
  proof (cases "ps_current st = []")
    case True
    with run obtain v m where m: "meas (ps_meas st) [p] = Inr (v, m)" and le: "v \<le> ceil"
      and st': "st' = add_part p v (st\<lparr>ps_current := [], ps_meas := m\<rparr>)"
      by (auto simp: append_measured_def result_simps)
    from st' True have st'': "st' = add_part p v (st\<lparr>ps_meas := m\<rparr>)"
      by (simp add: add_part_def)
    from meas_ok [OF okm m] le inv bl True room show ?thesis unfolding st''
      by (intro conjI add_part_fresh_inv plan_inv_meas)
        (auto simp: all_parts_def add_part_def)
  next
    case False
    with run obtain v m where m: "meas (ps_meas st) (ps_current st @ [p]) = Inr (v, m)"
      and rest: "(if v \<le> ceil then Inr (add_part p v (st\<lparr>ps_meas := m\<rparr>))
         else rbind (close_current lims (st\<lparr>ps_meas := m\<rparr>)) (\<lambda>st1. rbind (meas (ps_meas st1) [p]) (\<lambda>(v, m).
           rbind (require (v \<le> ceil) (PackingError ''planned part does not fit in a fresh volume'')) (\<lambda>_.
           Inr (add_part p v (st1\<lparr>ps_current := [], ps_meas := m\<rparr>)))))) = Inr st'"
      by (auto simp: append_measured_def result_simps Let_def)
    from meas_ok [OF okm m] have mm: "ok m" "v = size_of (ps_current st @ [p])" "0 < v" by auto
    have inv1: "plan_inv ok size_of lims ceil items (st\<lparr>ps_meas := m\<rparr>)"
      by (rule plan_inv_meas [OF inv mm(1)])
    show ?thesis
    proof (cases "v \<le> ceil")
      case True
      with rest have st': "st' = add_part p v (st\<lparr>ps_meas := m\<rparr>)" by simp
      show ?thesis unfolding st'
        using add_part_current_inv [OF inv1, of v p] False mm True room
        by (simp add: all_parts_def add_part_def)
    next
      case over: False
      with rest obtain st1 w m2 where cl: "close_current lims (st\<lparr>ps_meas := m\<rparr>) = Inr st1"
        and m2: "meas (ps_meas st1) [p] = Inr (w, m2)" and le: "w \<le> ceil"
        and st': "st' = add_part p w (st1\<lparr>ps_current := [], ps_meas := m2\<rparr>)"
        by (auto simp: result_simps)
      from close_current_inv [OF inv1 cl]
      have c1: "plan_inv ok size_of lims ceil items st1" "ps_current st1 = []"
        "all_parts st1 = all_parts st" "map v_parts (ps_completed st1) = volume_parts st"
        by (auto simp: all_parts_def volume_parts_def)
      from c1(4) False have "map v_parts (ps_completed st1) = map v_parts (ps_completed st) @ [ps_current st]"
        by (simp add: volume_parts_def)
      then have ne: "ps_completed st1 \<noteq> []" and lastv: "v_parts (last (ps_completed st1)) = ps_current st"
        by (rule map_snoc_last)+
      from c1(1) have "ok (ps_meas st1)" by (simp add: plan_inv_def)
      from meas_ok [OF this m2] have w: "ok m2" "w = size_of [p]" "0 < w" by auto
      have room1: "ps_part_count st1 < max_parts lims"
        using c1(1,3) inv room by (simp add: plan_inv_def)
      have st'': "st' = add_part p w (st1\<lparr>ps_meas := m2\<rparr>)"
        using st' c1(2) by (simp add: add_part_def)
      have "plan_inv ok size_of lims ceil items st'" unfolding st''
        using c1(1,2) w le room1 over mm(2) lastv
        by (intro add_part_fresh_inv plan_inv_meas) (auto simp: blocked_def)
      then show ?thesis unfolding st'' using c1(3)
        by (simp add: all_parts_def add_part_def)
    qed
  qed
qed

lemma append_segments_inv:
  assumes "rfold (append_measured meas lims ceil) st ps = Inr st'"
    and "plan_inv ok size_of lims ceil items st"
    and "ps \<noteq> []"
    and "ps_current st = [] \<Longrightarrow> ps_completed st \<noteq> [] \<Longrightarrow>
       blocked size_of ceil items (v_parts (last (ps_completed st))) (hd ps)"
  shows "plan_inv ok size_of lims ceil items st' \<and> all_parts st' = all_parts st @ ps \<and> ps_current st' \<noteq> []"
  using assms
proof (induction ps arbitrary: st)
  case (Cons p ps)
  from Cons.prems(1) obtain st1 where st1: "append_measured meas lims ceil st p = Inr st1"
    and rest: "rfold (append_measured meas lims ceil) st1 ps = Inr st'"
    by (auto simp: result_simps)
  from append_measured_inv [OF Cons.prems(2) st1] Cons.prems(4)
  have i1: "plan_inv ok size_of lims ceil items st1" "all_parts st1 = all_parts st @ [p]" "ps_current st1 \<noteq> []"
    by auto
  show ?case
  proof (cases "ps = []")
    case True
    with rest i1 show ?thesis by simp
  next
    case False
    from Cons.IH [OF rest i1(1) False] i1 show ?thesis by simp
  qed
qed simp


lemma plan_fresh_inv:
  assumes inv: "plan_inv ok size_of lims ceil items st" and e: "ps_current st = []"
    and bl: "ps_completed st \<noteq> [] \<Longrightarrow> ceil < size_of (v_parts (last (ps_completed st)) @ [whole_part item])"
    and item: "item \<in> set items"
    and run: "plan_fresh meas lims ceil item st = Inr st'"
  shows "plan_inv ok size_of lims ceil items st' \<and> ps_current st' \<noteq> []
    \<and> (\<exists>ps. item_parts size_of ceil (max_parts lims) item ps \<and> all_parts st' = all_parts st @ ps)"
proof -
  have okm: "ok (ps_meas st)" using inv by (simp add: plan_inv_def)
  from run obtain v m where m: "meas (ps_meas st) [whole_part item] = Inr (v, m)"
    by (auto simp: plan_fresh_def result_simps)
  from meas_ok [OF okm m] have mm: "ok m" "v = size_of [whole_part item]" "0 < v" by auto
  have inv1: "plan_inv ok size_of lims ceil items (st\<lparr>ps_meas := m\<rparr>)"
    by (rule plan_inv_meas [OF inv mm(1)])
  show ?thesis
  proof (cases "v \<le> ceil")
    case True
    with run m e have room: "ps_part_count st < max_parts lims"
      and st': "st' = add_part (whole_part item) v (st\<lparr>ps_meas := m\<rparr>)"
      by (auto simp: plan_fresh_def result_simps parts_room_def add_part_def)
    have "plan_inv ok size_of lims ceil items st'" unfolding st'
      using inv1 e mm True room bl
      by (intro add_part_fresh_inv) (auto simp: blocked_def)
    moreover have "item_parts size_of ceil (max_parts lims) item [whole_part item]"
      by (simp add: item_parts_def)
    ultimately show ?thesis unfolding st'
      by (intro conjI exI [of _ "[whole_part item]"]) (auto simp: all_parts_def add_part_def)
  next
    case over: False
    with run m obtain seg segments m2 where
      sp: "split_oversized_item meas lims ceil (max_parts lims - ps_part_count st) m item
             = Inr ((seg, segments), m2)"
      and app: "rfold (append_measured meas lims ceil) (st\<lparr>ps_meas := m2\<rparr>) segments = Inr st'"
      by (auto simp: plan_fresh_def result_simps)
    from split_oversized_feasible [OF mm(1) sp]
    have m2: "ok m2" and feas: "feasible_segment size_of ceil item (max_parts lims - ps_part_count st) seg"
      and seg: "segments = iter_segments_for item seg (candidate_count item seg)" by auto
    have feas': "feasible_segment size_of ceil item (max_parts lims) seg"
      using feas inv by (auto simp: feasible_segment_def plan_inv_def)
    have pos: "0 < seg" "0 < pi_size item" using feas by (auto simp: feasible_segment_def)
    have ne: "segments \<noteq> []" unfolding seg using iter_segments_tiles [OF pos] by (simp add: tiles_def)
    have hds: "p_identity (hd segments) = pi_identity item" "p_offset (hd segments) = 0"
      using iter_segments_tiles [OF pos, of "candidate_count item seg"] ne pos hd_in_set [OF ne]
      unfolding seg by (auto simp: tiles_def iter_segments_for_def hd_segments_from)
    have inv2: "plan_inv ok size_of lims ceil items (st\<lparr>ps_meas := m2\<rparr>)"
      by (rule plan_inv_meas [OF inv m2])
    have "blocked size_of ceil items (v_parts (last (ps_completed st))) (hd segments)"
      if "ps_completed st \<noteq> []"
      using bl [OF that] item hds by (auto simp: blocked_def)
    from append_segments_inv [OF app inv2 ne] this
    have "plan_inv ok size_of lims ceil items st'" "all_parts st' = all_parts st @ segments" "ps_current st' \<noteq> []"
      by (auto simp: all_parts_def)
    moreover have "item_parts size_of ceil (max_parts lims) item segments"
      unfolding item_parts_def seg using over mm feas' by auto
    ultimately show ?thesis by auto
  qed
qed

lemma plan_item_inv:
  assumes inv: "plan_inv ok size_of lims ceil items st"
    and settled: "ps_current st = [] \<Longrightarrow> ps_completed st = []"
    and item: "item \<in> set items"
    and run: "plan_item meas lims ceil st item = Inr st'"
  shows "plan_inv ok size_of lims ceil items st' \<and> ps_current st' \<noteq> []
    \<and> (\<exists>ps. item_parts size_of ceil (max_parts lims) item ps \<and> all_parts st' = all_parts st @ ps)"
proof (cases "ps_current st = []")
  case True
  with run have "plan_fresh meas lims ceil item st = Inr st'" by (simp add: plan_item_def)
  from plan_fresh_inv [OF inv True _ item this] settled [OF True] show ?thesis by simp
next
  case False
  have okm: "ok (ps_meas st)" using inv by (simp add: plan_inv_def)
  from run False obtain v m where m: "meas (ps_meas st) (ps_current st @ [whole_part item]) = Inr (v, m)"
    by (auto simp: plan_item_def result_simps)
  from meas_ok [OF okm m] have mm: "ok m" "v = size_of (ps_current st @ [whole_part item])" "0 < v" by auto
  have inv1: "plan_inv ok size_of lims ceil items (st\<lparr>ps_meas := m\<rparr>)"
    by (rule plan_inv_meas [OF inv mm(1)])
  show ?thesis
  proof (cases "v \<le> ceil")
    case True
    with run False m have room: "ps_part_count st < max_parts lims"
      and st': "st' = add_part (whole_part item) v (st\<lparr>ps_meas := m\<rparr>)"
      by (auto simp: plan_item_def result_simps parts_room_def)
    from add_part_current_inv [OF inv1, of v "whole_part item"] False mm True room
    have "plan_inv ok size_of lims ceil items st'" unfolding st' by simp
    moreover have "item_parts size_of ceil (max_parts lims) item [whole_part item]"
      by (simp add: item_parts_def)
    ultimately show ?thesis unfolding st'
      by (intro conjI exI [of _ "[whole_part item]"]) (auto simp: all_parts_def add_part_def)
  next
    case over: False
    with run False m obtain st1 where cl: "close_current lims (st\<lparr>ps_meas := m\<rparr>) = Inr st1"
      and fr: "plan_fresh meas lims ceil item st1 = Inr st'"
      by (auto simp: plan_item_def result_simps)
    from close_current_inv [OF inv1 cl]
    have c1: "plan_inv ok size_of lims ceil items st1" "ps_current st1 = []"
      "all_parts st1 = all_parts st" "map v_parts (ps_completed st1) = volume_parts st"
      by (auto simp: all_parts_def volume_parts_def)
    from c1(4) False have "map v_parts (ps_completed st1) = map v_parts (ps_completed st) @ [ps_current st]"
      by (simp add: volume_parts_def)
    then have "v_parts (last (ps_completed st1)) = ps_current st"
      by (rule map_snoc_last)
    with over mm plan_fresh_inv [OF c1(1,2) _ item fr] c1(3) show ?thesis by simp
  qed
qed

lemma plan_items_inv:
  assumes run: "rfold (plan_item meas lims ceil) (plan_init m0) items = Inr st" and m0: "ok m0"
    and maxp: "0 \<le> max_parts lims" "0 \<le> max_volumes lims"
  shows "plan_inv ok size_of lims ceil items st
    \<and> (\<exists>pss. list_all2 (item_parts size_of ceil (max_parts lims)) items pss \<and> all_parts st = concat pss)"
proof -
  define P where "P = (\<lambda>st done. plan_inv ok size_of lims ceil items st
    \<and> (ps_current st = [] \<longrightarrow> ps_completed st = [])
    \<and> (\<exists>pss. list_all2 (item_parts size_of ceil (max_parts lims)) done pss \<and> all_parts st = concat pss))"
  have "P st items"
  proof (rule rfold_invariant [OF run])
    show "P (plan_init m0) []"
      using m0 maxp by (simp add: P_def plan_init_def plan_inv_def all_parts_def volume_parts_def)
  next
    fix s ys x s'
    assume P: "P s ys" and x: "x \<in> set items" and step: "plan_item meas lims ceil s x = Inr s'"
    from P obtain pss where pss: "list_all2 (item_parts size_of ceil (max_parts lims)) ys pss"
      "all_parts s = concat pss" by (auto simp: P_def)
    from plan_item_inv [OF _ _ x step] P
    obtain ps where "plan_inv ok size_of lims ceil items s'" "ps_current s' \<noteq> []"
      and ps: "item_parts size_of ceil (max_parts lims) x ps" "all_parts s' = all_parts s @ ps"
      by (auto simp: P_def)
    with pss show "P s' (ys @ [x])" unfolding P_def
      by (intro conjI exI [of _ "pss @ [ps]"]) (auto simp: list_all2_appendI)
  qed
  then show ?thesis by (auto simp: P_def)
qed

end

section \<open>The memoising measurer meets the contract\<close>

definition measured_ok :: "(packed_part list \<Rightarrow> int) \<Rightarrow> packing_limits \<Rightarrow> measured \<Rightarrow> bool" where
  "measured_ok cb lims m \<longleftrightarrow>
     distinct (map fst (m_cache m))
     \<and> (\<forall>(k, v) \<in> set (m_cache m). v = cb [k] \<and> 0 < v)
     \<and> length (m_cache m) \<le> 4096
     \<and> 0 \<le> m_calls m \<and> m_calls m \<le> max_measure_calls lims"

lemma move_to_end_set [simp]: "set (move_to_end k c) = set c"
  by (auto simp: move_to_end_def)

lemma move_to_end_length [simp]: "length (move_to_end k c) = length c"
  using sum_length_filter_compl [of "\<lambda>e. fst e = k" c] by (simp add: move_to_end_def add.commute)

lemma move_to_end_distinct: "distinct (map fst c) \<Longrightarrow> distinct (map fst (move_to_end k c))"
  by (auto simp: move_to_end_def distinct_map_fst_filter)

lemma cache_store_fields:
  assumes "map_of c k = None" and "distinct (map fst c)" and "length c \<le> 4096"
  shows "distinct (map fst (cache_store k v c))" and "length (cache_store k v c) \<le> 4096"
    and "set (cache_store k v c) \<subseteq> insert (k, v) (set c)"
proof -
  let ?c = "c @ [(k, v)]"
  have d: "distinct (map fst ?c)" using assms by (auto simp: map_of_eq_None_iff)
  have t1: "distinct (map fst (tl ?c))" using distinct_tl [OF d] by (simp add: map_tl)
  have t2: "set (tl ?c) \<subseteq> set ?c" by (rule set_tl_subset)
  show "distinct (map fst (cache_store k v c))"
    using d t1 by (simp only: cache_store_def Let_def split: if_splits) simp
  show "set (cache_store k v c) \<subseteq> insert (k, v) (set c)"
    using t2 by (simp add: cache_store_def Let_def del: tl_append2)
  show "length (cache_store k v c) \<le> 4096"
    using assms(3) by (simp add: cache_store_def Let_def)
qed

lemma measured_call_ok:
  assumes ok: "measured_ok cb lims m" and run: "measured_call cb lims m ps = Inr (v, m')"
  shows "measured_ok cb lims m' \<and> v = cb ps \<and> 0 < v"
proof -
  define key where "key = (case ps of [p] \<Rightarrow> Some p | _ \<Rightarrow> None)"
  have key: "ps = [k]" if "key = Some k" for k
    using that by (auto simp: key_def split: list.splits)
  show ?thesis
  proof (cases "Option.bind key (map_of (m_cache m))")
    case (Some w)
    then obtain k where k: "key = Some k" "map_of (m_cache m) k = Some w"
      by (cases key) auto
    with run Some have "v = w" and m': "m' = m\<lparr>m_cache := move_to_end k (m_cache m)\<rparr>"
      by (auto simp: measured_call_def Let_def key_def)
    moreover from k(2) have "(k, w) \<in> set (m_cache m)" by (rule map_of_SomeD)
    ultimately show ?thesis using ok key [OF k(1)] unfolding m'
      by (auto simp: measured_ok_def move_to_end_distinct)
  next
    case None
    with run have calls: "m_calls m < max_measure_calls lims" and v: "v = cb ps" "0 < cb ps"
      and m': "m' = (case key of None \<Rightarrow> m\<lparr>m_calls := m_calls m + 1\<rparr>
          | Some k \<Rightarrow> m\<lparr>m_calls := m_calls m + 1, m_cache := cache_store k v (m_cache m)\<rparr>)"
      by (auto simp: measured_call_def Let_def key_def [symmetric] result_simps split: option.splits)
    show ?thesis
    proof (cases key)
      case (Some k)
      with None have "map_of (m_cache m) k = None" by simp
      from cache_store_fields [OF this, of v] ok calls v key [OF Some] show ?thesis
        unfolding m' Some by (auto simp: measured_ok_def)
    qed (use ok calls v m' in \<open>auto simp: measured_ok_def\<close>)
  qed
qed

interpretation packer: size_oracle "measured_call cb lims" "measured_ok cb lims" cb
  for cb :: "packed_part list \<Rightarrow> int" and lims :: packing_limits
  by unfold_locales (rule measured_call_ok)

lemma measured_init_ok: "0 \<le> max_measure_calls lims \<Longrightarrow> measured_ok cb lims measured_init"
  by (simp add: measured_ok_def measured_init_def)

section \<open>Properties of the planner\<close>

lemma admit_items_iff:
  "is_ok (rfold (admit_item lims) (seen, tot) items) \<longleftrightarrow>
     distinct (map pi_identity items) \<and> (\<forall>i \<in> set items. pi_identity i \<noteq> '''' \<and> pi_identity i \<notin> set seen
       \<and> 0 \<le> pi_size i)
     \<and> (items \<noteq> [] \<longrightarrow> tot + sum_list (map pi_size items) \<le> max_total_plaintext_bytes lims)"
proof (induction items arbitrary: seen tot)
  case (Cons x xs)
  have nn: "0 \<le> sum_list (map pi_size xs)" if "\<forall>i \<in> set xs. 0 \<le> pi_size i"
    using that by (intro sum_list_nonneg_int) auto
  have "is_ok (rfold (admit_item lims) (seen, tot) (x # xs)) \<longleftrightarrow>
     pi_identity x \<noteq> '''' \<and> pi_identity x \<notin> set seen \<and> 0 \<le> pi_size x
     \<and> tot + pi_size x \<le> max_total_plaintext_bytes lims
     \<and> is_ok (rfold (admit_item lims) (pi_identity x # seen, tot + pi_size x) xs)"
    by (auto simp: admit_item_def result_simps)
  with nn show ?case unfolding Cons.IH by (cases xs) (auto simp: image_iff add.assoc)
qed simp

lemma plan_volumes_run:
  assumes "plan_volumes cb lims items = Inr plan"
  obtains st st' where
    "is_ok (rfold (admit_item lims) ([], 0) items)"
    "rfold (plan_item (measured_call cb lims) lims (effective_ceiling lims)) (plan_init measured_init) items = Inr st"
    "close_current lims st = Inr st'"
    "pl_volumes plan = ps_completed st'" "pl_ceiling plan = effective_ceiling lims"
    "pl_measure_calls plan = m_calls (ps_meas st')"
  using assms by (auto simp: plan_volumes_def result_simps Let_def is_ok_iff)

lemma limits_post_initD:
  "limits_post_init lims = Inr u \<Longrightarrow> 0 < target_bytes lims \<and> 0 < max_parts lims \<and> 0 < max_volumes lims
     \<and> 0 < max_measure_calls lims \<and> 0 < max_split_iterations lims
     \<and> 0 \<le> d_coeff (tolerance lims) \<and> d_coeff (tolerance lims) \<le> 10 ^ d_scale (tolerance lims)"
  by (auto simp: limits_post_init_def positive_limit_def result_simps)

lemma plan_volumes_state:
  assumes lims: "limits_post_init lims = Inr ()"
    and plan: "plan_volumes cb lims items = Inr plan"
  obtains st where "plan_inv (measured_ok cb lims) cb lims (effective_ceiling lims) items st"
    "ps_current st = []" "pl_volumes plan = ps_completed st" "pl_ceiling plan = effective_ceiling lims"
    "pl_measure_calls plan = m_calls (ps_meas st)" "\<forall>i \<in> set items. 0 \<le> pi_size i"
    "\<exists>pss. list_all2 (item_parts cb (effective_ceiling lims) (max_parts lims)) items pss
       \<and> concat (map v_parts (pl_volumes plan)) = concat pss"
proof -
  from plan show ?thesis
  proof (rule plan_volumes_run)
    fix st st'
    assume adm: "is_ok (rfold (admit_item lims) ([], 0) items)"
      and run: "rfold (plan_item (measured_call cb lims) lims (effective_ceiling lims))
        (plan_init measured_init) items = Inr st"
      and cl: "close_current lims st = Inr st'"
      and pl: "pl_volumes plan = ps_completed st'" "pl_ceiling plan = effective_ceiling lims"
      "pl_measure_calls plan = m_calls (ps_meas st')"
    from packer.plan_items_inv [OF run measured_init_ok] limits_post_initD [OF lims]
    have inv: "plan_inv (measured_ok cb lims) cb lims (effective_ceiling lims) items st"
      and pss: "\<exists>pss. list_all2 (item_parts cb (effective_ceiling lims) (max_parts lims)) items pss
        \<and> all_parts st = concat pss" by auto
    from close_current_inv [OF inv cl]
    have st': "plan_inv (measured_ok cb lims) cb lims (effective_ceiling lims) items st'"
      "ps_current st' = []" "all_parts st' = all_parts st" by auto
    then have "concat (map v_parts (pl_volumes plan)) = all_parts st"
      by (simp add: pl(1) all_parts_def)
    with pss pl st' adm show ?thesis by (intro that [of st']) (auto simp: admit_items_iff)
  qed
qed

text \<open>C1. A plan loses and duplicates nothing: read in order, the parts of its volumes are, file by
  file in the order given, contiguous ranges that cover each file from its first byte to its last.
  A file is cut only if, whole, it does not fit a fresh volume.\<close>

theorem plan_volumes_lossless:
  assumes "limits_post_init lims = Inr ()" and "plan_volumes cb lims items = Inr plan"
  shows "\<exists>pss. list_all2 (\<lambda>item ps. tiles item ps
             \<and> (ps = [whole_part item] \<or> pl_ceiling plan < cb [whole_part item])) items pss
           \<and> concat (map v_parts (pl_volumes plan)) = concat pss"
proof -
  from assms obtain pss where "\<forall>i \<in> set items. 0 \<le> pi_size i"
    and c: "pl_ceiling plan = effective_ceiling lims"
    and l: "list_all2 (item_parts cb (effective_ceiling lims) (max_parts lims)) items pss"
    and e: "concat (map v_parts (pl_volumes plan)) = concat pss"
    by (blast elim: plan_volumes_state)
  then have "list_all2 (\<lambda>item ps. tiles item ps
      \<and> (ps = [whole_part item] \<or> pl_ceiling plan < cb [whole_part item])) items pss"
    by (auto intro!: list.rel_mono_strong [OF l] item_parts_tiles simp: item_parts_def)
  with e show ?thesis by blast
qed


text \<open>C3. Packing is greedy: a volume is closed only because its successor's first part, or the whole
  file that part begins, would have pushed it over the ceiling.\<close>

theorem plan_volumes_greedy:
  assumes "limits_post_init lims = Inr ()" and "plan_volumes cb lims items = Inr plan"
  shows "greedy cb (pl_ceiling plan) items (map v_parts (pl_volumes plan))"
proof -
  from assms obtain st where inv: "plan_inv (measured_ok cb lims) cb lims (effective_ceiling lims) items st"
    and "ps_current st = []" "pl_volumes plan = ps_completed st" "pl_ceiling plan = effective_ceiling lims"
    by (rule plan_volumes_state)
  then show ?thesis by (simp add: plan_inv_def volume_parts_def)
qed

text \<open>The binary search finds the largest usable segment: if smaller segments of a file fit
  whenever larger ones do, and the iteration budget covers the file's size in powers of two, the
  segment size the search settles on is at least every feasible one.\<close>

theorem split_oversized_item_largest:
  assumes "measured_ok cb lims m"
    and "split_oversized_item (measured_call cb lims) lims ceil remaining m item = Inr ((seg, segments), m')"
    and "pi_size item \<le> 2 ^ nat (max_split_iterations lims)"
    and "\<And>a b. feasible_segment cb ceil item remaining b \<Longrightarrow> 1 \<le> a \<Longrightarrow> a \<le> b
           \<Longrightarrow> candidate_count item a \<le> remaining \<Longrightarrow> feasible_segment cb ceil item remaining a"
  shows "feasible_segment cb ceil item remaining seg
     \<and> (\<forall>s. feasible_segment cb ceil item remaining s \<longrightarrow> s \<le> seg)"
proof -
  from assms(2) obtain cnt where two: "2 \<le> pi_size item" and
    s: "split_search (measured_call cb lims) lims ceil item remaining m 1 (pi_size item - 1) 0 None
          = Inr (Some (seg, cnt), m')"
    by (auto simp: split_oversized_item_def result_simps split: option.splits)
  have "nat (pi_size item - 1 - 1 + 1) < nat (2 ^ nat (max_split_iterations lims - 0))"
    using assms(3) two by (simp add: nat_less_eq_zless)
  then have bud: "nat (pi_size item - 1 - 1 + 1) < 2 ^ nat (max_split_iterations lims - 0)"
    by (simp add: nat_power_eq)
  have "s \<le> seg" if "feasible_segment cb ceil item remaining s" for s
  proof -
    have "\<exists>b cnt'. Some (seg, cnt) = Some (b, cnt') \<and> s \<le> b"
      by (rule packer.split_search_optimal [OF assms(1) _ _ s bud assms(4) _ _ _ that])
        (auto simp: feasible_segment_def)
    then show ?thesis by simp
  qed
  then show ?thesis
    using packer.split_oversized_feasible [OF assms(1,2)] by auto
qed

section \<open>Progress\<close>

lemma measured_call_progress:
  assumes ok: "measured_ok cb lims m" and calls: "m_calls m < max_measure_calls lims" and pos: "0 < cb ps"
  obtains m' where "measured_call cb lims m ps = Inr (cb ps, m')" "measured_ok cb lims m'"
    "m_calls m' \<le> m_calls m + 1"
proof -
  have "\<exists>v m'. measured_call cb lims m ps = Inr (v, m') \<and> m_calls m' \<le> m_calls m + 1"
    using calls pos by (auto simp: measured_call_def Let_def require_def split: option.splits)
  then obtain v m' where r: "measured_call cb lims m ps = Inr (v, m')" "m_calls m' \<le> m_calls m + 1" by auto
  with measured_call_ok [OF ok r(1)] that show ?thesis by auto
qed

text \<open>After \<open>k\<close> files that all fit whole: the resources used so far.\<close>

definition spent :: "(packed_part list \<Rightarrow> int) \<Rightarrow> packing_limits \<Rightarrow> nat \<Rightarrow> measured plan_state \<Rightarrow> bool" where
  "spent cb lims k st \<longleftrightarrow> measured_ok cb lims (ps_meas st) \<and> m_calls (ps_meas st) \<le> 2 * int k
     \<and> ps_part_count st = int k
     \<and> length (ps_completed st) + (if ps_current st = [] then 0 else 1) \<le> k"

lemma plan_fresh_spent:
  assumes ok: "measured_ok cb lims (ps_meas st)" and calls: "m_calls (ps_meas st) \<le> 2 * int k + 1"
    and st: "ps_part_count st = int k" "length (ps_completed st) \<le> k"
    and room: "int k < max_parts lims" "2 * int k + 2 \<le> max_measure_calls lims"
    and fits: "cb [whole_part item] \<le> ceil" and pos: "\<And>ps. 0 < cb ps"
  shows "\<exists>st'. plan_fresh (measured_call cb lims) lims ceil item st = Inr st' \<and> spent cb lims (Suc k) st'"
proof -
  from calls room have "m_calls (ps_meas st) < max_measure_calls lims" by simp
  from measured_call_progress [OF ok this pos] obtain m where
    m: "measured_call cb lims (ps_meas st) [whole_part item] = Inr (cb [whole_part item], m)"
    "measured_ok cb lims m" "m_calls m \<le> m_calls (ps_meas st) + 1" by blast
  then show ?thesis using st room fits calls
    by (intro exI [of _ "add_part (whole_part item) (cb [whole_part item]) (st\<lparr>ps_meas := m, ps_current := []\<rparr>)"])
      (auto simp: plan_fresh_def parts_room_def spent_def add_part_def)
qed

lemma plan_item_spent:
  assumes sp: "spent cb lims k st"
    and room: "int k < max_parts lims" "int k < max_volumes lims" "2 * int k + 2 \<le> max_measure_calls lims"
    and fits: "cb [whole_part item] \<le> ceil" and pos: "\<And>ps. 0 < cb ps"
  shows "\<exists>st'. plan_item (measured_call cb lims) lims ceil st item = Inr st' \<and> spent cb lims (Suc k) st'"
proof (cases "ps_current st = []")
  case True
  have ok: "measured_ok cb lims (ps_meas st)" and c: "m_calls (ps_meas st) \<le> 2 * int k + 1"
    and s: "ps_part_count st = int k" "length (ps_completed st) \<le> k"
    using sp by (auto simp: spent_def)
  from plan_fresh_spent [OF ok c s room(1,3) fits pos] True show ?thesis
    by (simp add: plan_item_def)
next
  case False
  have ok: "measured_ok cb lims (ps_meas st)" and c: "m_calls (ps_meas st) \<le> 2 * int k"
    and s: "ps_part_count st = int k" "Suc (length (ps_completed st)) \<le> k"
    using sp False by (auto simp: spent_def)
  from c room have "m_calls (ps_meas st) < max_measure_calls lims" by simp
  from measured_call_progress [OF ok this pos] obtain m where
    m: "measured_call cb lims (ps_meas st) (ps_current st @ [whole_part item])
         = Inr (cb (ps_current st @ [whole_part item]), m)"
    "measured_ok cb lims m" "m_calls m \<le> m_calls (ps_meas st) + 1" by blast
  show ?thesis
  proof (cases "cb (ps_current st @ [whole_part item]) \<le> ceil")
    case True
    with m s room c False show ?thesis
      by (intro exI [of _ "add_part (whole_part item) (cb (ps_current st @ [whole_part item])) (st\<lparr>ps_meas := m\<rparr>)"])
        (auto simp: plan_item_def parts_room_def spent_def add_part_def)
  next
    case over: False
    let ?v = "\<lparr>v_index = length (ps_completed st), v_parts = ps_current st, v_serialized = ps_current_size st\<rparr>"
    let ?st = "st\<lparr>ps_meas := m, ps_completed := ps_completed st @ [?v], ps_current := [], ps_current_size := 0\<rparr>"
    have "close_current lims (st\<lparr>ps_meas := m\<rparr>) = Inr ?st"
      using False s room by (auto simp: close_current_def)
    with over m False have e: "plan_item (measured_call cb lims) lims ceil st item
        = plan_fresh (measured_call cb lims) lims ceil item ?st"
      by (simp add: plan_item_def)
    from m c have c': "m_calls (ps_meas ?st) \<le> 2 * int k + 1" by simp
    have "measured_ok cb lims (ps_meas ?st)" "ps_part_count ?st = int k" "length (ps_completed ?st) \<le> k"
      using m s by auto
    from plan_fresh_spent [OF this(1) c' this(2,3) room(1,3) fits pos] show ?thesis
      unfolding e .
  qed
qed

lemma plan_items_spent:
  assumes "spent cb lims k st"
    and "int (k + length items) \<le> max_parts lims" "int (k + length items) \<le> max_volumes lims"
      "2 * int (k + length items) \<le> max_measure_calls lims"
    and "\<And>i. i \<in> set items \<Longrightarrow> cb [whole_part i] \<le> ceil" and "\<And>ps. 0 < cb ps"
  shows "\<exists>st'. rfold (plan_item (measured_call cb lims) lims ceil) st items = Inr st'
     \<and> spent cb lims (k + length items) st'"
  using assms
proof (induction items arbitrary: k st)
  case (Cons i items)
  have "cb [whole_part i] \<le> ceil" using Cons.prems(5) by simp
  then obtain st1 where st1: "plan_item (measured_call cb lims) lims ceil st i = Inr st1" "spent cb lims (Suc k) st1"
    using plan_item_spent [OF Cons.prems(1) _ _ _ _ Cons.prems(6), of i ceil] Cons.prems(2-4) by auto
  have "\<exists>st'. rfold (plan_item (measured_call cb lims) lims ceil) st1 items = Inr st'
     \<and> spent cb lims (Suc k + length items) st'"
    by (rule Cons.IH [OF st1(2)]) (use Cons.prems in auto)
  with st1(1) show ?case by simp
qed auto

text \<open>C4. The planner succeeds on every well-formed request whose files each fit a fresh volume, given
  room for one part and one volume a file and two measurements a file.\<close>

theorem plan_volumes_succeeds:
  assumes "limits_post_init lims = Inr ()"
    and "distinct (map pi_identity items)" "\<forall>i \<in> set items. pi_identity i \<noteq> '''' \<and> 0 \<le> pi_size i"
    and "sum_list (map pi_size items) \<le> max_total_plaintext_bytes lims"
    and "int (length items) \<le> max_entries lims" "int (length items) \<le> max_parts lims"
      "int (length items) \<le> max_volumes lims" "2 * int (length items) \<le> max_measure_calls lims"
    and "\<forall>i \<in> set items. cb [whole_part i] \<le> effective_ceiling lims" and "\<forall>ps. 0 < cb ps"
  shows "\<exists>plan. plan_volumes cb lims items = Inr plan
    \<and> concat (map v_parts (pl_volumes plan)) = map whole_part items"
proof -
  have adm: "is_ok (rfold (admit_item lims) ([], 0) items)"
    using assms(2-4) by (auto simp: admit_items_iff)
  have "spent cb lims 0 (plan_init measured_init)"
    using limits_post_initD [OF assms(1)] measured_init_ok [of lims cb]
    by (simp add: spent_def plan_init_def measured_init_def)
  from plan_items_spent [OF this, of items "effective_ceiling lims"] assms(6-10)
  obtain st where st: "rfold (plan_item (measured_call cb lims) lims (effective_ceiling lims))
      (plan_init measured_init) items = Inr st" "spent cb lims (length items) st" by auto
  have "is_ok (close_current lims st)"
    using st(2) assms(7) by (auto simp: close_current_def spent_def split: if_splits)
  with adm st assms(5) obtain plan where plan: "plan_volumes cb lims items = Inr plan"
    by (auto simp: plan_volumes_def is_ok_iff Let_def)
  from assms(1) plan obtain pss where
    l: "list_all2 (item_parts cb (effective_ceiling lims) (max_parts lims)) items pss"
    and e: "concat (map v_parts (pl_volumes plan)) = concat pss"
    by (blast elim: plan_volumes_state)
  have "list_all2 (\<lambda>i ps. ps = [whole_part i]) items pss"
    by (rule list.rel_mono_strong [OF l]) (use assms(9) in \<open>auto simp: item_parts_def\<close>)
  then have "concat pss = map whole_part items"
    by (induction rule: list_all2_induct) auto
  with plan e show ?thesis by auto
qed

section \<open>Witnesses\<close>

text \<open>A callback with ten bytes of overhead a volume, and small limits.\<close>

definition demo_size :: "packed_part list \<Rightarrow> int" where
  "demo_size ps = 10 + \<bar>sum_list (map p_length ps)\<bar>"

definition demo_limits :: packing_limits where
  "demo_limits = \<lparr>target_bytes = 100, tolerance = \<lparr>d_coeff = 1, d_scale = 1\<rparr>, hard_ceiling_bytes = None,
     max_entries = 10, max_parts = 20, max_volumes = 10, max_split_iterations = 16,
     max_measure_calls = 200, max_total_plaintext_bytes = 1000\<rparr>"

definition demo_items :: "packing_item list" where
  "demo_items = [\<lparr>pi_identity = ''a'', pi_size = 40\<rparr>, \<lparr>pi_identity = ''b'', pi_size = 50\<rparr>,
     \<lparr>pi_identity = ''c'', pi_size = 250\<rparr>, \<lparr>pi_identity = ''d'', pi_size = 0\<rparr>]"

definition demo_big :: packing_item where
  "demo_big = \<lparr>pi_identity = ''c'', pi_size = 250\<rparr>"

lemma demo_limits_ok: "limits_post_init demo_limits = Inr ()"
  by (simp add: limits_post_init_def demo_limits_def positive_limit_def)

lemma demo_plan_ok: "is_ok (plan_volumes demo_size demo_limits demo_items)"
  by code_simp

lemma demo_split_ok:
  "is_ok (split_oversized_item (measured_call demo_size demo_limits) demo_limits 110 20 measured_init demo_big)"
  by code_simp

lemma demo_feasible_mono:
  assumes "feasible_segment demo_size 110 demo_big 20 b" "1 \<le> a" "a \<le> b" "candidate_count demo_big a \<le> 20"
  shows "feasible_segment demo_size 110 demo_big 20 a"
proof -
  let ?ps = "iter_segments_for demo_big b (candidate_count demo_big b)"
  from assms(1) have b: "1 \<le> b" "b < 250" by (auto simp: feasible_segment_def demo_big_def)
  then have "?ps \<noteq> []" "p_length (hd ?ps) = b"
    by (auto simp: iter_segments_for_def segments_from_nonempty hd_segments_from_length demo_big_def)
  with assms(1) have "demo_size [hd ?ps] \<le> 110" by (auto simp: feasible_segment_def)
  with \<open>p_length (hd ?ps) = b\<close> b have "b \<le> 100" by (simp add: demo_size_def)
  moreover have "0 < p_length p \<and> p_length p \<le> a"
    if "p \<in> set (iter_segments_for demo_big a (candidate_count demo_big a))" for p
    using segments_from_fields that unfolding iter_segments_for_def by blast
  ultimately show ?thesis using assms(2-4) b
    by (fastforce simp: feasible_segment_def demo_size_def demo_big_def)
qed

theorem plan_volumes_lossless_witness:
  "\<exists>plan. plan_volumes demo_size demo_limits demo_items = Inr plan
     \<and> (\<exists>pss. list_all2 (\<lambda>item ps. tiles item ps
             \<and> (ps = [whole_part item] \<or> pl_ceiling plan < demo_size [whole_part item])) demo_items pss
           \<and> concat (map v_parts (pl_volumes plan)) = concat pss)"
  using demo_plan_ok plan_volumes_lossless [OF demo_limits_ok] by (auto simp: is_ok_iff)


theorem plan_volumes_greedy_witness:
  "\<exists>plan. plan_volumes demo_size demo_limits demo_items = Inr plan
     \<and> greedy demo_size (pl_ceiling plan) demo_items (map v_parts (pl_volumes plan))"
  using demo_plan_ok plan_volumes_greedy [OF demo_limits_ok] by (auto simp: is_ok_iff)

theorem split_oversized_item_largest_witness:
  "\<exists>seg segments m'. split_oversized_item (measured_call demo_size demo_limits) demo_limits 110 20
       measured_init demo_big = Inr ((seg, segments), m')
     \<and> (\<forall>s. feasible_segment demo_size 110 demo_big 20 s \<longrightarrow> s \<le> seg)"
proof -
  have ok: "measured_ok demo_size demo_limits measured_init"
    by (rule measured_init_ok) (simp add: demo_limits_def)
  have size: "pi_size demo_big \<le> 2 ^ nat (max_split_iterations demo_limits)"
    by (simp add: demo_big_def demo_limits_def)
  from demo_split_ok obtain seg segments m' where
    r: "split_oversized_item (measured_call demo_size demo_limits) demo_limits 110 20 measured_init demo_big
        = Inr ((seg, segments), m')"
    by (auto simp: is_ok_iff)
  have "feasible_segment demo_size 110 demo_big 20 seg
     \<and> (\<forall>s. feasible_segment demo_size 110 demo_big 20 s \<longrightarrow> s \<le> seg)"
    by (rule split_oversized_item_largest [OF ok r size]) (rule demo_feasible_mono)
  with r show ?thesis by blast
qed

theorem plan_volumes_succeeds_witness:
  "\<exists>plan. plan_volumes demo_size demo_limits [hd demo_items, \<lparr>pi_identity = ''b'', pi_size = 90\<rparr>] = Inr plan
    \<and> concat (map v_parts (pl_volumes plan)) = map whole_part [hd demo_items, \<lparr>pi_identity = ''b'', pi_size = 90\<rparr>]"
proof (rule plan_volumes_succeeds [OF demo_limits_ok])
  have c: "effective_ceiling demo_limits = 110" by code_simp
  show "\<forall>i \<in> set [hd demo_items, \<lparr>pi_identity = ''b'', pi_size = 90\<rparr>].
      demo_size [whole_part i] \<le> effective_ceiling demo_limits"
    unfolding c by (simp add: demo_items_def demo_size_def whole_part_def)
  show "\<forall>ps. 0 < demo_size ps" by (auto simp: demo_size_def add_pos_nonneg)
qed (simp_all add: demo_items_def demo_limits_def)

end
