(* ===== verification/Identifiers.thy ===== *)
theory Identifiers
  imports Prelude "HOL-Library.Char_ord"
begin

text \<open>
  The bounded identifier grammars that the protected records share, after the regular
  expressions and validators of \<^verbatim>\<open>src/ls/core/openpgp/artifact_records.py\<close> and of the modules
  that reuse them. Every string the grammars accept is ASCII, so a Python string is
  modelled as an HOL string.
\<close>

definition lower_hex :: "char \<Rightarrow> bool" where
  "lower_hex c \<longleftrightarrow> (CHR ''0'' \<le> c \<and> c \<le> CHR ''9'') \<or> (CHR ''a'' \<le> c \<and> c \<le> CHR ''f'')"

definition ascii_digit :: "char \<Rightarrow> bool" where
  "ascii_digit c \<longleftrightarrow> CHR ''0'' \<le> c \<and> c \<le> CHR ''9''"

definition ascii_lower :: "char \<Rightarrow> bool" where
  "ascii_lower c \<longleftrightarrow> CHR ''a'' \<le> c \<and> c \<le> CHR ''z''"

definition ascii_upper :: "char \<Rightarrow> bool" where
  "ascii_upper c \<longleftrightarrow> CHR ''A'' \<le> c \<and> c \<le> CHR ''Z''"

definition ascii_alpha :: "char \<Rightarrow> bool" where
  "ascii_alpha c \<longleftrightarrow> ascii_lower c \<or> ascii_upper c"

definition ascii_alnum :: "char \<Rightarrow> bool" where
  "ascii_alnum c \<longleftrightarrow> ascii_alpha c \<or> ascii_digit c"

text \<open>\<open>[0-9a-f]{n}\Z\<close>\<close>

definition hex_string :: "nat \<Rightarrow> string \<Rightarrow> bool" where
  "hex_string n s \<longleftrightarrow> length s = n \<and> list_all lower_hex s"

text \<open>\<open>[first][rest]{0,n}\Z\<close>\<close>

definition led_string :: "(char \<Rightarrow> bool) \<Rightarrow> (char \<Rightarrow> bool) \<Rightarrow> nat \<Rightarrow> string \<Rightarrow> bool" where
  "led_string first rest n s \<longleftrightarrow>
     (case s of [] \<Rightarrow> False | c # cs \<Rightarrow> first c \<and> list_all rest cs \<and> length cs \<le> n)"

definition opaque_id :: "string \<Rightarrow> bool" where
  "opaque_id s \<longleftrightarrow> hex_string 32 s \<and> s \<noteq> replicate 32 (CHR ''0'')"

definition digest_string :: "string \<Rightarrow> bool" where
  "digest_string s \<longleftrightarrow> hex_string 64 s"

lemma opaque_id_length: "opaque_id s \<Longrightarrow> length s = 32"
  by (simp add: opaque_id_def hex_string_def)

lemma opaque_id_chars: "opaque_id s \<Longrightarrow> c \<in> set s \<Longrightarrow> lower_hex c"
  by (auto simp: opaque_id_def hex_string_def list_all_iff)

lemma lower_hex_not_slash: "lower_hex c \<Longrightarrow> c \<noteq> CHR ''/''"
  by (auto simp: lower_hex_def less_eq_char_def)

lemma led_string_nonempty: "led_string f r n s \<Longrightarrow> s \<noteq> []"
  by (cases s) (auto simp: led_string_def)

lemma led_string_chars: "led_string f r n s \<Longrightarrow> c \<in> set s \<Longrightarrow> f c \<or> r c"
  by (cases s) (auto simp: led_string_def list_all_iff)

lemma led_string_length: "led_string f r n s \<Longrightarrow> length s \<le> Suc n"
  by (cases s) (auto simp: led_string_def)

end
