(* ===== verification/Versions.thy ===== *)
theory Versions
  imports Identifiers "HOL-Library.List_Lexorder" "HOL-Library.Product_Lexorder" "HOL-Library.Code_Target_Nat"
begin

text \<open>
  The immutable version graph of secure containers, after
  \<^verbatim>\<open>src/ls/core/openpgp/container_versions.py\<close>: normalisation of a node set, collisions and
  missing parents, cycle detection by an explicit-stack depth-first search, heads, maximal
  common ancestors and merge requirements. Python sets and dictionaries whose order the code
  does not observe are distinct lists and association lists; Python sorts strings by code
  point, the lexicographic order on \<open>char list\<close>.
\<close>

section \<open>Data\<close>

datatype version_error = INVALID | COLLISION | CYCLE | BOUNDED

type_synonym vkey = "string \<times> string"

record version_node =
  artifact_id :: string
  version_id :: string
  parents :: "string list"
  commitment_sha256 :: string

record version_graph =
  nodes :: "version_node list"
  collisions :: "vkey list"
  missing_parents :: "vkey list"
  cycles :: "vkey list list"

record merge_requirement =
  mr_artifact_id :: string
  mr_heads :: "string list"
  mr_common_ancestors :: "string list"
  mr_unresolved :: "string list"
  mr_required_parents :: "string list"
  mr_requires_authorization :: bool

datatype graph_input = Graph version_graph | Nodes "version_node list"

definition max_nodes :: nat where "max_nodes = 10000"
definition max_edges :: nat where "max_edges = 100000"

definition node_key :: "version_node \<Rightarrow> vkey" where
  "node_key n = (artifact_id n, version_id n)"

definition node_post_init :: "version_node \<Rightarrow> (version_error, unit) result" where
  "node_post_init n = require
     (opaque_id (artifact_id n) \<and> opaque_id (version_id n) \<and> length (parents n) \<le> 64
      \<and> list_all opaque_id (parents n) \<and> parents n = sort (remdups (parents n))
      \<and> digest_string (commitment_sha256 n)) INVALID"

section \<open>Normalisation\<close>

text \<open>\<open>grouped.setdefault(node.key, set()).add(node)\<close>\<close>

fun group_add :: "version_node \<Rightarrow> (vkey \<times> version_node list) list \<Rightarrow> (vkey \<times> version_node list) list" where
  "group_add n [] = [(node_key n, [n])]"
| "group_add n ((k, ns) # g) =
     (if k = node_key n then (k, if n \<in> set ns then ns else ns @ [n]) # g else (k, ns) # group_add n g)"

definition admit_node ::
  "(vkey \<times> version_node list) list \<times> nat \<times> nat \<Rightarrow> version_node
     \<Rightarrow> (version_error, (vkey \<times> version_node list) list \<times> nat \<times> nat) result" where
  "admit_node = (\<lambda>(g, node_count, edge_count) n.
     let nc = node_count + 1; ec = edge_count + length (parents n) in
     rbind (require (nc \<le> max_nodes \<and> ec \<le> max_edges) BOUNDED) (\<lambda>_. Inr (group_add n g, nc, ec)))"

definition by_key :: "version_node list \<Rightarrow> vkey \<Rightarrow> version_node option" where
  "by_key ns = map_of (rev (map (\<lambda>n. (node_key n, n)) ns))"

definition parent_keys :: "version_node list \<Rightarrow> version_node \<Rightarrow> vkey list" where
  "parent_keys ns n = filter (\<lambda>k. by_key ns k \<noteq> None) (map (\<lambda>p. (artifact_id n, p)) (parents n))"

section \<open>Cycle detection\<close>

record cycle_search =
  cs_marks :: "vkey \<Rightarrow> nat"
  cs_path :: "vkey list"
  cs_path_index :: "vkey \<Rightarrow> nat option"
  cs_frames :: "(vkey \<times> vkey list) list"
  cs_found :: "vkey list list"
  cs_examined :: nat
  cs_members :: nat

text \<open>\<open>min(range(len(cycle)), key=cycle.__getitem__)\<close>: the first index of the least key.\<close>

fun least_index :: "'a::linorder list \<Rightarrow> nat" where
  "least_index [] = 0"
| "least_index [x] = 0"
| "least_index (x # y # ys) = (let i = least_index (y # ys) in if x \<le> (y # ys) ! i then 0 else Suc i)"

definition canonical_rotation :: "'a::linorder list \<Rightarrow> 'a list" where
  "canonical_rotation c = (let i = least_index c in drop i c @ take i c)"

definition set_add :: "'a \<Rightarrow> 'a list \<Rightarrow> 'a list" where
  "set_add x xs = (if x \<in> set xs then xs else xs @ [x])"

definition pop_frame :: "vkey \<Rightarrow> (vkey \<times> vkey list) list \<Rightarrow> cycle_search \<Rightarrow> cycle_search" where
  "pop_frame cur fs s = s\<lparr>cs_frames := fs, cs_path_index := (cs_path_index s)(cur := None),
     cs_path := butlast (cs_path s), cs_marks := (cs_marks s)(cur := 2)\<rparr>"

definition push_frame :: "version_node list \<Rightarrow> vkey \<Rightarrow> cycle_search \<Rightarrow> cycle_search" where
  "push_frame ns p s = s\<lparr>cs_marks := (cs_marks s)(p := 1),
     cs_path_index := (cs_path_index s)(p := Some (length (cs_path s))),
     cs_path := cs_path s @ [p],
     cs_frames := (p, case by_key ns p of Some n \<Rightarrow> parent_keys ns n | None \<Rightarrow> []) # cs_frames s\<rparr>"

definition close_cycle :: "vkey \<Rightarrow> cycle_search \<Rightarrow> (version_error, cycle_search) result" where
  "close_cycle p s =
     (let start = (case cs_path_index s p of Some i \<Rightarrow> i | None \<Rightarrow> 0);
          members = cs_members s + (length (cs_path s) - start) in
      rbind (require (members \<le> max_edges) BOUNDED) (\<lambda>_.
      Inr (s\<lparr>cs_members := members,
             cs_found := set_add (canonical_rotation (drop start (cs_path s))) (cs_found s)\<rparr>)))"

function cycle_loop :: "version_node list \<Rightarrow> cycle_search \<Rightarrow> (version_error, cycle_search) result" where
  "cycle_loop ns s =
     (case cs_frames s of
        [] \<Rightarrow> Inr s
      | (cur, []) # fs \<Rightarrow> cycle_loop ns (pop_frame cur fs s)
      | (cur, p # ps) # fs \<Rightarrow>
          let s1 = s\<lparr>cs_frames := (cur, ps) # fs, cs_examined := cs_examined s + 1\<rparr> in
          if max_edges < cs_examined s1 then Inl BOUNDED
          else if cs_marks s1 p = 1 then
            (case close_cycle p s1 of Inl e \<Rightarrow> Inl e | Inr s2 \<Rightarrow> cycle_loop ns s2)
          else if cs_marks s1 p = 0 then cycle_loop ns (push_frame ns p s1)
          else cycle_loop ns s1)"
  by pat_completeness auto
termination
  by (relation "measures [\<lambda>(ns, s). max_edges - cs_examined s, \<lambda>(ns, s). length (cs_frames s)]")
    (auto simp: pop_frame_def push_frame_def close_cycle_def Let_def result_simps)

declare cycle_loop.simps [simp del]

definition cycle_root :: "version_node list \<Rightarrow> cycle_search \<Rightarrow> vkey \<Rightarrow> (version_error, cycle_search) result" where
  "cycle_root ns s k =
     (if cs_marks s k \<noteq> 0 then Inr s
      else cycle_loop ns (push_frame ns k (s\<lparr>cs_path := [], cs_path_index := (\<lambda>_. None), cs_frames := []\<rparr>)))"

definition cycle_init :: cycle_search where
  "cycle_init = \<lparr>cs_marks = (\<lambda>_. 0), cs_path = [], cs_path_index = (\<lambda>_. None), cs_frames = [],
     cs_found = [], cs_examined = 0, cs_members = 0\<rparr>"

definition find_cycles :: "version_node list \<Rightarrow> vkey list \<Rightarrow> (version_error, vkey list list) result" where
  "find_cycles ns coll =
     (let known = filter (\<lambda>n. node_key n \<notin> set coll) ns in
      rbind (rfold (cycle_root known) cycle_init (sort (remdups (map node_key known)))) (\<lambda>s.
      Inr (sort (cs_found s))))"

definition build_version_graph :: "version_node list \<Rightarrow> (version_error, version_graph) result" where
  "build_version_graph input =
     rbind (rfold admit_node ([], 0, 0) input) (\<lambda>(grouped, _, _).
     let coll = sort (map fst (filter (\<lambda>(k, ns). 1 < length ns) grouped));
         selected = concat (map snd (filter (\<lambda>(k, ns). length ns = 1) (sort_key fst grouped)));
         known = map node_key selected;
         missing = sort (concat (map (\<lambda>n. filter (\<lambda>k. k \<notin> set known)
                       (map (\<lambda>p. (artifact_id n, p)) (parents n))) selected)) in
     rbind (find_cycles selected coll) (\<lambda>cyc.
     Inr \<lparr>nodes = selected, collisions = coll, missing_parents = missing, cycles = cyc\<rparr>))"

section \<open>Queries\<close>

definition graph_of :: "graph_input \<Rightarrow> (version_error, version_graph) result" where
  "graph_of v = (case v of Graph g \<Rightarrow> Inr g | Nodes ns \<Rightarrow> build_version_graph ns)"

record version_dependency_view =
  vd_dependencies :: "(string \<times> string \<times> string list) list"
  vd_missing :: "vkey list"
  vd_collisions :: "vkey list"
  vd_cycles :: "vkey list list"
  vd_known :: "vkey list"

definition version_dependencies :: "graph_input \<Rightarrow> (version_error, version_dependency_view) result" where
  "version_dependencies v = rbind (graph_of v) (\<lambda>g.
     Inr \<lparr>vd_dependencies = map (\<lambda>n. (artifact_id n, version_id n, parents n)) (nodes g),
          vd_missing = missing_parents g, vd_collisions = collisions g, vd_cycles = cycles g,
          vd_known = sort (remdups (map node_key (nodes g)))\<rparr>)"

definition relevant :: "string option \<Rightarrow> vkey \<Rightarrow> bool" where
  "relevant a k \<longleftrightarrow> (case a of None \<Rightarrow> True | Some x \<Rightarrow> fst k = x)"

definition has_graph_issue :: "version_graph \<Rightarrow> string option \<Rightarrow> bool" where
  "has_graph_issue g a \<longleftrightarrow>
     list_ex (relevant a) (collisions g) \<or> list_ex (\<lambda>c. list_ex (relevant a) c) (cycles g)"

definition unresolved_for :: "version_graph \<Rightarrow> string \<Rightarrow> string list" where
  "unresolved_for g a = sort (map snd (filter (\<lambda>k. fst k = a) (missing_parents g)))"

definition heads_of :: "version_graph \<Rightarrow> string option \<Rightarrow> string list" where
  "heads_of g a =
     (let ns = filter (\<lambda>n. relevant a (node_key n)) (nodes g);
          ps = concat (map (\<lambda>n. map (\<lambda>p. (artifact_id n, p)) (parents n)) ns)
      in sort (map version_id (filter (\<lambda>n. node_key n \<notin> set ps) ns)))"

definition version_heads :: "graph_input \<Rightarrow> string option \<Rightarrow> (version_error, string list) result" where
  "version_heads v a = rbind (graph_of v) (\<lambda>g.
     rbind (require (case a of None \<Rightarrow> True | Some x \<Rightarrow> opaque_id x) INVALID) (\<lambda>_.
     Inr (if has_graph_issue g a then [] else heads_of g a)))"

text \<open>The work list is a stack: \<open>pending.pop()\<close> takes the last element, here the head.\<close>

function ancestor_loop ::
  "version_node list \<Rightarrow> string \<Rightarrow> string list \<Rightarrow> vkey list \<Rightarrow> (version_error, vkey list) result" where
  "ancestor_loop ns a pending found =
     (case pending of
        [] \<Rightarrow> Inr found
      | p # rest \<Rightarrow>
          if max_edges \<le> length found then Inl BOUNDED
          else if (a, p) \<in> set found then ancestor_loop ns a rest found
          else (case by_key ns (a, p) of
                  None \<Rightarrow> ancestor_loop ns a rest found
                | Some n \<Rightarrow> ancestor_loop ns a (rev (parents n) @ rest) ((a, p) # found)))"
  by pat_completeness auto
termination
  by (relation "measures [\<lambda>(ns, a, pending, found). max_edges - length found, \<lambda>(ns, a, pending, found). length pending]")
    auto

declare ancestor_loop.simps [simp del]

definition known_ancestors ::
  "version_node list \<Rightarrow> version_node \<Rightarrow> (version_error, vkey list) result" where
  "known_ancestors ns n = ancestor_loop ns (artifact_id n) (rev (parents n)) []"

text \<open>The intersection loop: \<open>None\<close> for a disjoint pair of ancestor sets, which returns early.\<close>

fun common_loop ::
  "version_node list \<Rightarrow> string \<Rightarrow> nat \<Rightarrow> vkey list option \<Rightarrow> string list
     \<Rightarrow> (version_error, vkey list) result" where
  "common_loop ns a work common [] = Inr (case common of None \<Rightarrow> [] | Some c \<Rightarrow> c)"
| "common_loop ns a work common (v # vs) =
     (case by_key ns (a, v) of
        None \<Rightarrow> Inr []
      | Some n \<Rightarrow>
          rbind (known_ancestors ns n) (\<lambda>anc.
          rbind (require (work + length anc \<le> 4 * max_edges) BOUNDED) (\<lambda>_.
          let c = (case common of None \<Rightarrow> anc | Some c \<Rightarrow> filter (\<lambda>k. k \<in> set anc) c) in
          if c = [] then Inr [] else common_loop ns a (work + length anc) (Some c) vs)))"

definition parents_within :: "version_node list \<Rightarrow> string \<Rightarrow> vkey list \<Rightarrow> vkey \<Rightarrow> vkey list" where
  "parents_within ns a common k =
     (case by_key ns k of None \<Rightarrow> []
      | Some n \<Rightarrow> filter (\<lambda>q. q \<in> set common) (map (\<lambda>p. (a, p)) (parents n)))"

lemma finite_dom_by_key: "finite (dom (by_key ns))"
  by (simp add: by_key_def finite_dom_map_of)

function dominated_loop ::
  "version_node list \<Rightarrow> string \<Rightarrow> vkey list \<Rightarrow> vkey list \<Rightarrow> vkey list \<Rightarrow> vkey list" where
  "dominated_loop ns a common pending found =
     (case pending of
        [] \<Rightarrow> found
      | k # rest \<Rightarrow>
          if k \<in> set found \<or> by_key ns k = None then dominated_loop ns a common rest found
          else dominated_loop ns a common (rev (parents_within ns a common k) @ rest) (k # found))"
  by pat_completeness auto
termination
proof (relation "measures [\<lambda>(ns, a, common, pending, found). card (dom (by_key ns) - set found),
      \<lambda>(ns, a, common, pending, found). length pending]", goal_cases)
  case (3 ns a common pending found k rest)
  then have "dom (by_key ns) - set (k # found) \<subset> dom (by_key ns) - set found" by auto
  then have "card (dom (by_key ns) - set (k # found)) < card (dom (by_key ns) - set found)"
    by (intro psubset_card_mono) (simp_all add: finite_dom_by_key)
  then show ?case by simp
qed auto

declare dominated_loop.simps [simp del]

definition maximal_of :: "version_node list \<Rightarrow> string \<Rightarrow> vkey list \<Rightarrow> vkey list" where
  "maximal_of ns a common =
     (let dominated = dominated_loop ns a common (rev (concat (map (parents_within ns a common) common))) []
      in filter (\<lambda>k. k \<notin> set dominated) common)"

definition request_versions :: "string \<Rightarrow> string list \<Rightarrow> (version_error, string list) result" where
  "request_versions a versions =
     rbind (require (opaque_id a) INVALID) (\<lambda>_.
     rbind (rfold (\<lambda>(req, n) v.
              rbind (require (n + 1 \<le> max_nodes) BOUNDED) (\<lambda>_.
              rbind (require (opaque_id v) INVALID) (\<lambda>_. Inr (set_add v req, n + 1)))) ([], 0) versions) (\<lambda>(req, _).
     rbind (require (req \<noteq> []) INVALID) (\<lambda>_. Inr (sort req))))"

definition common_ancestors :: "graph_input \<Rightarrow> string \<Rightarrow> string list \<Rightarrow> (version_error, string list) result" where
  "common_ancestors v a versions = rbind (graph_of v) (\<lambda>g.
     rbind (request_versions a versions) (\<lambda>requested.
     if has_graph_issue g (Some a) \<or> list_ex (\<lambda>x. by_key (nodes g) (a, x) = None) requested then Inr []
     else rbind (common_loop (nodes g) a 0 None requested) (\<lambda>common.
          Inr (sort (map snd (maximal_of (nodes g) a common))))))"

definition merge_requirements :: "graph_input \<Rightarrow> string \<Rightarrow> (version_error, merge_requirement option) result" where
  "merge_requirements v a = rbind (graph_of v) (\<lambda>g.
     rbind (require (opaque_id a) INVALID) (\<lambda>_.
     if has_graph_issue g (Some a) then
       Inr (Some \<lparr>mr_artifact_id = a, mr_heads = [], mr_common_ancestors = [],
          mr_unresolved = unresolved_for g a, mr_required_parents = [], mr_requires_authorization = True\<rparr>)
     else rbind (version_heads (Graph g) (Some a)) (\<lambda>heads.
       if length heads < 2 then Inr None
       else rbind (common_ancestors (Graph g) a heads) (\<lambda>anc.
         Inr (Some \<lparr>mr_artifact_id = a, mr_heads = heads, mr_common_ancestors = anc,
            mr_unresolved = unresolved_for g a, mr_required_parents = heads,
            mr_requires_authorization = True\<rparr>)))))"

section \<open>The parent relation\<close>

definition succs :: "version_node list \<Rightarrow> vkey \<Rightarrow> vkey list" where
  "succs ns k = (case by_key ns k of Some n \<Rightarrow> parent_keys ns n | None \<Rightarrow> [])"

definition parent_edges :: "version_node list \<Rightarrow> (vkey \<times> vkey) set" where
  "parent_edges ns = {(k, q). q \<in> set (succs ns k)}"

lemma push_frame_succs: "push_frame ns p s = s\<lparr>cs_marks := (cs_marks s)(p := 1),
     cs_path_index := (cs_path_index s)(p := Some (length (cs_path s))),
     cs_path := cs_path s @ [p], cs_frames := (p, succs ns p) # cs_frames s\<rparr>"
  by (simp add: push_frame_def succs_def split: option.splits)

lemma succs_known: "q \<in> set (succs ns k) \<Longrightarrow> by_key ns q \<noteq> None"
  by (auto simp: succs_def parent_keys_def split: option.splits)

lemma by_key_Some: "by_key ns k = Some n \<Longrightarrow> n \<in> set ns \<and> node_key n = k"
  by (auto simp: by_key_def dest!: map_of_SomeD)

lemma by_key_None: "by_key ns k = None \<longleftrightarrow> k \<notin> node_key ` set ns"
  by (auto simp: by_key_def map_of_eq_None_iff image_iff)

lemma by_key_distinct:
  "distinct (map node_key ns) \<Longrightarrow> by_key ns k = Some n \<longleftrightarrow> n \<in> set ns \<and> node_key n = k"
proof
  assume d: "distinct (map node_key ns)" and n: "n \<in> set ns \<and> node_key n = k"
  then obtain m where m: "by_key ns k = Some m" using by_key_None [of ns k] by auto
  from by_key_Some [OF m] n d have "m = n" by (auto simp: distinct_map dest: inj_onD)
  with m show "by_key ns k = Some n" by simp
qed (rule by_key_Some)

lemma succs_within: "q \<in> set (succs ns k) \<Longrightarrow> q \<in> node_key ` set ns"
  using succs_known [of q ns k] by (auto simp: by_key_None)

lemma succs_outside: "k \<notin> node_key ` set ns \<Longrightarrow> succs ns k = []"
  using by_key_None [of ns k] by (auto simp: succs_def)

section \<open>Cycles and canonical rotations\<close>

definition closed_walk :: "version_node list \<Rightarrow> vkey list \<Rightarrow> bool" where
  "closed_walk ns c \<longleftrightarrow> c \<noteq> [] \<and> distinct c
     \<and> (\<forall>i < length c. c ! (Suc i mod length c) \<in> set (succs ns (c ! i)))"

lemma least_index_bound: "xs \<noteq> [] \<Longrightarrow> least_index xs < length xs"
  by (induction xs rule: least_index.induct) (auto simp: Let_def)

lemma least_index_least: "y \<in> set xs \<Longrightarrow> xs ! least_index xs \<le> y"
proof (induction xs rule: least_index.induct)
  case (3 x z zs)
  show ?case
  proof (cases "x \<le> (z # zs) ! least_index (z # zs)")
    case True
    with 3 show ?thesis by (auto simp: Let_def intro: order_trans)
  next
    case False
    with 3 show ?thesis by (auto simp: Let_def intro: order_trans less_imp_le)
  qed
qed auto

lemma canonical_rotation_rotate: "c \<noteq> [] \<Longrightarrow> canonical_rotation c = rotate (least_index c) c"
  by (simp add: canonical_rotation_def rotate_drop_take Let_def least_index_bound)

lemma canonical_rotation_hd: "y \<in> set c \<Longrightarrow> hd (canonical_rotation c) \<le> y"
proof -
  assume y: "y \<in> set c"
  then have ne: "c \<noteq> []" by auto
  then have "hd (canonical_rotation c) = c ! least_index c"
    using least_index_bound [OF ne] by (simp add: canonical_rotation_def Let_def hd_append hd_drop_conv_nth)
  with least_index_least [OF y] show ?thesis by simp
qed

lemma canonical_rotation_set [simp]: "set (canonical_rotation c) = set c"
  by (cases "c = []") (auto simp: canonical_rotation_rotate, simp add: canonical_rotation_def)

lemma closed_walk_rotate: "closed_walk ns c \<Longrightarrow> closed_walk ns (rotate m c)"
proof -
  assume c: "closed_walk ns c"
  let ?n = "length c"
  have n: "0 < ?n" using c by (simp add: closed_walk_def)
  have "rotate m c ! (Suc i mod ?n) \<in> set (succs ns (rotate m c ! i))" if i: "i < ?n" for i
  proof -
    have "rotate m c ! (Suc i mod ?n) = c ! ((m + Suc i mod ?n) mod ?n)"
      using n by (subst nth_rotate) (simp_all add: add.commute)
    also have "(m + Suc i mod ?n) mod ?n = Suc ((m + i) mod ?n) mod ?n"
      by (simp add: mod_simps)
    finally have e: "rotate m c ! (Suc i mod ?n) = c ! (Suc ((m + i) mod ?n) mod ?n)" .
    have "rotate m c ! i = c ! ((m + i) mod ?n)" using i by (simp add: nth_rotate add.commute)
    with e c n show ?thesis by (simp add: closed_walk_def)
  qed
  with c show ?thesis by (simp add: closed_walk_def)
qed

lemma acyclic_extend:
  assumes "acyclic R" and "\<And>a b. (a, b) \<in> R \<Longrightarrow> b \<in> B" and "k \<notin> B" and "T \<subseteq> B"
  shows "acyclic (R \<union> {k} \<times> T)"
proof -
  have "(x, y) \<in> R\<^sup>+ \<or> (x = k \<and> y \<in> B)" if "(x, y) \<in> (R \<union> {k} \<times> T)\<^sup>+" for x y
    using that
  proof (induction rule: trancl_induct)
    case (base y)
    with assms(4) show ?case by auto
  next
    case (step y z)
    have "y \<in> B" using step.IH assms(2) by (auto elim: tranclE)
    with step assms(2,3) show ?case by (auto intro: trancl_into_trancl)
  qed
  with assms(1,3) show ?thesis unfolding acyclic_def by blast
qed

section \<open>The depth-first search keeps its invariant\<close>

text \<open>
  Edges never leave an artifact, so the search is followed artifact by artifact: as long as
  no reported cycle lies in artifact \<open>a\<close>, the finished keys of \<open>a\<close> have only finished parents
  and no cycle among them, and an open frame of \<open>a\<close> still has every unfinished parent ahead of it.
\<close>

fun pending_ok :: "version_node list \<Rightarrow> string \<Rightarrow> vkey set \<Rightarrow> vkey set \<Rightarrow> (vkey \<times> vkey list) list \<Rightarrow> bool" where
  "pending_ok ns a blk nxt [] \<longleftrightarrow> True"
| "pending_ok ns a blk nxt ((k, rest) # fs) \<longleftrightarrow>
     (fst k = a \<longrightarrow> set (succs ns k) \<subseteq> blk \<union> nxt \<union> set rest) \<and> pending_ok ns a blk {k} fs"

definition black :: "cycle_search \<Rightarrow> vkey set" where
  "black s = {k. cs_marks s k = 2}"

definition clean :: "string \<Rightarrow> vkey list list \<Rightarrow> bool" where
  "clean a cs \<longleftrightarrow> (\<forall>c \<in> set cs. \<forall>k \<in> set c. fst k \<noteq> a)"

definition edges_from :: "version_node list \<Rightarrow> string \<Rightarrow> vkey set \<Rightarrow> (vkey \<times> vkey) set" where
  "edges_from ns a S = {(x, y). x \<in> S \<and> fst x = a \<and> y \<in> set (succs ns x)}"

definition search_inv :: "version_node list \<Rightarrow> cycle_search \<Rightarrow> bool" where
  "search_inv ns s \<longleftrightarrow>
     map fst (cs_frames s) = rev (cs_path s)
     \<and> distinct (cs_path s)
     \<and> (\<forall>k. cs_marks s k = 1 \<longleftrightarrow> k \<in> set (cs_path s))
     \<and> (\<forall>k. cs_marks s k \<le> 2)
     \<and> (\<forall>k i. cs_path_index s k = Some i \<longleftrightarrow> i < length (cs_path s) \<and> cs_path s ! i = k)
     \<and> (\<forall>i. Suc i < length (cs_path s) \<longrightarrow> cs_path s ! Suc i \<in> set (succs ns (cs_path s ! i)))
     \<and> (\<forall>(k, rest) \<in> set (cs_frames s). set rest \<subseteq> set (succs ns k))
     \<and> distinct (cs_found s)
     \<and> (\<forall>c \<in> set (cs_found s). closed_walk ns c \<and> (\<forall>y \<in> set c. hd c \<le> y))
     \<and> (\<forall>a. clean a (cs_found s) \<longrightarrow>
          pending_ok ns a (black s) {} (cs_frames s)
          \<and> (\<forall>k \<in> black s. fst k = a \<longrightarrow> set (succs ns k) \<subseteq> black s)
          \<and> acyclic (edges_from ns a (black s)))"

lemma pending_ok_mono:
  "pending_ok ns a blk nxt fs \<Longrightarrow> blk \<subseteq> blk' \<Longrightarrow> nxt \<subseteq> blk' \<union> nxt' \<Longrightarrow> pending_ok ns a blk' nxt' fs"
proof (induction fs arbitrary: nxt nxt')
  case (Cons f fs)
  obtain k rest where f: "f = (k, rest)" by (cases f)
  have "pending_ok ns a blk' {k} fs" using Cons by (auto simp: f)
  with Cons.prems show ?case unfolding f by auto
qed simp

declare split_paired_All [simp del] split_paired_Ex [simp del]

lemma search_invD:
  assumes "search_inv ns s"
  shows "map fst (cs_frames s) = rev (cs_path s)" and "distinct (cs_path s)"
    and "cs_marks s k = 1 \<longleftrightarrow> k \<in> set (cs_path s)" and "cs_marks s k \<le> 2"
    and "cs_path_index s k = Some i \<longleftrightarrow> i < length (cs_path s) \<and> cs_path s ! i = k"
    and "Suc j < length (cs_path s) \<Longrightarrow> cs_path s ! Suc j \<in> set (succs ns (cs_path s ! j))"
    and "(k, rest) \<in> set (cs_frames s) \<Longrightarrow> set rest \<subseteq> set (succs ns k)"
    and "distinct (cs_found s)"
    and "c \<in> set (cs_found s) \<Longrightarrow> closed_walk ns c \<and> (\<forall>y \<in> set c. hd c \<le> y)"
    and "clean a (cs_found s) \<Longrightarrow> pending_ok ns a (black s) {} (cs_frames s)"
    and "clean a (cs_found s) \<Longrightarrow> k \<in> black s \<Longrightarrow> fst k = a \<Longrightarrow> set (succs ns k) \<subseteq> black s"
    and "clean a (cs_found s) \<Longrightarrow> acyclic (edges_from ns a (black s))"
  using assms [unfolded search_inv_def]
  by - (elim conjE, (assumption | drule (1) bspec, simp | simp))+

lemma search_invI:
  assumes "map fst (cs_frames s) = rev (cs_path s)" and "distinct (cs_path s)"
    and "\<And>k. cs_marks s k = 1 \<longleftrightarrow> k \<in> set (cs_path s)" and "\<And>k. cs_marks s k \<le> 2"
    and "\<And>k i. cs_path_index s k = Some i \<longleftrightarrow> i < length (cs_path s) \<and> cs_path s ! i = k"
    and "\<And>j. Suc j < length (cs_path s) \<Longrightarrow> cs_path s ! Suc j \<in> set (succs ns (cs_path s ! j))"
    and "\<And>k rest. (k, rest) \<in> set (cs_frames s) \<Longrightarrow> set rest \<subseteq> set (succs ns k)"
    and "distinct (cs_found s)"
    and "\<And>c. c \<in> set (cs_found s) \<Longrightarrow> closed_walk ns c \<and> (\<forall>y \<in> set c. hd c \<le> y)"
    and "\<And>a. clean a (cs_found s) \<Longrightarrow> pending_ok ns a (black s) {} (cs_frames s)
       \<and> (\<forall>k \<in> black s. fst k = a \<longrightarrow> set (succs ns k) \<subseteq> black s)
       \<and> acyclic (edges_from ns a (black s))"
  shows "search_inv ns s"
  using assms unfolding search_inv_def by blast

lemma frames_path: "search_inv ns s \<Longrightarrow> cs_frames s = (cur, rest) # fs \<Longrightarrow> cs_path s = rev (map fst fs) @ [cur]"
  using search_invD(1) [of ns s] by (metis fst_conv list.simps(9) rev.simps(2) rev_rev_ident)

lemma frames_advance:
  assumes "search_inv ns s" and "cs_frames s = (cur, p # ps) # fs" and "f \<in> set ((cur, ps) # fs)"
  shows "set (snd f) \<subseteq> set (succs ns (fst f))"
  using search_invD(7) [OF assms(1), of "fst f" "snd f"] search_invD(7) [OF assms(1), of cur "p # ps"] assms(2,3)
  by (cases "f = (cur, ps)") auto

lemma search_inv_pop:
  assumes inv: "search_inv ns s" and fr: "cs_frames s = (cur, []) # fs"
  shows "search_inv ns (pop_frame cur fs s)"
proof -
  let ?path = "rev (map fst fs)"
  note I = search_invD [OF inv]
  have path: "cs_path s = ?path @ [cur]" by (rule frames_path [OF inv fr])
  have dist: "distinct ?path" "cur \<notin> set ?path" using I(2) path by auto
  have blk: "black (pop_frame cur fs s) = insert cur (black s)"
    by (auto simp: black_def pop_frame_def)
  have cur: "cur \<notin> black s" using I(3) [of cur] path by (simp add: black_def)
  show ?thesis
  proof (rule search_invI)
    fix k
    show "cs_marks (pop_frame cur fs s) k = 1 \<longleftrightarrow> k \<in> set (cs_path (pop_frame cur fs s))"
      using I(3) [of k] dist by (auto simp: pop_frame_def path)
    show "cs_marks (pop_frame cur fs s) k \<le> 2" using I(4) by (simp add: pop_frame_def)
    show "cs_path_index (pop_frame cur fs s) k = Some i
      \<longleftrightarrow> i < length (cs_path (pop_frame cur fs s)) \<and> cs_path (pop_frame cur fs s) ! i = k" for i
      using I(5) [of k i] dist nth_mem [of i ?path]
      by (auto simp: pop_frame_def path nth_append less_Suc_eq simp del: set_rev)
  next
    fix j assume j: "Suc j < length (cs_path (pop_frame cur fs s))"
    then have "Suc j < length ?path" by (simp add: pop_frame_def path)
    with I(6) [of j] show "cs_path (pop_frame cur fs s) ! Suc j \<in> set (succs ns (cs_path (pop_frame cur fs s) ! j))"
      by (simp add: pop_frame_def path nth_append)
  next
    fix a assume "clean a (cs_found (pop_frame cur fs s))"
    then have f: "clean a (cs_found s)" by (simp add: pop_frame_def)
    from I(10) [OF f] fr have p: "fst cur = a \<longrightarrow> set (succs ns cur) \<subseteq> black s" "pending_ok ns a (black s) {cur} fs" by auto
    have "acyclic (edges_from ns a (insert cur (black s)))"
    proof (cases "fst cur = a")
      case True
      have "acyclic (edges_from ns a (black s) \<union> {cur} \<times> set (succs ns cur))"
        by (rule acyclic_extend [OF I(12) [OF f] _ cur])
          (use I(11) [OF f] True p(1) in \<open>auto simp: edges_from_def\<close>)
      moreover have "edges_from ns a (insert cur (black s)) = edges_from ns a (black s) \<union> {cur} \<times> set (succs ns cur)"
        using True by (auto simp: edges_from_def)
      ultimately show ?thesis by simp
    next
      case False
      then have "edges_from ns a (insert cur (black s)) = edges_from ns a (black s)" by (auto simp: edges_from_def)
      with I(12) [OF f] show ?thesis by simp
    qed
    moreover have "\<forall>k \<in> insert cur (black s). fst k = a \<longrightarrow> set (succs ns k) \<subseteq> insert cur (black s)"
      using p(1) I(11) [OF f] by blast
    moreover have "pending_ok ns a (insert cur (black s)) {} (cs_frames (pop_frame cur fs s))"
      using pending_ok_mono [OF p(2), of "insert cur (black s)" "{}"] by (auto simp: pop_frame_def)
    ultimately show "pending_ok ns a (black (pop_frame cur fs s)) {} (cs_frames (pop_frame cur fs s))
       \<and> (\<forall>k \<in> black (pop_frame cur fs s). fst k = a \<longrightarrow> set (succs ns k) \<subseteq> black (pop_frame cur fs s))
       \<and> acyclic (edges_from ns a (black (pop_frame cur fs s)))"
      unfolding blk by simp
  qed (use I(7-9) fr dist in \<open>auto simp: pop_frame_def path\<close>)
qed

lemma search_inv_skip:
  assumes inv: "search_inv ns s" and fr: "cs_frames s = (cur, p # ps) # fs" and mark: "cs_marks s p = 2"
  shows "search_inv ns (s\<lparr>cs_frames := (cur, ps) # fs, cs_examined := n\<rparr>)"
proof -
  note I = search_invD [OF inv]
  have b: "black (s\<lparr>cs_frames := (cur, ps) # fs, cs_examined := n\<rparr>) = black s" "p \<in> black s"
    using mark by (auto simp: black_def)
  have fr2: "set rest \<subseteq> set (succs ns k)" if "(k, rest) \<in> set ((cur, ps) # fs)" for k rest
    using frames_advance [OF inv fr that] by simp
  have pend: "pending_ok ns a (black s) {} ((cur, ps) # fs)" if "clean a (cs_found s)" for a
    using I(10) [OF that] b(2) unfolding fr by auto
  show ?thesis
    by (rule search_invI, unfold b(1)) (use I(1-6,8,9,11,12) fr fr2 pend in \<open>simp_all\<close>)
qed

lemma search_inv_push:
  assumes inv: "search_inv ns s" and fr: "cs_frames s = (cur, p # ps) # fs" and mark: "cs_marks s p = 0"
  shows "search_inv ns (push_frame ns p (s\<lparr>cs_frames := (cur, ps) # fs, cs_examined := n\<rparr>))" (is "search_inv ns ?t")
proof -
  note I = search_invD [OF inv]
  have path: "cs_path s = rev (map fst fs) @ [cur]" by (rule frames_path [OF inv fr])
  have fresh: "p \<notin> set (cs_path s)" using I(3) [of p] mark by simp
  have p: "p \<in> set (succs ns cur)" using I(7) [of cur "p # ps"] fr by auto
  have blk: "black ?t = black s" using mark by (auto simp: black_def push_frame_succs)
  show ?thesis
  proof (rule search_invI)
    fix k
    show "cs_marks ?t k = 1 \<longleftrightarrow> k \<in> set (cs_path ?t)"
      using I(3) [of k] by (auto simp: push_frame_succs)
    show "cs_path_index ?t k = Some i \<longleftrightarrow> i < length (cs_path ?t) \<and> cs_path ?t ! i = k" for i
      using I(5) [of k i] fresh nth_mem [of i "cs_path s"]
      by (auto simp: push_frame_succs nth_append less_Suc_eq)
  next
    fix j assume j: "Suc j < length (cs_path ?t)"
    show "cs_path ?t ! Suc j \<in> set (succs ns (cs_path ?t ! j))"
    proof (cases "Suc j < length (cs_path s)")
      case True
      with I(6) [of j] show ?thesis by (simp add: push_frame_succs nth_append)
    next
      case False
      with j have "j = length fs" by (simp add: push_frame_succs path)
      with p show ?thesis by (simp add: push_frame_succs path nth_append)
    qed
  next
    fix k rest assume "(k, rest) \<in> set (cs_frames ?t)"
    then have "(k, rest) = (p, succs ns p) \<or> (k, rest) \<in> set ((cur, ps) # fs)"
      by (simp add: push_frame_succs)
    with frames_advance [OF inv fr, of "(k, rest)"] show "set rest \<subseteq> set (succs ns k)" by (elim disjE) simp_all
  next
    fix a assume "clean a (cs_found ?t)"
    then have f: "clean a (cs_found s)" by (simp add: push_frame_succs)
    from I(10) [OF f] fr have "pending_ok ns a (black s) {} (cs_frames ?t)" by (auto simp: push_frame_succs)
    with I(11,12) [OF f] show "pending_ok ns a (black ?t) {} (cs_frames ?t)
       \<and> (\<forall>k \<in> black ?t. fst k = a \<longrightarrow> set (succs ns k) \<subseteq> black ?t)
       \<and> acyclic (edges_from ns a (black ?t))"
      unfolding blk by blast
  qed (use I(1,2,4,8,9) fr fresh in \<open>auto simp: push_frame_succs\<close>)
qed

lemma search_inv_close:
  assumes inv: "search_inv ns s" and fr: "cs_frames s = (cur, p # ps) # fs" and mark: "cs_marks s p = 1"
    and cl: "close_cycle p (s\<lparr>cs_frames := (cur, ps) # fs, cs_examined := n\<rparr>) = Inr s'"
  shows "search_inv ns s' \<and> cs_marks s' = cs_marks s"
proof -
  note I = search_invD [OF inv]
  have path: "cs_path s = rev (map fst fs) @ [cur]" by (rule frames_path [OF inv fr])
  have p: "p \<in> set (succs ns cur)" using I(7) [of cur "p # ps"] fr by auto
  have "p \<in> set (cs_path s)" using I(3) [of p] mark by simp
  then obtain i where i: "i < length (cs_path s)" "cs_path s ! i = p" by (auto simp: in_set_conv_nth)
  then have ix: "cs_path_index s p = Some i" using I(5) by simp
  let ?c = "drop i (cs_path s)"
  have ne: "?c \<noteq> []" using i by simp
  have "?c ! (Suc j mod length ?c) \<in> set (succs ns (?c ! j))" if j: "j < length ?c" for j
  proof (cases "Suc j = length ?c")
    case True
    then have "i + j = length fs" using i path by auto
    then have "cs_path s ! (i + j) = cur" by (simp add: path nth_append)
    then have "?c ! j = cur" using i by simp
    with True p i show ?thesis by simp
  next
    case False
    with j have "Suc (i + j) < length (cs_path s)" by simp
    from I(6) [OF this] False j i show ?thesis by simp
  qed
  then have "closed_walk ns ?c" using ne I(2) by (auto simp: closed_walk_def)
  then have walk: "closed_walk ns (canonical_rotation ?c)"
    unfolding canonical_rotation_rotate [OF ne] by (rule closed_walk_rotate)
  from cl ix have s': "s' = s\<lparr>cs_frames := (cur, ps) # fs, cs_examined := n,
      cs_members := cs_members s + (length (cs_path s) - i),
      cs_found := set_add (canonical_rotation ?c) (cs_found s)\<rparr>"
    by (auto simp: close_cycle_def Let_def result_simps)
  have cur: "cur \<in> set ?c"
  proof -
    have "last ?c = cur" using i by (simp add: last_drop path)
    with ne show ?thesis by (metis last_in_set)
  qed
  have sub: "set (set_add (canonical_rotation ?c) (cs_found s)) = insert (canonical_rotation ?c) (set (cs_found s))"
    by (auto simp: set_add_def)
  have "search_inv ns s'" unfolding s'
  proof (rule search_invI, goal_cases)
    case (7 k rest)
    with frames_advance [OF inv fr, of "(k, rest)"] show ?case by simp
  next
    case (9 c)
    then have "c = canonical_rotation ?c \<or> c \<in> set (cs_found s)" by (simp add: sub)
    with walk I(9) [of c] canonical_rotation_hd [of _ ?c] show ?case by auto
  next
    case (10 a)
    then have f: "clean a (cs_found s)" and "fst cur \<noteq> a" using cur by (simp_all add: clean_def sub)
    with I(10) [OF f] have "pending_ok ns a (black s) {} ((cur, ps) # fs)" unfolding fr by simp
    with I(11,12) [OF f] show ?case by (simp add: black_def)
  qed (use I(1-6,8) fr in \<open>auto simp: set_add_def\<close>)
  then show ?thesis unfolding s' by simp
qed

lemma cycle_loop_inv:
  "search_inv ns s \<Longrightarrow> cycle_loop ns s = Inr s' \<Longrightarrow>
     search_inv ns s' \<and> cs_frames s' = [] \<and> (\<forall>k. cs_marks s k \<noteq> 0 \<longrightarrow> cs_marks s' k \<noteq> 0)"
proof (induction ns s rule: cycle_loop.induct)
  case (1 ns s)
  note run = "1.prems"(2) [unfolded cycle_loop.simps [of ns s]]
  show ?case
  proof (cases "cs_frames s")
    case Nil
    with "1.prems" run show ?thesis by simp
  next
    case (Cons f fs)
    obtain cur rest where f: "f = (cur, rest)" by (cases f)
    show ?thesis
    proof (cases rest)
      case Nil
      note fr = Cons [unfolded f Nil]
      have "cycle_loop ns (pop_frame cur fs s) = Inr s'" using run by (simp add: fr)
      from "1.IH"(1) [OF fr refl refl search_inv_pop [OF "1.prems"(1) fr] this]
      show ?thesis by (auto simp: pop_frame_def split: if_splits)
    next
      case (Cons p ps)
      let ?s1 = "s\<lparr>cs_frames := (cur, ps) # fs, cs_examined := cs_examined s + 1\<rparr>"
      note fr = \<open>cs_frames s = f # fs\<close> [unfolded f Cons]
      have run': "(if max_edges < cs_examined ?s1 then Inl BOUNDED
          else if cs_marks ?s1 p = 1 then
            (case close_cycle p ?s1 of Inl e \<Rightarrow> Inl e | Inr s2 \<Rightarrow> cycle_loop ns s2)
          else if cs_marks ?s1 p = 0 then cycle_loop ns (push_frame ns p ?s1)
          else cycle_loop ns ?s1) = Inr s'" using run by (simp only: fr list.case prod.case Let_def)
      then have bound: "\<not> max_edges < cs_examined ?s1" by (auto split: if_splits)
      note IH = "1.IH"(2-4) [OF fr refl refl refl bound]
      consider "cs_marks s p = 1" | "cs_marks s p = 0" | "cs_marks s p = 2"
        using search_invD(4) [OF "1.prems"(1), of p] by linarith
      then show ?thesis
      proof cases
        case 1
        with run' bound obtain s2 where s2: "close_cycle p ?s1 = Inr s2" "cycle_loop ns s2 = Inr s'"
          by (auto split: sum.splits)
        from search_inv_close [OF "1.prems"(1) fr 1 s2(1)] IH(1) [OF _ s2(1)] s2(2) 1
        show ?thesis by simp
      next
        case 2
        with run' bound have "cycle_loop ns (push_frame ns p ?s1) = Inr s'" by simp
        with IH(2) [OF _ _ search_inv_push [OF "1.prems"(1) fr 2]] 2
        show ?thesis by (auto simp: push_frame_def split: if_splits)
      next
        case 3
        with run' bound have "cycle_loop ns ?s1 = Inr s'" by simp
        with IH(3) [OF _ _ search_inv_skip [OF "1.prems"(1) fr 3]] 3
        show ?thesis by simp
      qed
    qed
  qed
qed

lemma search_inv_init: "search_inv ns cycle_init"
  by (rule search_invI) (auto simp: cycle_init_def black_def edges_from_def acyclic_def)

text \<open>Starting a new root: the path and the frames are empty, so the state is reset to itself.\<close>

lemma search_inv_root:
  assumes inv: "search_inv ns s" and fr: "cs_frames s = []" and mark: "cs_marks s k = 0"
  shows "search_inv ns (push_frame ns k (s\<lparr>cs_path := [], cs_path_index := (\<lambda>_. None), cs_frames := []\<rparr>))"
    (is "search_inv ns ?t")
proof -
  note I = search_invD [OF inv]
  have path: "cs_path s = []" using I(1) fr by simp
  have blk: "black ?t = black s" using mark by (auto simp: black_def push_frame_succs)
  show ?thesis
  proof (rule search_invI)
    fix a assume "clean a (cs_found ?t)"
    then have f: "clean a (cs_found s)" by (simp add: push_frame_succs)
    show "pending_ok ns a (black ?t) {} (cs_frames ?t)
       \<and> (\<forall>k \<in> black ?t. fst k = a \<longrightarrow> set (succs ns k) \<subseteq> black ?t)
       \<and> acyclic (edges_from ns a (black ?t))"
      unfolding blk using I(11,12) [OF f] by (simp add: push_frame_succs)
  qed (use I(3,4,8,9) mark path in \<open>auto simp: push_frame_succs\<close>)
qed

lemma cycle_root_inv:
  assumes "search_inv ns s" "cs_frames s = []" and "cycle_root ns s k = Inr s'"
  shows "search_inv ns s' \<and> cs_frames s' = [] \<and> cs_marks s' k \<noteq> 0
    \<and> (\<forall>j. cs_marks s j \<noteq> 0 \<longrightarrow> cs_marks s' j \<noteq> 0)"
proof (cases "cs_marks s k = 0")
  case False
  with assms show ?thesis by (auto simp: cycle_root_def)
next
  case True
  with assms(3) have "cycle_loop ns (push_frame ns k (s\<lparr>cs_path := [], cs_path_index := (\<lambda>_. None), cs_frames := []\<rparr>)) = Inr s'"
    by (simp add: cycle_root_def)
  from cycle_loop_inv [OF search_inv_root [OF assms(1,2) True] this]
  show ?thesis by (auto simp: push_frame_def split: if_splits)
qed

lemma cycle_roots_inv:
  assumes "rfold (cycle_root ns) cycle_init ks = Inr s"
  shows "search_inv ns s \<and> cs_frames s = [] \<and> set ks \<subseteq> {k. cs_marks s k \<noteq> 0}"
  using assms
proof (rule rfold_invariant [where P = "\<lambda>s ks. search_inv ns s \<and> cs_frames s = [] \<and> set ks \<subseteq> {k. cs_marks s k \<noteq> 0}"])
  show "search_inv ns cycle_init \<and> cs_frames cycle_init = [] \<and> set [] \<subseteq> {k. cs_marks cycle_init k \<noteq> 0}"
    using search_inv_init by (simp add: cycle_init_def)
  fix s ys k s'
  assume "search_inv ns s \<and> cs_frames s = [] \<and> set ys \<subseteq> {k. cs_marks s k \<noteq> 0}" and "cycle_root ns s k = Inr s'"
  with cycle_root_inv [of ns s k s'] show "search_inv ns s' \<and> cs_frames s' = [] \<and> set (ys @ [k]) \<subseteq> {k. cs_marks s' k \<noteq> 0}"
    by auto
qed

text \<open>The search decides, for every artifact, whether its versions have a cycle.\<close>

lemma succs_fst: "q \<in> set (succs ns k) \<Longrightarrow> fst q = fst k"
proof (cases "by_key ns k")
  case (Some n)
  assume "q \<in> set (succs ns k)"
  with Some by_key_Some [OF Some] show ?thesis by (auto simp: succs_def parent_keys_def node_key_def)
qed (simp add: succs_def)

lemma trancl_fst: "(x, y) \<in> (parent_edges ns)\<^sup>+ \<Longrightarrow> fst y = fst x"
  by (induction rule: trancl_induct) (auto simp: parent_edges_def dest: succs_fst)

definition artifact_edges :: "version_node list \<Rightarrow> string \<Rightarrow> (vkey \<times> vkey) set" where
  "artifact_edges ns a = {(x, y). (x, y) \<in> parent_edges ns \<and> fst x = a}"

lemma closed_walk_trancl:
  assumes c: "closed_walk ns c" and k: "k \<in> set c"
  shows "(k, k) \<in> (parent_edges ns)\<^sup>+"
proof -
  let ?n = "length c"
  obtain i0 where i0: "i0 < ?n" "c ! i0 = k" using k by (auto simp: in_set_conv_nth)
  let ?d = "rotate i0 c"
  have d: "closed_walk ns ?d" by (rule closed_walk_rotate [OF c])
  have "?d ! 0 = c ! ((i0 + 0) mod ?n)" using i0(1) by (intro nth_rotate) auto
  then have d0: "?d ! 0 = k" using i0 by simp
  have edge: "(?d ! i, ?d ! (Suc i mod ?n)) \<in> parent_edges ns" if "i < ?n" for i
    using d that by (simp add: closed_walk_def parent_edges_def)
  have "(?d ! 0, ?d ! (Suc i mod ?n)) \<in> (parent_edges ns)\<^sup>+" if "i < ?n" for i
    using that
  proof (induction i)
    case 0
    with edge [OF 0] show ?case by auto
  next
    case (Suc i)
    with edge [OF Suc.prems] show ?case by (auto intro: trancl_into_trancl)
  qed
  from this [of "?n - 1"] i0(1) have "(?d ! 0, ?d ! (Suc (?n - 1) mod ?n)) \<in> (parent_edges ns)\<^sup>+"
    by (metis diff_less gr_implies_not0 neq0_conv zero_less_one)
  moreover have "Suc (?n - 1) mod ?n = 0" using i0(1) by (cases ?n) simp_all
  ultimately have "(?d ! 0, ?d ! 0) \<in> (parent_edges ns)\<^sup>+" by simp
  then show ?thesis unfolding d0 .
qed

lemma trancl_artifact: "(x, y) \<in> (parent_edges ns)\<^sup>+ \<Longrightarrow> fst x = a \<Longrightarrow> (x, y) \<in> (artifact_edges ns a)\<^sup>+"
proof (induction rule: trancl_induct)
  case (step y z)
  then have "fst y = a" using trancl_fst by blast
  with step show ?case by (auto simp: artifact_edges_def intro: trancl_into_trancl)
qed (auto simp: artifact_edges_def)

lemma cycle_roots_decide:
  assumes run: "rfold (cycle_root ns) cycle_init ks = Inr s" and ks: "node_key ` set ns \<subseteq> set ks"
  shows "clean a (cs_found s) \<longleftrightarrow> acyclic (artifact_edges ns a)"
proof
  from cycle_roots_inv [OF run] have inv: "search_inv ns s" and fr: "cs_frames s = []"
    and vis: "set ks \<subseteq> {k. cs_marks s k \<noteq> 0}" by auto
  note I = search_invD [OF inv]
  have path: "cs_path s = []" using I(1) fr by simp
  have blk: "node_key ` set ns \<subseteq> black s"
  proof
    fix k assume "k \<in> node_key ` set ns"
    with ks vis have "cs_marks s k \<noteq> 0" by auto
    moreover have "cs_marks s k \<noteq> 1" "cs_marks s k \<le> 2" using I(3) [of k] I(4) [of k] path by simp_all
    ultimately show "k \<in> black s" unfolding black_def mem_Collect_eq by linarith
  qed
  {
    assume f: "clean a (cs_found s)"
    have "artifact_edges ns a \<subseteq> edges_from ns a (black s)"
      using blk succs_outside [of _ ns] by (fastforce simp: parent_edges_def artifact_edges_def edges_from_def)
    then show "acyclic (artifact_edges ns a)" by (rule acyclic_subset [OF I(12) [OF f]])
  next
    assume ac: "acyclic (artifact_edges ns a)"
    show "clean a (cs_found s)"
      unfolding clean_def
    proof (intro ballI notI)
      fix c k assume "c \<in> set (cs_found s)" "k \<in> set c" "fst k = a"
      with I(9) [of c] closed_walk_trancl [of ns c k] trancl_artifact [of k k ns a]
      have "(k, k) \<in> (artifact_edges ns a)\<^sup>+" by simp
      with ac show False unfolding acyclic_def by blast
    qed
  }
qed

section \<open>The search never exceeds its edge budget\<close>

definition edge_cost :: "version_node list \<Rightarrow> vkey set \<Rightarrow> nat" where
  "edge_cost ns S = (\<Sum>k \<in> S. length (succs ns k))"

definition touched :: "version_node list \<Rightarrow> cycle_search \<Rightarrow> vkey set" where
  "touched ns s = {k \<in> node_key ` set ns. cs_marks s k \<noteq> 0}"

definition in_budget :: "version_node list \<Rightarrow> cycle_search \<Rightarrow> bool" where
  "in_budget ns s \<longleftrightarrow>
     cs_examined s + sum_list (map (\<lambda>(k, rest). length rest) (cs_frames s)) = edge_cost ns (touched ns s)"

lemma touched_frames [simp]: "touched ns (s\<lparr>cs_frames := fs, cs_examined := n\<rparr>) = touched ns s"
  by (simp add: touched_def)

lemma touched_cost: "edge_cost ns (touched ns s) \<le> edge_cost ns (node_key ` set ns)"
  unfolding edge_cost_def touched_def by (intro sum_mono2) auto

lemma touched_mark:
  assumes "p \<in> node_key ` set ns" and "cs_marks s p = 0" and "cs_marks t = (cs_marks s)(p := 1)"
  shows "edge_cost ns (touched ns t) = length (succs ns p) + edge_cost ns (touched ns s)"
proof -
  have "touched ns t = insert p (touched ns s)" "p \<notin> touched ns s" "finite (touched ns s)"
    using assms by (auto simp: touched_def)
  then show ?thesis by (simp add: edge_cost_def)
qed

lemma path_reach:
  assumes inv: "search_inv ns s" and "i \<le> j" and "j < length (cs_path s)"
  shows "(cs_path s ! i, cs_path s ! j) \<in> (parent_edges ns)\<^sup>*"
  using assms(2,3)
proof (induction j rule: nat_induct_at_least)
  case (Suc j)
  with search_invD(6) [OF inv, of j] show ?case by (auto simp: parent_edges_def intro: rtrancl_into_rtrancl)
qed simp

lemma acyclic_no_grey:
  assumes inv: "search_inv ns s" and fr: "cs_frames s = (cur, p # ps) # fs" and ac: "acyclic (parent_edges ns)"
  shows "cs_marks s p \<noteq> 1"
proof
  assume "cs_marks s p = 1"
  then have "p \<in> set (cs_path s)" using search_invD(3) [OF inv] by simp
  then obtain i where i: "i < length (cs_path s)" "cs_path s ! i = p" by (auto simp: in_set_conv_nth)
  have "cs_path s = rev (map fst fs) @ [cur]" by (rule frames_path [OF inv fr])
  then have len: "length (cs_path s) = Suc (length fs)" "cs_path s ! length fs = cur" by (simp_all add: nth_append)
  with path_reach [OF inv, of i "length fs"] i have "(p, cur) \<in> (parent_edges ns)\<^sup>*" by simp
  moreover have "(cur, p) \<in> parent_edges ns"
    using search_invD(7) [OF inv, of cur "p # ps"] fr by (auto simp: parent_edges_def)
  ultimately show False using ac unfolding acyclic_def by (blast intro: rtrancl_into_trancl1)
qed

lemma cycle_loop_total:
  "search_inv ns s \<Longrightarrow> in_budget ns s \<Longrightarrow> acyclic (parent_edges ns) \<Longrightarrow>
   edge_cost ns (node_key ` set ns) \<le> max_edges \<Longrightarrow> \<exists>s'. cycle_loop ns s = Inr s' \<and> in_budget ns s'"
proof (induction ns s rule: cycle_loop.induct)
  case (1 ns s)
  note eq = cycle_loop.simps [of ns s]
  show ?case
  proof (cases "cs_frames s")
    case Nil
    with "1.prems" eq show ?thesis by simp
  next
    case (Cons f fs)
    obtain cur rest where f: "f = (cur, rest)" by (cases f)
    show ?thesis
    proof (cases rest)
      case Nil
      note fr = Cons [unfolded f Nil]
      have "cs_marks s cur \<noteq> 0"
        using search_invD(3) [OF "1.prems"(1), of cur] frames_path [OF "1.prems"(1) fr] by simp
      then have "touched ns (pop_frame cur fs s) = touched ns s" by (auto simp: touched_def pop_frame_def)
      then have "in_budget ns (pop_frame cur fs s)"
        using "1.prems"(2) fr by (simp add: in_budget_def) (simp add: pop_frame_def)
      from "1.IH"(1) [OF fr refl refl search_inv_pop [OF "1.prems"(1) fr] this "1.prems"(3,4)]
      show ?thesis by (simp add: eq fr)
    next
      case (Cons p ps)
      let ?s1 = "s\<lparr>cs_frames := (cur, ps) # fs, cs_examined := cs_examined s + 1\<rparr>"
      note fr = \<open>cs_frames s = f # fs\<close> [unfolded f Cons]
      have p: "p \<in> node_key ` set ns"
        using search_invD(7) [OF "1.prems"(1), of cur "p # ps"] fr succs_within [of p ns cur] by simp
      have b1: "in_budget ns ?s1" using "1.prems"(2) fr by (simp add: in_budget_def)
      have "cs_examined ?s1 \<le> edge_cost ns (touched ns s)"
        using "1.prems"(2) fr by (simp add: in_budget_def)
      also have "\<dots> \<le> max_edges" using touched_cost [of ns s] "1.prems"(4) by linarith
      finally have bound: "\<not> max_edges < cs_examined ?s1" by simp
      note IH = "1.IH"(3,4) [OF fr refl refl refl bound]
      have run: "cycle_loop ns s = (if cs_marks s p = 1 then
            (case close_cycle p ?s1 of Inl e \<Rightarrow> Inl e | Inr s2 \<Rightarrow> cycle_loop ns s2)
          else if cs_marks s p = 0 then cycle_loop ns (push_frame ns p ?s1) else cycle_loop ns ?s1)"
        using bound by (subst eq) (simp add: fr Let_def)
      have grey: "cs_marks s p \<noteq> 1" by (rule acyclic_no_grey [OF "1.prems"(1) fr "1.prems"(3)])
      show ?thesis
      proof (cases "cs_marks s p = 0")
        case True
        have "edge_cost ns (touched ns (push_frame ns p ?s1)) = length (succs ns p) + edge_cost ns (touched ns ?s1)"
          by (rule touched_mark [OF p]) (simp_all add: True push_frame_def)
        then have "in_budget ns (push_frame ns p ?s1)" using b1 by (simp add: in_budget_def push_frame_succs)
        from IH(1) [OF _ _ search_inv_push [OF "1.prems"(1) fr True] this "1.prems"(3,4)] True
        show ?thesis by (simp add: run)
      next
        case False
        with grey search_invD(4) [OF "1.prems"(1), of p] have "cs_marks s p = 2" by linarith
        from IH(2) [OF _ _ search_inv_skip [OF "1.prems"(1) fr this] b1 "1.prems"(3,4)] False grey
        show ?thesis by (simp add: run)
      qed
    qed
  qed
qed

lemma cycle_roots_total:
  assumes "acyclic (parent_edges ns)" and "edge_cost ns (node_key ` set ns) \<le> max_edges"
    and "set ks \<subseteq> node_key ` set ns" and "search_inv ns s" "cs_frames s = []" "in_budget ns s"
  shows "\<exists>s'. rfold (cycle_root ns) s ks = Inr s'"
  using assms(3-6)
proof (induction ks arbitrary: s)
  case (Cons k ks)
  have "\<exists>t. cycle_root ns s k = Inr t \<and> in_budget ns t"
  proof (cases "cs_marks s k = 0")
    case False
    with Cons.prems show ?thesis by (simp add: cycle_root_def)
  next
    case True
    let ?t = "push_frame ns k (s\<lparr>cs_path := [], cs_path_index := (\<lambda>_. None), cs_frames := []\<rparr>)"
    have "edge_cost ns (touched ns ?t) = length (succs ns k) + edge_cost ns (touched ns s)"
      by (rule touched_mark) (use Cons.prems(1) True in \<open>simp_all add: push_frame_def\<close>)
    with Cons.prems(3,4) have "in_budget ns ?t" by (simp add: in_budget_def push_frame_succs)
    from cycle_loop_total [OF search_inv_root [OF Cons.prems(2,3) True] this assms(1,2)] True
    show ?thesis by (simp add: cycle_root_def)
  qed
  then obtain t where t: "cycle_root ns s k = Inr t" "in_budget ns t" by blast
  with cycle_root_inv [OF Cons.prems(2,3) t(1)] Cons show ?case by simp
qed simp

lemma edge_cost_parents:
  assumes "distinct (map node_key ns)"
  shows "edge_cost ns (node_key ` set ns) \<le> (\<Sum>n \<in> set ns. length (parents n))"
proof -
  have "edge_cost ns (node_key ` set ns) \<le> (\<Sum>n \<in> set ns. length (succs ns (node_key n)))"
    unfolding edge_cost_def using sum_image_le [of "set ns" "\<lambda>k. length (succs ns k)" node_key] by (simp add: comp_def)
  also have "\<dots> \<le> (\<Sum>n \<in> set ns. length (parents n))"
  proof (rule sum_mono)
    fix n assume "n \<in> set ns"
    then have "by_key ns (node_key n) = Some n" using by_key_distinct [OF assms] by simp
    then show "length (succs ns (node_key n)) \<le> length (parents n)"
      using length_filter_le by (fastforce simp: succs_def parent_keys_def)
  qed
  finally show ?thesis .
qed

lemma sum_set_le_sum_list: "(\<Sum>x \<in> set xs. f x) \<le> sum_list (map f xs)" for f :: "'a \<Rightarrow> nat"
proof (induction xs)
  case (Cons x xs)
  then show ?case by (cases "x \<in> set xs") (simp_all add: insert_absorb)
qed simp

section \<open>Grouping by key\<close>

definition groups_ok :: "version_node list \<Rightarrow> (vkey \<times> version_node list) list \<Rightarrow> bool" where
  "groups_ok input g \<longleftrightarrow> distinct (map fst g) \<and> set (map fst g) = node_key ` set input
     \<and> (\<forall>(k, ns) \<in> set g. distinct ns \<and> set ns = {n \<in> set input. node_key n = k})"

lemma group_add_keys: "set (map fst (group_add n g)) = insert (node_key n) (set (map fst g))"
  by (induction n g rule: group_add.induct) auto

lemma group_add_distinct: "distinct (map fst g) \<Longrightarrow> distinct (map fst (group_add n g))"
proof (induction n g rule: group_add.induct)
  case (2 n k ns g)
  then show ?case using group_add_keys [of n g] by auto
qed simp

lemma group_add_mem:
  assumes "distinct (map fst g)"
  shows "(k, ns) \<in> set (group_add n g) \<longleftrightarrow>
    (if k = node_key n then (if k \<in> fst ` set g then (\<exists>ms. (k, ms) \<in> set g \<and> ns = (if n \<in> set ms then ms else ms @ [n]))
       else ns = [n]) else (k, ns) \<in> set g)"
  using assms
proof (induction n g rule: group_add.induct)
  case (2 n k' ns' g)
  then show ?case
    by (cases "k' = node_key n"; cases "k = node_key n") (auto simp: image_iff)
qed auto

lemma groups_ok_add:
  assumes ok: "groups_ok input g"
  shows "groups_ok (input @ [n]) (group_add n g)"
proof -
  have d: "distinct (map fst g)" and ks: "fst ` set g = node_key ` set input"
    and mem: "\<And>k ns. (k, ns) \<in> set g \<Longrightarrow> distinct ns \<and> set ns = {m \<in> set input. node_key m = k}"
    using ok by (auto simp: groups_ok_def)
  have "distinct ns \<and> set ns = {m \<in> set (input @ [n]). node_key m = k}" if m: "(k, ns) \<in> set (group_add n g)" for k ns
  proof (cases "k = node_key n")
    case False
    with m have "(k, ns) \<in> set g" by (simp add: group_add_mem [OF d])
    from mem [OF this] False show ?thesis by auto
  next
    case k: True
    show ?thesis
    proof (cases "k \<in> fst ` set g")
      case True
      with m k obtain ms where ms: "(k, ms) \<in> set g" "ns = (if n \<in> set ms then ms else ms @ [n])"
        by (auto simp: group_add_mem [OF d])
      from mem [OF ms(1)] k ms(2) show ?thesis by auto
    next
      case False
      with m k have "ns = [n]" by (auto simp: group_add_mem [OF d])
      moreover have "\<not> (\<exists>m \<in> set input. node_key m = k)" using False ks by auto
      ultimately show ?thesis using k by auto
    qed
  qed
  with group_add_distinct [OF d, of n] group_add_keys [of n g] ks show ?thesis
    by (auto simp: groups_ok_def)
qed

lemma admit_nodes_groups:
  assumes "rfold admit_node ([], 0, 0) input = Inr (g, nc, ec)"
  shows "groups_ok input g \<and> nc = length input \<and> ec = sum_list (map (\<lambda>n. length (parents n)) input)
    \<and> (input = [] \<or> nc \<le> max_nodes \<and> ec \<le> max_edges)"
proof -
  let ?P = "\<lambda>(g, nc, ec) input. groups_ok input g \<and> nc = length input \<and> ec = sum_list (map (\<lambda>n. length (parents n)) input)
    \<and> (input = [] \<or> nc \<le> max_nodes \<and> ec \<le> max_edges)"
  have "?P (g, nc, ec) input"
    using assms
  proof (rule rfold_invariant [where P = ?P])
    show "?P ([], 0, 0) []" by (simp add: groups_ok_def)
    fix s ys n s'
    assume P: "?P s ys" and st: "admit_node s n = Inr s'"
    obtain g nc ec where s: "s = (g, nc, ec)" by (cases s)
    from st s have s': "s' = (group_add n g, nc + 1, ec + length (parents n))" and
      b: "nc + 1 \<le> max_nodes" "ec + length (parents n) \<le> max_edges"
      by (auto simp: admit_node_def Let_def result_simps)
    from P s b groups_ok_add [of ys g n] show "?P s' (ys @ [n])" unfolding s' by simp
  qed
  then show ?thesis unfolding prod.case .
qed

definition singles :: "(vkey \<times> version_node list) list \<Rightarrow> version_node list" where
  "singles g = concat (map snd (filter (\<lambda>(k, ns). length ns = 1) g))"

lemma singles_keys:
  assumes "\<And>k ns. (k, ns) \<in> set g \<Longrightarrow> set ns \<subseteq> {n. node_key n = k}"
  shows "map node_key (singles g) = map fst (filter (\<lambda>(k, ns). length ns = 1) g)"
  using assms
proof (induction g)
  case (Cons e g)
  obtain k ns where e: "e = (k, ns)" by (cases e)
  have "set ns \<subseteq> {n. node_key n = k}" using Cons.prems [of k ns] e by simp
  moreover have "map node_key (singles g) = map fst (filter (\<lambda>(k, ns). length ns = 1) g)"
    using Cons by simp
  ultimately show ?case by (auto simp: singles_def e length_Suc_conv)
qed (simp add: singles_def)

lemma singles_set: "n \<in> set (singles g) \<longleftrightarrow> (\<exists>k. (k, [n]) \<in> set g)"
  by (auto simp: singles_def length_Suc_conv)

lemma groups_okD: "groups_ok input g \<Longrightarrow> (k, ns) \<in> set g \<Longrightarrow> distinct ns \<and> set ns = {n \<in> set input. node_key n = k}"
  by (auto simp: groups_ok_def)

lemma groups_singles:
  assumes "groups_ok input g"
  shows "set (singles g) = {n \<in> set input. \<forall>m \<in> set input. node_key m = node_key n \<longrightarrow> m = n}"
proof (intro set_eqI iffI)
  fix n assume "n \<in> set (singles g)"
  then obtain k where "(k, [n]) \<in> set g" by (auto simp: singles_set)
  from groups_okD [OF assms this] have e: "m = n \<longleftrightarrow> m \<in> set input \<and> node_key m = k" for m by (simp add: set_eq_iff)
  have n: "n \<in> set input" "node_key n = k" using e [of n] by simp_all
  have "m = n" if "m \<in> set input" "node_key m = node_key n" for m using that e [of m] n by simp
  with n(1) show "n \<in> {n \<in> set input. \<forall>m \<in> set input. node_key m = node_key n \<longrightarrow> m = n}" by blast
next
  fix n assume n: "n \<in> {n \<in> set input. \<forall>m \<in> set input. node_key m = node_key n \<longrightarrow> m = n}"
  then have "node_key n \<in> fst ` set g" using assms by (auto simp: groups_ok_def)
  then obtain ns where ns: "(node_key n, ns) \<in> set g" by auto
  from groups_okD [OF assms this] have s: "distinct ns" "set ns = {m \<in> set input. node_key m = node_key n}" by simp_all
  with n have "set ns = {n}" by (auto simp: set_eq_iff)
  with s(1) have "ns = [n]" by (rule distinct_set_single)
  with ns show "n \<in> set (singles g)" by (auto simp: singles_set)
qed

lemma groups_ok_sort: "groups_ok input g \<Longrightarrow> groups_ok input (sort_key fst g)"
proof -
  assume g: "groups_ok input g"
  have "mset (map fst (sort_key fst g)) = mset (map fst g)" by (simp add: mset_map)
  from mset_eq_imp_distinct_iff [OF this] g show ?thesis by (simp add: groups_ok_def)
qed

lemma groups_collisions:
  assumes "groups_ok input g"
  shows "set (map fst (filter (\<lambda>(k, ns). 1 < length ns) g))
    = {k. \<exists>m \<in> set input. \<exists>n \<in> set input. m \<noteq> n \<and> node_key m = k \<and> node_key n = k}"
proof (intro set_eqI iffI)
  fix k assume "k \<in> set (map fst (filter (\<lambda>(k, ns). 1 < length ns) g))"
  then obtain ns where ns: "(k, ns) \<in> set g" "1 < length ns" by auto
  then obtain m n rest where "ns = m # n # rest" by (cases ns; cases "tl ns") auto
  with groups_okD [OF assms ns(1)] have "m \<noteq> n" "{m, n} \<subseteq> {n \<in> set input. node_key n = k}" by auto
  then show "k \<in> {k. \<exists>m \<in> set input. \<exists>n \<in> set input. m \<noteq> n \<and> node_key m = k \<and> node_key n = k}" by blast
next
  fix k assume "k \<in> {k. \<exists>m \<in> set input. \<exists>n \<in> set input. m \<noteq> n \<and> node_key m = k \<and> node_key n = k}"
  then obtain m n where mn: "m \<in> set input" "n \<in> set input" "m \<noteq> n" "node_key m = k" "node_key n = k" by blast
  with assms have "k \<in> fst ` set g" by (auto simp: groups_ok_def)
  then obtain ns where ns: "(k, ns) \<in> set g" by auto
  from groups_okD [OF assms this] mn have "m \<in> set ns" "n \<in> set ns" by auto
  with mn(3) have "1 < length ns" by (cases ns; cases "tl ns") auto
  with ns show "k \<in> set (map fst (filter (\<lambda>(k, ns). 1 < length ns) g))" by force
qed

text \<open>What a successful build computes: every field is a function of the set of input nodes.\<close>

lemma build_version_graph_parts:
  assumes "build_version_graph input = Inr gr"
  shows "set (nodes gr) = {n \<in> set input. \<forall>m \<in> set input. node_key m = node_key n \<longrightarrow> m = n}"
    and "sorted (map node_key (nodes gr))" and "distinct (map node_key (nodes gr))"
    and "set (collisions gr) = {k. \<exists>m \<in> set input. \<exists>n \<in> set input. m \<noteq> n \<and> node_key m = k \<and> node_key n = k}"
    and "sorted (collisions gr)" and "distinct (collisions gr)"
    and "missing_parents gr = sort (concat (map (\<lambda>n. filter (\<lambda>k. k \<notin> node_key ` set (nodes gr))
           (map (\<lambda>p. (artifact_id n, p)) (parents n))) (nodes gr)))"
    and "find_cycles (nodes gr) (collisions gr) = Inr (cycles gr)"
proof -
  from assms obtain g nc ec cyc where run: "rfold admit_node ([], 0, 0) input = Inr (g, nc, ec)"
    and cyc: "find_cycles (singles (sort_key fst g)) (sort (map fst (filter (\<lambda>(k, ns). 1 < length ns) g))) = Inr cyc"
    and gr: "gr = \<lparr>nodes = singles (sort_key fst g), collisions = sort (map fst (filter (\<lambda>(k, ns). 1 < length ns) g)),
      missing_parents = sort (concat (map (\<lambda>n. filter (\<lambda>k. k \<notin> node_key ` set (singles (sort_key fst g)))
           (map (\<lambda>p. (artifact_id n, p)) (parents n))) (singles (sort_key fst g)))), cycles = cyc\<rparr>"
    by (auto simp: build_version_graph_def result_simps singles_def Let_def)
  have ok: "groups_ok input g" using admit_nodes_groups [OF run] by simp
  note srt = groups_ok_sort [OF ok]
  have keys: "map node_key (nodes gr) = map fst (filter (\<lambda>(k, ns). length ns = 1) (sort_key fst g))"
    unfolding gr version_graph.simps by (rule singles_keys) (use groups_okD [OF srt] in blast)
  have d: "distinct (map fst (sort_key fst g))" "distinct (map fst g)"
    using ok srt by (simp_all add: groups_ok_def)
  show "set (nodes gr) = {n \<in> set input. \<forall>m \<in> set input. node_key m = node_key n \<longrightarrow> m = n}"
    using groups_singles [OF srt] by (simp add: gr)
  show "sorted (map node_key (nodes gr))" unfolding keys by (intro sorted_filter sorted_sort_key)
  show "distinct (map node_key (nodes gr))" unfolding keys using d(1) by (rule distinct_map_fst_filter)
  show "set (collisions gr) = {k. \<exists>m \<in> set input. \<exists>n \<in> set input. m \<noteq> n \<and> node_key m = k \<and> node_key n = k}"
    using groups_collisions [OF ok] by (simp add: gr)
  show "sorted (collisions gr)" "distinct (collisions gr)"
    using distinct_map_fst_filter [OF d(2)] by (simp_all add: gr)
  show "missing_parents gr = sort (concat (map (\<lambda>n. filter (\<lambda>k. k \<notin> node_key ` set (nodes gr))
           (map (\<lambda>p. (artifact_id n, p)) (parents n))) (nodes gr)))"
    by (simp add: gr)
  show "find_cycles (nodes gr) (collisions gr) = Inr (cycles gr)" using cyc by (simp add: gr)
qed

lemma find_cycles_decide:
  assumes run: "find_cycles ns coll = Inr cyc" and disj: "\<And>n. n \<in> set ns \<Longrightarrow> node_key n \<notin> set coll"
  shows "clean a cyc \<longleftrightarrow> acyclic (artifact_edges ns a)" and "sorted cyc" and "distinct cyc"
    and "\<And>c. c \<in> set cyc \<Longrightarrow> closed_walk ns c \<and> (\<forall>y \<in> set c. hd c \<le> y)"
proof -
  have known: "filter (\<lambda>n. node_key n \<notin> set coll) ns = ns" using disj by (simp add: filter_id_conv)
  from run obtain s where s: "rfold (cycle_root ns) cycle_init (sort (remdups (map node_key ns))) = Inr s"
    and cyc: "cyc = sort (cs_found s)"
    by (auto simp: find_cycles_def Let_def known result_simps)
  from cycle_roots_inv [OF s] have inv: "search_inv ns s" by simp
  have "clean a (cs_found s) \<longleftrightarrow> acyclic (artifact_edges ns a)" by (rule cycle_roots_decide [OF s]) simp
  then show "clean a cyc \<longleftrightarrow> acyclic (artifact_edges ns a)" by (simp add: cyc clean_def)
  show "sorted cyc" "distinct cyc" using search_invD(8) [OF inv] by (simp_all add: cyc)
  show "closed_walk ns c \<and> (\<forall>y \<in> set c. hd c \<le> y)" if "c \<in> set cyc" for c
    using search_invD(9) [OF inv, of c] that by (simp add: cyc)
qed

lemma graph_keys_disjoint:
  assumes "build_version_graph input = Inr gr" and "n \<in> set (nodes gr)"
  shows "node_key n \<notin> set (collisions gr)"
proof
  note parts = build_version_graph_parts [OF assms(1)]
  assume "node_key n \<in> set (collisions gr)"
  then obtain m m' where m: "m \<in> set input" "m' \<in> set input" "m \<noteq> m'" "node_key m = node_key n" "node_key m' = node_key n"
    unfolding parts(4) by blast
  from assms(2) have "\<And>m. m \<in> set input \<Longrightarrow> node_key m = node_key n \<Longrightarrow> m = n" unfolding parts(1) by blast
  from this [OF m(1,4)] this [OF m(2,5)] m(3) show False by simp
qed

section \<open>Ancestor searches\<close>

text \<open>Both work-list searches keep the found keys closed up to the pending ones; these two facts
  about a relation are all they need.\<close>

lemma closed_upto_reach:
  assumes "\<And>k. k \<in> F \<Longrightarrow> E `` {k} \<subseteq> F \<union> P" and "x \<in> F"
  shows "E\<^sup>* `` {x} \<subseteq> F \<union> E\<^sup>* `` P"
proof
  fix y assume "y \<in> E\<^sup>* `` {x}"
  then have "(x, y) \<in> E\<^sup>*" by simp
  then show "y \<in> F \<union> E\<^sup>* `` P"
  proof (induction rule: rtrancl_induct)
    case base
    with assms(2) show ?case by simp
  next
    case (step y z)
    then show ?case using assms(1) [of y] by (auto intro: rtrancl_into_rtrancl)
  qed
qed

lemma reach_unfold: "E\<^sup>* `` {x} = insert x (E\<^sup>* `` (E `` {x}))"
  by (auto elim: converse_rtranclE intro: converse_rtrancl_into_rtrancl)

lemma reach_step: "insert x F \<union> E\<^sup>* `` (E `` {x} \<union> P) = F \<union> E\<^sup>* `` insert x P"
proof -
  have "E\<^sup>* `` insert x P = E\<^sup>* `` {x} \<union> E\<^sup>* `` P" by blast
  then show ?thesis using reach_unfold [of E x] by (simp add: Image_Un Un_ac)
qed

lemma trancl_image: "E\<^sup>* `` (E `` C) = E\<^sup>+ `` C"
  by (fastforce dest: tranclD intro: rtrancl_into_trancl2)

definition known_of :: "version_node list \<Rightarrow> string \<Rightarrow> string list \<Rightarrow> vkey set" where
  "known_of ns a ps = {(a, p) | p. p \<in> set ps \<and> by_key ns (a, p) \<noteq> None}"

lemma known_of_simps:
  "known_of ns a [] = {}"
  "known_of ns a (p # ps) = (if by_key ns (a, p) = None then {} else {(a, p)}) \<union> known_of ns a ps"
  "known_of ns a (ps @ qs) = known_of ns a ps \<union> known_of ns a qs"
  "known_of ns a (rev ps) = known_of ns a ps"
  by (auto simp: known_of_def)

lemma known_of_parents: "by_key ns k = Some n \<Longrightarrow> fst k = a \<Longrightarrow> known_of ns a (parents n) = parent_edges ns `` {k}"
  using by_key_Some [of ns k n]
  by (auto simp: known_of_def parent_edges_def succs_def parent_keys_def node_key_def)

lemma ancestor_loop_reach:
  "(\<And>k. k \<in> set found \<Longrightarrow> parent_edges ns `` {k} \<subseteq> set found \<union> known_of ns a pending) \<Longrightarrow>
   set found \<subseteq> node_key ` set ns \<Longrightarrow> distinct found \<Longrightarrow> length ns < max_edges \<Longrightarrow>
   \<exists>r. ancestor_loop ns a pending found = Inr r \<and> distinct r
     \<and> set r = set found \<union> (parent_edges ns)\<^sup>* `` known_of ns a pending"
proof (induction ns a pending found rule: ancestor_loop.induct)
  case (1 ns a pending found)
  let ?E = "parent_edges ns"
  have "length found = card (set found)" using "1.prems"(3) by (simp add: distinct_card)
  also have "\<dots> \<le> card (node_key ` set ns)" using "1.prems"(2) by (intro card_mono) simp_all
  also have "\<dots> \<le> length ns" using card_image_le [of "set ns" node_key] card_length [of ns] by (auto intro: order_trans)
  finally have few: "\<not> max_edges \<le> length found" using "1.prems"(4) by simp
  show ?case
  proof (cases pending)
    case Nil
    with "1.prems" show ?thesis by (simp add: ancestor_loop.simps known_of_simps)
  next
    case (Cons p rest)
    note eq = ancestor_loop.simps [of ns a pending found, unfolded Cons list.case if_not_P [OF few]]
    show ?thesis
    proof (cases "(a, p) \<in> set found")
      case True
      have cl: "?E `` {k} \<subseteq> set found \<union> known_of ns a rest" if "k \<in> set found" for k
        using "1.prems"(1) [OF that] True unfolding Cons by (auto simp: known_of_simps split: if_splits)
      from closed_upto_reach [OF cl True] have "set found \<union> ?E\<^sup>* `` known_of ns a (p # rest) = set found \<union> ?E\<^sup>* `` known_of ns a rest"
        by (auto simp: known_of_simps split: if_splits)
      with "1.IH"(1) [OF Cons few True cl "1.prems"(2-4)] eq True show ?thesis by (simp add: Cons)
    next
      case new: False
      show ?thesis
      proof (cases "by_key ns (a, p)")
        case None
        then have k: "known_of ns a (p # rest) = known_of ns a rest" by (simp add: known_of_simps)
        from "1.IH"(2) [OF Cons few new None] "1.prems" eq new None show ?thesis by (simp add: Cons k)
      next
        case (Some n)
        have key: "(a, p) \<in> node_key ` set ns" using by_key_Some [OF Some] by force
        have k: "known_of ns a (p # rest) = insert (a, p) (known_of ns a rest)"
          using Some by (simp add: known_of_simps)
        have pn: "known_of ns a (rev (parents n) @ rest) = ?E `` {(a, p)} \<union> known_of ns a rest"
          using known_of_parents [OF Some] by (simp add: known_of_simps)
        have cl: "?E `` {k} \<subseteq> set ((a, p) # found) \<union> known_of ns a (rev (parents n) @ rest)" if "k \<in> set ((a, p) # found)" for k
          using that "1.prems"(1) [of k] unfolding pn Cons k by auto
        have "set ((a, p) # found) \<union> ?E\<^sup>* `` known_of ns a (rev (parents n) @ rest) = set found \<union> ?E\<^sup>* `` known_of ns a (p # rest)"
          unfolding pn k using reach_step [of "(a, p)" "set found"] by simp
        with "1.IH"(3) [OF Cons few new Some cl] "1.prems"(2-4) key new eq Some show ?thesis
          by (simp add: Cons)
      qed
    qed
  qed
qed

lemma known_ancestors_reach:
  assumes "by_key ns k = Some n" and "length ns < max_edges"
  obtains r where "known_ancestors ns n = Inr r" and "distinct r" and "set r = (parent_edges ns)\<^sup>+ `` {k}"
proof -
  have a: "fst k = artifact_id n" using by_key_Some [OF assms(1)] by (auto simp: node_key_def)
  from ancestor_loop_reach [of "[]" ns "artifact_id n" "rev (parents n)"] assms(2)
  obtain r where r: "known_ancestors ns n = Inr r" "distinct r"
    "set r = (parent_edges ns)\<^sup>* `` known_of ns (artifact_id n) (rev (parents n))"
    by (auto simp: known_ancestors_def)
  moreover have "set r = (parent_edges ns)\<^sup>+ `` {k}"
    using r(3) known_of_parents [OF assms(1) a] by (simp add: known_of_simps trancl_image)
  ultimately show thesis using that by blast
qed

text \<open>The intersection loop and the search for dominated keys.\<close>

definition common_above :: "version_node list \<Rightarrow> string \<Rightarrow> string list \<Rightarrow> vkey set" where
  "common_above ns a vs = {k. \<forall>v \<in> set vs. ((a, v), k) \<in> (parent_edges ns)\<^sup>+}"

lemma trancl_from_unknown: "by_key ns k = None \<Longrightarrow> (k, q) \<notin> (parent_edges ns)\<^sup>+"
  by (auto simp: parent_edges_def succs_def dest!: tranclD)

lemma common_loop_set:
  "common_loop ns a work common vs = Inr r \<Longrightarrow> length ns < max_edges \<Longrightarrow>
   (case common of None \<Rightarrow> True | Some c \<Rightarrow> distinct c) \<Longrightarrow>
   distinct r \<and> set r = (case common of None \<Rightarrow> (if vs = [] then {} else common_above ns a vs)
                     | Some c \<Rightarrow> set c \<inter> common_above ns a vs)"
proof (induction ns a work common vs rule: common_loop.induct)
  case (1 ns a work common)
  then show ?case by (auto simp: common_above_def split: option.splits)
next
  case (2 ns a work common v vs)
  show ?case
  proof (cases "by_key ns (a, v)")
    case None
    with 2 trancl_from_unknown [OF None] show ?thesis
      by (auto simp: common_above_def split: option.splits)
  next
    case (Some n)
    from known_ancestors_reach [OF Some "2.prems"(2)] obtain anc where
      anc: "known_ancestors ns n = Inr anc" "distinct anc" "set anc = (parent_edges ns)\<^sup>+ `` {(a, v)}" .
    let ?c = "case common of None \<Rightarrow> anc | Some c \<Rightarrow> filter (\<lambda>k. k \<in> set anc) c"
    have d: "distinct ?c" using "2.prems"(3) anc(2) by (auto split: option.splits)
    have s: "(case common of None \<Rightarrow> common_above ns a (v # vs) | Some c \<Rightarrow> set c \<inter> common_above ns a (v # vs))
        = set ?c \<inter> common_above ns a vs"
      using anc(3) by (auto simp: common_above_def split: option.splits)
    show ?thesis
    proof (cases "?c = []")
      case True
      with "2.prems"(1) Some anc(1) have "r = []" by (auto simp: result_simps Let_def)
      with True s show ?thesis by (auto split: option.splits)
    next
      case False
      with "2.prems"(1) Some anc(1) have w: "require (work + length anc \<le> 4 * max_edges) BOUNDED = Inr ()"
        and run: "common_loop ns a (work + length anc) (Some ?c) vs = Inr r"
        by (auto simp: result_simps Let_def)
      from "2.IH" [OF Some anc(1) w refl False run "2.prems"(2)] d s show ?thesis
        by (auto split: option.splits)
    qed
  qed
qed

definition inner_edges :: "version_node list \<Rightarrow> string \<Rightarrow> vkey list \<Rightarrow> (vkey \<times> vkey) set" where
  "inner_edges ns a common = {(k, q). q \<in> set (parents_within ns a common k)}"

lemma dominated_loop_reach:
  "(\<And>k. k \<in> set found \<Longrightarrow> inner_edges ns a common `` {k} \<subseteq> set found \<union> {k \<in> set pending. by_key ns k \<noteq> None}) \<Longrightarrow>
   (\<And>k. k \<in> set common \<Longrightarrow> by_key ns k \<noteq> None) \<Longrightarrow>
   set (dominated_loop ns a common pending found)
     = set found \<union> (inner_edges ns a common)\<^sup>* `` {k \<in> set pending. by_key ns k \<noteq> None}"
proof (induction ns a common pending found rule: dominated_loop.induct)
  case (1 ns a common pending found)
  let ?E = "inner_edges ns a common" and ?K = "\<lambda>ps. {k \<in> set ps. by_key ns k \<noteq> None}"
  show ?case
  proof (cases pending)
    case Nil
    then show ?thesis by (simp add: dominated_loop.simps)
  next
    case (Cons k rest)
    note eq = dominated_loop.simps [of ns a common pending found, unfolded Cons list.case]
    show ?thesis
    proof (cases "k \<in> set found \<or> by_key ns k = None")
      case True
      have cl: "?E `` {j} \<subseteq> set found \<union> ?K rest" if "j \<in> set found" for j
        using "1.prems"(1) [OF that] True unfolding Cons by auto
      have "set found \<union> ?E\<^sup>* `` ?K (k # rest) = set found \<union> ?E\<^sup>* `` ?K rest"
      proof (cases "k \<in> set found")
        case True
        from closed_upto_reach [OF cl this] show ?thesis by auto
      next
        case False
        with True show ?thesis by auto
      qed
      with "1.IH"(1) [OF Cons True cl "1.prems"(2)] eq True show ?thesis by (simp add: Cons)
    next
      case False
      have pk: "?K (rev (parents_within ns a common k) @ rest) = ?E `` {k} \<union> ?K rest"
        using "1.prems"(2) by (auto simp: inner_edges_def parents_within_def split: option.splits)
      have cl: "?E `` {j} \<subseteq> set (k # found) \<union> ?K (rev (parents_within ns a common k) @ rest)" if "j \<in> set (k # found)" for j
        using that "1.prems"(1) [of j] unfolding pk Cons by auto
      have "?K (k # rest) = insert k (?K rest)" using False by auto
      then have "set (k # found) \<union> ?E\<^sup>* `` ?K (rev (parents_within ns a common k) @ rest) = set found \<union> ?E\<^sup>* `` ?K (k # rest)"
        unfolding pk using reach_step [of k "set found"] by simp
      with "1.IH"(2) [OF Cons False cl "1.prems"(2)] eq False show ?thesis by (simp add: Cons)
    qed
  qed
qed

lemma trancl_agree:
  assumes "\<And>k. k \<in> C \<Longrightarrow> E `` {k} \<subseteq> R `` {k}" and "\<And>k q. k \<in> C \<Longrightarrow> (k, q) \<in> E \<Longrightarrow> q \<in> C"
    and "(c, k) \<in> E\<^sup>+" and "c \<in> C"
  shows "(c, k) \<in> R\<^sup>+"
proof -
  from assms(3,4) have "(c, k) \<in> R\<^sup>+ \<and> k \<in> C"
  proof (induction rule: trancl_induct)
    case (base y)
    with assms(1) [of c] assms(2) [of c y] show ?case by auto
  next
    case (step y z)
    with assms(1) [of y] assms(2) [of y z] show ?case by (auto intro: trancl_into_trancl)
  qed
  then show ?thesis by simp
qed

lemma common_above_key:
  assumes "k \<in> common_above ns a vs" and "vs \<noteq> []"
  shows "fst k = a" and "by_key ns k \<noteq> None"
proof -
  obtain v where "v \<in> set vs" using assms(2) by (cases vs) auto
  with assms(1) have t: "((a, v), k) \<in> (parent_edges ns)\<^sup>+" by (simp add: common_above_def)
  from trancl_fst [OF t] show "fst k = a" by simp
  from t obtain y where "(y, k) \<in> parent_edges ns" by (auto elim: tranclE)
  then show "by_key ns k \<noteq> None" by (auto simp: parent_edges_def dest: succs_known)
qed

lemma common_above_step: "k \<in> common_above ns a vs \<Longrightarrow> (k, q) \<in> parent_edges ns \<Longrightarrow> q \<in> common_above ns a vs"
  by (auto simp: common_above_def intro: trancl_into_trancl)

lemma maximal_of_set:
  assumes common: "set common = common_above ns a vs" and vs: "vs \<noteq> []"
  shows "set (maximal_of ns a common) = {k \<in> common_above ns a vs. \<forall>c \<in> common_above ns a vs. (c, k) \<notin> (parent_edges ns)\<^sup>+}"
proof -
  let ?R = "parent_edges ns" and ?E = "inner_edges ns a common" and ?C = "common_above ns a vs"
  have ER: "?E `` {k} = ?R `` {k}" if k: "k \<in> ?C" for k
  proof -
    obtain n where n: "by_key ns k = Some n" using common_above_key(2) [OF k vs] by auto
    have "artifact_id n = a" using by_key_Some [OF n] common_above_key(1) [OF k vs] by (auto simp: node_key_def)
    then have "q \<in> ?E `` {k} \<longleftrightarrow> q \<in> ?R `` {k}" for q
      using n common_above_step [OF k, of q] common_above_key(2) [OF _ vs, of q]
      by (auto simp: inner_edges_def parents_within_def common parent_edges_def succs_def parent_keys_def)
    then show ?thesis by blast
  qed
  have step: "(k, q) \<in> ?R \<Longrightarrow> q \<in> ?C" if "k \<in> ?C" for k q by (rule common_above_step [OF that])
  have "(c, k) \<in> ?E\<^sup>+ \<longleftrightarrow> (c, k) \<in> ?R\<^sup>+" if c: "c \<in> ?C" for c k
    using trancl_agree [of ?C ?E ?R c k] trancl_agree [of ?C ?R ?E c k] ER step c by blast
  then have "?E\<^sup>* `` (?E `` ?C) = ?R\<^sup>+ `` ?C" unfolding trancl_image by blast
  moreover have "{k \<in> set (rev (concat (map (parents_within ns a common) common))). by_key ns k \<noteq> None} = ?E `` ?C"
    using common_above_key(2) [OF _ vs]
    by (auto simp: inner_edges_def common parents_within_def split: option.splits)
  moreover have "set (dominated_loop ns a common (rev (concat (map (parents_within ns a common) common))) [])
      = ?E\<^sup>* `` {k \<in> set (rev (concat (map (parents_within ns a common) common))). by_key ns k \<noteq> None}"
    by (subst dominated_loop_reach) (use common_above_key(2) [OF _ vs] common in auto)
  ultimately have "set (dominated_loop ns a common (rev (concat (map (parents_within ns a common) common))) []) = ?R\<^sup>+ `` ?C"
    by simp
  then show ?thesis by (auto simp: maximal_of_def Let_def common)
qed

lemma request_versions_set:
  assumes "request_versions a versions = Inr req"
  shows "set req = set versions" and "sorted req" and "distinct req" and "req \<noteq> []"
proof -
  let ?step = "\<lambda>(req, n) v. rbind (require (n + 1 \<le> max_nodes) BOUNDED) (\<lambda>_.
              rbind (require (opaque_id v) INVALID) (\<lambda>_. Inr (set_add v req, n + 1)))"
  from assms obtain r n where run: "rfold ?step ([], 0) versions = Inr (r, n)" and req: "req = sort r" "r \<noteq> []"
    by (auto simp: request_versions_def result_simps)
  have "set (fst (r, n)) = set versions \<and> distinct (fst (r, n))"
    using run by (rule rfold_invariant [where P = "\<lambda>s vs. set (fst s) = set vs \<and> distinct (fst s)"])
      (auto simp: result_simps set_add_def split: if_splits)
  with req show "set req = set versions" "sorted req" "distinct req" "req \<noteq> []"
    by (simp_all, metis set_empty set_sort)
qed

section \<open>Facts about built graphs\<close>

lemma graph_small:
  assumes "build_version_graph input = Inr g"
  shows "length (nodes g) < max_edges"
proof -
  note parts = build_version_graph_parts [OF assms]
  from assms obtain gr nc ec where run: "rfold admit_node ([], 0, 0) input = Inr (gr, nc, ec)"
    by (auto simp: build_version_graph_def result_simps)
  have len: "input = [] \<or> length input \<le> max_nodes" using admit_nodes_groups [OF run] by auto
  have "length (nodes g) = card (set (nodes g))" using parts(3) by (simp add: distinct_map distinct_card)
  also have "\<dots> \<le> card (set input)" using parts(1) by (intro card_mono) auto
  also have "\<dots> \<le> length input" by (rule card_length)
  finally show ?thesis using len by (auto simp: max_nodes_def max_edges_def)
qed

lemma no_issue_acyclic:
  assumes "build_version_graph input = Inr g" and "\<not> has_graph_issue g (Some a)"
  shows "acyclic (artifact_edges (nodes g) a)"
proof -
  have "clean a (cycles g)" using assms(2) by (auto simp: has_graph_issue_def relevant_def clean_def list_ex_iff)
  with find_cycles_decide(1) [OF build_version_graph_parts(8) [OF assms(1)] graph_keys_disjoint [OF assms(1)]]
  show ?thesis by blast
qed

lemma finite_parent_edges: "finite (parent_edges ns)"
proof (rule finite_subset)
  show "parent_edges ns \<subseteq> node_key ` set ns \<times> node_key ` set ns"
    using succs_outside [of _ ns] succs_within [of _ ns] by (fastforce simp: parent_edges_def)
qed simp

lemma no_issue_wf:
  assumes "build_version_graph input = Inr g" and "\<not> has_graph_issue g (Some a)"
  shows "wf (artifact_edges (nodes g) a)"
proof (rule finite_acyclic_wf)
  show "finite (artifact_edges (nodes g) a)"
    by (rule finite_subset [OF _ finite_parent_edges [of "nodes g"]]) (auto simp: artifact_edges_def)
qed (rule no_issue_acyclic [OF assms])

lemma common_ancestors_run:
  assumes g: "build_version_graph input = Inr g" and r: "common_ancestors (Graph g) a vs = Inr r"
    and ok: "\<not> has_graph_issue g (Some a)" and known: "\<forall>v \<in> set vs. (a, v) \<in> node_key ` set (nodes g)"
  shows "sorted r" and "distinct r"
    and "set r = {v. (a, v) \<in> common_above (nodes g) a vs
       \<and> (\<forall>c \<in> common_above (nodes g) a vs. (c, (a, v)) \<notin> (parent_edges (nodes g))\<^sup>+)}"
proof -
  from r ok obtain req where req: "request_versions a vs = Inr req"
    by (auto simp: common_ancestors_def graph_of_def result_simps)
  note rq = request_versions_set [OF req]
  have "\<not> list_ex (\<lambda>x. by_key (nodes g) (a, x) = None) req"
    using known rq(1) by (auto simp: list_ex_iff by_key_None)
  with r ok req obtain common where run: "common_loop (nodes g) a 0 None req = Inr common"
    and res: "r = sort (map snd (maximal_of (nodes g) a common))"
    by (auto simp: common_ancestors_def graph_of_def result_simps)
  from common_loop_set [OF run graph_small [OF g]] rq(4)
  have c: "distinct common" "set common = common_above (nodes g) a req" by auto
  have same: "common_above (nodes g) a req = common_above (nodes g) a vs" by (simp add: common_above_def rq(1))
  note mx = maximal_of_set [OF c(2) rq(4), unfolded same]
  have fst: "fst k = a" if "k \<in> set (maximal_of (nodes g) a common)" for k
    using that common_above_key(1) [of k "nodes g" a req] rq(4) unfolding mx same by simp
  have "distinct (maximal_of (nodes g) a common)" using c(1) by (simp add: maximal_of_def Let_def)
  moreover have "inj_on snd (set (maximal_of (nodes g) a common))" using fst by (intro inj_onI prod_eqI) auto
  ultimately show "sorted r" "distinct r" unfolding res by (simp_all add: distinct_map)
  have "v \<in> set r \<longleftrightarrow> (a, v) \<in> set (maximal_of (nodes g) a common)" for v
  proof
    assume "v \<in> set r"
    then obtain k where k: "k \<in> set (maximal_of (nodes g) a common)" "v = snd k" unfolding res by auto
    with fst [OF k(1)] show "(a, v) \<in> set (maximal_of (nodes g) a common)" by (metis prod.collapse)
  qed (force simp: res)
  then show "set r = {v. (a, v) \<in> common_above (nodes g) a vs
       \<and> (\<forall>c \<in> common_above (nodes g) a vs. (c, (a, v)) \<notin> (parent_edges (nodes g))\<^sup>+)}"
    unfolding mx by auto
qed

lemma maximal_exists:
  assumes "wf (artifact_edges ns a)" and "k \<in> C" and "\<And>c. c \<in> C \<Longrightarrow> fst c = a"
  obtains m where "m \<in> C" and "\<forall>c \<in> C. (c, m) \<notin> (parent_edges ns)\<^sup>+"
proof -
  from wfE_min [OF wf_trancl [OF assms(1)] assms(2)] obtain m where
    m: "m \<in> C" "\<And>y. (y, m) \<in> (artifact_edges ns a)\<^sup>+ \<Longrightarrow> y \<notin> C" by blast
  with trancl_artifact [of _ m ns a] assms(3) that show thesis by blast
qed

lemma head_members:
  "v \<in> set (map version_id (filter (\<lambda>n. node_key n \<notin> P) (filter (\<lambda>n. relevant (Some a) (node_key n)) ns)))
     \<longleftrightarrow> (\<exists>m \<in> set ns. node_key m = (a, v) \<and> node_key m \<notin> P)"
  by (auto simp: relevant_def node_key_def)

lemma distinct_versions:
  "distinct (map node_key ns) \<Longrightarrow> distinct (map version_id (filter P (filter (\<lambda>n. relevant (Some a) (node_key n)) ns)))"
  by (auto simp: distinct_map inj_on_def relevant_def node_key_def)

lemma heads_of_set:
  assumes "distinct (map node_key (nodes g))"
  shows "set (heads_of g (Some a)) = {v. (a, v) \<in> node_key ` set (nodes g) \<and> (\<forall>k. (k, (a, v)) \<notin> parent_edges (nodes g))}"
    and "sorted (heads_of g (Some a))" and "distinct (heads_of g (Some a))"
proof -
  let ?ns = "filter (\<lambda>n. relevant (Some a) (node_key n)) (nodes g)"
  let ?ps = "concat (map (\<lambda>n. map (\<lambda>p. (artifact_id n, p)) (parents n)) ?ns)"
  have ps: "node_key m \<in> set ?ps \<longleftrightarrow> (\<exists>k. (k, node_key m) \<in> parent_edges (nodes g))"
    if m: "m \<in> set (nodes g)" "artifact_id m = a" for m
  proof
    assume "node_key m \<in> set ?ps"
    then obtain n where n: "n \<in> set (nodes g)" "artifact_id n = a" "version_id m \<in> set (parents n)"
      by (auto simp: relevant_def node_key_def)
    then have "by_key (nodes g) (node_key n) = Some n" "by_key (nodes g) (node_key m) = Some m"
      using by_key_distinct [OF assms] m(1) by simp_all
    with n m have "(node_key n, node_key m) \<in> parent_edges (nodes g)"
      by (auto simp: parent_edges_def succs_def parent_keys_def node_key_def)
    then show "\<exists>k. (k, node_key m) \<in> parent_edges (nodes g)" ..
  next
    assume "\<exists>k. (k, node_key m) \<in> parent_edges (nodes g)"
    then obtain k where k: "node_key m \<in> set (succs (nodes g) k)" by (auto simp: parent_edges_def)
    then obtain n where n: "by_key (nodes g) k = Some n" "node_key m \<in> set (parent_keys (nodes g) n)"
      by (cases "by_key (nodes g) k") (auto simp: succs_def)
    with by_key_Some [OF n(1)] m show "node_key m \<in> set ?ps"
      by (auto simp: parent_keys_def relevant_def node_key_def intro!: bexI [of _ n])
  qed
  have mem: "v \<in> set (heads_of g (Some a)) \<longleftrightarrow>
      (\<exists>m \<in> set (nodes g). node_key m = (a, v) \<and> node_key m \<notin> set ?ps)" for v
    unfolding heads_of_def Let_def set_sort by (rule head_members)
  have "(\<exists>m \<in> set (nodes g). node_key m = (a, v) \<and> node_key m \<notin> set ?ps)
      \<longleftrightarrow> (\<exists>m \<in> set (nodes g). node_key m = (a, v) \<and> (\<forall>k. (k, node_key m) \<notin> parent_edges (nodes g)))" for v
  proof (intro bex_cong refl conj_cong)
    fix m assume "m \<in> set (nodes g)" and "node_key m = (a, v)"
    with ps [of m] show "node_key m \<notin> set ?ps \<longleftrightarrow> (\<forall>k. (k, node_key m) \<notin> parent_edges (nodes g))"
      by (simp add: node_key_def)
  qed
  then have "v \<in> set (heads_of g (Some a)) \<longleftrightarrow> (a, v) \<in> node_key ` set (nodes g) \<and> (\<forall>k. (k, (a, v)) \<notin> parent_edges (nodes g))" for v
    unfolding mem by (simp only: bex_image_conj [where P = "\<lambda>x. \<forall>k. (k, x) \<notin> parent_edges (nodes g)"])
  then show "set (heads_of g (Some a)) = {v. (a, v) \<in> node_key ` set (nodes g) \<and> (\<forall>k. (k, (a, v)) \<notin> parent_edges (nodes g))}"
    by blast
  show "sorted (heads_of g (Some a))" by (simp add: heads_of_def Let_def)
  from distinct_versions [OF assms]
  show "distinct (heads_of g (Some a))" unfolding heads_of_def Let_def by (simp only: distinct_sort)
qed

lemma admit_nodes_total:
  assumes "length input \<le> max_nodes" and "sum_list (map (\<lambda>n. length (parents n)) input) \<le> max_edges"
  shows "\<exists>g. rfold admit_node ([], 0, 0) input = Inr (g, length input, sum_list (map (\<lambda>n. length (parents n)) input))"
proof -
  have "nc + length xs \<le> max_nodes \<Longrightarrow> ec + sum_list (map (\<lambda>n. length (parents n)) xs) \<le> max_edges \<Longrightarrow>
    \<exists>g'. rfold admit_node (g, nc, ec) xs = Inr (g', nc + length xs, ec + sum_list (map (\<lambda>n. length (parents n)) xs))" for g nc ec xs
  proof (induction xs arbitrary: g nc ec)
    case (Cons x xs)
    from Cons.prems have "admit_node (g, nc, ec) x = Inr (group_add x g, nc + 1, ec + length (parents x))"
      by (simp add: admit_node_def Let_def)
    with Cons.IH [of "nc + 1" "ec + length (parents x)" "group_add x g"] Cons.prems show ?case by (simp add: add.assoc)
  qed simp
  from this [of 0 input 0 "[]"] assms show ?thesis by simp
qed

lemma parent_edges_declared:
  assumes "set ns \<subseteq> set input"
  shows "parent_edges ns \<subseteq> {(node_key n, (artifact_id n, p)) | n p. n \<in> set input \<and> p \<in> set (parents n)}"
proof
  fix e assume e: "e \<in> parent_edges ns"
  obtain k q where kq: "e = (k, q)" by (cases e)
  with e obtain n where n: "by_key ns k = Some n" "q \<in> set (parent_keys ns n)"
    by (cases "by_key ns k") (auto simp: parent_edges_def succs_def)
  from by_key_Some [OF n(1)] n(2) assms kq
  show "e \<in> {(node_key n, (artifact_id n, p)) | n p. n \<in> set input \<and> p \<in> set (parents n)}"
    by (auto simp: parent_keys_def)
qed

lemma singles_distinct: "groups_ok input g \<Longrightarrow> distinct (map node_key (singles g))"
  using singles_keys [of g] distinct_map_fst_filter [of g "\<lambda>(k, ns). length ns = 1"]
  by (fastforce simp: groups_ok_def)

lemma distinct_map_filter: "distinct (map f xs) \<Longrightarrow> distinct (map f (filter P xs))"
  by (induction xs) auto

section \<open>The graph that a node set denotes\<close>

text \<open>Normalisation: a built graph keeps, in key order and once each, exactly the nodes
  whose key no different node shares; the collisions are exactly the keys two different input
  nodes share, sorted and without repetition; and the missing parents are exactly the parent
  keys of kept nodes that no kept node has.\<close>

theorem version_graph_normal:
  assumes "build_version_graph input = Inr g"
  shows "set (nodes g) = {n \<in> set input. \<forall>m \<in> set input. node_key m = node_key n \<longrightarrow> m = n}
    \<and> sorted (map node_key (nodes g)) \<and> distinct (map node_key (nodes g))
    \<and> set (collisions g) = {k. \<exists>m \<in> set input. \<exists>n \<in> set input. m \<noteq> n \<and> node_key m = k \<and> node_key n = k}
    \<and> sorted (collisions g) \<and> distinct (collisions g)
    \<and> set (missing_parents g) = {(artifact_id n, p) | n p. n \<in> set (nodes g) \<and> p \<in> set (parents n)
         \<and> (artifact_id n, p) \<notin> node_key ` set (nodes g)}"
  using build_version_graph_parts(1-6) [OF assms] build_version_graph_parts(7) [OF assms] by auto

text \<open>The graph is a function of the set of nodes: two inputs with the same elements, in
  any order and with any repetition, that are both within the bounds build the same graph.\<close>

theorem version_graph_order_irrelevant:
  assumes "build_version_graph xs = Inr g" and "build_version_graph ys = Inr h" and "set xs = set ys"
  shows "g = h"
proof -
  note x = build_version_graph_parts [OF assms(1)] and y = build_version_graph_parts [OF assms(2)]
  have s: "set (nodes g) = set (nodes h)" using x(1) y(1) assms(3) by simp
  then have "map node_key (nodes g) = map node_key (nodes h)"
    using x(2,3) y(2,3) by (intro sorted_distinct_set_unique) simp_all
  moreover have "inj_on node_key (set (nodes g) \<union> set (nodes h))" using x(3) s by (simp add: distinct_map)
  ultimately have n: "nodes g = nodes h" by (rule map_inj_on)
  have c: "collisions g = collisions h"
    using x(4-6) y(4-6) assms(3) by (intro sorted_distinct_set_unique) simp_all
  have "cycles g = cycles h" using x(8) y(8) n c by simp
  with n c x(7) y(7) show ?thesis by simp
qed

text \<open>C5. Cycle detection is sound and complete, artifact by artifact: a built graph lists a
  cycle through an artifact exactly when that artifact's relation from version to known parent
  has a cycle, and every cycle it lists is a closed walk of that relation without repetition
  that starts at its least key; the list is sorted and without repetition.\<close>

theorem version_graph_cycles:
  assumes "build_version_graph input = Inr g"
  shows "((\<exists>c \<in> set (cycles g). \<exists>k \<in> set c. fst k = a) \<longleftrightarrow> \<not> acyclic (artifact_edges (nodes g) a))
    \<and> (\<forall>c \<in> set (cycles g). closed_walk (nodes g) c \<and> (\<forall>y \<in> set c. hd c \<le> y))
    \<and> sorted (cycles g) \<and> distinct (cycles g)"
  using find_cycles_decide [OF build_version_graph_parts(8) [OF assms] graph_keys_disjoint [OF assms]]
  unfolding clean_def by blast

text \<open>C6. Common ancestors: for versions of an artifact of a built graph that are all present,
  when the artifact has no collision and no cycle, the answer lists, sorted and once each,
  exactly the proper ancestors that all the versions share and that no other shared ancestor
  descends from; it is empty only when no ancestor is shared.\<close>

theorem common_ancestors_maximal:
  assumes g: "build_version_graph input = Inr g" and r: "common_ancestors (Graph g) a vs = Inr r"
    and ok: "\<not> has_graph_issue g (Some a)" and known: "\<forall>v \<in> set vs. (a, v) \<in> node_key ` set (nodes g)"
  shows "sorted r \<and> distinct r
    \<and> set r = {v. (a, v) \<in> common_above (nodes g) a vs
        \<and> (\<forall>c \<in> common_above (nodes g) a vs. (c, (a, v)) \<notin> (parent_edges (nodes g))\<^sup>+)}
    \<and> (r = [] \<longleftrightarrow> common_above (nodes g) a vs = {})"
proof -
  note run = common_ancestors_run [OF g r ok known]
  from r ok obtain req where "request_versions a vs = Inr req"
    by (auto simp: common_ancestors_def graph_of_def result_simps)
  from request_versions_set(1,4) [OF this] have vs: "vs \<noteq> []" by auto
  have "r \<noteq> []" if k: "k \<in> common_above (nodes g) a vs" for k
  proof -
    obtain m where m: "m \<in> common_above (nodes g) a vs"
      "\<forall>c \<in> common_above (nodes g) a vs. (c, m) \<notin> (parent_edges (nodes g))\<^sup>+"
      by (rule maximal_exists [OF no_issue_wf [OF g ok] k]) (rule common_above_key(1) [OF _ vs])
    moreover have "m = (a, snd m)" using common_above_key(1) [OF m(1) vs] by (cases m) simp
    ultimately have "snd m \<in> set r" unfolding run(3) by simp
    then show ?thesis by auto
  qed
  then have "r = [] \<longleftrightarrow> common_above (nodes g) a vs = {}" using run(3) by auto
  with run show ?thesis by blast
qed

text \<open>C8. Heads: for an artifact of a built graph without collision or cycle, the heads are,
  sorted and once each, exactly its versions that no known version has as a parent, and every
  version of the artifact is a head or an ancestor of one, so an artifact that has a version
  has a head.\<close>

theorem version_heads_cover:
  assumes g: "build_version_graph input = Inr g" and h: "version_heads (Nodes input) (Some a) = Inr hs"
    and ok: "\<not> has_graph_issue g (Some a)"
  shows "sorted hs \<and> distinct hs
    \<and> set hs = {v. (a, v) \<in> node_key ` set (nodes g) \<and> (\<forall>k. (k, (a, v)) \<notin> parent_edges (nodes g))}
    \<and> (\<forall>v. (a, v) \<in> node_key ` set (nodes g) \<longrightarrow> (\<exists>u \<in> set hs. ((a, u), (a, v)) \<in> (parent_edges (nodes g))\<^sup>*))"
proof -
  from g h ok have hs: "hs = heads_of g (Some a)"
    by (auto simp: version_heads_def graph_of_def result_simps)
  note H = heads_of_set [OF build_version_graph_parts(3) [OF g], of a, folded hs]
  have "\<exists>u \<in> set hs. ((a, u), (a, v)) \<in> (parent_edges (nodes g))\<^sup>*" if v: "(a, v) \<in> node_key ` set (nodes g)" for v
  proof -
    let ?C = "{k \<in> node_key ` set (nodes g). fst k = a \<and> (k, (a, v)) \<in> (parent_edges (nodes g))\<^sup>*}"
    have "(a, v) \<in> ?C" using v by simp
    from maximal_exists [OF no_issue_wf [OF g ok] this] obtain m where
      m: "m \<in> ?C" "\<forall>c \<in> ?C. (c, m) \<notin> (parent_edges (nodes g))\<^sup>+" by auto
    obtain u where u: "m = (a, u)" using m(1) by (cases m) auto
    have "(k, m) \<notin> parent_edges (nodes g)" for k
    proof
      assume e: "(k, m) \<in> parent_edges (nodes g)"
      then have "k \<in> node_key ` set (nodes g)" using succs_outside by (fastforce simp: parent_edges_def)
      moreover have "fst k = a" using e m(1) by (auto simp: parent_edges_def dest: succs_fst)
      moreover have "(k, (a, v)) \<in> (parent_edges (nodes g))\<^sup>*" using e m(1) by (auto intro: converse_rtrancl_into_rtrancl)
      ultimately have "k \<in> ?C" by simp
      with m(2) e show False by blast
    qed
    with m(1) have "u \<in> set hs" unfolding H(1) u by simp
    with m(1) show ?thesis unfolding u by blast
  qed
  with H show ?thesis by blast
qed

text \<open>C7. Acceptance: a node set within the node and edge limits whose relation from version to
  parent has no cycle always builds; the search's own budgets never refuse it, and it lists no
  cycle.\<close>

theorem version_graph_accepts:
  assumes len: "length input \<le> max_nodes" and edges: "sum_list (map (\<lambda>n. length (parents n)) input) \<le> max_edges"
    and ac: "acyclic {(node_key n, (artifact_id n, p)) | n p. n \<in> set input \<and> p \<in> set (parents n)}"
  shows "\<exists>g. build_version_graph input = Inr g \<and> cycles g = []"
proof -
  from admit_nodes_total [OF len edges] obtain g nc ec where
    run: "rfold admit_node ([], 0, 0) input = Inr (g, nc, ec)" by auto
  let ?ns = "singles (sort_key fst g)" and ?coll = "sort (map fst (filter (\<lambda>(k, ns). 1 < length ns) g))"
  have ok: "groups_ok input (sort_key fst g)" using admit_nodes_groups [OF run] groups_ok_sort by blast
  have sub: "set ?ns \<subseteq> set input" using groups_singles [OF ok] by auto
  have dist: "distinct (map node_key ?ns)" by (rule singles_distinct [OF ok])
  let ?known = "filter (\<lambda>n. node_key n \<notin> set ?coll) ?ns"
  have kd: "distinct (map node_key ?known)" by (rule distinct_map_filter [OF dist])
  have "parent_edges ?known \<subseteq> {(node_key n, (artifact_id n, p)) | n p. n \<in> set input \<and> p \<in> set (parents n)}"
    by (rule parent_edges_declared) (use sub in auto)
  with ac have ack: "acyclic (parent_edges ?known)" by (rule acyclic_subset)
  have "edge_cost ?known (node_key ` set ?known) \<le> (\<Sum>n \<in> set ?known. length (parents n))"
    by (rule edge_cost_parents [OF kd])
  also have "\<dots> \<le> (\<Sum>n \<in> set input. length (parents n))" by (rule sum_mono2) (use sub in auto)
  also have "\<dots> \<le> sum_list (map (\<lambda>n. length (parents n)) input)" by (rule sum_set_le_sum_list)
  finally have cost: "edge_cost ?known (node_key ` set ?known) \<le> max_edges" using edges by linarith
  have "in_budget ?known cycle_init" by (simp add: in_budget_def cycle_init_def edge_cost_def touched_def)
  from cycle_roots_total [OF ack cost _ search_inv_init _ this, of "sort (remdups (map node_key ?known))"]
  obtain s where "rfold (cycle_root ?known) cycle_init (sort (remdups (map node_key ?known))) = Inr s"
    by (auto simp: cycle_init_def)
  then have "find_cycles ?ns ?coll = Inr (sort (cs_found s))" by (simp add: find_cycles_def Let_def)
  with run obtain gr where gr: "build_version_graph input = Inr gr"
    by (auto simp: build_version_graph_def Let_def singles_def)
  have "clean a (cycles gr)" for a
  proof -
    have "artifact_edges (nodes gr) a \<subseteq> {(node_key n, (artifact_id n, p)) | n p. n \<in> set input \<and> p \<in> set (parents n)}"
      using parent_edges_declared [of "nodes gr" input] build_version_graph_parts(1) [OF gr]
      by (auto simp: artifact_edges_def)
    with ac have "acyclic (artifact_edges (nodes gr) a)" by (rule acyclic_subset)
    then show ?thesis
      using find_cycles_decide(1) [OF build_version_graph_parts(8) [OF gr] graph_keys_disjoint [OF gr]] by blast
  qed
  moreover have "c \<noteq> []" if "c \<in> set (cycles gr)" for c
    using find_cycles_decide(4) [OF build_version_graph_parts(8) [OF gr] graph_keys_disjoint [OF gr] that]
    by (simp add: closed_walk_def)
  ultimately have "cycles gr = []" unfolding clean_def by (cases "cycles gr") (fastforce dest: hd_in_set)+
  with gr show ?thesis by blast
qed

text \<open>C9. Merge requirements: for an artifact of a built graph, no requirement is reported only
  when the artifact has no collision or cycle and fewer than two heads; a reported requirement
  always asks for authorization and names the heads as the required parents; when the artifact
  has a collision or a cycle it names no head and no ancestor, and otherwise it names at least
  two heads, the version heads of the artifact, none of which is an ancestor of another.\<close>

theorem merge_requirements_heads:
  assumes g: "build_version_graph input = Inr g" and m: "merge_requirements (Nodes input) a = Inr m"
  shows "case m of
      None \<Rightarrow> \<not> has_graph_issue g (Some a) \<and> length (heads_of g (Some a)) < 2
    | Some r \<Rightarrow> mr_artifact_id r = a \<and> mr_requires_authorization r \<and> mr_required_parents r = mr_heads r
        \<and> (if has_graph_issue g (Some a) then mr_heads r = [] \<and> mr_common_ancestors r = []
           else mr_heads r = heads_of g (Some a) \<and> 2 \<le> length (mr_heads r)
             \<and> common_ancestors (Graph g) a (mr_heads r) = Inr (mr_common_ancestors r)
             \<and> (\<forall>u \<in> set (mr_heads r). \<forall>v \<in> set (mr_heads r). ((a, u), (a, v)) \<notin> (parent_edges (nodes g))\<^sup>+))"
proof (cases "has_graph_issue g (Some a)")
  case True
  with g m show ?thesis by (auto simp: merge_requirements_def graph_of_def result_simps)
next
  case False
  have opq: "opaque_id a" using g m by (auto simp: merge_requirements_def graph_of_def result_simps)
  then have h: "version_heads (Graph g) (Some a) = Inr (heads_of g (Some a))"
    using False by (simp add: version_heads_def graph_of_def)
  have inc: "((a, u), (a, v)) \<notin> (parent_edges (nodes g))\<^sup>+" if "v \<in> set (heads_of g (Some a))" for u v
    using that heads_of_set(1) [OF build_version_graph_parts(3) [OF g], of a] by (auto elim: tranclE)
  from m g False opq h inc show ?thesis
    by (auto simp: merge_requirements_def graph_of_def result_simps split: if_splits)
qed

section \<open>Witnesses\<close>

text \<open>A small history: two versions of one artifact with a common parent.\<close>

definition sample_id :: "char \<Rightarrow> string" where
  "sample_id c = c # replicate 31 (CHR ''0'')"

definition sample_node :: "char \<Rightarrow> char list \<Rightarrow> version_node" where
  "sample_node v ps = \<lparr>artifact_id = sample_id (CHR ''a''), version_id = sample_id v,
     parents = map sample_id ps, commitment_sha256 = replicate 64 (CHR ''0'')\<rparr>"

definition sample_nodes :: "version_node list" where
  "sample_nodes = [sample_node (CHR ''3'') [CHR ''1''], sample_node (CHR ''2'') [CHR ''1''],
     sample_node (CHR ''1'') [CHR ''9''], sample_node (CHR ''2'') [CHR ''1'']]"

definition sample_graph :: version_graph where
  "sample_graph = \<lparr>nodes = [sample_node (CHR ''1'') [CHR ''9''], sample_node (CHR ''2'') [CHR ''1''], sample_node (CHR ''3'') [CHR ''1'']],
     collisions = [], missing_parents = [(sample_id (CHR ''a''), sample_id (CHR ''9''))], cycles = []\<rparr>"

lemma sample_build: "build_version_graph sample_nodes = Inr sample_graph"
  by code_simp

lemma sample_post_init: "list_all (\<lambda>n. is_ok (node_post_init n)) sample_nodes"
  by code_simp

lemma sample_clean: "\<not> has_graph_issue sample_graph (Some (sample_id (CHR ''a'')))"
  by code_simp

definition loop_nodes :: "version_node list" where
  "loop_nodes = [sample_node (CHR ''2'') [CHR ''1''], sample_node (CHR ''1'') [CHR ''2'']]"

lemma loop_build: "build_version_graph loop_nodes = Inr \<lparr>nodes = rev loop_nodes, collisions = [], missing_parents = [],
    cycles = [[(sample_id (CHR ''a''), sample_id (CHR ''1'')), (sample_id (CHR ''a''), sample_id (CHR ''2''))]]\<rparr>"
  by code_simp

theorem version_graph_normal_witness:
  "set (nodes sample_graph) = {n \<in> set sample_nodes. \<forall>m \<in> set sample_nodes. node_key m = node_key n \<longrightarrow> m = n}"
  using version_graph_normal [OF sample_build] by blast

theorem version_graph_order_irrelevant_witness:
  "build_version_graph (rev sample_nodes) = build_version_graph sample_nodes"
proof -
  have "is_ok (build_version_graph (rev sample_nodes))" by code_simp
  then obtain h where h: "build_version_graph (rev sample_nodes) = Inr h" by (auto simp: is_ok_iff)
  from version_graph_order_irrelevant [OF sample_build h] have "sample_graph = h" by simp
  with h sample_build show ?thesis by simp
qed

theorem version_graph_cycles_witness:
  "acyclic (artifact_edges (nodes sample_graph) (sample_id (CHR ''a'')))
   \<and> \<not> acyclic (artifact_edges (rev loop_nodes) (sample_id (CHR ''a'')))"
  using version_graph_cycles [OF sample_build, of "sample_id (CHR ''a'')"]
    version_graph_cycles [OF loop_build, of "sample_id (CHR ''a'')"]
  by (simp add: sample_graph_def)

theorem common_ancestors_maximal_witness:
  "set [sample_id (CHR ''1'')] = {v. (sample_id (CHR ''a''), v) \<in> common_above (nodes sample_graph)
        (sample_id (CHR ''a'')) [sample_id (CHR ''2''), sample_id (CHR ''3'')]
     \<and> (\<forall>c \<in> common_above (nodes sample_graph) (sample_id (CHR ''a'')) [sample_id (CHR ''2''), sample_id (CHR ''3'')].
          (c, (sample_id (CHR ''a''), v)) \<notin> (parent_edges (nodes sample_graph))\<^sup>+)}"
proof -
  have r: "common_ancestors (Graph sample_graph) (sample_id (CHR ''a'')) [sample_id (CHR ''2''), sample_id (CHR ''3'')]
      = Inr [sample_id (CHR ''1'')]" by code_simp
  have "list_all (\<lambda>v. list_ex (\<lambda>n. node_key n = (sample_id (CHR ''a''), v)) (nodes sample_graph))
      [sample_id (CHR ''2''), sample_id (CHR ''3'')]" by code_simp
  then have "\<forall>v \<in> set [sample_id (CHR ''2''), sample_id (CHR ''3'')].
      (sample_id (CHR ''a''), v) \<in> node_key ` set (nodes sample_graph)"
    unfolding list_all_iff list_ex_iff image_iff by metis
  from common_ancestors_maximal [OF sample_build r sample_clean this] show ?thesis by blast
qed

theorem version_heads_cover_witness:
  "set [sample_id (CHR ''2''), sample_id (CHR ''3'')]
     = {v. (sample_id (CHR ''a''), v) \<in> node_key ` set (nodes sample_graph)
          \<and> (\<forall>k. (k, (sample_id (CHR ''a''), v)) \<notin> parent_edges (nodes sample_graph))}"
proof -
  have "version_heads (Nodes sample_nodes) (Some (sample_id (CHR ''a''))) = Inr [sample_id (CHR ''2''), sample_id (CHR ''3'')]"
    by code_simp
  from version_heads_cover [OF sample_build this sample_clean] show ?thesis by blast
qed

theorem version_graph_accepts_witness:
  "\<exists>g. build_version_graph [sample_node (CHR ''1'') [CHR ''9'']] = Inr g \<and> cycles g = []"
proof (rule version_graph_accepts)
  have "sample_id (CHR ''9'') \<noteq> sample_id (CHR ''1'')" by code_simp
  then have "acyclic ({((sample_id (CHR ''a''), sample_id (CHR ''1'')), (sample_id (CHR ''a''), sample_id (CHR ''9'')))} :: (vkey \<times> vkey) set)"
    by (simp add: acyclic_insert wf_acyclic)
  moreover have "{(node_key n, artifact_id n, p) |n p. n \<in> set [sample_node (CHR ''1'') [CHR ''9'']] \<and> p \<in> set (parents n)}
      = {((sample_id (CHR ''a''), sample_id (CHR ''1'')), (sample_id (CHR ''a''), sample_id (CHR ''9'')))}"
    by (auto simp: sample_node_def node_key_def)
  ultimately show "acyclic {(node_key n, artifact_id n, p) |n p. n \<in> set [sample_node (CHR ''1'') [CHR ''9'']] \<and> p \<in> set (parents n)}"
    by simp
qed (simp_all add: max_nodes_def max_edges_def sample_node_def)

theorem merge_requirements_heads_witness:
  "2 \<le> length (heads_of sample_graph (Some (sample_id (CHR ''a''))))"
proof -
  have "case merge_requirements (Nodes sample_nodes) (sample_id (CHR ''a'')) of Inr (Some r) \<Rightarrow> True | _ \<Rightarrow> False" by code_simp
  then obtain r where "merge_requirements (Nodes sample_nodes) (sample_id (CHR ''a'')) = Inr (Some r)"
    by (auto split: sum.splits option.splits)
  from merge_requirements_heads [OF sample_build this] sample_clean show ?thesis by (auto simp del: One_nat_def)
qed

end
