(* ===== verification/Json_Fields.thy ===== *)
theory Json_Fields
  imports Prelude "HOL-Library.List_Lexorder" "HOL-Library.Product_Lexorder" "HOL-Library.Char_ord"
begin

text \<open>
  Fields of the untyped objects (JSON objects, Python mappings) that several modules read
  with a check of the value's type: a field is absent, holds a value of the type that the
  code tests for, or holds any other value, of which only its printed form and its truth
  value can matter. A Python dictionary with string keys is an association list in
  insertion order.
\<close>

datatype 'a field = Absent | Other string bool | Val 'a

fun field_or :: "'a field \<Rightarrow> 'a \<Rightarrow> 'a" where
  "field_or (Val x) d = x"
| "field_or _ d = d"

text \<open>\<open>o.get(first, o.get(second, d))\<close> when the value is then checked for its type.\<close>

fun field_else :: "'a field \<Rightarrow> 'a field \<Rightarrow> 'a field" where
  "field_else Absent g = g"
| "field_else f g = f"

fun is_val :: "'a field \<Rightarrow> bool" where
  "is_val (Val x) = True"
| "is_val _ = False"

fun truthy :: "bool field \<Rightarrow> bool" where
  "truthy Absent = False"
| "truthy (Other s b) = b"
| "truthy (Val b) = b"

text \<open>\<open>str(o.get(name, d))\<close> for a field that usually holds a string.\<close>

fun shown_or :: "string field \<Rightarrow> string \<Rightarrow> string" where
  "shown_or Absent d = d"
| "shown_or (Other s b) d = s"
| "shown_or (Val s) d = s"

definition field_in :: "'a field \<Rightarrow> 'a list \<Rightarrow> bool" where
  "field_in f xs \<longleftrightarrow> (case f of Val x \<Rightarrow> x \<in> set xs | _ \<Rightarrow> False)"

text \<open>Assignment to a key of a dictionary: in place when the key is there, at the end otherwise.\<close>

fun dict_set :: "'k \<Rightarrow> 'v \<Rightarrow> ('k \<times> 'v) list \<Rightarrow> ('k \<times> 'v) list" where
  "dict_set k v [] = [(k, v)]"
| "dict_set k v ((k', v') # d) = (if k' = k then (k, v) # d else (k', v') # dict_set k v d)"

lemma map_of_dict_set [simp]: "map_of (dict_set k v d) = (map_of d)(k \<mapsto> v)"
  by (induction k v d rule: dict_set.induct) auto

lemma dict_set_keys: "set (map fst (dict_set k v d)) = insert k (set (map fst d))"
  by (induction k v d rule: dict_set.induct) auto

lemma dict_set_distinct: "distinct (map fst d) \<Longrightarrow> distinct (map fst (dict_set k v d))"
proof (induction k v d rule: dict_set.induct)
  case (2 k v k' v' d)
  then show ?case using dict_set_keys [of k v d] by auto
qed simp

text \<open>A dictionary built from pairs: later pairs overwrite earlier ones.\<close>

definition dict_of :: "('k \<times> 'v) list \<Rightarrow> ('k \<times> 'v) list" where
  "dict_of kvs = fold (\<lambda>(k, v). dict_set k v) kvs []"

lemma dict_of_snoc: "dict_of (kvs @ [(k, v)]) = dict_set k v (dict_of kvs)"
  by (simp add: dict_of_def)

lemma dict_of_distinct_keys: "distinct (map fst (dict_of kvs))"
proof (induction kvs rule: rev_induct)
  case (snoc kv kvs)
  then show ?case by (cases kv) (simp add: dict_of_snoc dict_set_distinct)
qed (simp add: dict_of_def)

lemma dict_set_fresh: "k \<notin> set (map fst d) \<Longrightarrow> dict_set k v d = d @ [(k, v)]"
  by (induction k v d rule: dict_set.induct) auto

lemma dict_of_id: "distinct (map fst kvs) \<Longrightarrow> dict_of kvs = kvs"
proof (induction kvs rule: rev_induct)
  case (snoc kv kvs)
  then show ?case by (cases kv) (auto simp: dict_of_snoc dict_set_fresh)
qed (simp add: dict_of_def)

lemma map_of_dict_of: "map_of (dict_of kvs) = map_of (rev kvs)"
proof (induction kvs rule: rev_induct)
  case (snoc kv kvs)
  then show ?case by (cases kv) (auto simp: dict_of_snoc)
qed (simp add: dict_of_def)

end
