(* ===== verification/Layout.thy ===== *)
theory Layout
  imports Json_Fields "HOL-Library.Code_Target_Nat" "HOL-Library.Code_Target_Int"
begin

text \<open>
  The row planner of the native shell canvas, after
  \<^verbatim>\<open>src/ls/core/terminal_ops/command_native_layout.py\<close>: the order of the operations, the
  pages they fill, the exact division of a page's rows by weight, and the weights of a
  newcomer. An operation and the canvas state are untyped objects in the code; here they are
  records of fields that may be absent or of another type. Finite numbers of seconds are
  rationals.
\<close>

section \<open>Data\<close>

datatype layout_error = Unsupported_mode | Invalid_geometry | Invalid_timeout | Invalid_sections | Not_iterable
  | Ratio_precision

record operation =
  operation_id :: "string field"
  layout_order :: "int field"
  activation_seq :: "int field"
  created_at :: "rat field"
  activity_monotonic :: "rat field"
  activated_monotonic :: "rat field"
  finished_monotonic :: "rat field"
  input_required :: "bool field"
  op_state :: "string field"
  process_scope :: "string field"
  output_drain :: "string field"
  native_min_rows :: "int field"
  native_pane_rows :: "int field"
  pane_label :: "string field"

record canvas_state =
  mode :: "string field"
  canvas_rows :: "int field"
  canvas_columns :: "int field"
  expanded_operation_ids :: "string list"
  inspection_target_id :: "string field"
  operation_order :: "string option list option"
  selected_operation_id :: "string field"
  visible_operation_ids :: "string list field"
  grouped_sections :: "bool field"
  compact_idle :: "bool field"
  max_sections :: "int field"
  desired_generation :: int
  manual_page :: "bool field"
  page_number :: "int field"
  page_anchor_operation_id :: "string field"
  canvas_weights :: "(string \<times> int) list option"
  inspection_preserved_rows :: "(string \<times> int field) list option"

definition modes :: "string list" where "modes = [''follow'', ''stable'', ''fixed'']"
definition max_derived_weight :: int where "max_derived_weight = 1000000000000000000"

definition oid :: "operation \<Rightarrow> string" where
  "oid item = shown_or (operation_id item) []"

section \<open>Ordering and selection\<close>

definition layout_sort_key :: "operation \<Rightarrow> int \<times> rat \<times> string" where
  "layout_sort_key item =
     (let activation = field_or (field_else (layout_order item) (activation_seq item)) 0
      in (if activation < 0 then 0 else activation, field_or (created_at item) 0, oid item))"

definition recent :: "operation \<Rightarrow> rat \<Rightarrow> rat \<Rightarrow> bool" where
  "recent item now quiet =
     (let activity = field_or (field_else (activity_monotonic item) (activated_monotonic item)) now
      in input_required item = Val True
         \<or> (field_in (op_state item) [''running'', ''draining''] \<and> max 0 (now - activity) < quiet))"

text \<open>\<open>max(xs, key=f)\<close> takes the first of the greatest elements.\<close>

fun first_max :: "('a \<Rightarrow> 'k::linorder) \<Rightarrow> 'a \<Rightarrow> 'a list \<Rightarrow> 'a" where
  "first_max f best [] = best"
| "first_max f best (x # xs) = first_max f (if f best < f x then x else best) xs"

definition selected_of :: "operation list \<Rightarrow> string field \<Rightarrow> string option" where
  "selected_of ops requested =
     (let ids = map oid (filter (\<lambda>item. is_val (operation_id item)) ops) in
      if field_in requested ids then Some (shown_or requested [])
      else case ops of
          [] \<Rightarrow> None
        | x # xs \<Rightarrow> Some (oid (first_max (\<lambda>item. (layout_sort_key item, field_or (activity_monotonic item) 0)) x xs)))"

definition activity_label :: "operation \<Rightarrow> rat \<Rightarrow> rat \<Rightarrow> string" where
  "activity_label item now quiet =
     (if input_required item = Val True then ''input needed''
      else if field_in (op_state item) [''running'', ''draining''] then
        (if recent item now quiet then ''active'' else ''idle'')
      else shown_or (op_state item) ''unknown'')"

definition reactivation_order :: "string list \<Rightarrow> (rat \<times> string) list \<Rightarrow> string list" where
  "reactivation_order order events =
     (let latest = fold (\<lambda>(moment, i) latest.
            if i \<in> set order
            then dict_set i (max moment (case map_of latest i of Some t \<Rightarrow> t | None \<Rightarrow> moment)) latest
            else latest) events [];
          resumed = sort_key (\<lambda>i. (the (map_of latest i), i)) (map fst latest)
      in filter (\<lambda>i. i \<notin> set (map fst latest)) order @ resumed)"

section \<open>Rows of one page\<close>

text \<open>The minimum height of an operation: a declared minimum below the general one is ignored.\<close>

definition minimum_rows :: "int \<Rightarrow> operation \<Rightarrow> int" where
  "minimum_rows min_pane_rows item = max min_pane_rows (field_or (native_min_rows item) min_pane_rows)"

definition weight_of :: "(string \<times> int) list \<Rightarrow> operation \<Rightarrow> int" where
  "weight_of weights item = max 1 (case map_of weights (oid item) of Some w \<Rightarrow> w | None \<Rightarrow> 1)"

definition base_shares :: "int \<Rightarrow> int list \<Rightarrow> int list \<Rightarrow> int list" where
  "base_shares extras minimums positive =
     map (\<lambda>(m, w). m + extras * w div sum_list positive) (zip minimums positive)"

text \<open>The indices by falling remainder, equal remainders by position.\<close>

definition remainder_order :: "int \<Rightarrow> int list \<Rightarrow> nat list" where
  "remainder_order extras positive =
     sort_key (\<lambda>i. (- (extras * positive ! i mod sum_list positive), i)) [0..<length positive]"

definition bump :: "int list \<Rightarrow> nat \<Rightarrow> int list" where
  "bump xs i = xs[i := xs ! i + 1]"

definition allocate_rows ::
  "operation list \<Rightarrow> (string \<times> int) list \<Rightarrow> int \<Rightarrow> int \<Rightarrow> int \<Rightarrow> int \<Rightarrow> (string \<times> int) list option" where
  "allocate_rows ops weights rows anchor_rows min_pane_rows divider_rows =
     (if ops = [] then Some []
      else if rows < 1 \<or> anchor_rows < 0 \<or> min_pane_rows < 3 \<or> divider_rows < 0 then None
      else
        let separators = (int (length ops) + 1) * divider_rows;
            available = rows - anchor_rows - separators;
            minimums = map (minimum_rows min_pane_rows) ops;
            minima = sum_list minimums in
        if available < minima then None
        else
          let extras = available - minima;
              positive = map (weight_of weights) ops;
              allocations = base_shares extras minimums positive;
              remaining = available - sum_list allocations;
              heights = foldl bump allocations (take (nat remaining) (remainder_order extras positive))
          in Some (dict_of (zip (map oid ops) heights)))"

section \<open>The inventory, what is expired, and the candidates\<close>

text \<open>\<open>{operation_id: index for index, operation_id in enumerate(raw_order) if isinstance(operation_id, str)}\<close>\<close>

definition order_rank :: "string option list option \<Rightarrow> (string \<times> int) list" where
  "order_rank raw = (case raw of None \<Rightarrow> []
     | Some xs \<Rightarrow> dict_of (concat (map (\<lambda>(i, x). case x of Some s \<Rightarrow> [(s, int i)] | None \<Rightarrow> []) (zip [0..<length xs] xs))))"

definition rank_key :: "(string \<times> int) list \<Rightarrow> operation \<Rightarrow> int \<times> int \<times> rat \<times> string" where
  "rank_key rank item =
     (case map_of rank (oid item) of Some i \<Rightarrow> i | None \<Rightarrow> int (length rank) + fst (layout_sort_key item),
      layout_sort_key item)"

definition inventory_order :: "canvas_state \<Rightarrow> operation list \<Rightarrow> operation list" where
  "inventory_order st ops =
     sort_key (rank_key (order_rank (operation_order st))) (filter (\<lambda>item. is_val (operation_id item)) ops)"

definition expired :: "canvas_state \<Rightarrow> rat \<Rightarrow> int \<Rightarrow> operation \<Rightarrow> bool" where
  "expired st now hide item \<longleftrightarrow>
     field_in (op_state item) [''completed'', ''failed'']
     \<and> process_scope item = Val ''collected''
     \<and> field_in (output_drain item) [''available'', ''unavailable'']
     \<and> oid item \<notin> set (expanded_operation_ids st)
     \<and> inspection_target_id st \<noteq> Val (oid item)
     \<and> \<not> truthy (input_required item)
     \<and> (case (finished_monotonic item, field_else (activity_monotonic item) (finished_monotonic item)) of
          (Val completed, Val activity) \<Rightarrow> of_int hide \<le> now - max completed activity
        | _ \<Rightarrow> False)"

definition ordered_operations :: "canvas_state \<Rightarrow> rat \<Rightarrow> int \<Rightarrow> operation list \<Rightarrow> operation list" where
  "ordered_operations st now hide ops = filter (\<lambda>item. \<not> expired st now hide item) (inventory_order st ops)"

definition with_selected :: "canvas_state \<Rightarrow> string option \<Rightarrow> operation list \<Rightarrow> operation list \<Rightarrow> operation list" where
  "with_selected st selected ordered candidates =
     (case selected of None \<Rightarrow> candidates
      | Some sel \<Rightarrow> (case find (\<lambda>item. oid item = sel) ordered of
            None \<Rightarrow> candidates
          | Some item \<Rightarrow> if item \<in> set candidates then candidates
              else sort_key (rank_key (order_rank (operation_order st))) (candidates @ [item])))"

definition candidates_of :: "canvas_state \<Rightarrow> string \<Rightarrow> rat \<Rightarrow> rat \<Rightarrow> string option \<Rightarrow> operation list \<Rightarrow> operation list" where
  "candidates_of st md now quiet selected ordered =
     (if md = ''follow'' then
        with_selected st selected ordered
          (filter (\<lambda>item. recent item now quiet \<or> oid item \<in> set (expanded_operation_ids st)) ordered)
      else
        with_selected st selected ordered
          (filter (\<lambda>item. oid item \<in> set (field_or (visible_operation_ids st) [])) ordered))"

section \<open>Pages\<close>

record pager =
  pg_done :: "operation list list"
  pg_current :: "operation list"
  pg_used :: int
  pg_summaries :: bool

definition entry_cost :: "int \<Rightarrow> int \<Rightarrow> bool \<Rightarrow> bool \<Rightarrow> operation \<Rightarrow> int" where
  "entry_cost min_pane_rows divider_rows is_summary has_summaries item =
     (if is_summary then 1 + (if has_summaries then 0 else divider_rows)
      else minimum_rows min_pane_rows item + divider_rows)"

text \<open>One turn of the loop over the entries; \<open>None\<close> is the \<open>break\<close> at an entry that fits no page.\<close>

definition place_entry ::
  "int \<Rightarrow> int \<Rightarrow> int \<Rightarrow> int \<Rightarrow> bool \<Rightarrow> string list \<Rightarrow> pager \<Rightarrow> operation \<Rightarrow> pager option" where
  "place_entry min_pane_rows divider_rows page_budget maximum grouped active pg item =
     (let is_summary = oid item \<notin> set active;
          cost = entry_cost min_pane_rows divider_rows is_summary (pg_summaries pg) item;
          full = pg_current pg \<noteq> [] \<and> (page_budget < pg_used pg + cost \<or> maximum \<le> int (length (pg_current pg)));
          pg1 = (if full then \<lparr>pg_done = pg_done pg @ [pg_current pg], pg_current = [], pg_used = 0, pg_summaries = False\<rparr> else pg);
          cost1 = (if full then entry_cost min_pane_rows divider_rows is_summary False item else cost)
      in if page_budget < cost1 then None
         else Some (pg1\<lparr>pg_current := pg_current pg1 @ [item], pg_used := pg_used pg1 + cost1,
                pg_summaries := (if grouped then is_summary else pg_summaries pg1 \<or> is_summary)\<rparr>))"

fun place_all :: "(pager \<Rightarrow> operation \<Rightarrow> pager option) \<Rightarrow> pager \<Rightarrow> operation list \<Rightarrow> pager option" where
  "place_all place pg [] = Some pg"
| "place_all place pg (x # xs) = (case place pg x of None \<Rightarrow> None | Some pg' \<Rightarrow> place_all place pg' xs)"

definition pages_of ::
  "int \<Rightarrow> int \<Rightarrow> int \<Rightarrow> int \<Rightarrow> bool \<Rightarrow> string list \<Rightarrow> operation list \<Rightarrow> operation list list option" where
  "pages_of min_pane_rows divider_rows page_budget maximum grouped active entries =
     (case place_all (place_entry min_pane_rows divider_rows page_budget maximum grouped active)
             \<lparr>pg_done = [], pg_current = [], pg_used = 0, pg_summaries = False\<rparr> entries of
        None \<Rightarrow> None | Some pg \<Rightarrow> Some (pg_done pg @ [pg_current pg]))"

fun find_index :: "('a \<Rightarrow> bool) \<Rightarrow> 'a list \<Rightarrow> nat option" where
  "find_index P [] = None"
| "find_index P (x # xs) = (if P x then Some 0 else map_option Suc (find_index P xs))"

definition on_page :: "string option \<Rightarrow> operation list \<Rightarrow> bool" where
  "on_page sel pg \<longleftrightarrow> list_ex (\<lambda>item. Some (oid item) = sel) pg"

definition choose_page :: "canvas_state \<Rightarrow> string \<Rightarrow> bool \<Rightarrow> string option \<Rightarrow> operation list list \<Rightarrow> nat" where
  "choose_page st md automatic selected pages =
     (if (md = ''follow'' \<and> \<not> truthy (manual_page st)) \<or> automatic then
        (case find_index (on_page selected) pages of Some i \<Rightarrow> i | None \<Rightarrow> 0)
      else
        let chosen = nat (min (max 0 (field_or (page_number st) 0)) (int (length pages) - 1)) in
        (case page_anchor_operation_id st of
           Absent \<Rightarrow> chosen
         | Other s b \<Rightarrow> chosen
         | Val anchor \<Rightarrow>
             if on_page (Some anchor) (pages ! chosen) then chosen
             else (case find_index (on_page (Some anchor)) pages of Some i \<Rightarrow> i | None \<Rightarrow> chosen)))"

section \<open>The plan\<close>

datatype section_entry = Operation_section string | Summary_section nat "string list"

fun is_summary_section :: "section_entry \<Rightarrow> bool" where
  "is_summary_section (Operation_section i) = False"
| "is_summary_section (Summary_section n ids) = True"

definition add_section :: "string list \<Rightarrow> section_entry list \<Rightarrow> operation \<Rightarrow> section_entry list" where
  "add_section active acc item =
     (if oid item \<in> set active then acc @ [Operation_section (oid item)]
      else if acc \<noteq> [] then
        (case last acc of
           Summary_section n ids \<Rightarrow> butlast acc @ [Summary_section n (ids @ [oid item])]
         | Operation_section i \<Rightarrow> acc @ [Summary_section (length (filter is_summary_section acc)) [oid item]])
      else acc @ [Summary_section (length (filter is_summary_section acc)) [oid item]])"

record assignment =
  as_operation_id :: string
  as_rows :: int
  as_order :: nat
  as_visible :: bool

record plan_head =
  ph_generation :: int
  ph_mode :: string
  ph_columns :: int
  ph_rows :: int
  ph_anchor_rows :: int
  ph_divider_rows :: int
  ph_selected :: "string option"
  ph_page :: nat
  ph_page_count :: nat
  ph_candidates :: "string list"

record collapsed_section =
  co_operation_id :: string
  co_state :: string
  co_pane_label :: "string option"

datatype layout_plan =
    Blocked_plan plan_head "assignment list"
  | Row_plan plan_head "string list" "(section_entry \<times> int) list" "(section_entry \<times> int) list"
      "collapsed_section list" "assignment list"

datatype plan_outcome = Done layout_plan | Retry canvas_state

record geometry =
  ge_now :: rat
  ge_automatic_page :: bool
  ge_quiet_seconds :: rat
  ge_min_pane_rows :: int
  ge_anchor_rows :: int
  ge_divider_rows :: int
  ge_completed_hide_seconds :: int

definition field_default :: "'a field \<Rightarrow> 'a \<Rightarrow> 'a option" where
  "field_default f d = (case f of Absent \<Rightarrow> Some d | Val x \<Rightarrow> Some x | Other s b \<Rightarrow> None)"

text \<open>The checks on mode, geometry and time at the head of the function: the mode, rows and columns.\<close>

definition check_canvas :: "canvas_state \<Rightarrow> geometry \<Rightarrow> (layout_error, string \<times> int \<times> int) result" where
  "check_canvas st ge =
     (case (field_default (mode st) ''follow'', field_default (canvas_rows st) 24, field_default (canvas_columns st) 120) of
        (None, _) \<Rightarrow> Inl Unsupported_mode
      | (Some md, viewport, columns) \<Rightarrow>
          if md \<notin> set modes then Inl Unsupported_mode
          else (case (viewport, columns) of
              (Some v, Some c) \<Rightarrow>
                if v < 1 \<or> \<not> (80 \<le> c \<and> c \<le> 500) \<or> ge_quiet_seconds ge < 0 then Inl Invalid_geometry
                else if \<not> (1 \<le> ge_completed_hide_seconds ge \<and> ge_completed_hide_seconds ge \<le> 86400) then Inl Invalid_timeout
                else Inr (md, v, c)
            | _ \<Rightarrow> Inl Invalid_geometry))"

definition section_count :: "canvas_state \<Rightarrow> bool \<Rightarrow> (layout_error, int) result" where
  "section_count st grouped =
     (case field_default (max_sections st) 8 of
        Some m \<Rightarrow> if 1 \<le> m \<and> m \<le> 4096 then Inr (if grouped then min m 8 else m) else Inl Invalid_sections
      | None \<Rightarrow> Inl Invalid_sections)"

definition hidden_assignments :: "int \<Rightarrow> operation list \<Rightarrow> assignment list" where
  "hidden_assignments min_pane_rows inventory =
     map (\<lambda>(i, item). \<lparr>as_operation_id = oid item, as_rows = min_pane_rows, as_order = i, as_visible = False\<rparr>)
       (zip [0..<length inventory] inventory)"

definition shown_assignments :: "int \<Rightarrow> (string \<times> int) list \<Rightarrow> operation list \<Rightarrow> assignment list" where
  "shown_assignments min_pane_rows rows_by_id inventory =
     map (\<lambda>(i, item).
         let old = field_or (native_pane_rows item) min_pane_rows;
             fallback = (if min_pane_rows \<le> old then old else min_pane_rows)
         in \<lparr>as_operation_id = oid item,
             as_rows = (case map_of rows_by_id (oid item) of Some r \<Rightarrow> r | None \<Rightarrow> fallback),
             as_order = i, as_visible = (oid item \<in> set (map fst rows_by_id))\<rparr>)
       (zip [0..<length inventory] inventory)"

text \<open>
  The rows of a page, kept as they were above an inspected operation: \<open>None\<close> when nothing is
  preserved, \<open>Some None\<close> when the inspected operation would steal rows and the plan is made
  again without it.
\<close>

definition preserve_rows ::
  "canvas_state \<Rightarrow> bool \<Rightarrow> int \<Rightarrow> int \<Rightarrow> operation list \<Rightarrow> (string \<times> int) list
     \<Rightarrow> (string \<times> (string \<times> int) list \<times> (string \<times> int) list option) option" where
  "preserve_rows st grouped min_pane_rows available page rows_by_id =
     (case (inspection_target_id st, inspection_preserved_rows st) of
        (Val target, Some preserved) \<Rightarrow>
          if grouped \<and> target \<in> set (map fst rows_by_id) then
            let ids = map oid (filter (\<lambda>item. oid item \<noteq> target) page);
                kept = dict_of (map (\<lambda>i. (i, case map_of preserved i of Some f \<Rightarrow> f | None \<Rightarrow> Absent)) ids) in
            if list_all (\<lambda>(i, f). case f of Val r \<Rightarrow> min_pane_rows \<le> r | _ \<Rightarrow> False) kept then
              let retained = map (\<lambda>(i, f). (i, field_or f 0)) kept;
                  target_rows = available - sum_list (map snd retained)
              in Some (target, retained,
                   if min_pane_rows \<le> target_rows then Some (dict_set target target_rows retained) else None)
            else None
          else None
      | _ \<Rightarrow> None)"

definition collapsed_of :: "geometry \<Rightarrow> bool \<Rightarrow> operation \<Rightarrow> collapsed_section" where
  "collapsed_of ge grouped item =
     \<lparr>co_operation_id = oid item,
      co_state = activity_label item (ge_now ge) (ge_quiet_seconds ge),
      co_pane_label = (if grouped then Some (shown_or (pane_label item) (oid item)) else None)\<rparr>"

definition section_height :: "(string \<times> int) list \<Rightarrow> section_entry \<Rightarrow> int" where
  "section_height rows_by_id sec =
     (case sec of Summary_section n ids \<Rightarrow> int (length ids)
      | Operation_section i \<Rightarrow> (case map_of rows_by_id i of Some r \<Rightarrow> r | None \<Rightarrow> 0))"

text \<open>The rows that the summaries of a page take, with their header borders.\<close>

definition summary_cost :: "bool \<Rightarrow> int \<Rightarrow> operation list \<Rightarrow> section_entry list \<Rightarrow> int" where
  "summary_cost grouped divider_rows summaries groups =
     int (length summaries) + (if grouped then int (length groups) * divider_rows
                               else if summaries \<noteq> [] then divider_rows else 0)"

text \<open>
  The end of the function: blocked when the rows do not suffice, finished with the allocated or
  the preserved rows, or planned again without the inspected operation.
\<close>

definition conclude_page ::
  "canvas_state \<Rightarrow> layout_plan \<Rightarrow> ((string \<times> int) list \<Rightarrow> layout_plan)
     \<Rightarrow> ((string \<times> int) list \<Rightarrow> (string \<times> (string \<times> int) list \<times> (string \<times> int) list option) option)
     \<Rightarrow> (string \<times> int) list option \<Rightarrow> (layout_error, plan_outcome) result" where
  "conclude_page st blocked finish preserve allocated =
     (case allocated of
        None \<Rightarrow> Inr (Done blocked)
      | Some rows \<Rightarrow>
          (case preserve rows of
             None \<Rightarrow> Inr (Done (finish rows))
           | Some (target, retained, Some rows') \<Rightarrow> Inr (Done (finish rows'))
           | Some (target, retained, None) \<Rightarrow>
               (case field_default (visible_operation_ids st) [] of
                  None \<Rightarrow> Inl Not_iterable
                | Some vis \<Rightarrow> Inr (Retry (st\<lparr>visible_operation_ids := Val (filter (\<lambda>i. i \<noteq> target) vis),
                      selected_operation_id := (case retained of [] \<Rightarrow> Absent | (i, r) # rest \<Rightarrow> Val i),
                      inspection_target_id := Absent, inspection_preserved_rows := None,
                      page_anchor_operation_id := Absent\<rparr>)))))"

lemma conclude_page_retry:
  "conclude_page st b f pr al = Inr (Retry st') \<Longrightarrow> inspection_target_id st' = Absent \<and> (\<exists>rows. pr rows \<noteq> None)"
  by (auto simp: conclude_page_def split: option.splits prod.splits)

lemma preserve_rows_target: "preserve_rows st g mr av page rows \<noteq> None \<Longrightarrow> is_val (inspection_target_id st)"
  by (cases "inspection_target_id st") (auto simp: preserve_rows_def)

text \<open>One chosen page: its selection, sections, rows and the assignment of every operation.\<close>

definition plan_page ::
  "geometry \<Rightarrow> canvas_state \<Rightarrow> string \<Rightarrow> int \<Rightarrow> int \<Rightarrow> bool \<Rightarrow> operation list \<Rightarrow> operation list \<Rightarrow> string list
     \<Rightarrow> string option \<Rightarrow> operation list list \<Rightarrow> (layout_error, plan_outcome) result" where
  "plan_page ge st md columns viewport grouped inventory candidates active selected pages =
     (let mr = ge_min_pane_rows ge; dr = ge_divider_rows ge;
          number = choose_page st md (ge_automatic_page ge) selected pages;
          all_page = pages ! number;
          page = filter (\<lambda>item. oid item \<in> set active) all_page;
          summaries = filter (\<lambda>item. oid item \<notin> set active) all_page;
          selected' = (if on_page selected page then selected else map_option oid (find (\<lambda>_. True) page));
          sections = foldl (add_section active) [] all_page;
          groups = filter is_summary_section sections;
          cost = summary_cost grouped dr summaries groups;
          weights = (if md = ''fixed'' \<or> \<not> grouped then (case canvas_weights st of Some w \<Rightarrow> w | None \<Rightarrow> []) else []);
          head = \<lparr>ph_generation = desired_generation st, ph_mode = md, ph_columns = columns, ph_rows = viewport,
                  ph_anchor_rows = ge_anchor_rows ge, ph_divider_rows = dr, ph_selected = selected',
                  ph_page = number, ph_page_count = length pages, ph_candidates = map oid candidates\<rparr>
      in conclude_page st
           (Blocked_plan head (hidden_assignments mr inventory))
           (\<lambda>rows. Row_plan head (map oid all_page)
                  (if grouped then map (\<lambda>s. (s, section_height rows s)) sections else [])
                  (if grouped then map (\<lambda>s. (s, section_height rows s)) groups else [])
                  (map (collapsed_of ge grouped) summaries)
                  (shown_assignments mr rows inventory))
           (preserve_rows st grouped mr (viewport - cost - ge_anchor_rows ge - (int (length page) + 1) * dr) page)
           (allocate_rows page weights (viewport - cost) (ge_anchor_rows ge) mr dr))"

text \<open>
  Dormant operations keep one visible summary row: the sections in order when sections are
  grouped, the collapsed operations before the candidates otherwise.
\<close>

definition entries_of :: "canvas_state \<Rightarrow> operation list \<Rightarrow> operation list \<Rightarrow> operation list" where
  "entries_of st ordered candidates =
     (let collapsed = (if compact_idle st = Val True
            then filter (\<lambda>item. oid item \<notin> set (map oid candidates)) ordered else [])
      in if grouped_sections st = Val True then ordered else collapsed @ candidates)"

definition plan_step :: "operation list \<Rightarrow> geometry \<Rightarrow> canvas_state \<Rightarrow> (layout_error, plan_outcome) result" where
  "plan_step ops ge st =
     rbind (check_canvas st ge) (\<lambda>(md, viewport, columns).
     let inventory = inventory_order st ops;
         ordered = ordered_operations st (ge_now ge) (ge_completed_hide_seconds ge) ops;
         selected = selected_of ordered (selected_operation_id st);
         candidates = candidates_of st md (ge_now ge) (ge_quiet_seconds ge) selected ordered;
         grouped = (grouped_sections st = Val True);
         active = map oid candidates in
     rbind (section_count st grouped) (\<lambda>maximum.
     let budget = viewport - ge_anchor_rows ge - ge_divider_rows ge in
     case pages_of (ge_min_pane_rows ge) (ge_divider_rows ge) budget maximum grouped active
            (entries_of st ordered candidates) of
       Some pages \<Rightarrow>
         if pages = [[]] \<and> candidates \<noteq> [] \<and> budget < ge_min_pane_rows ge
         then Inr (Done (Blocked_plan \<lparr>ph_generation = desired_generation st, ph_mode = md, ph_columns = columns,
                  ph_rows = viewport, ph_anchor_rows = ge_anchor_rows ge, ph_divider_rows = ge_divider_rows ge,
                  ph_selected = selected, ph_page = 0, ph_page_count = 1, ph_candidates = map oid candidates\<rparr>
                (hidden_assignments (ge_min_pane_rows ge) inventory)))
         else plan_page ge st md columns viewport grouped inventory candidates active selected pages
     | None \<Rightarrow> Inr (Done (Blocked_plan \<lparr>ph_generation = desired_generation st, ph_mode = md, ph_columns = columns,
                  ph_rows = viewport, ph_anchor_rows = ge_anchor_rows ge, ph_divider_rows = ge_divider_rows ge,
                  ph_selected = selected, ph_page = 0, ph_page_count = 1, ph_candidates = map oid candidates\<rparr>
                (hidden_assignments (ge_min_pane_rows ge) inventory)))))"

lemma plan_page_retry:
  "plan_page ge st md c v g inventory cand act sel pages = Inr (Retry st') \<Longrightarrow>
     inspection_target_id st' = Absent \<and> is_val (inspection_target_id st)"
  unfolding plan_page_def Let_def using conclude_page_retry preserve_rows_target by blast

lemma plan_step_cases:
  assumes "plan_step ops ge st = Inr out"
  obtains (blocked) head where
      "out = Done (Blocked_plan head (hidden_assignments (ge_min_pane_rows ge) (inventory_order st ops)))"
    | (page) md v c m cand ordered sel pages where "check_canvas st ge = Inr (md, v, c)"
      "section_count st (grouped_sections st = Val True) = Inr m"
      "ordered = ordered_operations st (ge_now ge) (ge_completed_hide_seconds ge) ops"
      "sel = selected_of ordered (selected_operation_id st)"
      "cand = candidates_of st md (ge_now ge) (ge_quiet_seconds ge) sel ordered"
      "pages_of (ge_min_pane_rows ge) (ge_divider_rows ge) (v - ge_anchor_rows ge - ge_divider_rows ge) m
         (grouped_sections st = Val True) (map oid cand) (entries_of st ordered cand) = Some pages"
      "plan_page ge st md c v (grouped_sections st = Val True) (inventory_order st ops) cand (map oid cand) sel pages = Inr out"
  using assms unfolding plan_step_def Let_def
  by (auto simp: result_simps split: option.splits if_splits)

lemma plan_step_retry: "plan_step ops ge st = Inr (Retry st') \<Longrightarrow> inspection_target_id st' = Absent \<and> is_val (inspection_target_id st)"
  by (erule plan_step_cases) (auto dest!: plan_page_retry)

function plan_native_layout :: "operation list \<Rightarrow> geometry \<Rightarrow> canvas_state \<Rightarrow> (layout_error, layout_plan) result" where
  "plan_native_layout ops ge st =
     (case plan_step ops ge st of
        Inl e \<Rightarrow> Inl e
      | Inr (Done p) \<Rightarrow> Inr p
      | Inr (Retry st') \<Rightarrow> plan_native_layout ops ge st')"
  by pat_completeness auto
termination
  by (relation "measure (\<lambda>(ops, ge, st). if is_val (inspection_target_id st) then 1 else 0)")
    (auto dest!: plan_step_retry)

declare plan_native_layout.simps [simp del]

section \<open>Weights of a newcomer\<close>

definition usable_weights :: "(string \<times> int field) list \<Rightarrow> (string \<times> int) list" where
  "usable_weights weights = concat (map (\<lambda>(k, f). case f of
     Val v \<Rightarrow> if 1 \<le> v \<and> v \<le> max_derived_weight then [(k, v)] else [] | _ \<Rightarrow> []) weights)"

definition default_weights_for_new_operation ::
  "(string \<times> int field) list \<Rightarrow> string list \<Rightarrow> string \<Rightarrow> (layout_error, (string \<times> int) list) result" where
  "default_weights_for_new_operation weights existing_ids new_id =
     (let updated = usable_weights weights in
      if new_id \<in> set (map fst updated) then Inr updated
      else
        let prior_ids = filter (\<lambda>i. i \<in> set (map fst updated)) existing_ids;
            prior = map (\<lambda>i. the (map_of updated i)) prior_ids in
        if prior = [] then Inr (dict_set new_id 1 updated)
        else
          let count = int (length prior);
              scaled = map (\<lambda>v. v * count) prior;
              newcomer = sum_list prior;
              divisor = max 1 (fold (\<lambda>v d. gcd d v) (scaled @ [newcomer]) 0);
              scaled' = map (\<lambda>v. v div divisor) scaled;
              newcomer' = newcomer div divisor in
          if max_derived_weight < Max (set (scaled' @ [newcomer'])) then Inl Ratio_precision
          else Inr (dict_set new_id (max 1 newcomer')
                 (fold (\<lambda>(k, v) d. dict_set k v d) (zip prior_ids scaled') updated)))"

section \<open>The largest-remainder division is exact\<close>

lemma bump_length [simp]: "length (bump xs i) = length xs"
  by (simp add: bump_def)

lemma foldl_bump:
  "distinct is \<Longrightarrow> set is \<subseteq> {..<length xs} \<Longrightarrow>
   foldl bump xs is = map (\<lambda>i. xs ! i + (if i \<in> set is then 1 else 0)) [0..<length xs]"
proof (induction "is" arbitrary: xs)
  case Nil
  then show ?case by (simp add: map_nth)
next
  case (Cons j js)
  then have "foldl bump (bump xs j) js = map (\<lambda>i. bump xs j ! i + (if i \<in> set js then 1 else 0)) [0..<length (bump xs j)]"
    by (intro Cons.IH) auto
  also have "\<dots> = map (\<lambda>i. xs ! i + (if i \<in> set (j # js) then 1 else 0)) [0..<length xs]"
    using Cons.prems by (auto simp: bump_def nth_list_update)
  finally show ?case by simp
qed

lemma sum_list_indicator:
  "distinct is \<Longrightarrow> set is \<subseteq> {..<n} \<Longrightarrow> sum_list (map (\<lambda>i. if i \<in> set is then 1 else 0) [0..<n]) = int (length is)"
proof -
  assume d: "distinct is" and s: "set is \<subseteq> {..<n}"
  have "sum_list (map (\<lambda>i. if i \<in> set is then 1 else 0) [0..<n]) = (\<Sum>i \<in> {0..<n}. if i \<in> set is then 1 else (0::int))"
    by (simp add: sum_list_distinct_conv_sum_set)
  also have "\<dots> = int (card ({0..<n} \<inter> set is))" by (simp add: sum.If_cases)
  also have "{0..<n} \<inter> set is = set is" using s by auto
  finally show ?thesis using d by (simp add: distinct_card)
qed

lemma foldl_bump_sum:
  "distinct is \<Longrightarrow> set is \<subseteq> {..<length xs} \<Longrightarrow> sum_list (foldl bump xs is) = sum_list xs + int (length is)"
  by (simp add: foldl_bump sum_list_addf sum_list_indicator map_nth)

lemma remainder_order_props:
  "distinct (remainder_order e ws)" "set (remainder_order e ws) = {..<length ws}" "length (remainder_order e ws) = length ws"
  by (auto simp: remainder_order_def)

lemma floor_shares_sum:
  fixes e :: int
  assumes "sum_list ws = W"
  shows "W * (e - sum_list (map (\<lambda>w. e * w div W) ws)) = sum_list (map (\<lambda>w. e * w mod W) ws)"
proof -
  have "e * W = sum_list (map (\<lambda>w. e * w) ws)" by (simp add: sum_list_const_mult assms)
  also have "\<dots> = sum_list (map (\<lambda>w. W * (e * w div W) + e * w mod W) ws)" by simp
  also have "\<dots> = W * sum_list (map (\<lambda>w. e * w div W) ws) + sum_list (map (\<lambda>w. e * w mod W) ws)"
    by (simp only: sum_list_addf sum_list_const_mult)
  finally show ?thesis by (simp add: algebra_simps)
qed

lemma remaining_bounds:
  fixes e :: int
  assumes W: "sum_list ws = W" "0 < W" and ne: "ws \<noteq> []"
  shows "0 \<le> e - sum_list (map (\<lambda>w. e * w div W) ws)"
    and "e - sum_list (map (\<lambda>w. e * w div W) ws) < int (length ws)"
proof -
  let ?r = "e - sum_list (map (\<lambda>w. e * w div W) ws)"
  have eq: "W * ?r = sum_list (map (\<lambda>w. e * w mod W) ws)" by (rule floor_shares_sum [OF W(1)])
  have "0 \<le> sum_list (map (\<lambda>w. e * w mod W) ws)" by (rule sum_list_nonneg_int) (use W in simp)
  then have "0 \<le> W * ?r" using eq by simp
  with W(2) show "0 \<le> ?r" by (simp add: zero_le_mult_iff)
  have "sum_list (map (\<lambda>w. e * w mod W) ws) < sum_list (map (\<lambda>w. W) ws)"
    using ne by (intro sum_list_strict_mono) (use W in auto)
  then have "W * ?r < W * int (length ws)" using eq by (simp add: sum_list_triv mult.commute)
  with W(2) show "?r < int (length ws)" by simp
qed

lemma base_shares_nth:
  "length ms = length ws \<Longrightarrow> base_shares e ms ws = map (\<lambda>i. ms ! i + e * ws ! i div sum_list ws) [0..<length ws]"
  by (intro nth_equalityI) (simp_all add: base_shares_def)

lemma base_shares_sum:
  assumes "length ms = length ws"
  shows "sum_list (base_shares e ms ws) = sum_list ms + sum_list (map (\<lambda>w. e * w div sum_list ws) ws)"
proof -
  have "sum_list (map (\<lambda>(m, w). m + e * w div W) (zip ms ws)) = sum_list ms + sum_list (map (\<lambda>w. e * w div W) ws)" for W
    using assms by (induction ms ws rule: list_induct2) simp_all
  then show ?thesis by (simp only: base_shares_def)
qed

lemma sum_list_positive:
  fixes ws :: "int list"
  assumes "\<And>w. w \<in> set ws \<Longrightarrow> 1 \<le> w" and "ws \<noteq> []"
  shows "0 < sum_list ws"
proof (cases ws)
  case (Cons w rest)
  have "0 \<le> sum_list rest" using assms(1) Cons by (intro sum_list_nonneg) force
  with assms(1) [of w] Cons show ?thesis by simp
qed (use assms(2) in simp)

text \<open>A shorter prefix of the remainder order holds the larger remainders.\<close>

lemma take_sort_key_closed:
  assumes "i \<in> set (take k (sort_key f xs))" and "j \<in> set xs" and "f j < f i"
  shows "j \<in> set (take k (sort_key f xs))"
proof (rule ccontr)
  assume "j \<notin> set (take k (sort_key f xs))"
  moreover have "j \<in> set (take k (sort_key f xs) @ drop k (sort_key f xs))" using assms(2) by simp
  ultimately have j: "j \<in> set (drop k (sort_key f xs))" by (simp del: append_take_drop_id)
  have "sorted (map f (take k (sort_key f xs)) @ map f (drop k (sort_key f xs)))"
    by (simp flip: map_append)
  with assms(1) j have "f i \<le> f j" by (auto simp: sorted_append)
  with assms(3) show False by simp
qed

text \<open>The share of position \<open>i\<close> beyond its minimum.\<close>

definition extra_share :: "int \<Rightarrow> int list \<Rightarrow> nat \<Rightarrow> int" where
  "extra_share e ws i =
     e * ws ! i div sum_list ws
     + (if i \<in> set (take (nat (e - sum_list (map (\<lambda>w. e * w div sum_list ws) ws))) (remainder_order e ws)) then 1 else 0)"

lemma extra_share_mono:
  assumes pos: "\<And>w. w \<in> set ws \<Longrightarrow> 1 \<le> w" and e: "0 \<le> e" and i: "i < length ws" and j: "j < length ws"
    and heavier: "ws ! i < ws ! j \<or> ws ! i = ws ! j \<and> j < i"
  shows "extra_share e ws i \<le> extra_share e ws j"
proof -
  let ?W = "sum_list ws" and ?k = "nat (e - sum_list (map (\<lambda>w. e * w div sum_list ws) ws))"
  have W: "0 < ?W" by (rule sum_list_positive [OF pos]) (use i in auto)
  have le: "e * ws ! i \<le> e * ws ! j" using heavier e by (auto intro: mult_left_mono)
  then have fl: "e * ws ! i div ?W \<le> e * ws ! j div ?W" using W by (intro zdiv_mono1)
  show ?thesis
  proof (cases "e * ws ! i div ?W = e * ws ! j div ?W")
    case False
    with fl show ?thesis by (simp add: extra_share_def)
  next
    case True
    have "j \<in> set (take ?k (remainder_order e ws))" if it: "i \<in> set (take ?k (remainder_order e ws))"
    proof (cases "e = 0")
      case True
      with it show ?thesis by simp
    next
      case False
      have "e * ws ! i mod ?W = e * ws ! i - ?W * (e * ws ! i div ?W)" "e * ws ! j mod ?W = e * ws ! j - ?W * (e * ws ! j div ?W)"
        by (simp_all add: minus_mult_div_eq_mod)
      with True heavier False e have "e * ws ! i mod ?W < e * ws ! j mod ?W \<or> (e * ws ! i mod ?W = e * ws ! j mod ?W \<and> j < i)"
        by (auto intro: mult_strict_left_mono)
      then have key: "(- (e * ws ! j mod ?W), j) < (- (e * ws ! i mod ?W), i)" by (auto simp: less_prod_def')
      show ?thesis unfolding remainder_order_def
        by (rule take_sort_key_closed [OF it [unfolded remainder_order_def] _ key]) (use j in simp)
    qed
    with True show ?thesis by (simp add: extra_share_def)
  qed
qed

lemma allocate_rows_shape:
  assumes alloc: "allocate_rows ops weights rows anchor mn dv = Some alloc" and ne: "ops \<noteq> []"
    and dist: "distinct (map oid ops)"
  defines "e \<equiv> rows - anchor - (int (length ops) + 1) * dv - sum_list (map (minimum_rows mn) ops)"
  shows "0 \<le> e"
    and "alloc = zip (map oid ops) (map (\<lambda>i. minimum_rows mn (ops ! i) + extra_share e (map (weight_of weights) ops) i) [0..<length ops])"
    and "sum_list (map snd alloc) = rows - anchor - (int (length ops) + 1) * dv"
proof -
  let ?ws = "map (weight_of weights) ops" and ?ms = "map (minimum_rows mn) ops"
  let ?W = "sum_list ?ws" and ?av = "rows - anchor - (int (length ops) + 1) * dv"
  let ?base = "base_shares e ?ms ?ws"
  let ?k = "nat (?av - sum_list ?base)"
  have bnth: "?base = map (\<lambda>i. ?ms ! i + e * ?ws ! i div ?W) [0..<length ops]"
    using base_shares_nth [of ?ms ?ws e] by (simp only: length_map)
  have base: "sum_list ?base = sum_list ?ms + sum_list (map (\<lambda>w. e * w div ?W) ?ws)"
    by (rule base_shares_sum) simp
  from alloc ne have e0: "0 \<le> e" and al: "alloc = dict_of (zip (map oid ops) (foldl bump ?base (take ?k (remainder_order e ?ws))))"
    by (auto simp: allocate_rows_def Let_def e_def split: if_splits)
  show "0 \<le> e" by (rule e0)
  have pos: "1 \<le> w" if "w \<in> set ?ws" for w using that by (auto simp: weight_of_def)
  have W: "0 < ?W" using pos ne by (intro sum_list_positive) auto
  have k: "?av - sum_list ?base = e - sum_list (map (\<lambda>w. e * w div ?W) ?ws)" 
  proof -
    have "?av = e + sum_list ?ms" by (simp add: e_def)
    then show ?thesis unfolding base by linarith
  qed
  have rb: "0 \<le> ?av - sum_list ?base" "?av - sum_list ?base < int (length ops)"
    using remaining_bounds [OF refl W, of e] ne by (simp_all only: k, simp_all)
  have t: "distinct (take ?k (remainder_order e ?ws))" "set (take ?k (remainder_order e ?ws)) \<subseteq> {..<length ?base}"
    "length (take ?k (remainder_order e ?ws)) = ?k"
    using remainder_order_props [of e ?ws] set_take_subset [of ?k "remainder_order e ?ws"] rb
    by (auto simp: bnth simp del: set_take_subset)
  have heights: "foldl bump ?base (take ?k (remainder_order e ?ws))
      = map (\<lambda>i. minimum_rows mn (ops ! i) + extra_share e ?ws i) [0..<length ops]"
    by (subst foldl_bump [OF t(1,2)], unfold extra_share_def k [symmetric], intro nth_equalityI) (simp_all add: bnth)
  have zipd: "distinct (map fst (zip (map oid ops) (foldl bump ?base (take ?k (remainder_order e ?ws)))))"
    using dist unfolding heights by simp
  show al': "alloc = zip (map oid ops) (map (\<lambda>i. minimum_rows mn (ops ! i) + extra_share e ?ws i) [0..<length ops])"
    unfolding al heights by (rule dict_of_id [OF zipd [unfolded heights]])
  have "map snd alloc = foldl bump ?base (take ?k (remainder_order e ?ws))" unfolding al' heights by simp
  then have "sum_list (map snd alloc) = sum_list ?base + int ?k"
    using foldl_bump_sum [OF t(1,2)] t(3) by simp
  with rb(1) show "sum_list (map snd alloc) = ?av" by simp
qed

section \<open>Pagination keeps and packs the entries\<close>

text \<open>The rows a page takes, entry by entry, as the loop counts them.\<close>

fun page_cost :: "int \<Rightarrow> int \<Rightarrow> bool \<Rightarrow> string list \<Rightarrow> bool \<Rightarrow> operation list \<Rightarrow> int" where
  "page_cost mn dv grouped active has_summaries [] = 0"
| "page_cost mn dv grouped active has_summaries (x # xs) =
     entry_cost mn dv (oid x \<notin> set active) has_summaries x
     + page_cost mn dv grouped active
         (if grouped then oid x \<notin> set active else has_summaries \<or> oid x \<notin> set active) xs"

fun summaries_after :: "bool \<Rightarrow> string list \<Rightarrow> bool \<Rightarrow> operation list \<Rightarrow> bool" where
  "summaries_after grouped active has_summaries [] = has_summaries"
| "summaries_after grouped active has_summaries (x # xs) = summaries_after grouped active
         (if grouped then oid x \<notin> set active else has_summaries \<or> oid x \<notin> set active) xs"

lemma page_cost_snoc: "page_cost mn dv g act h (xs @ [x]) = page_cost mn dv g act h xs
    + entry_cost mn dv (oid x \<notin> set act) (summaries_after g act h xs) x"
  by (induction xs arbitrary: h) auto

lemma summaries_after_snoc: "summaries_after g act h (xs @ [x]) =
    (if g then oid x \<notin> set act else summaries_after g act h xs \<or> oid x \<notin> set act)"
  by (induction xs arbitrary: h) auto

definition page_fits :: "int \<Rightarrow> int \<Rightarrow> int \<Rightarrow> int \<Rightarrow> bool \<Rightarrow> string list \<Rightarrow> operation list \<Rightarrow> bool" where
  "page_fits mn dv budget maximum g act page \<longleftrightarrow>
     page_cost mn dv g act False page \<le> budget \<and> int (length page) \<le> maximum"

text \<open>A page is followed by another one only when the next page's first entry did not fit on it.\<close>

definition packed :: "int \<Rightarrow> int \<Rightarrow> int \<Rightarrow> int \<Rightarrow> bool \<Rightarrow> string list \<Rightarrow> operation list list \<Rightarrow> bool" where
  "packed mn dv budget maximum g act pages \<longleftrightarrow>
     (\<forall>i. Suc i < length pages \<longrightarrow> pages ! i \<noteq> [] \<and> pages ! Suc i \<noteq> []
        \<and> \<not> page_fits mn dv budget maximum g act (pages ! i @ [hd (pages ! Suc i)]))"

definition pager_inv :: "int \<Rightarrow> int \<Rightarrow> int \<Rightarrow> int \<Rightarrow> bool \<Rightarrow> string list \<Rightarrow> operation list \<Rightarrow> pager \<Rightarrow> bool" where
  "pager_inv mn dv budget maximum g act entries pg \<longleftrightarrow>
     concat (pg_done pg @ [pg_current pg]) = entries
     \<and> (\<forall>p \<in> set (pg_done pg). p \<noteq> [] \<and> page_fits mn dv budget maximum g act p)
     \<and> (pg_current pg = [] \<longrightarrow> pg_done pg = [])
     \<and> (pg_current pg \<noteq> [] \<longrightarrow> page_fits mn dv budget maximum g act (pg_current pg))
     \<and> pg_used pg = page_cost mn dv g act False (pg_current pg)
     \<and> pg_summaries pg = summaries_after g act False (pg_current pg)
     \<and> packed mn dv budget maximum g act (pg_done pg @ [pg_current pg])"

lemma packed_extend:
  "packed mn dv b m g act (ps @ [p]) \<Longrightarrow> p \<noteq> [] \<Longrightarrow> packed mn dv b m g act (ps @ [p @ [x]])"
  unfolding packed_def by (auto simp: nth_append less_Suc_eq split: if_splits)

lemma packed_new:
  assumes "packed mn dv b m g act (ps @ [p])" and "p \<noteq> []" and "\<not> page_fits mn dv b m g act (p @ [x])"
  shows "packed mn dv b m g act ((ps @ [p]) @ [[x]])"
  unfolding packed_def
proof (intro allI impI)
  fix i assume i: "Suc i < length ((ps @ [p]) @ [[x]])"
  show "((ps @ [p]) @ [[x]]) ! i \<noteq> [] \<and> ((ps @ [p]) @ [[x]]) ! Suc i \<noteq> []
      \<and> \<not> page_fits mn dv b m g act (((ps @ [p]) @ [[x]]) ! i @ [hd (((ps @ [p]) @ [[x]]) ! Suc i)])"
  proof (cases "Suc i < length (ps @ [p])")
    case True
    then have "((ps @ [p]) @ [[x]]) ! i = (ps @ [p]) ! i" "((ps @ [p]) @ [[x]]) ! Suc i = (ps @ [p]) ! Suc i"
      by (simp_all only: nth_append) simp_all
    with assms(1) True show ?thesis unfolding packed_def by metis
  next
    case False
    with i have "i = length ps" by simp
    with assms(2,3) show ?thesis by (simp add: nth_append)
  qed
qed

lemma place_entry_inv:
  assumes inv: "pager_inv mn dv b m g act es pg" and m: "1 \<le> m"
    and st: "place_entry mn dv b m g act pg x = Some pg'"
  shows "pager_inv mn dv b m g act (es @ [x]) pg'"
proof -
  let ?s = "oid x \<notin> set act"
  let ?cost = "entry_cost mn dv ?s (pg_summaries pg) x"
  show ?thesis
  proof (cases "pg_current pg \<noteq> [] \<and> (b < pg_used pg + ?cost \<or> m \<le> int (length (pg_current pg)))")
    case True
    then have pg': "pg' = \<lparr>pg_done = pg_done pg @ [pg_current pg], pg_current = [x],
        pg_used = entry_cost mn dv ?s False x, pg_summaries = ?s\<rparr>" and fit: "entry_cost mn dv ?s False x \<le> b"
      using st by (auto simp: place_entry_def Let_def split: if_splits)
    have "\<not> page_fits mn dv b m g act (pg_current pg @ [x])"
      using True inv by (auto simp: page_fits_def pager_inv_def page_cost_snoc)
    with inv True have "packed mn dv b m g act ((pg_done pg @ [pg_current pg]) @ [[x]])"
      by (intro packed_new) (simp_all add: pager_inv_def)
    with inv True fit m show ?thesis unfolding pg' pager_inv_def by (simp add: page_fits_def)
  next
    case False
    then have pg': "pg' = pg\<lparr>pg_current := pg_current pg @ [x], pg_used := pg_used pg + ?cost,
        pg_summaries := (if g then ?s else pg_summaries pg \<or> ?s)\<rparr>" and fit: "?cost \<le> b"
      using st by (auto simp: place_entry_def Let_def split: if_splits)
    have fits: "page_fits mn dv b m g act (pg_current pg @ [x])"
      using False inv fit m by (cases "pg_current pg = []") (auto simp: page_fits_def pager_inv_def page_cost_snoc)
    have "packed mn dv b m g act (pg_done pg @ [pg_current pg @ [x]])"
    proof (cases "pg_current pg = []")
      case True
      with inv show ?thesis by (simp add: pager_inv_def packed_def)
    next
      case False
      with inv show ?thesis by (intro packed_extend) (simp_all add: pager_inv_def)
    qed
    with inv fits show ?thesis unfolding pg' pager_inv_def
      by (simp add: page_cost_snoc summaries_after_snoc)
  qed
qed

lemma place_all_inv:
  "place_all (place_entry mn dv b m g act) pg xs = Some pg' \<Longrightarrow> pager_inv mn dv b m g act es pg \<Longrightarrow> 1 \<le> m
    \<Longrightarrow> pager_inv mn dv b m g act (es @ xs) pg'"
proof (induction xs arbitrary: pg es)
  case (Cons x xs)
  from Cons.prems(1) obtain pg1 where pg1: "place_entry mn dv b m g act pg x = Some pg1"
    "place_all (place_entry mn dv b m g act) pg1 xs = Some pg'" by (auto split: option.splits)
  from Cons.IH [OF pg1(2) place_entry_inv [OF Cons.prems(2,3) pg1(1)] Cons.prems(3)] show ?case by simp
qed simp

lemma pages_of_shape:
  assumes "pages_of mn dv b m g act entries = Some pages" and "1 \<le> m"
  shows "concat pages = entries" and "pages \<noteq> []" and "packed mn dv b m g act pages"
    and "entries \<noteq> [] \<Longrightarrow> p \<in> set pages \<Longrightarrow> p \<noteq> [] \<and> page_fits mn dv b m g act p"
    and "entries = [] \<Longrightarrow> pages = [[]]"
proof -
  from assms(1) obtain pg where run: "place_all (place_entry mn dv b m g act)
      \<lparr>pg_done = [], pg_current = [], pg_used = 0, pg_summaries = False\<rparr> entries = Some pg"
    and pages: "pages = pg_done pg @ [pg_current pg]" by (auto simp: pages_of_def split: option.splits)
  have "pager_inv mn dv b m g act [] \<lparr>pg_done = [], pg_current = [], pg_used = 0, pg_summaries = False\<rparr>"
    by (simp add: pager_inv_def packed_def)
  from place_all_inv [OF run this assms(2)] have inv: "pager_inv mn dv b m g act entries pg" by simp
  then show "concat pages = entries" "pages \<noteq> []" "packed mn dv b m g act pages"
    by (simp_all add: pager_inv_def pages)
  show "p \<noteq> [] \<and> page_fits mn dv b m g act p" if "entries \<noteq> []" "p \<in> set pages"
  proof -
    have cur: "pg_current pg \<noteq> []"
    proof
      assume "pg_current pg = []"
      with inv have "entries = []" unfolding pager_inv_def by (metis append_Nil concat.simps(1) concat.simps(2))
      with that(1) show False by simp
    qed
    have "p = pg_current pg \<or> p \<in> set (pg_done pg)" using that(2) by (auto simp: pages)
    with inv cur show ?thesis unfolding pager_inv_def by metis
  qed
  show "pages = [[]]" if "entries = []" using run that by (auto simp: pages)
qed

section \<open>The assignments of a plan\<close>

lemma filter_zip_snd:
  "length is = length xs \<Longrightarrow> map (\<lambda>(i, x). g x) (filter (\<lambda>(i, x). P x) (zip is xs)) = map g (filter P xs)"
  by (induction "is" xs rule: list_induct2) auto

lemma shown_visible_rows:
  "map as_rows (filter as_visible (shown_assignments mn rows inventory))
     = map (\<lambda>i. the (map_of rows i)) (filter (\<lambda>i. i \<in> set (map fst rows)) (map oid inventory))"
proof -
  let ?P = "\<lambda>item. oid item \<in> set (map fst rows)"
  let ?old = "\<lambda>item. if mn \<le> field_or (native_pane_rows item) mn then field_or (native_pane_rows item) mn else mn"
  let ?g = "\<lambda>item. case map_of rows (oid item) of Some r \<Rightarrow> r | None \<Rightarrow> ?old item"
  have "map as_rows (filter as_visible (shown_assignments mn rows inventory))
      = map (\<lambda>(i, x). ?g x) (filter (\<lambda>(i, x). ?P x) (zip [0..<length inventory] inventory))"
    by (simp add: shown_assignments_def filter_map comp_def case_prod_unfold Let_def)
  also have "\<dots> = map ?g (filter ?P inventory)" by (rule filter_zip_snd) simp
  also have "\<dots> = map (\<lambda>item. the (map_of rows (oid item))) (filter ?P inventory)"
    by (intro map_cong refl) (auto simp: map_of_eq_None_iff split: option.splits)
  finally show ?thesis by (simp add: filter_map comp_def)
qed

lemma shown_visible_sum:
  assumes inventory: "distinct (map oid inventory)" and rows: "distinct (map fst rows)"
    and sub: "set (map fst rows) \<subseteq> set (map oid inventory)"
  shows "sum_list (map as_rows (filter as_visible (shown_assignments mn rows inventory))) = sum_list (map snd rows)"
    and "length (filter as_visible (shown_assignments mn rows inventory)) = length rows"
proof -
  let ?L = "filter (\<lambda>i. i \<in> set (map fst rows)) (map oid inventory)"
  have ms: "mset ?L = mset (map fst rows)"
    using inventory rows sub by (intro set_eq_iff_mset_eq_distinct [THEN iffD1]) auto
  have "sum_list (map (\<lambda>i. the (map_of rows i)) ?L) = sum_mset (image_mset (\<lambda>i. the (map_of rows i)) (mset ?L))"
    by (simp only: mset_map [symmetric] sum_mset_sum_list)
  also have "\<dots> = sum_list (map (\<lambda>i. the (map_of rows i)) (map fst rows))"
    by (simp only: ms mset_map [symmetric] sum_mset_sum_list)
  also have "map (\<lambda>i. the (map_of rows i)) (map fst rows) = map snd rows"
  proof -
    have "the (map_of rows (fst e)) = snd e" if "e \<in> set rows" for e
      using that map_of_is_SomeI [OF rows, of "fst e" "snd e"] by simp
    then show ?thesis by simp
  qed
  finally show "sum_list (map as_rows (filter as_visible (shown_assignments mn rows inventory))) = sum_list (map snd rows)"
    unfolding shown_visible_rows .
  have "length (filter as_visible (shown_assignments mn rows inventory)) = length ?L"
    using arg_cong [OF shown_visible_rows [of mn rows inventory], of length] by simp
  also have "\<dots> = length rows" using arg_cong [OF ms, of size] by (simp only: size_mset length_map)
  finally show "length (filter as_visible (shown_assignments mn rows inventory)) = length rows" .
qed

fun plan_assignments :: "layout_plan \<Rightarrow> assignment list" where
  "plan_assignments (Blocked_plan head as) = as"
| "plan_assignments (Row_plan head ids secs groups coll as) = as"

definition assigns_inventory :: "operation list \<Rightarrow> assignment list \<Rightarrow> bool" where
  "assigns_inventory inventory as \<longleftrightarrow>
     map as_operation_id as = map oid inventory \<and> map as_order as = [0..<length inventory]"

lemma hidden_assigns: "assigns_inventory inventory (hidden_assignments mn inventory)"
  by (auto simp: assigns_inventory_def hidden_assignments_def intro!: nth_equalityI)

lemma shown_assigns: "assigns_inventory inventory (shown_assignments mn rows inventory)"
  by (auto simp: assigns_inventory_def shown_assignments_def Let_def intro!: nth_equalityI)

lemma plan_page_assigns:
  assumes "plan_page ge st md c v g inventory cand act sel pages = Inr (Done p)"
  shows "assigns_inventory inventory (plan_assignments p)"
  using assms hidden_assigns shown_assigns
  by (auto simp: plan_page_def Let_def conclude_page_def split: option.splits prod.splits)

text \<open>A plan comes from a last round, in a state with the same grouping and order.\<close>

lemma plan_native_layout_last:
  "plan_native_layout ops ge st = Inr p \<Longrightarrow> \<exists>st'. plan_step ops ge st' = Inr (Done p)
     \<and> grouped_sections st' = grouped_sections st \<and> operation_order st' = operation_order st"
proof (induction ops ge st rule: plan_native_layout.induct)
  case (1 ops ge st)
  show ?case
  proof (cases "plan_step ops ge st")
    case (Inl e)
    with "1.prems" show ?thesis by (simp add: plan_native_layout.simps)
  next
    case (Inr out)
    show ?thesis
    proof (cases out)
      case (Done q)
      with "1.prems" Inr show ?thesis by (auto simp: plan_native_layout.simps)
    next
      case (Retry st')
      have "grouped_sections st' = grouped_sections st \<and> operation_order st' = operation_order st"
        using Inr unfolding Retry
        by (auto elim!: plan_step_cases simp: plan_page_def Let_def conclude_page_def split: option.splits prod.splits)
      with "1.IH" [OF Inr Retry] "1.prems" Inr Retry show ?thesis by (simp add: plan_native_layout.simps [of ops ge st])
    qed
  qed
qed

lemma inventory_perm: "mset (inventory_order st ops) = mset (filter (\<lambda>item. is_val (operation_id item)) ops)"
  by (simp add: inventory_order_def)

lemma inventory_distinct:
  "distinct (map oid (filter (\<lambda>item. is_val (operation_id item)) ops)) \<Longrightarrow> distinct (map oid (inventory_order st ops))"
  using mset_eq_imp_distinct_iff [of "map oid (inventory_order st ops)" "map oid (filter (\<lambda>item. is_val (operation_id item)) ops)"]
  by (simp add: inventory_perm)

lemma candidates_distinct:
  assumes "distinct (map oid ordered)"
  shows "distinct (map oid (candidates_of st md now q sel ordered))" and "set (candidates_of st md now q sel ordered) \<subseteq> set ordered"
proof -
  have gen: "distinct (map oid (with_selected st sel ordered c)) \<and> set (with_selected st sel ordered c) \<subseteq> set ordered"
    if c: "distinct (map oid c)" "set c \<subseteq> set ordered" for c
  proof (cases sel)
    case None
    with c show ?thesis by (simp add: with_selected_def)
  next
    case (Some s)
    show ?thesis
    proof (cases "find (\<lambda>item. oid item = s) ordered")
      case None
      with c Some show ?thesis by (simp add: with_selected_def)
    next
      case (Some item)
      then have item: "item \<in> set ordered" by (auto simp: find_Some_iff)
      have "distinct (map oid (sort_key (rank_key (order_rank (operation_order st))) (c @ [item])))" if "item \<notin> set c"
      proof -
        have "oid item \<notin> oid ` set c"
          using that item c(2) assms by (auto simp: distinct_map dest: inj_onD)
        then have "distinct (map oid (c @ [item]))" using c(1) by simp
        moreover have "mset (map oid (sort_key (rank_key (order_rank (operation_order st))) (c @ [item]))) = mset (map oid (c @ [item]))"
          by (simp add: mset_map)
        ultimately show ?thesis using mset_eq_imp_distinct_iff by blast
      qed
      with c item Some \<open>sel = Some s\<close> show ?thesis by (auto simp: with_selected_def)
    qed
  qed
  have "distinct (map oid (filter P ordered))" for P using assms by (auto simp: distinct_map inj_on_def)
  with gen show "distinct (map oid (candidates_of st md now q sel ordered))"
    and "set (candidates_of st md now q sel ordered) \<subseteq> set ordered"
    by (simp_all add: candidates_of_def)
qed

lemma entries_distinct:
  assumes "distinct (map oid ordered)" and "distinct (map oid cand)" and "set cand \<subseteq> set ordered"
  shows "distinct (map oid (entries_of st ordered cand))" and "set (entries_of st ordered cand) \<subseteq> set ordered"
  using assms by (auto simp: entries_of_def Let_def distinct_map inj_on_def)

lemma allocated_or_preserved_rows:
  assumes alloc: "allocate_rows page w (v - cost) an mn dv = Some rows" and dist: "distinct (map oid page)"
    and ne: "page \<noteq> []"
    and fin: "rows' = rows \<or> (\<exists>t ret. preserve_rows st g mn (v - cost - an - (int (length page) + 1) * dv) page rows = Some (t, ret, Some rows'))"
  shows "distinct (map fst rows')" and "set (map fst rows') = set (map oid page)"
    and "sum_list (map snd rows') = v - cost - an - (int (length page) + 1) * dv"
proof -
  note sh = allocate_rows_shape [OF alloc ne dist]
  have keys: "map fst rows = map oid page" unfolding sh(2) by simp
  have both: "distinct (map fst rows') \<and> set (map fst rows') = set (map oid page)
    \<and> sum_list (map snd rows') = v - cost - an - (int (length page) + 1) * dv"
  proof (cases "rows' = rows")
    case True
    with keys dist sh(3) show ?thesis by simp
  next
    case False
    with fin obtain t ret where pr: "preserve_rows st g mn (v - cost - an - (int (length page) + 1) * dv) page rows = Some (t, ret, Some rows')"
      by blast
    let ?ids = "map oid (filter (\<lambda>item. oid item \<noteq> t) page)"
    let ?av = "v - cost - an - (int (length page) + 1) * dv"
    from pr obtain preserved where t: "t \<in> set (map fst rows)"
      and ret: "ret = map (\<lambda>(i, f). (i, field_or f 0))
        (dict_of (map (\<lambda>i. (i, case map_of preserved i of Some f \<Rightarrow> f | None \<Rightarrow> Absent)) ?ids))"
      and rows': "rows' = dict_set t (?av - sum_list (map snd ret)) ret"
      by (auto simp: preserve_rows_def Let_def split: field.splits option.splits if_splits)
    have ids: "distinct ?ids" using dist by (auto simp: distinct_map inj_on_def)
    have "map fst ret = ?ids" unfolding ret using ids by (subst dict_of_id) (simp_all add: comp_def case_prod_unfold)
    then have "rows' = ret @ [(t, ?av - sum_list (map snd ret))]" and fst: "map fst ret = ?ids"
      unfolding rows' by (auto intro!: dict_set_fresh)
    with ids t keys show ?thesis by auto
  qed
  then show "distinct (map fst rows')" "set (map fst rows') = set (map oid page)"
    "sum_list (map snd rows') = v - cost - an - (int (length page) + 1) * dv" by blast+
qed

lemma find_index_bound: "find_index P xs = Some i \<Longrightarrow> i < length xs"
  by (induction xs arbitrary: i) (auto split: if_splits)

lemma choose_page_bound: "pages \<noteq> [] \<Longrightarrow> choose_page st md au sel pages < length pages"
proof -
  assume ne: "pages \<noteq> []"
  have "nat (min (max 0 (field_or (page_number st) 0)) (int (length pages) - 1)) < length pages"
    using ne by (cases pages) auto
  with ne show ?thesis
    by (auto simp: choose_page_def Let_def split: option.splits field.splits dest: find_index_bound)
qed

lemma section_count_pos: "section_count st g = Inr m \<Longrightarrow> 1 \<le> m"
  by (auto simp: section_count_def field_default_def split: field.splits if_splits option.splits)

lemma plan_step_rows:
  assumes step: "plan_step ops ge st = Inr (Done (Row_plan head ids secs groups coll as))"
    and dist: "distinct (map oid (filter (\<lambda>item. is_val (operation_id item)) ops))"
    and vis: "filter as_visible as \<noteq> []"
  shows "sum_list (map as_rows (filter as_visible as))
      + (int (length (filter as_visible as)) + 1) * ge_divider_rows ge + ge_anchor_rows ge
      + (int (length coll) + (if grouped_sections st = Val True then int (length groups) * ge_divider_rows ge
           else if coll \<noteq> [] then ge_divider_rows ge else 0)) = ph_rows head"
  using step
proof (cases rule: plan_step_cases)
  case (page md v c m cand ordered sel pages)
  let ?g = "grouped_sections st = Val True" and ?act = "map oid cand"
  let ?mr = "ge_min_pane_rows ge" and ?dr = "ge_divider_rows ge" and ?an = "ge_anchor_rows ge"
  let ?all = "pages ! choose_page st md (ge_automatic_page ge) sel pages"
  let ?page = "filter (\<lambda>item. oid item \<in> set ?act) ?all" and ?sum = "filter (\<lambda>item. oid item \<notin> set ?act) ?all"
  let ?inv = "inventory_order st ops"
  let ?groups = "filter is_summary_section (foldl (add_section ?act) [] ?all)"
  let ?cost = "summary_cost ?g ?dr ?sum ?groups"
  let ?w = "if md = ''fixed'' \<or> \<not> ?g then (case canvas_weights st of Some w \<Rightarrow> w | None \<Rightarrow> []) else []"
  note pg = pages_of_shape [OF page(6) section_count_pos [OF page(2)]]
  have inv: "distinct (map oid ?inv)" by (rule inventory_distinct [OF dist])
  have ord: "distinct (map oid ordered)" "set ordered \<subseteq> set ?inv"
    using inv unfolding page(3) by (auto simp: ordered_operations_def distinct_map inj_on_def)
  note cd = candidates_distinct [OF ord(1), of st md "ge_now ge" "ge_quiet_seconds ge" sel, folded page(5)]
  note en = entries_distinct [OF ord(1) cd, of st]
  have all: "?all \<in> set pages" using choose_page_bound [OF pg(2)] by simp
  then obtain xs ys where split: "pages = xs @ ?all # ys" by (meson split_list)
  then have "concat pages = concat xs @ ?all @ concat ys" by (metis concat.simps(2) concat_append)
  then have alld: "distinct (map oid ?all)" "set ?all \<subseteq> set ?inv"
    using en ord(2) pg(1) by auto
  have pd: "distinct (map oid ?page)" using alld(1) by (auto simp: distinct_map inj_on_def)
  from page(7) obtain rows rows' where
    al: "allocate_rows ?page ?w (v - ?cost) ?an ?mr ?dr = Some rows"
    and fin: "rows' = rows \<or> (\<exists>t ret. preserve_rows st ?g ?mr (v - ?cost - ?an - (int (length ?page) + 1) * ?dr) ?page rows = Some (t, ret, Some rows'))"
    and as: "as = shown_assignments ?mr rows' ?inv" and coll: "coll = map (collapsed_of ge ?g) ?sum"
    and gr: "groups = (if ?g then map (\<lambda>s. (s, section_height rows' s)) ?groups else [])" and hd: "ph_rows head = v"
    unfolding plan_page_def Let_def conclude_page_def by (fastforce split: option.splits prod.splits)
  have ne: "?page \<noteq> []"
  proof
    assume "?page = []"
    with al fin have "rows' = []" by (auto simp: allocate_rows_def preserve_rows_def split: field.splits option.splits)
    then have "filter as_visible as = []" by (auto simp: as shown_assignments_def filter_empty_conv Let_def)
    with vis show False by simp
  qed
  note R = allocated_or_preserved_rows [OF al pd ne fin]
  have sub: "set (map fst rows') \<subseteq> set (map oid ?inv)" using R(2) alld(2) by auto
  note V = shown_visible_sum [OF inv R(1) sub, of ?mr, folded as]
  have "length rows' = length ?page"
    using R(1,2) pd by (metis distinct_card length_map)
  with V R(3) show ?thesis by (auto simp: coll gr hd summary_cost_def)
qed simp

section \<open>Reactivation\<close>

definition latest_of :: "string list \<Rightarrow> (rat \<times> string) list \<Rightarrow> (string \<times> rat) list" where
  "latest_of order events = fold (\<lambda>(moment, i) latest.
            if i \<in> set order
            then dict_set i (max moment (case map_of latest i of Some t \<Rightarrow> t | None \<Rightarrow> moment)) latest
            else latest) events []"

lemma latest_of_snoc: "latest_of order (ev @ [(t, i)]) = (if i \<in> set order
    then dict_set i (max t (case map_of (latest_of order ev) i of Some u \<Rightarrow> u | None \<Rightarrow> t)) (latest_of order ev)
    else latest_of order ev)"
  by (simp add: latest_of_def)

lemma latest_of_map: "map_of (latest_of order events) i
   = (if i \<in> set order \<and> (\<exists>t. (t, i) \<in> set events) then Some (Max {t. (t, i) \<in> set events}) else None)"
proof (induction events rule: rev_induct)
  case Nil
  then show ?case by (simp add: latest_of_def)
next
  case (snoc e ev)
  obtain t j where e: "e = (t, j)" by (cases e)
  have fin: "finite {u. (u, j) \<in> set ev}"
    by (rule finite_subset [of _ "fst ` set ev"]) (force, simp)
  have eq: "{u. (u, i) \<in> set (ev @ [e])} = (if i = j then insert t {u. (u, j) \<in> set ev} else {u. (u, i) \<in> set ev})"
    by (auto simp: e)
  show ?case
  proof (cases "i = j")
    case False
    then show ?thesis unfolding eq using snoc by (simp add: e latest_of_snoc)
  next
    case True
    show ?thesis
    proof (cases "\<exists>u. (u, j) \<in> set ev")
      case True
      then have "{u. (u, j) \<in> set ev} \<noteq> {}" by auto
      with fin have "Max (insert t {u. (u, j) \<in> set ev}) = max t (Max {u. (u, j) \<in> set ev})" by simp
      with True \<open>i = j\<close> snoc show ?thesis unfolding eq by (auto simp: e latest_of_snoc)
    next
      case False
      then have "{u. (u, j) \<in> set ev} = {}" by auto
      with False True snoc show ?thesis unfolding eq by (simp add: e latest_of_snoc)
    qed
  qed
qed

lemma latest_of_distinct: "distinct (map fst (latest_of order events))"
proof (induction events rule: rev_induct)
  case (snoc e ev)
  then show ?case by (cases e) (simp add: latest_of_snoc dict_set_distinct)
qed (simp add: latest_of_def)

lemma latest_of_keys: "set (map fst (latest_of order events)) = {i \<in> set order. \<exists>t. (t, i) \<in> set events}"
proof (rule set_eqI)
  fix i
  have "i \<in> set (map fst (latest_of order events)) \<longleftrightarrow> map_of (latest_of order events) i \<noteq> None"
    by (simp add: map_of_eq_None_iff)
  also have "\<dots> \<longleftrightarrow> i \<in> {i \<in> set order. \<exists>t. (t, i) \<in> set events}" by (simp add: latest_of_map)
  finally show "i \<in> set (map fst (latest_of order events)) \<longleftrightarrow> i \<in> {i \<in> set order. \<exists>t. (t, i) \<in> set events}" .
qed

text \<open>Reactivation: for an order without repetition the result is a permutation of it; the
  operations without an event keep their order at the front, and those with an event follow,
  sorted by their latest event and then by name. Events for unknown operations are ignored.\<close>

theorem reactivation_order_moves:
  assumes "distinct order"
  shows "\<exists>resumed. reactivation_order order events = filter (\<lambda>i. \<nexists>t. (t, i) \<in> set events) order @ resumed
    \<and> distinct resumed \<and> set resumed = {i \<in> set order. \<exists>t. (t, i) \<in> set events}
    \<and> sorted (map (\<lambda>i. (Max {t. (t, i) \<in> set events}, i)) resumed)
    \<and> mset (reactivation_order order events) = mset order"
proof -
  let ?l = "latest_of order events"
  let ?r = "sort_key (\<lambda>i. (the (map_of ?l i), i)) (map fst ?l)"
  have eq: "reactivation_order order events = filter (\<lambda>i. i \<notin> set (map fst ?l)) order @ ?r"
    by (simp add: reactivation_order_def latest_of_def Let_def)
  have rs: "set ?r = {i \<in> set order. \<exists>t. (t, i) \<in> set events}" using latest_of_keys by simp
  have rd: "distinct ?r" using latest_of_distinct by simp
  have "filter (\<lambda>i. i \<notin> set (map fst ?l)) order = filter (\<lambda>i. \<nexists>t. (t, i) \<in> set events) order"
    unfolding latest_of_keys by (intro filter_cong) auto
  moreover have "map (\<lambda>i. (the (map_of ?l i), i)) ?r = map (\<lambda>i. (Max {t. (t, i) \<in> set events}, i)) ?r"
  proof (rule map_cong [OF refl])
    fix i assume "i \<in> set ?r"
    then have "i \<in> set order \<and> (\<exists>t. (t, i) \<in> set events)" unfolding rs by simp
    then show "(the (map_of ?l i), i) = (Max {t. (t, i) \<in> set events}, i)" by (simp add: latest_of_map)
  qed
  then have "sorted (map (\<lambda>i. (Max {t. (t, i) \<in> set events}, i)) ?r)"
    by (rule subst) (rule sorted_sort_key)
  moreover have "mset (reactivation_order order events) = mset order"
  proof (rule set_eq_iff_mset_eq_distinct [THEN iffD1])
    show "set (reactivation_order order events) = set order" unfolding eq set_append rs latest_of_keys by auto
    have "set (filter (\<lambda>i. i \<notin> set (map fst ?l)) order) \<inter> set ?r = {}" by auto
    then show "distinct (reactivation_order order events)" unfolding eq distinct_append
      using assms rd by simp
  qed (rule assms)
  ultimately show ?thesis using eq rs rd by (intro exI [of _ ?r]) simp
qed

section \<open>Weights keep their ratios\<close>

lemma fold_gcd_dvd: "x \<in> set xs \<Longrightarrow> fold (\<lambda>v d. gcd d v) xs d dvd (x::int)"
  and fold_gcd_dvd_start: "fold (\<lambda>v d. gcd d v) xs d dvd (d::int)"
proof -
  have start: "fold (\<lambda>v d. gcd d v) xs d dvd (d::int)" for d
    by (induction xs arbitrary: d) (auto intro: dvd_trans)
  show "fold (\<lambda>v d. gcd d v) xs d dvd d" by (rule start)
  show "x \<in> set xs \<Longrightarrow> fold (\<lambda>v d. gcd d v) xs d dvd x"
  proof (induction xs arbitrary: d)
    case (Cons y ys)
    have "fold (\<lambda>v d. gcd d v) ys (gcd d y) dvd gcd d y"
      by (induction ys arbitrary: d y) (auto intro: dvd_trans)
    with Cons show ?case by (auto intro: dvd_trans)
  qed simp
qed

lemma fold_gcd_nonneg: "0 \<le> d \<Longrightarrow> 0 \<le> fold (\<lambda>v d. gcd d v) xs (d::int)"
  by (induction xs arbitrary: d) auto

lemma dvd_div_pos: "d dvd x \<Longrightarrow> 0 < d \<Longrightarrow> 1 \<le> x \<Longrightarrow> 1 \<le> x div (d::int)"
proof (elim dvdE)
  fix k assume "0 < d" "1 \<le> x" "x = d * k"
  then have "0 < d * k" by simp
  with \<open>0 < d\<close> have "0 < k" by (simp add: zero_less_mult_iff)
  with \<open>0 < d\<close> \<open>x = d * k\<close> show "1 \<le> x div d" by simp
qed

lemma usable_weights_range: "(k, v) \<in> set (usable_weights w) \<Longrightarrow> 1 \<le> v \<and> v \<le> max_derived_weight"
  by (auto simp: usable_weights_def split: field.splits if_splits)

lemma map_of_fold_dict_set:
  "distinct (map fst kvs) \<Longrightarrow> map_of (fold (\<lambda>(k, v) d. dict_set k v d) kvs d) = map_of d ++ map_of kvs"
proof (induction kvs arbitrary: d)
  case (Cons kv kvs)
  obtain k v where kv: "kv = (k, v)" by (cases kv)
  with Cons have "map_of (fold (\<lambda>(k, v) d. dict_set k v d) kvs (dict_set k v d)) = (map_of d)(k \<mapsto> v) ++ map_of kvs"
    by simp
  moreover have "map_of kvs k = None" using Cons.prems kv by (simp add: map_of_eq_None_iff)
  ultimately show ?case by (auto simp: kv map_add_def fun_eq_iff split: option.splits)
qed simp

text \<open>A newcomer's weight: when earlier weights are usable, adding an operation keeps the
  ratio of every two earlier weights exactly, gives the newcomer exactly their average, keeps
  every weight between one and the bound, and leaves other weights alone.\<close>

theorem default_weights_ratio:
  assumes run: "default_weights_for_new_operation weights ids new = Inr w"
    and dist: "distinct ids" and fresh: "new \<notin> set (map fst (usable_weights weights))"
    and prior: "prior = filter (\<lambda>i. i \<in> set (map fst (usable_weights weights))) ids" "prior \<noteq> []"
  defines "old \<equiv> \<lambda>i. the (map_of (usable_weights weights) i)" and "cur \<equiv> \<lambda>i. the (map_of w i)"
  shows "(\<forall>i \<in> set prior. \<forall>j \<in> set prior. cur i * old j = cur j * old i)
    \<and> int (length prior) * cur new = sum_list (map cur prior)
    \<and> (\<forall>i \<in> insert new (set prior). 1 \<le> cur i \<and> cur i \<le> max_derived_weight)
    \<and> (\<forall>k. k \<notin> insert new (set prior) \<longrightarrow> map_of w k = map_of (usable_weights weights) k)"
proof -
  let ?u = "usable_weights weights"
  let ?vs = "map old prior"
  let ?n = "int (length prior)"
  let ?N = "sum_list ?vs"
  let ?sc = "map (\<lambda>v. v * ?n) ?vs"
  define d where "d = max 1 (fold (\<lambda>v d. gcd d v) (?sc @ [?N]) 0)"
  let ?sc' = "map (\<lambda>i. old i * ?n div d) prior"
  have n: "1 \<le> ?n" using prior(2) by (cases prior) auto
  have old1: "1 \<le> old i" if "i \<in> set prior" for i
  proof -
    have "i \<in> fst ` set ?u" using that prior(1) by auto
    then obtain v where v: "map_of ?u i = Some v" by (metis map_of_eq_None_iff not_None_eq)
    from usable_weights_range [OF map_of_SomeD [OF v]] v show ?thesis by (simp add: old_def)
  qed
  have N: "1 \<le> ?N" using sum_list_positive [of ?vs] old1 prior(2) by force
  have g: "fold (\<lambda>v d. gcd d v) (?sc @ [?N]) 0 dvd x" if "x \<in> set (?sc @ [?N])" for x
    by (rule fold_gcd_dvd [OF that])
  have g0: "0 \<le> fold (\<lambda>v d. gcd d v) (?sc @ [?N]) 0" by (rule fold_gcd_nonneg) simp
  have "fold (\<lambda>v d. gcd d v) (?sc @ [?N]) 0 \<noteq> 0" using g [of ?N] N by auto
  with g0 have deq: "d = fold (\<lambda>v d. gcd d v) (?sc @ [?N]) 0" unfolding d_def by linarith
  have d: "0 < d" unfolding d_def by simp
  have dv: "d dvd old i * ?n" if "i \<in> set prior" for i
  proof -
    have "old i * ?n \<in> set (?sc @ [?N])" using that by (auto intro: image_eqI [of _ _ i])
    from g [OF this] show ?thesis unfolding deq .
  qed
  have dN: "d dvd ?N" using g [of ?N] unfolding deq by simp
  have N': "1 \<le> ?N div d" by (rule dvd_div_pos [OF dN d N])
  have eq: "default_weights_for_new_operation weights ids new =
      (if max_derived_weight < Max (set (?sc' @ [?N div d])) then Inl Ratio_precision
       else Inr (dict_set new (max 1 (?N div d)) (fold (\<lambda>(k, v) d. dict_set k v d) (zip prior ?sc') ?u)))"
    using fresh prior(2) unfolding default_weights_for_new_operation_def Let_def prior(1) [symmetric] d_def old_def length_map
    by (simp add: comp_def)
  from run [unfolded eq] have w: "w = dict_set new (max 1 (?N div d)) (fold (\<lambda>(k, v) d. dict_set k v d) (zip prior ?sc') ?u)"
    and mx: "\<not> max_derived_weight < Max (set (?sc' @ [?N div d]))"
    by (simp_all only: split: if_splits) simp_all
  have pd: "distinct prior" using dist prior(1) by simp
  have newp: "new \<notin> set prior" using fresh prior(1) by auto
  have zipd: "map_of (fold (\<lambda>(k, v) d. dict_set k v d) (zip prior ?sc') ?u) = map_of ?u ++ map_of (zip prior ?sc')"
    by (rule map_of_fold_dict_set) (simp add: pd)
  have zl: "map_of (zip prior ?sc') i = (if i \<in> set prior then Some (old i * ?n div d) else None)" for i
    using map_of_zip_map [of prior "\<lambda>i. old i * ?n div d"] by simp
  have cn: "cur new = ?N div d" using N' by (simp add: cur_def w)
  have cp: "cur i = old i * ?n div d" if "i \<in> set prior" for i
    using that newp by (auto simp: cur_def w zipd zl map_add_def)
  have up: "v \<le> max_derived_weight" if "v \<in> set (?sc' @ [?N div d])" for v
    using mx Max_ge [OF finite_set that] by linarith
  have "cur i * old j = cur j * old i" if "i \<in> set prior" "j \<in> set prior" for i j
  proof -
    have "old i * ?n div d * old j = old i * ?n * old j div d" using dv [OF that(1)] by (simp add: dvd_div_mult)
    moreover have "old j * ?n div d * old i = old j * ?n * old i div d" using dv [OF that(2)] by (simp add: dvd_div_mult)
    ultimately show ?thesis using that by (simp add: cp mult.commute mult.left_commute)
  qed
  moreover have "?n * cur new = sum_list (map cur prior)"
  proof -
    have "d * sum_list (map cur prior) = sum_list (map (\<lambda>i. d * cur i) prior)" by (simp add: sum_list_const_mult)
    also have "\<dots> = sum_list (map (\<lambda>i. ?n * old i) prior)"
      by (intro arg_cong [of _ _ sum_list] map_cong refl) (simp add: cp dv mult.commute)
    also have "\<dots> = ?n * ?N" by (simp add: sum_list_const_mult)
    also have "\<dots> = d * (?n * cur new)" using dN by (simp add: cn)
    finally show ?thesis using d by simp
  qed
  moreover have "1 \<le> cur i \<and> cur i \<le> max_derived_weight" if "i \<in> insert new (set prior)" for i
  proof (cases "i = new")
    case True
    with N' up show ?thesis by (simp add: cn)
  next
    case False
    with that have i: "i \<in> set prior" by simp
    have "1 * 1 \<le> old i * ?n" using old1 [OF i] n by (intro mult_mono) simp_all
    then have "1 \<le> cur i" unfolding cp [OF i] by (intro dvd_div_pos [OF dv [OF i] d]) simp
    moreover have "cur i \<in> set ?sc'" using i by (auto simp: cp)
    ultimately show ?thesis using up by simp
  qed
  moreover have "map_of w k = map_of ?u k" if "k \<notin> insert new (set prior)" for k
    using that by (simp add: w zipd map_add_def zl)
  ultimately show ?thesis by blast
qed

section \<open>What the planner guarantees\<close>

text \<open>Row division: when the ids are distinct, an allocation gives every operation of the
  page its minimum plus a share; the heights add up exactly to the rows that the anchor and the
  separators leave; every share is the proportional one rounded down or that plus one; and a
  heavier operation never gets a smaller share than a lighter one, nor an earlier one a smaller
  share than a later one of the same weight.\<close>

theorem allocate_rows_exact:
  assumes "allocate_rows ops weights rows anchor mn dv = Some alloc" and "ops \<noteq> []" and "distinct (map oid ops)"
  defines "e \<equiv> rows - anchor - (int (length ops) + 1) * dv - sum_list (map (minimum_rows mn) ops)"
    and "heft \<equiv> sum_list (map (weight_of weights) ops)"
    and "share \<equiv> \<lambda>i. snd (alloc ! i) - minimum_rows mn (ops ! i)"
  shows "map fst alloc = map oid ops
    \<and> anchor + (int (length ops) + 1) * dv + sum_list (map snd alloc) = rows
    \<and> (\<forall>i < length ops. 0 \<le> share i
         \<and> share i \<in> {e * weight_of weights (ops ! i) div heft, e * weight_of weights (ops ! i) div heft + 1})
    \<and> (\<forall>i < length ops. \<forall>j < length ops.
         weight_of weights (ops ! i) < weight_of weights (ops ! j)
           \<or> weight_of weights (ops ! i) = weight_of weights (ops ! j) \<and> j < i \<longrightarrow> share i \<le> share j)"
proof -
  let ?ws = "map (weight_of weights) ops"
  note S = allocate_rows_shape [OF assms(1-3), folded e_def]
  have pos: "1 \<le> w" if "w \<in> set ?ws" for w using that by (auto simp: weight_of_def)
  have W: "0 < sum_list ?ws" using pos assms(2) by (intro sum_list_positive) auto
  have len: "length alloc = length ops" unfolding S(2) by simp
  have sh: "share i = extra_share e ?ws i" if "i < length ops" for i
    using that by (simp add: share_def S(2))
  have "0 \<le> share i \<and> share i \<in> {e * weight_of weights (ops ! i) div heft, e * weight_of weights (ops ! i) div heft + 1}"
    if i: "i < length ops" for i
  proof -
    have w1: "1 \<le> weight_of weights (ops ! i)" using pos i by simp
    have "0 \<le> e * weight_of weights (ops ! i) div sum_list ?ws"
      using S(1) W w1 by (intro pos_imp_zdiv_nonneg_iff [THEN iffD2]) simp_all
    then show ?thesis using i by (simp add: sh extra_share_def heft_def)
  qed
  moreover have "share i \<le> share j" if "i < length ops" "j < length ops"
    "weight_of weights (ops ! i) < weight_of weights (ops ! j) \<or> weight_of weights (ops ! i) = weight_of weights (ops ! j) \<and> j < i" for i j
    using extra_share_mono [OF pos S(1), of ?ws i j] that by (simp add: sh)
  moreover have "map fst alloc = map oid ops" unfolding S(2) by simp
  moreover have "anchor + (int (length ops) + 1) * dv + sum_list (map snd alloc) = rows" using S(3) by simp
  ultimately show ?thesis by blast
qed

text \<open>Pages: paginating keeps every entry once and in order; when there are entries, no page
  is empty, exceeds the row budget or holds more sections than allowed; and a page is only
  left for the next one when the next page's first entry does not fit on it.\<close>

theorem pages_of_packed:
  assumes "pages_of mn dv budget maximum g active entries = Some pages" and "1 \<le> maximum"
  shows "concat pages = entries
    \<and> (entries \<noteq> [] \<longrightarrow> (\<forall>p \<in> set pages. p \<noteq> [] \<and> page_fits mn dv budget maximum g active p))
    \<and> (\<forall>i. Suc i < length pages \<longrightarrow>
         \<not> page_fits mn dv budget maximum g active (pages ! i @ [hd (pages ! Suc i)]))"
  using pages_of_shape [OF assms] unfolding packed_def by blast

text \<open>Assignments: every plan, blocked or not, assigns exactly the operations that have an
  identifier, each once, in an order that is theirs by rank; a blocked plan shows none of them.\<close>

theorem plan_assigns_inventory:
  assumes "plan_native_layout ops ge st = Inr p"
  shows "mset (map as_operation_id (plan_assignments p)) = mset (map oid (filter (\<lambda>item. is_val (operation_id item)) ops))
    \<and> map as_operation_id (plan_assignments p) = map oid (inventory_order st ops)
    \<and> map as_order (plan_assignments p) = [0..<length (plan_assignments p)]"
proof -
  obtain st' where st': "plan_step ops ge st' = Inr (Done p)" "operation_order st' = operation_order st"
    using plan_native_layout_last [OF assms] by blast
  have inv: "inventory_order st' ops = inventory_order st ops" by (simp add: inventory_order_def st'(2))
  have "assigns_inventory (inventory_order st ops) (plan_assignments p)"
    using st'(1) by (rule plan_step_cases) (use hidden_assigns plan_page_assigns inv in \<open>fastforce+\<close>)
  then have a: "map as_operation_id (plan_assignments p) = map oid (inventory_order st ops)"
    "map as_order (plan_assignments p) = [0..<length (inventory_order st ops)]"
    by (simp_all add: assigns_inventory_def)
  from arg_cong [OF a(1), of length] have "length (plan_assignments p) = length (inventory_order st ops)" by simp
  with a inventory_perm [of st ops] show ?thesis by (metis mset_map)
qed

text \<open>C16. Every row is accounted for: in a plan that is not blocked and shows an operation, the
  heights of the shown operations, their separators, the anchor and the summary rows with their
  borders add up to exactly the rows of the viewport.\<close>

theorem plan_rows_exact:
  assumes "plan_native_layout ops ge st = Inr (Row_plan head ids secs groups coll as)"
    and "distinct (map oid (filter (\<lambda>item. is_val (operation_id item)) ops))"
    and "filter as_visible as \<noteq> []"
  shows "sum_list (map as_rows (filter as_visible as))
      + (int (length (filter as_visible as)) + 1) * ge_divider_rows ge + ge_anchor_rows ge
      + (int (length coll) + (if grouped_sections st = Val True then int (length groups) * ge_divider_rows ge
           else if coll \<noteq> [] then ge_divider_rows ge else 0)) = ph_rows head"
proof -
  obtain st' where "plan_step ops ge st' = Inr (Done (Row_plan head ids secs groups coll as))"
    "grouped_sections st' = grouped_sections st"
    using plan_native_layout_last [OF assms(1)] by blast
  from plan_step_rows [OF this(1) assms(2,3)] this(2) show ?thesis by simp
qed


section \<open>Witnesses\<close>

definition sample_operation :: "string \<Rightarrow> string \<Rightarrow> int \<Rightarrow> operation" where
  "sample_operation i s order = \<lparr>operation_id = Val i, layout_order = Val order, activation_seq = Absent,
     created_at = Val 1, activity_monotonic = Val 95, activated_monotonic = Absent, finished_monotonic = Absent,
     input_required = Absent, op_state = Val s, process_scope = Absent, output_drain = Absent,
     native_min_rows = Absent, native_pane_rows = Absent, pane_label = Absent\<rparr>"

definition sample_operations :: "operation list" where
  "sample_operations = [sample_operation ''b'' ''running'' 2, sample_operation ''a'' ''running'' 1, sample_operation ''c'' ''completed'' 3]"

definition sample_canvas :: canvas_state where
  "sample_canvas = \<lparr>mode = Val ''follow'', canvas_rows = Val 24, canvas_columns = Absent, expanded_operation_ids = [],
     inspection_target_id = Absent, operation_order = None, selected_operation_id = Val ''a'', visible_operation_ids = Absent,
     grouped_sections = Val True, compact_idle = Absent, max_sections = Absent, desired_generation = 7,
     manual_page = Absent, page_number = Absent, page_anchor_operation_id = Absent,
     canvas_weights = None, inspection_preserved_rows = None\<rparr>"

definition sample_geometry :: geometry where
  "sample_geometry = \<lparr>ge_now = 100, ge_automatic_page = False, ge_quiet_seconds = 10, ge_min_pane_rows = 3,
     ge_anchor_rows = 1, ge_divider_rows = 1, ge_completed_hide_seconds = 60\<rparr>"

lemma sample_plan: "case plan_native_layout sample_operations sample_geometry sample_canvas of
     Inr (Row_plan head ids secs groups coll as) \<Rightarrow>
       map (\<lambda>a. (as_operation_id a, as_rows a, as_visible a)) as = [(''a'', 9, True), (''b'', 9, True), (''c'', 3, False)]
       \<and> ids = [''a'', ''b'', ''c''] \<and> length coll = 1 \<and> length groups = 1
   | _ \<Rightarrow> False"
  by code_simp
lemma sample_plan_row: "\<exists>head ids secs groups coll as. plan_native_layout sample_operations sample_geometry sample_canvas
    = Inr (Row_plan head ids secs groups coll as) \<and> filter as_visible as \<noteq> []"
proof -
  have "case plan_native_layout sample_operations sample_geometry sample_canvas of
      Inr (Row_plan head ids secs groups coll as) \<Rightarrow> filter as_visible as \<noteq> [] | _ \<Rightarrow> False" by code_simp
  then show ?thesis by (auto split: sum.splits layout_plan.splits)
qed

theorem allocate_rows_exact_witness:
  "(1 + (2 + 1) * 1 + sum_list (map snd [(''b'', 7), (''a'', 12)]) = (23 :: int))
   \<and> map fst [(''b'', 7 :: int), (''a'', 12)] = map oid (take 2 sample_operations)"
proof -
  have r: "allocate_rows (take 2 sample_operations) [(''a'', 7), (''b'', 3)] 23 1 3 1 = Some [(''b'', 7), (''a'', 12)]"
    by code_simp
  have "take 2 sample_operations \<noteq> []" "distinct (map oid (take 2 sample_operations))" by code_simp+
  from allocate_rows_exact [OF r this] show ?thesis by (simp add: sample_operations_def)
qed

theorem pages_of_packed_witness:
  "\<not> page_fits 3 1 9 4 False [''a'', ''b'', ''c''] (take 2 sample_operations @ [sample_operations ! 2])"
proof -
  have "pages_of 3 1 9 4 False [''a'', ''b'', ''c''] sample_operations = Some [take 2 sample_operations, drop 2 sample_operations]"
    by code_simp
  from pages_of_packed [OF this] have "\<not> page_fits 3 1 9 4 False [''a'', ''b'', ''c'']
      (take 2 sample_operations @ [hd (drop 2 sample_operations)])" by fastforce
  then show ?thesis by (simp add: sample_operations_def)
qed

theorem plan_assigns_inventory_witness:
  "\<exists>p. plan_native_layout sample_operations sample_geometry sample_canvas = Inr p
     \<and> map as_operation_id (plan_assignments p) = [''a'', ''b'', ''c'']"
proof -
  obtain head ids secs groups coll as where
    p: "plan_native_layout sample_operations sample_geometry sample_canvas = Inr (Row_plan head ids secs groups coll as)"
    using sample_plan_row by blast
  have "map oid (inventory_order sample_canvas sample_operations) = [''a'', ''b'', ''c'']" by code_simp
  with plan_assigns_inventory [OF p] p show ?thesis by simp
qed

theorem plan_rows_exact_witness:
  "\<exists>head ids secs groups coll as. plan_native_layout sample_operations sample_geometry sample_canvas
      = Inr (Row_plan head ids secs groups coll as)
    \<and> sum_list (map as_rows (filter as_visible as)) + (int (length (filter as_visible as)) + 1)
      + (1 + int (length coll) + int (length groups)) = ph_rows head"
proof -
  obtain head ids secs groups coll as where
    p: "plan_native_layout sample_operations sample_geometry sample_canvas = Inr (Row_plan head ids secs groups coll as)"
      "filter as_visible as \<noteq> []"
    using sample_plan_row by blast
  have "distinct (map oid (filter (\<lambda>item. is_val (operation_id item)) sample_operations))" by code_simp
  from plan_rows_exact [OF p(1) this p(2)] p(1) show ?thesis
    by (auto simp: sample_geometry_def sample_canvas_def)
qed

theorem reactivation_order_moves_witness:
  "mset (reactivation_order [''a'', ''b'', ''c''] [(5, ''b''), (2, ''a''), (3, ''z'')]) = mset [''a'', ''b'', ''c'']
   \<and> reactivation_order [''a'', ''b'', ''c''] [(5, ''b''), (2, ''a''), (3, ''z'')] = [''c'', ''a'', ''b'']"
proof
  show "mset (reactivation_order [''a'', ''b'', ''c''] [(5, ''b''), (2, ''a''), (3, ''z'')]) = mset [''a'', ''b'', ''c'']"
    using reactivation_order_moves [of "[''a'', ''b'', ''c'']" "[(5, ''b''), (2, ''a''), (3, ''z'')]"] by auto
  show "reactivation_order [''a'', ''b'', ''c''] [(5, ''b''), (2, ''a''), (3, ''z'')] = [''c'', ''a'', ''b'']"
    by code_simp
qed

theorem default_weights_ratio_witness:
  "default_weights_for_new_operation [(''a'', Val 10000), (''b'', Val 1), (''q'', Other ''x'' True)] [''a'', ''b'', ''q''] ''c''
     = Inr [(''a'', 20000), (''b'', 2), (''c'', 10001)]
   \<and> 2 * 10001 = sum_list [20000, 2 :: int]"
proof -
  have r: "default_weights_for_new_operation [(''a'', Val 10000), (''b'', Val 1), (''q'', Other ''x'' True)] [''a'', ''b'', ''q''] ''c''
     = Inr [(''a'', 20000), (''b'', 2), (''c'', 10001)]" by code_simp
  have u: "''c'' \<notin> set (map fst (usable_weights [(''a'', Val 10000), (''b'', Val 1), (''q'', Other ''x'' True)]))"
    "[''a'', ''b''] = filter (\<lambda>i. i \<in> set (map fst (usable_weights [(''a'', Val 10000), (''b'', Val 1), (''q'', Other ''x'' True)]))) [''a'', ''b'', ''q'']"
    by code_simp+
  from default_weights_ratio [OF r _ u] r show ?thesis by simp
qed

end
