(* ===== verification/Utf8.thy ===== *)
theory Utf8
  imports Prelude "HOL-Library.Code_Target_Nat"
begin

text \<open>
  Python text and its UTF-8 form. A string is a list of code points, surrogates included; a
  byte string is a list of numbers below 256. Encoding in strict mode refuses surrogates;
  decoding in strict mode refuses malformed, overlong, surrogate and out-of-range sequences.
\<close>

type_synonym pytext = "nat list"
type_synonym bytes = "nat list"

definition surrogate :: "nat \<Rightarrow> bool" where
  "surrogate c \<longleftrightarrow> 55296 \<le> c \<and> c < 57344"

definition code_point :: "nat \<Rightarrow> bool" where
  "code_point c \<longleftrightarrow> c < 1114112"

definition scalar_value :: "nat \<Rightarrow> bool" where
  "scalar_value c \<longleftrightarrow> code_point c \<and> \<not> surrogate c"

definition encode_char :: "nat \<Rightarrow> bytes" where
  "encode_char c =
     (if c < 128 then [c]
      else if c < 2048 then [192 + c div 64, 128 + c mod 64]
      else if c < 65536 then [224 + c div 4096, 128 + c div 64 mod 64, 128 + c mod 64]
      else [240 + c div 262144, 128 + c div 4096 mod 64, 128 + c div 64 mod 64, 128 + c mod 64])"

definition utf8_encode :: "pytext \<Rightarrow> bytes option" where
  "utf8_encode t = (if list_all scalar_value t then Some (concat (map encode_char t)) else None)"

definition continuation :: "nat \<Rightarrow> bool" where
  "continuation b \<longleftrightarrow> 128 \<le> b \<and> b < 192"

definition decode_char :: "bytes \<Rightarrow> (nat \<times> bytes) option" where
  "decode_char bs =
     (case bs of
        [] \<Rightarrow> None
      | b0 # r0 \<Rightarrow>
          if b0 < 128 then Some (b0, r0)
          else if b0 < 194 then None
          else if b0 < 224 then
            (case r0 of b1 # r1 \<Rightarrow>
                if continuation b1 then Some ((b0 - 192) * 64 + (b1 - 128), r1) else None
             | _ \<Rightarrow> None)
          else if b0 < 240 then
            (case r0 of b1 # b2 # r2 \<Rightarrow>
                let c = (b0 - 224) * 4096 + (b1 - 128) * 64 + (b2 - 128) in
                if continuation b1 \<and> continuation b2 \<and> 2048 \<le> c \<and> \<not> surrogate c then Some (c, r2) else None
             | _ \<Rightarrow> None)
          else if b0 < 245 then
            (case r0 of b1 # b2 # b3 # r3 \<Rightarrow>
                let c = (b0 - 240) * 262144 + (b1 - 128) * 4096 + (b2 - 128) * 64 + (b3 - 128) in
                if continuation b1 \<and> continuation b2 \<and> continuation b3 \<and> 65536 \<le> c \<and> c < 1114112
                then Some (c, r3) else None
             | _ \<Rightarrow> None)
          else None)"

lemma decode_char_shorter: "decode_char bs = Some (c, r) \<Longrightarrow> length r < length bs"
  by (auto simp: decode_char_def Let_def split: list.splits if_splits)

function utf8_decode :: "bytes \<Rightarrow> pytext option" where
  "utf8_decode bs =
     (if bs = [] then Some []
      else case decode_char bs of
          None \<Rightarrow> None
        | Some (c, r) \<Rightarrow> map_option (\<lambda>t. c # t) (utf8_decode r))"
  by pat_completeness auto
termination by (relation "measure length") (auto dest: decode_char_shorter)

declare utf8_decode.simps [simp del]

lemma utf8_decode_Nil [simp]: "utf8_decode [] = Some []"
  by (simp add: utf8_decode.simps)

lemma utf8_encode_Nil [simp]: "utf8_encode [] = Some []"
  by (simp add: utf8_encode_def)

lemma div_mod_64: "c div 64 * 64 + c mod 64 = (c::nat)"
  by simp

lemma digits_64: "c div 4096 * 4096 + (c div 64 mod 64) * 64 + c mod 64 = (c::nat)"
proof -
  have "c div 64 div 64 = c div 4096" by (simp add: div_mult2_eq [symmetric])
  then have "c div 64 = c div 4096 * 64 + c div 64 mod 64" by (metis div_mod_64)
  then show ?thesis using div_mod_64 [of c] by linarith
qed

lemma digits_64_4: "c div 262144 * 262144 + (c div 4096 mod 64) * 4096 + (c div 64 mod 64) * 64 + c mod 64 = (c::nat)"
proof -
  have "c div 4096 div 64 = c div 262144" by (simp add: div_mult2_eq [symmetric])
  then have "c div 4096 = c div 262144 * 64 + c div 4096 mod 64" by (metis div_mod_64)
  then show ?thesis using digits_64 [of c] by linarith
qed

lemma decode_encode_char: "scalar_value c \<Longrightarrow> decode_char (encode_char c @ r) = Some (c, r)"
proof -
  assume c: "scalar_value c"
  consider "c < 128" | "128 \<le> c" "c < 2048" | "2048 \<le> c" "c < 65536" | "65536 \<le> c" "c < 1114112"
    using c
    by (cases "c < 128"; cases "c < 2048"; cases "c < 65536") (simp_all add: scalar_value_def code_point_def)
  then show ?thesis
  proof cases
    case 2
    have "2 \<le> c div 64" "c div 64 < 32" using 2 by (simp_all add: less_eq_div_iff_mult_less_eq div_less_iff_less_mult)
    with 2 show ?thesis by (simp add: encode_char_def decode_char_def continuation_def div_mod_64)
  next
    case 3
    have "c div 4096 < 16" using 3 by (simp add: div_less_iff_less_mult)
    with 3 c show ?thesis using digits_64 [of c]
      by (simp add: encode_char_def decode_char_def continuation_def Let_def scalar_value_def)
  next
    case 4
    have "c div 262144 < 5" using 4 by (simp add: div_less_iff_less_mult)
    with 4 c show ?thesis using digits_64_4 [of c]
      by (simp add: encode_char_def decode_char_def continuation_def Let_def scalar_value_def)
  qed (simp add: encode_char_def decode_char_def)
qed

lemma encode_char_nonempty: "encode_char c \<noteq> []"
  by (simp add: encode_char_def)

lemma utf8_decode_concat: "list_all scalar_value t \<Longrightarrow> utf8_decode (concat (map encode_char t)) = Some t"
proof (induction t)
  case (Cons c t)
  then show ?case
    by (subst utf8_decode.simps) (simp add: decode_encode_char encode_char_nonempty)
qed simp

lemma utf8_round_trip: "utf8_encode t = Some bs \<Longrightarrow> utf8_decode bs = Some t"
  by (auto simp: utf8_encode_def utf8_decode_concat split: if_splits)

lemma utf8_encode_append:
  "utf8_encode (s @ t) = (case (utf8_encode s, utf8_encode t) of (Some x, Some y) \<Rightarrow> Some (x @ y) | _ \<Rightarrow> None)"
  by (auto simp: utf8_encode_def)

lemma utf8_encode_sub: "utf8_encode t = Some bs \<Longrightarrow> set s \<subseteq> set t \<Longrightarrow> utf8_encode s \<noteq> None"
  by (auto simp: utf8_encode_def list_all_iff split: if_splits)

lemma utf8_encode_length: "utf8_encode t = Some bs \<Longrightarrow> length t \<le> length bs"
proof -
  have "length t \<le> length (concat (map encode_char t))"
    by (induction t) (auto simp: encode_char_def)
  then show "utf8_encode t = Some bs \<Longrightarrow> length t \<le> length bs" by (auto simp: utf8_encode_def split: if_splits)
qed

end
