(* ===== verification/Json.thy ===== *)
theory Json
  imports Utf8 "HOL-Library.Char_ord"
begin

text \<open>
  Parsed JSON as Python holds it: objects are association lists with distinct keys in
  insertion order. Finite numbers that are not integers are rationals.
\<close>

datatype json =
    JNull | JBool bool | JInt int | JFloat rat | JStr pytext | JList "json list" | JObj "(pytext \<times> json) list"

definition u :: "string \<Rightarrow> pytext" where
  "u s = map of_char s"

lemma u_eq [simp]: "u m = u n \<longleftrightarrow> m = n"
  by (simp add: u_def inj_map_eq_map [OF inj_of_char])

lemma u_scalar: "list_all scalar_value (u s)"
proof -
  have "scalar_value (of_char c)" for c :: char
    using nat_of_char_less_256 [of c] unfolding scalar_value_def code_point_def surrogate_def by arith
  then show ?thesis by (simp add: u_def list_all_iff)
qed

definition member :: "(pytext \<times> json) list \<Rightarrow> string \<Rightarrow> json option" where
  "member obj name = map_of obj (u name)"

definition member_or :: "(pytext \<times> json) list \<Rightarrow> string \<Rightarrow> json \<Rightarrow> json" where
  "member_or obj name d = (case member obj name of Some v \<Rightarrow> v | None \<Rightarrow> d)"

definition only_members :: "(pytext \<times> json) list \<Rightarrow> string list \<Rightarrow> bool" where
  "only_members obj names \<longleftrightarrow> list_all (\<lambda>(k, v). k \<in> set (map u names)) obj"

fun json_truthy :: "json \<Rightarrow> bool" where
  "json_truthy JNull = False"
| "json_truthy (JBool b) = b"
| "json_truthy (JInt i) = (i \<noteq> 0)"
| "json_truthy (JFloat r) = (r \<noteq> 0)"
| "json_truthy (JStr s) = (s \<noteq> [])"
| "json_truthy (JList xs) = (xs \<noteq> [])"
| "json_truthy (JObj kvs) = (kvs \<noteq> [])"

fun as_str :: "json \<Rightarrow> pytext option" where
  "as_str (JStr s) = Some s"
| "as_str _ = None"

fun as_int :: "json \<Rightarrow> int option" where
  "as_int (JInt i) = Some i"
| "as_int _ = None"

fun as_bool :: "json \<Rightarrow> bool option" where
  "as_bool (JBool b) = Some b"
| "as_bool _ = None"

definition keys_are :: "(pytext \<times> json) list \<Rightarrow> string list \<Rightarrow> bool" where
  "keys_are obj names \<longleftrightarrow> set (map fst obj) = set (map u names)"

text \<open>\<open>obj[name]\<close> where the keys have been checked.\<close>

definition entry :: "(pytext \<times> json) list \<Rightarrow> string \<Rightarrow> json" where
  "entry obj name = member_or obj name JNull"

fun as_list :: "json \<Rightarrow> json list option" where
  "as_list (JList xs) = Some xs"
| "as_list _ = None"

fun as_obj :: "json \<Rightarrow> (pytext \<times> json) list option" where
  "as_obj (JObj kvs) = Some kvs"
| "as_obj _ = None"

definition all_some :: "'a option list \<Rightarrow> 'a list option" where
  "all_some xs = (if None \<in> set xs then None else Some (map the xs))"

lemma all_some_Some: "all_some xs = Some ys \<longleftrightarrow> xs = map Some ys"
proof
  assume "all_some xs = Some ys"
  then have n: "None \<notin> set xs" and ys: "ys = map the xs" by (auto simp: all_some_def split: if_splits)
  have "x = Some (the x)" if "x \<in> set xs" for x using n that by (cases x) auto
  then show "xs = map Some ys" unfolding ys by (simp add: map_idI)
qed (auto simp: all_some_def comp_def)

end
