(* ===== verification/Dialog.thy ===== *)
theory Dialog
  imports Json
begin

text \<open>
  The in-memory form shared by the terminal dialogs, after
  \<^verbatim>\<open>src/ls/core/terminal_ops/dialog_model.py\<close>: fields and forms with their limits, the
  parser of declarative requests, the validation of a response, and the editor, an object
  with a deadline whose secrets are wiped when it closes and handed over once. Which code
  points are control characters is a parameter (the Unicode database); the clock's value is
  an argument of every operation that reads it, once a reading.
\<close>

section \<open>Fields and forms\<close>

datatype dialog_error = Value_error | Unicode_error

datatype kind = Password | Plain_text | Multiline | Checkbox | Radio | Confirm

fun kind_of :: "pytext \<Rightarrow> kind option" where
  "kind_of s =
     (if s = u ''password'' then Some Password else if s = u ''text'' then Some Plain_text
      else if s = u ''multiline'' then Some Multiline else if s = u ''checkbox'' then Some Checkbox
      else if s = u ''radio'' then Some Radio else if s = u ''confirm'' then Some Confirm else None)"

definition editable :: "kind \<Rightarrow> bool" where
  "editable k \<longleftrightarrow> k \<in> {Password, Plain_text, Multiline, Confirm}"

text \<open>\<open>_text\<close> on a string: encodable, within the byte limit, and free of control characters,
  newline and tab excepted in a multi-line field.\<close>

definition text_ok :: "(nat \<Rightarrow> bool) \<Rightarrow> pytext \<Rightarrow> nat \<Rightarrow> bool \<Rightarrow> bool" where
  "text_ok control value maximum multi \<longleftrightarrow>
     (case utf8_encode value of None \<Rightarrow> False | Some bs \<Rightarrow>
        length bs \<le> maximum \<and> list_all (\<lambda>c. control c \<longrightarrow> multi \<and> (c = 10 \<or> c = 9)) value)"

definition identifier_first :: "nat \<Rightarrow> bool" where
  "identifier_first c \<longleftrightarrow> (65 \<le> c \<and> c \<le> 90) \<or> (97 \<le> c \<and> c \<le> 122)"

definition identifier_rest :: "nat \<Rightarrow> bool" where
  "identifier_rest c \<longleftrightarrow> identifier_first c \<or> (48 \<le> c \<and> c \<le> 57) \<or> c = 95 \<or> c = 45"

definition identifier_ok :: "pytext \<Rightarrow> bool" where
  "identifier_ok s \<longleftrightarrow> (case s of [] \<Rightarrow> False
     | c # cs \<Rightarrow> identifier_first c \<and> list_all identifier_rest cs \<and> length cs \<le> 63)"

record dialog_choice =
  ch_value :: pytext
  ch_label :: pytext

record dialog_field =
  fd_name :: pytext
  fd_label :: pytext
  fd_kind :: kind
  fd_required :: bool
  fd_max_bytes :: nat
  fd_max_lines :: nat
  fd_choices :: "dialog_choice list"
  fd_initial_text :: pytext
  fd_initial_choices :: "pytext list"
  fd_confirmation :: "pytext option"
  fd_matches :: "pytext option"

record dialog_form =
  fm_title :: pytext
  fm_fields :: "dialog_field list"
  fm_description :: pytext

text \<open>\<open>Choice(**choice)\<close>\<close>

definition choice_post_init :: "(nat \<Rightarrow> bool) \<Rightarrow> json \<Rightarrow> json \<Rightarrow> (dialog_error, dialog_choice) result" where
  "choice_post_init control value label =
     (case (as_str value, as_str label) of
        (Some v, Some l) \<Rightarrow> rbind (require (identifier_ok v \<and> text_ok control l 256 False) Value_error)
           (\<lambda>_. Inr \<lparr>ch_value = v, ch_label = l\<rparr>)
      | _ \<Rightarrow> Inl Value_error)"

text \<open>The arguments of \<open>Field(...)\<close> before its checks; the initial value may be a tuple.\<close>

datatype raw_initial = Raw_json json | Raw_tuple "json list"

record raw_field =
  rf_name :: json
  rf_label :: json
  rf_kind :: json
  rf_required :: json
  rf_max_bytes :: json
  rf_max_lines :: json
  rf_choices :: "dialog_choice list"
  rf_initial :: raw_initial
  rf_confirmation :: json
  rf_matches :: json

definition need :: "'a option \<Rightarrow> (dialog_error, 'a) result" where
  "need x = (case x of Some v \<Rightarrow> Inr v | None \<Rightarrow> Inl Value_error)"

definition limit_of :: "json \<Rightarrow> int \<Rightarrow> (dialog_error, nat) result" where
  "limit_of v most = rbind (need (as_int v)) (\<lambda>i.
     rbind (require (1 \<le> i \<and> i \<le> most) Value_error) (\<lambda>_. Inr (nat i)))"

definition newlines :: "pytext \<Rightarrow> nat" where
  "newlines t = length (filter (\<lambda>c. c = 10) t)"

definition initial_text_of :: "(nat \<Rightarrow> bool) \<Rightarrow> kind \<Rightarrow> nat \<Rightarrow> nat \<Rightarrow> dialog_choice list \<Rightarrow> raw_initial
     \<Rightarrow> (dialog_error, pytext) result" where
  "initial_text_of control k max_bytes max_lines choices ini =
     rbind (require (choices = []) Value_error) (\<lambda>_.
     rbind (case ini of Raw_json JNull \<Rightarrow> Inr [] | Raw_json (JStr s) \<Rightarrow> Inr s | _ \<Rightarrow> Inl Value_error) (\<lambda>s.
     rbind (require (text_ok control s max_bytes (k = Multiline) \<and> newlines s + 1 \<le> max_lines
        \<and> (k \<in> {Password, Confirm} \<longrightarrow> s = [])) Value_error) (\<lambda>_. Inr s)))"

definition initial_choices_of :: "kind \<Rightarrow> dialog_choice list \<Rightarrow> raw_initial \<Rightarrow> (dialog_error, pytext list) result" where
  "initial_choices_of k choices ini =
     rbind (require (1 \<le> length choices \<and> length choices \<le> 128 \<and> distinct (map ch_value choices)) Value_error) (\<lambda>_.
     rbind (case ini of Raw_json JNull \<Rightarrow> Inr [] | Raw_tuple vs \<Rightarrow> need (all_some (map as_str vs)) | _ \<Rightarrow> Inl Value_error) (\<lambda>vs.
     rbind (require (set vs \<subseteq> ch_value ` set choices \<and> distinct vs \<and> (k = Radio \<longrightarrow> length vs \<le> 1)) Value_error) (\<lambda>_. Inr vs)))"

definition field_post_init :: "(nat \<Rightarrow> bool) \<Rightarrow> raw_field \<Rightarrow> (dialog_error, dialog_field) result" where
  "field_post_init control r =
     rbind (need (as_str (rf_name r))) (\<lambda>name.
     rbind (require (identifier_ok name) Value_error) (\<lambda>_.
     rbind (need (as_str (rf_label r))) (\<lambda>label.
     rbind (require (text_ok control label 256 False) Value_error) (\<lambda>_.
     rbind (need (Option.bind (as_str (rf_kind r)) kind_of)) (\<lambda>k.
     rbind (need (as_bool (rf_required r))) (\<lambda>required.
     rbind (limit_of (rf_max_bytes r) 16384) (\<lambda>max_bytes.
     rbind (limit_of (rf_max_lines r) 64) (\<lambda>max_lines.
     rbind (if editable k then initial_text_of control k max_bytes max_lines (rf_choices r) (rf_initial r) else Inr []) (\<lambda>ini.
     rbind (if editable k then Inr [] else initial_choices_of k (rf_choices r) (rf_initial r)) (\<lambda>sel.
     rbind (if k = Confirm then
              rbind (require (json_truthy (rf_confirmation r)) Value_error) (\<lambda>_.
              rbind (need (as_str (rf_confirmation r))) (\<lambda>c.
              rbind (require (text_ok control c max_bytes False) Value_error) (\<lambda>_. Inr (Some c))))
            else if rf_confirmation r \<noteq> JNull then Inl Value_error else Inr None) (\<lambda>confirmation.
     rbind (if rf_matches r = JNull then Inr None
            else rbind (require (k = Password) Value_error) (\<lambda>_.
                 rbind (need (as_str (rf_matches r))) (\<lambda>m.
                 rbind (require (identifier_ok m) Value_error) (\<lambda>_. Inr (Some m))))) (\<lambda>matches.
     Inr \<lparr>fd_name = name, fd_label = label, fd_kind = k, fd_required = required, fd_max_bytes = max_bytes,
          fd_max_lines = max_lines, fd_choices = rf_choices r, fd_initial_text = ini, fd_initial_choices = sel,
          fd_confirmation = confirmation, fd_matches = matches\<rparr>))))))))))))"

text \<open>A password may match only an earlier password field.\<close>

definition matches_earlier :: "dialog_field list \<Rightarrow> nat \<Rightarrow> bool" where
  "matches_earlier fds i \<longleftrightarrow>
     (case fd_matches (fds ! i) of None \<Rightarrow> True
      | Some m \<Rightarrow> list_ex (\<lambda>j. fd_name (fds ! j) = m \<and> fd_kind (fds ! j) = Password) [0..<i])"

definition form_ok :: "(nat \<Rightarrow> bool) \<Rightarrow> dialog_form \<Rightarrow> bool" where
  "form_ok control f \<longleftrightarrow>
     text_ok control (fm_title f) 256 False \<and> text_ok control (fm_description f) 32768 True
     \<and> 1 \<le> length (fm_fields f) \<and> length (fm_fields f) \<le> 32
     \<and> distinct (map fd_name (fm_fields f))
     \<and> list_all (matches_earlier (fm_fields f)) [0..<length (fm_fields f)]
     \<and> sum_list (map fd_max_bytes (filter (\<lambda>x. editable (fd_kind x)) (fm_fields f))) \<le> 65536
     \<and> sum_list (map (\<lambda>x. length (fd_choices x)) (fm_fields f)) \<le> 256"

definition form_post_init :: "(nat \<Rightarrow> bool) \<Rightarrow> json \<Rightarrow> dialog_field list \<Rightarrow> json \<Rightarrow> (dialog_error, dialog_form) result" where
  "form_post_init control title fds description =
     rbind (need (as_str title)) (\<lambda>t.
     rbind (need (as_str description)) (\<lambda>d.
     let f = \<lparr>fm_title = t, fm_fields = fds, fm_description = d\<rparr> in
     rbind (require (form_ok control f) Value_error) (\<lambda>_. Inr f)))"

definition choice_from_mapping :: "(nat \<Rightarrow> bool) \<Rightarrow> json \<Rightarrow> (dialog_error, dialog_choice) result" where
  "choice_from_mapping control j =
     (case j of JObj obj \<Rightarrow>
        (case (member obj ''value'', member obj ''label'') of
           (Some v, Some l) \<Rightarrow> if length obj = 2 then choice_post_init control v l else Inl Value_error
         | _ \<Rightarrow> Inl Value_error)
      | _ \<Rightarrow> Inl Value_error)"

definition field_members :: "string list" where
  "field_members = [''name'', ''label'', ''kind'', ''required'', ''max_bytes'', ''max_lines'', ''choices'', ''initial'',
     ''confirmation'', ''matches'']"

definition field_from_mapping :: "(nat \<Rightarrow> bool) \<Rightarrow> json \<Rightarrow> (dialog_error, dialog_field) result" where
  "field_from_mapping control j =
     (case j of JObj item \<Rightarrow>
        rbind (require (only_members item field_members) Value_error) (\<lambda>_.
        rbind (require (case member item ''matches'' of None \<Rightarrow> True | Some v \<Rightarrow> as_str v \<noteq> None) Value_error) (\<lambda>_.
        rbind (case member_or item ''choices'' (JList []) of
                 JList options \<Rightarrow> if length options \<le> 128 then rmap (choice_from_mapping control) options else Inl Value_error
               | _ \<Rightarrow> Inl Value_error) (\<lambda>choices.
        rbind (if Option.bind (member item ''kind'') as_str \<in> {Some (u ''radio''), Some (u ''checkbox'')} then
                 (case member_or item ''initial'' (JList []) of JList vs \<Rightarrow> Inr (Raw_tuple vs) | _ \<Rightarrow> Inl Value_error)
               else Inr (Raw_json (member_or item ''initial'' JNull))) (\<lambda>ini.
        (case (member item ''name'', member item ''label'') of
           (Some name, Some label) \<Rightarrow> field_post_init control
             \<lparr>rf_name = name, rf_label = label, rf_kind = member_or item ''kind'' (JStr (u ''text'')),
              rf_required = member_or item ''required'' (JBool False),
              rf_max_bytes = member_or item ''max_bytes'' (JInt 4096), rf_max_lines = member_or item ''max_lines'' (JInt 32),
              rf_choices = choices, rf_initial = ini,
              rf_confirmation = member_or item ''confirmation'' JNull, rf_matches = member_or item ''matches'' JNull\<rparr>
         | _ \<Rightarrow> Inl Value_error)))))
      | _ \<Rightarrow> Inl Value_error)"

definition form_from_mapping :: "(nat \<Rightarrow> bool) \<Rightarrow> json \<Rightarrow> (dialog_error, dialog_form) result" where
  "form_from_mapping control j =
     (case j of JObj obj \<Rightarrow>
        rbind (require (only_members obj [''title'', ''description'', ''fields'']) Value_error) (\<lambda>_.
        case member_or obj ''fields'' JNull of
          JList raw \<Rightarrow>
            rbind (require (1 \<le> length raw \<and> length raw \<le> 32) Value_error) (\<lambda>_.
            rbind (rmap (field_from_mapping control) raw) (\<lambda>fds.
            form_post_init control (member_or obj ''title'' JNull) fds (member_or obj ''description'' (JStr []))))
        | _ \<Rightarrow> Inl Value_error)
      | _ \<Rightarrow> Inl Value_error)"

section \<open>Responses\<close>

datatype answer = Bytes_answer bytes | Choice_answer "pytext list"

type_synonym response = "(pytext \<times> answer) list"

datatype complaint = Fields_differ | Exceeds_limit | Unsupported_characters | Wrong_phrase | Invalid_selection
  | Empty_required | Passwords_differ | Refused_input | Too_small | No_complaint

definition answer_of :: "response \<Rightarrow> pytext \<Rightarrow> answer" where
  "answer_of r name = (case map_of r name of Some a \<Rightarrow> a | None \<Rightarrow> Bytes_answer [])"

text \<open>The first loop of \<open>validate_response\<close>: what is wrong with one field's answer.\<close>

definition field_complaint :: "(nat \<Rightarrow> bool) \<Rightarrow> dialog_field \<Rightarrow> answer \<Rightarrow> complaint option" where
  "field_complaint control item a =
     (let wrong = (if editable (fd_kind item) then
            (case a of
               Bytes_answer bs \<Rightarrow>
                 if fd_max_bytes item < length bs then Some Exceeds_limit
                 else (case utf8_decode bs of
                     None \<Rightarrow> Some Unsupported_characters
                   | Some t \<Rightarrow>
                       if \<not> text_ok control t (fd_max_bytes item) (fd_kind item = Multiline) then Some Unsupported_characters
                       else if fd_max_lines item < newlines t + 1 then Some Exceeds_limit
                       else if fd_kind item = Confirm \<and> Some t \<noteq> fd_confirmation item then Some Wrong_phrase
                       else None)
             | Choice_answer vs \<Rightarrow> Some Exceeds_limit)
          else
            (case a of
               Choice_answer vs \<Rightarrow>
                 if length (fd_choices item) < length vs \<or> \<not> set vs \<subseteq> ch_value ` set (fd_choices item)
                    \<or> \<not> distinct vs \<or> (fd_kind item = Radio \<and> 1 < length vs)
                 then Some Invalid_selection else None
             | Bytes_answer bs \<Rightarrow> Some Invalid_selection))
      in case wrong of Some c \<Rightarrow> Some c
         | None \<Rightarrow> if fd_required item \<and> a \<in> {Bytes_answer [], Choice_answer []} then Some Empty_required else None)"

fun first_complaint :: "nat \<Rightarrow> ('a \<Rightarrow> complaint option) \<Rightarrow> 'a list \<Rightarrow> (nat \<times> complaint) option" where
  "first_complaint i f [] = None"
| "first_complaint i f (x # xs) = (case f x of Some c \<Rightarrow> Some (i, c) | None \<Rightarrow> first_complaint (Suc i) f xs)"

definition match_complaint :: "response \<Rightarrow> dialog_field \<Rightarrow> complaint option" where
  "match_complaint r item = (case fd_matches item of None \<Rightarrow> None
     | Some m \<Rightarrow> if answer_of r (fd_name item) = answer_of r m then None else Some Passwords_differ)"

definition validate_response :: "(nat \<Rightarrow> bool) \<Rightarrow> dialog_form \<Rightarrow> response \<Rightarrow> (nat \<times> complaint) option" where
  "validate_response control f r =
     (if set (map fst r) \<noteq> set (map fd_name (fm_fields f)) then Some (0, Fields_differ)
      else case first_complaint 0 (\<lambda>item. field_complaint control item (answer_of r (fd_name item))) (fm_fields f) of
          Some c \<Rightarrow> Some c
        | None \<Rightarrow> first_complaint 0 (match_complaint r) (fm_fields f))"

section \<open>The form editor\<close>

datatype form_status = Editing | Submitted | Delivered | Cancelled | Expired | Unavailable | Failed

record form_state =
  fs_form :: dialog_form
  fs_deadline :: rat
  fs_status :: form_status
  fs_error :: complaint
  fs_focus :: nat
  fs_width :: int
  fs_height :: int
  fs_buffers :: "bytes list"
  fs_selections :: "pytext list list"
  fs_cursors :: "nat list"

definition encoded :: "pytext \<Rightarrow> (dialog_error, bytes) result" where
  "encoded t = (case utf8_encode t of Some bs \<Rightarrow> Inr bs | None \<Rightarrow> Inl Unicode_error)"

definition decoded :: "bytes \<Rightarrow> (dialog_error, pytext) result" where
  "decoded bs = (case utf8_decode bs of Some t \<Rightarrow> Inr t | None \<Rightarrow> Inl Unicode_error)"

definition form_state_init :: "dialog_form \<Rightarrow> rat \<Rightarrow> (dialog_error, form_state) result" where
  "form_state_init form deadline =
     rbind (rmap (\<lambda>f. if editable (fd_kind f) then encoded (fd_initial_text f) else Inr []) (fm_fields form)) (\<lambda>buffers.
     Inr \<lparr>fs_form = form, fs_deadline = deadline, fs_status = Editing, fs_error = No_complaint, fs_focus = 0,
        fs_width = 0, fs_height = 0, fs_buffers = buffers,
        fs_selections = map (\<lambda>f. if editable (fd_kind f) then [] else fd_initial_choices f) (fm_fields form),
        fs_cursors = map (\<lambda>f. if editable (fd_kind f) then length (fd_initial_text f) else 0) (fm_fields form)\<rparr>)"

definition fits :: "form_state \<Rightarrow> bool" where
  "fits s \<longleftrightarrow> 40 \<le> fs_width s \<and> 10 \<le> fs_height s"

definition field_at :: "form_state \<Rightarrow> nat \<Rightarrow> dialog_field" where
  "field_at s i = fm_fields (fs_form s) ! i"

definition field_count :: "form_state \<Rightarrow> nat" where
  "field_count s = length (fm_fields (fs_form s))"

text \<open>\<open>close\<close> with one of the four closing statuses; the buffers are zeroed and emptied.\<close>

definition close_form :: "form_status \<Rightarrow> form_state \<Rightarrow> form_state" where
  "close_form status s = s\<lparr>fs_buffers := map (\<lambda>_. []) (fs_buffers s),
     fs_selections := map (\<lambda>_. []) (fs_selections s), fs_cursors := map (\<lambda>_. 0) (fs_cursors s),
     fs_status := (if fs_status s \<in> {Editing, Submitted} then status else fs_status s),
     fs_error := No_complaint\<rparr>"

definition close_checked :: "form_status \<Rightarrow> form_state \<Rightarrow> (dialog_error, form_state) result" where
  "close_checked status s =
     rbind (require (status \<in> {Cancelled, Expired, Unavailable, Failed}) Value_error) (\<lambda>_. Inr (close_form status s))"

definition tick :: "rat \<Rightarrow> form_state \<Rightarrow> form_state" where
  "tick now s = (if fs_status s \<in> {Editing, Submitted} \<and> fs_deadline s \<le> now then close_form Expired s else s)"

definition resize :: "int \<Rightarrow> int \<Rightarrow> rat \<Rightarrow> form_state \<Rightarrow> form_state" where
  "resize width height now s = tick now (s\<lparr>fs_width := max 0 width, fs_height := max 0 height\<rparr>)"

definition display :: "form_state \<Rightarrow> nat \<Rightarrow> (dialog_error, pytext) result" where
  "display s i = (if fd_kind (field_at s i) = Password then Inr (u ''[hidden]'') else decoded (fs_buffers s ! i))"

definition selected :: "form_state \<Rightarrow> nat \<Rightarrow> pytext \<Rightarrow> bool" where
  "selected s i v \<longleftrightarrow> v \<in> set (fs_selections s ! i)"

definition replace_text :: "nat \<Rightarrow> pytext \<Rightarrow> nat \<Rightarrow> form_state \<Rightarrow> (dialog_error, form_state) result" where
  "replace_text i t cursor s = rbind (encoded t) (\<lambda>bs.
     Inr (s\<lparr>fs_buffers := (fs_buffers s)[i := bs], fs_cursors := (fs_cursors s)[i := cursor], fs_error := No_complaint\<rparr>))"

definition insert_text :: "(nat \<Rightarrow> bool) \<Rightarrow> rat \<Rightarrow> pytext \<Rightarrow> form_state \<Rightarrow> (dialog_error, form_state \<times> bool) result" where
  "insert_text control now x s0 =
     (let s = tick now s0 in
      if fs_status s \<noteq> Editing \<or> field_count s \<le> fs_focus s then Inr (s, False)
      else if \<not> editable (fd_kind (field_at s (fs_focus s))) then Inr (s, False)
      else
        let item = field_at s (fs_focus s); multi = (fd_kind item = Multiline); cursor = fs_cursors s ! fs_focus s in
        rbind (decoded (fs_buffers s ! fs_focus s)) (\<lambda>previous.
        let updated = take cursor previous @ x @ drop cursor previous in
        if text_ok control x (fd_max_bytes item) multi \<and> text_ok control updated (fd_max_bytes item) multi
           \<and> newlines updated + 1 \<le> fd_max_lines item
        then rbind (replace_text (fs_focus s) updated (cursor + length x) s) (\<lambda>s'. Inr (s', True))
        else Inr (s\<lparr>fs_error := Refused_input\<rparr>, False)))"

text \<open>The start of the line of a cursor, and the next line end at or after it.\<close>

definition line_start :: "pytext \<Rightarrow> nat \<Rightarrow> nat" where
  "line_start t c = min c (length t) - length (takeWhile (\<lambda>x. x \<noteq> 10) (rev (take c t)))"

definition line_end :: "pytext \<Rightarrow> nat \<Rightarrow> nat" where
  "line_end t c = min (length t) c + length (takeWhile (\<lambda>x. x \<noteq> 10) (drop c t))"

definition set_cursor :: "nat \<Rightarrow> nat \<Rightarrow> form_state \<Rightarrow> form_state" where
  "set_cursor i c s = s\<lparr>fs_cursors := (fs_cursors s)[i := c]\<rparr>"

text \<open>The key names that adapters send; any other name is ignored.\<close>

datatype form_key = K_escape | K_cancel | K_tab | K_backtab | K_submit | K_enter | K_backspace | K_delete
  | K_left | K_right | K_up | K_down | K_home | K_end | K_space | K_other string

definition choice_key :: "form_key \<Rightarrow> form_state \<Rightarrow> form_state" where
  "choice_key key s =
     (let i = fs_focus s; item = field_at s i; cursor = fs_cursors s ! i in
      if key \<in> {K_up, K_left, K_down, K_right} then
        set_cursor i (nat ((int cursor + (if key \<in> {K_up, K_left} then -1 else 1)) mod int (length (fd_choices item)))) s
      else if key = K_space then
        let v = ch_value (fd_choices item ! cursor); sel = fs_selections s ! i;
            sel' = (if fd_kind item = Radio then [v] else if v \<in> set sel then filter (\<lambda>x. x \<noteq> v) sel else sel @ [v])
        in s\<lparr>fs_selections := (fs_selections s)[i := sel'], fs_error := No_complaint\<rparr>
      else if key = K_enter then s\<lparr>fs_focus := i + 1\<rparr>
      else s)"

definition text_key :: "(nat \<Rightarrow> bool) \<Rightarrow> rat \<Rightarrow> form_key \<Rightarrow> form_state \<Rightarrow> (dialog_error, form_state) result" where
  "text_key control now key s =
     (let i = fs_focus s; item = field_at s i; cursor = fs_cursors s ! i in
      rbind (decoded (fs_buffers s ! i)) (\<lambda>v.
      if key = K_backspace \<and> 0 < cursor then replace_text i (take (cursor - 1) v @ drop cursor v) (cursor - 1) s
      else if key = K_delete \<and> cursor < length v then replace_text i (take cursor v @ drop (cursor + 1) v) cursor s
      else if key \<in> {K_left, K_right} then
        Inr (set_cursor i (nat (max 0 (min (int (length v)) (int cursor + (if key = K_left then -1 else 1))))) s)
      else if key = K_home then Inr (set_cursor i (line_start v cursor) s)
      else if key = K_end then Inr (set_cursor i (line_end v cursor) s)
      else if key \<in> {K_up, K_down} \<and> fd_kind item = Multiline then
        let start = line_start v cursor; column = cursor - start in
        if key = K_up then
          Inr (if start = 0 then s else set_cursor i (min (start - 1) (line_start v (start - 1) + column)) s)
        else
          let stop = line_end v cursor in
          Inr (if stop < length v then set_cursor i (min (line_end v (stop + 1)) (stop + 1 + column)) s else s)
      else if key = K_enter then
        (if fd_kind item = Multiline then rbind (insert_text control now [10] s) (\<lambda>(s', _). Inr s')
         else Inr (s\<lparr>fs_focus := i + 1\<rparr>))
      else if key = K_space then rbind (insert_text control now [32] s) (\<lambda>(s', _). Inr s')
      else Inr s))"

definition answers :: "form_state \<Rightarrow> response" where
  "answers s = map (\<lambda>i. (fd_name (field_at s i),
     if editable (fd_kind (field_at s i)) then Bytes_answer (fs_buffers s ! i) else Choice_answer (fs_selections s ! i)))
     [0..<field_count s]"

definition submit :: "(nat \<Rightarrow> bool) \<Rightarrow> form_state \<Rightarrow> form_state" where
  "submit control s =
     (if \<not> fits s then s\<lparr>fs_error := Too_small\<rparr>
      else case validate_response control (fs_form s) (answers s) of
          Some (focus, complaint) \<Rightarrow> s\<lparr>fs_focus := focus, fs_error := complaint\<rparr>
        | None \<Rightarrow> s\<lparr>fs_status := Submitted, fs_error := No_complaint\<rparr>)"

text \<open>A key reads the clock once, and a second time when it inserts a character.\<close>

definition press_key :: "(nat \<Rightarrow> bool) \<Rightarrow> rat \<Rightarrow> rat \<Rightarrow> form_key \<Rightarrow> form_state \<Rightarrow> (dialog_error, form_state) result" where
  "press_key control now now' key s0 =
     (let s = tick now s0; count = field_count s in
      if fs_status s \<noteq> Editing then Inr s
      else if key \<in> {K_escape, K_cancel} then Inr (close_form Cancelled s)
      else if key \<in> {K_tab, K_backtab} then
        Inr (s\<lparr>fs_focus := nat ((int (fs_focus s) + (if key = K_tab then 1 else -1)) mod (int count + 2))\<rparr>)
      else if key = K_submit \<or> (key = K_enter \<and> fs_focus s = count) then Inr (submit control s)
      else if key = K_enter \<and> fs_focus s = count + 1 then Inr (close_form Cancelled s)
      else if fs_focus s < count then
        (if editable (fd_kind (field_at s (fs_focus s))) then text_key control now' key s else Inr (choice_key key s))
      else Inr s)"

definition delivered_answers :: "form_state \<Rightarrow> response" where
  "delivered_answers s = map (\<lambda>i. (fd_name (field_at s i),
     if editable (fd_kind (field_at s i)) then Bytes_answer (fs_buffers s ! i)
     else Choice_answer (filter (\<lambda>v. v \<in> set (fs_selections s ! i)) (map ch_value (fd_choices (field_at s i))))))
     [0..<field_count s]"

definition take_response :: "rat \<Rightarrow> form_state \<Rightarrow> form_state \<times> (dialog_error, response) result" where
  "take_response now s0 =
     (let s = tick now s0 in
      if fs_status s \<noteq> Submitted then (s, Inl Value_error)
      else (s\<lparr>fs_buffers := map (\<lambda>i. if editable (fd_kind (field_at s i)) then [] else fs_buffers s ! i) [0..<field_count s],
              fs_selections := map (\<lambda>i. if editable (fd_kind (field_at s i)) then fs_selections s ! i else []) [0..<field_count s],
              fs_cursors := map (\<lambda>_. 0) (fs_cursors s), fs_status := Delivered\<rparr>,
            Inr (delivered_answers s)))"

text \<open>The calls an adapter can make on the editor. A refused close and a refused delivery raise
  in the caller and leave the editor to be used on.\<close>

datatype form_call = Resize int int rat | Tick rat | Close form_status | Insert rat pytext | Key rat rat form_key | Take rat

definition form_step :: "(nat \<Rightarrow> bool) \<Rightarrow> form_state \<Rightarrow> form_call \<Rightarrow> (dialog_error, form_state) result" where
  "form_step control s c =
     (case c of
        Resize w h now \<Rightarrow> Inr (resize w h now s)
      | Tick now \<Rightarrow> Inr (tick now s)
      | Close status \<Rightarrow> Inr (case close_checked status s of Inl e \<Rightarrow> s | Inr s' \<Rightarrow> s')
      | Insert now x \<Rightarrow> rbind (insert_text control now x s) (\<lambda>(s', _). Inr s')
      | Key now now' key \<Rightarrow> press_key control now now' key s
      | Take now \<Rightarrow> Inr (fst (take_response now s)))"

section \<open>What the checks of a field guarantee\<close>

definition field_ok :: "(nat \<Rightarrow> bool) \<Rightarrow> dialog_field \<Rightarrow> bool" where
  "field_ok control f \<longleftrightarrow>
     identifier_ok (fd_name f) \<and> text_ok control (fd_label f) 256 False
     \<and> 1 \<le> fd_max_bytes f \<and> fd_max_bytes f \<le> 16384 \<and> 1 \<le> fd_max_lines f \<and> fd_max_lines f \<le> 64
     \<and> (if editable (fd_kind f) then
          fd_choices f = [] \<and> fd_initial_choices f = []
          \<and> text_ok control (fd_initial_text f) (fd_max_bytes f) (fd_kind f = Multiline)
          \<and> newlines (fd_initial_text f) + 1 \<le> fd_max_lines f
          \<and> (fd_kind f \<in> {Password, Confirm} \<longrightarrow> fd_initial_text f = [])
        else
          1 \<le> length (fd_choices f) \<and> length (fd_choices f) \<le> 128 \<and> distinct (map ch_value (fd_choices f))
          \<and> set (fd_initial_choices f) \<subseteq> ch_value ` set (fd_choices f) \<and> distinct (fd_initial_choices f)
          \<and> (fd_kind f = Radio \<longrightarrow> length (fd_initial_choices f) \<le> 1))
     \<and> (case fd_confirmation f of None \<Rightarrow> fd_kind f \<noteq> Confirm
        | Some c \<Rightarrow> fd_kind f = Confirm \<and> c \<noteq> [] \<and> text_ok control c (fd_max_bytes f) False)
     \<and> (fd_matches f \<noteq> None \<longrightarrow> fd_kind f = Password)"

lemma limit_of_bounds: "limit_of v m = Inr n \<Longrightarrow> 1 \<le> n \<and> int n \<le> m"
  by (auto simp: limit_of_def result_simps need_def split: option.splits)

lemma initial_text_of_ok: "initial_text_of control k mb ml ch ini = Inr s \<Longrightarrow>
    ch = [] \<and> text_ok control s mb (k = Multiline) \<and> newlines s + 1 \<le> ml \<and> (k \<in> {Password, Confirm} \<longrightarrow> s = [])"
  by (auto simp: initial_text_of_def result_simps)

lemma initial_choices_of_ok: "initial_choices_of k ch ini = Inr vs \<Longrightarrow>
    1 \<le> length ch \<and> length ch \<le> 128 \<and> distinct (map ch_value ch) \<and> set vs \<subseteq> ch_value ` set ch \<and> distinct vs
    \<and> (k = Radio \<longrightarrow> length vs \<le> 1)"
  by (auto simp: initial_choices_of_def result_simps)

lemma field_post_init_ok:
  assumes "field_post_init control r = Inr f"
  shows "field_ok control f"
proof -
  from assms obtain name label k required mb ml ini sel conf mat where
    parts: "identifier_ok name" "text_ok control label 256 False"
      "limit_of (rf_max_bytes r) 16384 = Inr mb" "limit_of (rf_max_lines r) 64 = Inr ml"
      "(if editable k then initial_text_of control k mb ml (rf_choices r) (rf_initial r) else Inr []) = Inr ini"
      "(if editable k then Inr [] else initial_choices_of k (rf_choices r) (rf_initial r)) = Inr sel"
      "(if k = Confirm then
              rbind (require (json_truthy (rf_confirmation r)) Value_error) (\<lambda>_.
              rbind (need (as_str (rf_confirmation r))) (\<lambda>c.
              rbind (require (text_ok control c mb False) Value_error) (\<lambda>_. Inr (Some c))))
            else if rf_confirmation r \<noteq> JNull then Inl Value_error else Inr None) = Inr conf"
      "(if rf_matches r = JNull then Inr None
            else rbind (require (k = Password) Value_error) (\<lambda>_.
                 rbind (need (as_str (rf_matches r))) (\<lambda>m.
                 rbind (require (identifier_ok m) Value_error) (\<lambda>_. Inr (Some m))))) = Inr mat"
      and f: "f = \<lparr>fd_name = name, fd_label = label, fd_kind = k, fd_required = required, fd_max_bytes = mb,
          fd_max_lines = ml, fd_choices = rf_choices r, fd_initial_text = ini, fd_initial_choices = sel,
          fd_confirmation = conf, fd_matches = mat\<rparr>"
    by (simp only: field_post_init_def rbind_Inr_iff require_Inr_iff) blast
  have conf: "case conf of None \<Rightarrow> k \<noteq> Confirm | Some c \<Rightarrow> k = Confirm \<and> c \<noteq> [] \<and> text_ok control c mb False"
    using parts(7) by (cases "rf_confirmation r") (auto simp: result_simps need_def split: if_splits)
  have mat: "mat \<noteq> None \<longrightarrow> k = Password" using parts(8) by (auto simp: result_simps split: if_splits)
  have lim: "1 \<le> mb" "mb \<le> 16384" "1 \<le> ml" "ml \<le> 64"
    using limit_of_bounds [OF parts(3)] limit_of_bounds [OF parts(4)] by simp_all
  show ?thesis
  proof (cases "editable k")
    case True
    with parts(5,6) have i: "initial_text_of control k mb ml (rf_choices r) (rf_initial r) = Inr ini" "sel = []" by simp_all
    with initial_text_of_ok [OF i(1)] True parts(1,2) conf mat lim show ?thesis by (simp add: field_ok_def f cong: option.case_cong)
  next
    case False
    with parts(5,6) have i: "initial_choices_of k (rf_choices r) (rf_initial r) = Inr sel" by simp
    from initial_choices_of_ok [OF i] False parts(1,2) conf mat lim show ?thesis by (simp add: field_ok_def f cong: option.case_cong)
  qed
qed

lemma field_from_mapping_ok: "field_from_mapping control j = Inr f \<Longrightarrow> field_ok control f"
  by (auto simp: field_from_mapping_def result_simps split: json.splits option.splits dest!: field_post_init_ok)

lemma rmap_all: "rmap f xs = Inr ys \<Longrightarrow> (\<And>x y. f x = Inr y \<Longrightarrow> P y) \<Longrightarrow> list_all P ys"
  by (induction xs arbitrary: ys) (auto simp: result_simps)

lemma rmap_nth: "rmap f xs = Inr ys \<Longrightarrow> length ys = length xs \<and> (\<forall>i < length xs. f (xs ! i) = Inr (ys ! i))"
proof (induction xs arbitrary: ys)
  case (Cons x xs)
  then show ?case by (auto simp: result_simps nth_Cons split: nat.split)
qed simp

lemma form_from_mapping_ok:
  "form_from_mapping control j = Inr f \<Longrightarrow> form_ok control f \<and> list_all (field_ok control) (fm_fields f)"
  using rmap_all [where P = "field_ok control" and f = "field_from_mapping control"] field_from_mapping_ok
  by (auto simp: form_from_mapping_def form_post_init_def Let_def result_simps split: json.splits)

section \<open>Texts of a field\<close>

lemma text_ok_Nil [simp]: "text_ok control [] m multi"
  by (simp add: text_ok_def)

lemma text_ok_encode: "text_ok control t m multi \<Longrightarrow> \<exists>bs. utf8_encode t = Some bs \<and> length bs \<le> m"
  by (auto simp: text_ok_def split: option.splits)

lemma cut_split: "i \<le> j \<Longrightarrow> t = take i t @ take (j - i) (drop i t) @ drop j t"
  by (metis append_assoc append_take_drop_id le_add_diff_inverse take_add)

lemma text_ok_cut:
  assumes "text_ok control t m multi" and "i \<le> j"
  shows "text_ok control (take i t @ drop j t) m multi"
proof -
  have sub: "set (take i t @ drop j t) \<subseteq> set t" using set_take_subset set_drop_subset by fastforce
  obtain bs where bs: "utf8_encode t = Some bs" "length bs \<le> m" using text_ok_encode [OF assms(1)] by blast
  then have all: "list_all scalar_value t" and bs': "bs = concat (map encode_char t)"
    by (auto simp: utf8_encode_def split: if_splits)
  from all sub have all': "list_all scalar_value (take i t @ drop j t)" by (auto simp: list_all_iff)
  have "length (concat (map encode_char t)) = length (concat (map encode_char (take i t)))
      + length (concat (map encode_char (take (j - i) (drop i t)))) + length (concat (map encode_char (drop j t)))"
    by (subst cut_split [OF assms(2), of t]) (simp only: map_append concat_append length_append add.assoc)
  then have "length (concat (map encode_char (take i t @ drop j t))) \<le> length bs" by (simp add: bs')
  moreover have "list_all (\<lambda>c. control c \<longrightarrow> multi \<and> (c = 10 \<or> c = 9)) (take i t @ drop j t)"
    using assms(1) sub by (auto simp: text_ok_def list_all_iff split: option.splits)
  ultimately show ?thesis using all' bs(2) unfolding text_ok_def by (simp add: utf8_encode_def)
qed

lemma newlines_cut: "i \<le> j \<Longrightarrow> newlines (take i t @ drop j t) \<le> newlines t"
proof -
  assume ij: "i \<le> j"
  have "newlines t = newlines (take i t) + newlines (take (j - i) (drop i t)) + newlines (drop j t)"
    by (subst cut_split [OF ij, of t]) (simp only: newlines_def filter_append length_append add.assoc)
  then show ?thesis by (simp add: newlines_def)
qed


section \<open>The editor's invariant\<close>

definition entry_ok :: "(nat \<Rightarrow> bool) \<Rightarrow> dialog_field \<Rightarrow> bytes \<Rightarrow> pytext list \<Rightarrow> nat \<Rightarrow> bool" where
  "entry_ok control f bs sel cursor \<longleftrightarrow>
     (if editable (fd_kind f) then
        sel = [] \<and> (\<exists>t. utf8_encode t = Some bs \<and> text_ok control t (fd_max_bytes f) (fd_kind f = Multiline)
          \<and> newlines t + 1 \<le> fd_max_lines f \<and> cursor \<le> length t)
      else bs = [] \<and> distinct sel \<and> set sel \<subseteq> ch_value ` set (fd_choices f)
        \<and> (fd_kind f = Radio \<longrightarrow> length sel \<le> 1) \<and> cursor < length (fd_choices f))"

definition wiped :: "form_state \<Rightarrow> bool" where
  "wiped s \<longleftrightarrow> set (fs_buffers s) \<subseteq> {[]} \<and> set (fs_selections s) \<subseteq> {[]}"

definition editor_ok :: "(nat \<Rightarrow> bool) \<Rightarrow> form_state \<Rightarrow> bool" where
  "editor_ok control s \<longleftrightarrow>
     form_ok control (fs_form s) \<and> list_all (field_ok control) (fm_fields (fs_form s))
     \<and> length (fs_buffers s) = field_count s \<and> length (fs_selections s) = field_count s
     \<and> length (fs_cursors s) = field_count s
     \<and> (\<forall>i < field_count s. entry_ok control (field_at s i) (fs_buffers s ! i) (fs_selections s ! i) (fs_cursors s ! i))
     \<and> fs_focus s < field_count s + 2
     \<and> (fs_status s \<notin> {Editing, Submitted} \<longrightarrow> wiped s)
     \<and> (fs_status s = Submitted \<longrightarrow> validate_response control (fs_form s) (answers s) = None)"

lemma editor_okD:
  assumes "editor_ok control s"
  shows "form_ok control (fs_form s)" and "i < field_count s \<Longrightarrow> field_ok control (field_at s i)"
    and "length (fs_buffers s) = field_count s" and "length (fs_selections s) = field_count s"
    and "length (fs_cursors s) = field_count s"
    and "i < field_count s \<Longrightarrow> entry_ok control (field_at s i) (fs_buffers s ! i) (fs_selections s ! i) (fs_cursors s ! i)"
    and "fs_focus s < field_count s + 2" and "fs_status s \<notin> {Editing, Submitted} \<Longrightarrow> wiped s"
    and "fs_status s = Submitted \<Longrightarrow> validate_response control (fs_form s) (answers s) = None"
  using assms by (simp_all add: editor_ok_def list_all_length field_count_def field_at_def)

lemma entry_ok_empty: "field_ok control f \<Longrightarrow> entry_ok control f [] [] 0"
proof -
  assume f: "field_ok control f"
  have "utf8_encode [] = Some []" "newlines [] = 0" by (simp_all add: newlines_def)
  with f show ?thesis unfolding entry_ok_def field_ok_def by (auto intro: exI [of _ "[]"])
qed

text \<open>Changing the entry of one field while editing keeps the invariant.\<close>

lemma editor_ok_update:
  assumes ok: "editor_ok control s" and st: "fs_status s = Editing" and i: "i < field_count s"
    and e: "entry_ok control (field_at s i) b sel c"
  shows "editor_ok control (s\<lparr>fs_buffers := (fs_buffers s)[i := b], fs_selections := (fs_selections s)[i := sel],
      fs_cursors := (fs_cursors s)[i := c], fs_error := er\<rparr>)"
  using editor_okD [OF ok] ok e st i
  by (auto simp: editor_ok_def field_count_def field_at_def nth_list_update list_all_length)

lemma answers_simps [simp]:
  "answers (s\<lparr>fs_error := er\<rparr>) = answers s" "answers (s\<lparr>fs_status := st\<rparr>) = answers s"
  "answers (s\<lparr>fs_focus := n\<rparr>) = answers s" "answers (s\<lparr>fs_width := w\<rparr>) = answers s" "answers (s\<lparr>fs_height := w\<rparr>) = answers s"
  by (simp_all add: answers_def field_count_def field_at_def cong: if_cong)

lemma editor_ok_status: "editor_ok control s \<Longrightarrow> fs_status s = Editing \<Longrightarrow> f < field_count s + 2 \<Longrightarrow>
    editor_ok control (s\<lparr>fs_focus := f, fs_error := er\<rparr>)"
  by (simp add: editor_ok_def field_count_def field_at_def)

lemma editor_ok_error: "editor_ok control s \<Longrightarrow> editor_ok control (s\<lparr>fs_error := er\<rparr>)"
  by (simp add: editor_ok_def field_count_def field_at_def wiped_def)

lemma editor_ok_close:
  assumes ok: "editor_ok control s" and st: "status \<notin> {Editing, Submitted}"
  shows "editor_ok control (close_form status s)"
  using editor_okD [OF ok] ok st entry_ok_empty
  by (auto simp: editor_ok_def close_form_def field_count_def field_at_def wiped_def list_all_length)

lemma close_form_wiped: "wiped (close_form status s)"
  by (auto simp: close_form_def wiped_def)

lemma editor_ok_tick: "editor_ok control s \<Longrightarrow> editor_ok control (tick now s)"
  by (simp add: tick_def editor_ok_close)

lemma entry_text:
  assumes "entry_ok control f bs sel c" and "editable (fd_kind f)"
  obtains t where "decoded bs = Inr t" "utf8_encode t = Some bs" "text_ok control t (fd_max_bytes f) (fd_kind f = Multiline)"
    "newlines t + 1 \<le> fd_max_lines f" "c \<le> length t" "sel = []"
proof -
  from assms obtain t where "utf8_encode t = Some bs" "text_ok control t (fd_max_bytes f) (fd_kind f = Multiline)"
    "newlines t + 1 \<le> fd_max_lines f" "c \<le> length t" "sel = []" by (auto simp: entry_ok_def)
  then show thesis using that utf8_round_trip [of t bs] by (simp add: decoded_def)
qed

text \<open>Replacing the text of the focused field by an acceptable one.\<close>

lemma replace_text_ok:
  assumes ok: "editor_ok control s" and st: "fs_status s = Editing" and i: "i < field_count s"
    and ed: "editable (fd_kind (field_at s i))" and t: "text_ok control t (fd_max_bytes (field_at s i)) (fd_kind (field_at s i) = Multiline)"
    and n: "newlines t + 1 \<le> fd_max_lines (field_at s i)" and c: "c \<le> length t"
  obtains bs where "utf8_encode t = Some bs" "replace_text i t c s = Inr (s\<lparr>fs_buffers := (fs_buffers s)[i := bs],
      fs_cursors := (fs_cursors s)[i := c], fs_error := No_complaint\<rparr>)"
    "editor_ok control (s\<lparr>fs_buffers := (fs_buffers s)[i := bs], fs_cursors := (fs_cursors s)[i := c], fs_error := No_complaint\<rparr>)"
proof -
  obtain bs where bs: "utf8_encode t = Some bs" using text_ok_encode [OF t] by blast
  have sel: "fs_selections s ! i = []" using editor_okD(6) [OF ok i] ed by (simp add: entry_ok_def)
  have sl: "(fs_selections s)[i := []] = fs_selections s" using list_update_id [of "fs_selections s" i] sel by simp
  have "entry_ok control (field_at s i) bs [] c" using ed t n c bs by (auto simp: entry_ok_def)
  from editor_ok_update [OF ok st i this, of No_complaint]
  have "editor_ok control (s\<lparr>fs_buffers := (fs_buffers s)[i := bs], fs_cursors := (fs_cursors s)[i := c], fs_error := No_complaint\<rparr>)"
    using sl by (cases s) simp
  then show thesis using that bs by (simp add: replace_text_def encoded_def)
qed

section \<open>Every call keeps the invariant\<close>

lemma tick_Editing: "fs_status (tick now s) = Editing \<Longrightarrow> tick now s = s \<and> fs_status s = Editing \<and> now < fs_deadline s"
  by (auto simp: tick_def close_form_def split: if_splits)

lemma insert_text_ok:
  assumes ok: "editor_ok control s"
  shows "\<exists>s' b. insert_text control now x s = Inr (s', b) \<and> editor_ok control s'"
proof -
  let ?t = "tick now s"
  have tok: "editor_ok control ?t" by (rule editor_ok_tick [OF ok])
  show ?thesis
  proof (cases "fs_status ?t \<noteq> Editing \<or> field_count ?t \<le> fs_focus ?t \<or> \<not> editable (fd_kind (field_at ?t (fs_focus ?t)))")
    case True
    with tok show ?thesis by (auto simp: insert_text_def Let_def)
  next
    case False
    then have st: "fs_status ?t = Editing" and i: "fs_focus ?t < field_count ?t" and ed: "editable (fd_kind (field_at ?t (fs_focus ?t)))"
      by auto
    let ?i = "fs_focus ?t" let ?f = "field_at ?t ?i" let ?c = "fs_cursors ?t ! ?i"
    from entry_text [OF editor_okD(6) [OF tok i] ed] obtain p where
      p: "decoded (fs_buffers ?t ! ?i) = Inr p" "?c \<le> length p" by blast
    let ?u = "take ?c p @ x @ drop ?c p"
    show ?thesis
    proof (cases "text_ok control x (fd_max_bytes ?f) (fd_kind ?f = Multiline) \<and> text_ok control ?u (fd_max_bytes ?f) (fd_kind ?f = Multiline)
        \<and> newlines ?u + 1 \<le> fd_max_lines ?f")
      case True
      then have "?c + length x \<le> length ?u" using p(2) by simp
      from replace_text_ok [OF tok st i ed _ _ this] True obtain bs where
        "replace_text ?i ?u (?c + length x) ?t = Inr (?t\<lparr>fs_buffers := (fs_buffers ?t)[?i := bs], fs_cursors := (fs_cursors ?t)[?i := ?c + length x], fs_error := No_complaint\<rparr>)"
        "editor_ok control (?t\<lparr>fs_buffers := (fs_buffers ?t)[?i := bs], fs_cursors := (fs_cursors ?t)[?i := ?c + length x], fs_error := No_complaint\<rparr>)"
        by blast
      moreover from this True False p(1) have "insert_text control now x s = Inr (?t\<lparr>fs_buffers := (fs_buffers ?t)[?i := bs],
          fs_cursors := (fs_cursors ?t)[?i := ?c + length x], fs_error := No_complaint\<rparr>, True)"
        by (simp add: insert_text_def Let_def)
      ultimately show ?thesis by blast
    next
      case bad: False
      with False p(1) have "insert_text control now x s = Inr (?t\<lparr>fs_error := Refused_input\<rparr>, False)"
        by (auto simp: insert_text_def Let_def)
      with editor_ok_error [OF tok] show ?thesis by blast
    qed
  qed
qed

lemma editor_ok_cursor:
  assumes ok: "editor_ok control s" and st: "fs_status s = Editing" and i: "i < field_count s"
    and c: "entry_ok control (field_at s i) (fs_buffers s ! i) (fs_selections s ! i) c"
  shows "editor_ok control (set_cursor i c s)"
proof -
  have "set_cursor i c s = s\<lparr>fs_buffers := (fs_buffers s)[i := fs_buffers s ! i],
      fs_selections := (fs_selections s)[i := fs_selections s ! i], fs_cursors := (fs_cursors s)[i := c], fs_error := fs_error s\<rparr>"
    by (cases s) (simp add: set_cursor_def)
  with editor_ok_update [OF ok st i c, of "fs_error s"] show ?thesis by simp
qed

lemma editor_ok_select:
  assumes ok: "editor_ok control s" and st: "fs_status s = Editing" and i: "i < field_count s"
    and c: "entry_ok control (field_at s i) (fs_buffers s ! i) sel (fs_cursors s ! i)"
  shows "editor_ok control (s\<lparr>fs_selections := (fs_selections s)[i := sel], fs_error := er\<rparr>)"
proof -
  have eq: "s\<lparr>fs_selections := (fs_selections s)[i := sel], fs_error := er\<rparr> = s\<lparr>fs_buffers := (fs_buffers s)[i := fs_buffers s ! i],
      fs_selections := (fs_selections s)[i := sel], fs_cursors := (fs_cursors s)[i := fs_cursors s ! i], fs_error := er\<rparr>"
    by (cases s) simp
  show ?thesis by (subst eq) (rule editor_ok_update [OF ok st i c])
qed

lemma entry_cursor: "entry_ok control f bs sel c \<Longrightarrow> editable (fd_kind f) \<Longrightarrow> decoded bs = Inr t \<Longrightarrow> c' \<le> length t \<Longrightarrow>
    entry_ok control f bs sel c'"
  using utf8_round_trip by (fastforce simp: entry_ok_def decoded_def split: option.splits)

lemma line_bounds: "line_start t c \<le> length t" "line_end t c \<le> length t" "line_start t c \<le> c"
  using length_takeWhile_le [of "\<lambda>x. x \<noteq> 10" "drop c t"] by (auto simp: line_start_def line_end_def)

lemma nat_mod_less: "0 < n \<Longrightarrow> nat (x mod int n) < n"
  by (simp add: nat_less_iff)

lemma text_key_ok:
  assumes ok: "editor_ok control s" and st: "fs_status s = Editing" and i: "fs_focus s < field_count s"
    and ed: "editable (fd_kind (field_at s (fs_focus s)))"
  shows "\<exists>s'. text_key control now key s = Inr s' \<and> editor_ok control s'"
proof -
  let ?i = "fs_focus s" let ?f = "field_at s ?i" let ?c = "fs_cursors s ! ?i"
  have e: "entry_ok control ?f (fs_buffers s ! ?i) (fs_selections s ! ?i) ?c" by (rule editor_okD(6) [OF ok i])
  from entry_text [OF e ed] obtain v where v: "decoded (fs_buffers s ! ?i) = Inr v"
    "text_ok control v (fd_max_bytes ?f) (fd_kind ?f = Multiline)" "newlines v + 1 \<le> fd_max_lines ?f" "?c \<le> length v" by blast
  have cut: "\<exists>s'. replace_text ?i (take a v @ drop b v) c' s = Inr s' \<and> editor_ok control s'"
    if "a \<le> b" "b \<le> length v" "c' \<le> a" for a b c'
  proof -
    have "text_ok control (take a v @ drop b v) (fd_max_bytes ?f) (fd_kind ?f = Multiline)" by (rule text_ok_cut [OF v(2) that(1)])
    moreover have "newlines (take a v @ drop b v) + 1 \<le> fd_max_lines ?f" using newlines_cut [OF that(1), of v] v(3) by linarith
    moreover have "c' \<le> length (take a v @ drop b v)" using that by simp
    ultimately show ?thesis using replace_text_ok [OF ok st i ed] by blast
  qed
  have move: "editor_ok control (set_cursor ?i c' s)" if "c' \<le> length v" for c'
    by (rule editor_ok_cursor [OF ok st i entry_cursor [OF e ed v(1) that]])
  have focus: "editor_ok control (s\<lparr>fs_focus := ?i + 1\<rparr>)"
    using editor_ok_status [OF ok st, of "?i + 1" "fs_error s"] i by (cases s) simp
  have up: "min (line_start v ?c - 1) (line_start v (line_start v ?c - 1) + (?c - line_start v ?c)) \<le> length v"
    using line_bounds(1) [of v ?c] by linarith
  have down: "min (line_end v (line_end v ?c + 1)) (line_end v ?c + 1 + (?c - line_start v ?c)) \<le> length v"
    using line_bounds(2) [of v "line_end v ?c + 1"] by linarith
  have ins: "\<exists>s'. rbind (insert_text control now x s) (\<lambda>(s', _). Inr s') = Inr s' \<and> editor_ok control s'" for x
    using insert_text_ok [OF ok, of now x] by auto
  have side: "editor_ok control (set_cursor ?i (nat (max 0 (min (int (length v)) z))) s)" for z
    by (rule move) simp
  have stay: "\<exists>s'. Inr s = Inr s' \<and> editor_ok control s'" using ok by blast
  show ?thesis
  proof (cases key)
    case K_backspace
    with cut [of "?c - 1" ?c "?c - 1"] v stay show ?thesis by (auto simp: text_key_def Let_def)
  next
    case K_delete
    with cut [of ?c "?c + 1" ?c] v stay show ?thesis by (auto simp: text_key_def Let_def)
  next
    case K_enter
    with ins [of "[10]"] v(1) focus show ?thesis by (simp add: text_key_def Let_def)
  next
    case K_space
    with ins [of "[32]"] v(1) show ?thesis by (simp add: text_key_def Let_def)
  next
    case K_left
    with v(1) side [of "int ?c + -1"] show ?thesis by (simp add: text_key_def Let_def)
  next
    case K_right
    with v(1) side [of "int ?c + 1"] show ?thesis by (simp add: text_key_def Let_def)
  qed (use v(1) ok move [OF line_bounds(1)] move [OF line_bounds(2)] move [OF up] move [OF down] in
      \<open>simp_all add: text_key_def Let_def\<close>)
qed

lemma choice_key_ok:
  assumes ok: "editor_ok control s" and st: "fs_status s = Editing" and i: "fs_focus s < field_count s"
    and ed: "\<not> editable (fd_kind (field_at s (fs_focus s)))"
  shows "editor_ok control (choice_key key s)"
proof -
  let ?i = "fs_focus s" let ?f = "field_at s ?i" let ?c = "fs_cursors s ! ?i" let ?sel = "fs_selections s ! ?i"
  have e: "entry_ok control ?f (fs_buffers s ! ?i) ?sel ?c" by (rule editor_okD(6) [OF ok i])
  then have c: "?c < length (fd_choices ?f)" and sel: "distinct ?sel" "set ?sel \<subseteq> ch_value ` set (fd_choices ?f)"
    and b: "fs_buffers s ! ?i = []" using ed by (simp_all add: entry_ok_def)
  have turn: "editor_ok control (set_cursor ?i (nat (z mod int (length (fd_choices ?f)))) s)" for z
  proof (rule editor_ok_cursor [OF ok st i])
    have "nat (z mod int (length (fd_choices ?f))) < length (fd_choices ?f)"
      by (rule nat_mod_less) (rule le_less_trans [OF _ c], simp)
    then show "entry_ok control ?f (fs_buffers s ! ?i) ?sel (nat (z mod int (length (fd_choices ?f))))"
      using e ed by (simp add: entry_ok_def)
  qed
  show ?thesis
  proof (cases key)
    case K_space
    let ?v = "ch_value (fd_choices ?f ! ?c)"
    let ?sel' = "if fd_kind ?f = Radio then [?v] else if ?v \<in> set ?sel then filter (\<lambda>x. x \<noteq> ?v) ?sel else ?sel @ [?v]"
    have "entry_ok control ?f (fs_buffers s ! ?i) ?sel' ?c" using ed c sel b by (auto simp: entry_ok_def)
    from editor_ok_select [OF ok st i this, of No_complaint] K_space show ?thesis
      by (simp only: choice_key_def Let_def) simp
  next
    case K_enter
    with editor_ok_status [OF ok st, of "?i + 1" "fs_error s"] i show ?thesis
      by (cases s) (simp add: choice_key_def Let_def)
  qed (use ok turn in \<open>simp_all add: choice_key_def Let_def\<close>)
qed

lemma submit_ok:
  assumes ok: "editor_ok control s" and st: "fs_status s = Editing"
  shows "editor_ok control (submit control s)"
proof (cases "validate_response control (fs_form s) (answers s)")
  case None
  then show ?thesis using ok st
    by (auto simp: submit_def editor_ok_error editor_ok_def field_count_def field_at_def)
next
  case (Some r)
  obtain i c where r: "r = (i, c)" by (cases r)
  have bound: "i < field_count s"
  proof -
    have fc: "first_complaint k f xs = Some (i, c) \<Longrightarrow> i < k + length xs" for k f and xs :: "dialog_field list"
    proof (induction xs arbitrary: k)
      case (Cons x xs)
      then show ?case using Cons.IH [of "Suc k"] by (auto split: option.splits)
    qed simp
    have "0 < field_count s" using editor_okD(1) [OF ok] by (auto simp: form_ok_def field_count_def)
    with Some r show ?thesis
      by (auto simp: validate_response_def field_count_def split: if_splits option.splits dest: fc)
  qed
  have "editor_ok control (s\<lparr>fs_focus := i, fs_error := c\<rparr>)" using editor_ok_status [OF ok st, of i c] bound by simp
  with Some r editor_ok_error [OF ok] show ?thesis by (simp add: submit_def)
qed

lemma press_key_ok:
  assumes ok: "editor_ok control s"
  shows "\<exists>s'. press_key control now now' key s = Inr s' \<and> editor_ok control s'"
proof -
  let ?t = "tick now s"
  have tok: "editor_ok control ?t" by (rule editor_ok_tick [OF ok])
  show ?thesis
  proof (cases "fs_status ?t = Editing")
    case False
    with tok show ?thesis by (simp add: press_key_def Let_def)
  next
    case st: True
    have cl: "editor_ok control (close_form Cancelled ?t)" by (rule editor_ok_close [OF tok]) simp
    have "nat (z mod (int (field_count ?t) + 2)) < field_count ?t + 2" for z
      using nat_mod_less [of "field_count ?t + 2" z] by (simp add: add.commute)
    with editor_ok_status [OF tok st, where er = "fs_error ?t"]
    have tab: "editor_ok control (?t\<lparr>fs_focus := nat (z mod (int (field_count ?t) + 2))\<rparr>)" for z by (cases ?t) simp
    have field: "\<exists>s'. (if editable (fd_kind (field_at ?t (fs_focus ?t))) then text_key control now' key ?t
        else Inr (choice_key key ?t)) = Inr s' \<and> editor_ok control s'" if "fs_focus ?t < field_count ?t"
      using text_key_ok [OF tok st that] choice_key_ok [OF tok st that] by auto
    show ?thesis unfolding press_key_def Let_def using st cl tab submit_ok [OF tok st] field tok
      by (cases key) auto
  qed
qed

lemma take_response_ok: "editor_ok control s \<Longrightarrow> editor_ok control (fst (take_response now s))"
proof -
  assume "editor_ok control s"
  then have tok: "editor_ok control (tick now s)" by (rule editor_ok_tick)
  show ?thesis
  proof (cases "fs_status (tick now s) = Submitted")
    case False
    with tok show ?thesis by (simp add: take_response_def Let_def)
  next
    case True
    let ?t = "tick now s"
    have e: "fs_buffers ?t ! i = []" if "i < field_count ?t" "\<not> editable (fd_kind (field_at ?t i))" for i
      using editor_okD(6) [OF tok that(1)] that(2) by (simp add: entry_ok_def)
    have e': "fs_selections ?t ! i = []" if "i < field_count ?t" "editable (fd_kind (field_at ?t i))" for i
      using editor_okD(6) [OF tok that(1)] that(2) by (simp add: entry_ok_def)
    have b: "map (\<lambda>i. if editable (fd_kind (field_at ?t i)) then [] else fs_buffers ?t ! i) [0..<field_count ?t] = map (\<lambda>_. []) (fs_buffers ?t)"
      "map (\<lambda>i. if editable (fd_kind (field_at ?t i)) then fs_selections ?t ! i else []) [0..<field_count ?t] = map (\<lambda>_. []) (fs_selections ?t)"
      using e e' editor_okD(3,4) [OF tok] by (auto intro!: nth_equalityI)
    have "fst (take_response now s) = (close_form Failed ?t)\<lparr>fs_status := Delivered, fs_error := fs_error ?t\<rparr>"
      using True b by (simp add: take_response_def Let_def close_form_def)
    moreover have "editor_ok control (close_form Failed ?t)" by (rule editor_ok_close [OF tok]) simp
    then have "editor_ok control ((close_form Failed ?t)\<lparr>fs_status := Delivered, fs_error := fs_error ?t\<rparr>)"
      using close_form_wiped [of Failed ?t] by (auto simp: editor_ok_def field_count_def field_at_def wiped_def)
    ultimately show ?thesis by simp
  qed
qed

lemma form_step_ok:
  assumes ok: "editor_ok control s"
  shows "\<exists>s'. form_step control s c = Inr s' \<and> editor_ok control s'"
proof (cases c)
  case (Resize w h now)
  have "editor_ok control (s\<lparr>fs_width := max 0 w, fs_height := max 0 h\<rparr>)"
    using ok by (simp add: editor_ok_def field_count_def field_at_def wiped_def)
  from editor_ok_tick [OF this] Resize show ?thesis by (simp add: form_step_def resize_def)
next
  case (Tick now)
  with editor_ok_tick [OF ok] show ?thesis by (simp add: form_step_def)
next
  case (Close status)
  with ok editor_ok_close [OF ok, of status] show ?thesis
    by (auto simp: form_step_def close_checked_def require_def)
next
  case (Insert now x)
  with insert_text_ok [OF ok, of now x] show ?thesis by (auto simp: form_step_def)
next
  case (Key now now' key)
  with press_key_ok [OF ok] show ?thesis by (simp add: form_step_def)
next
  case (Take now)
  with take_response_ok [OF ok] show ?thesis by (simp add: form_step_def)
qed

text \<open>The editor is a stepped component: its invariant holds after every run of calls.\<close>

interpretation editor: stepped "form_step control" "editor_ok control" for control
proof unfold_locales
  fix s c s'
  assume "editor_ok control s" and "form_step control s c = Inr s'"
  with form_step_ok [of control s c] show "editor_ok control s'" by auto
qed

lemma editor_runs: "editor_ok control s \<Longrightarrow> \<exists>s'. rfold (form_step control) s cs = Inr s'"
proof (induction cs arbitrary: s)
  case (Cons c cs)
  from form_step_ok [OF Cons.prems, of c] obtain t where "form_step control s c = Inr t" "editor_ok control t" by blast
  with Cons.IH show ?case by simp
qed simp


lemma init_entry_ok:
  assumes f: "field_ok control x" and y: "(if editable (fd_kind x) then encoded (fd_initial_text x) else Inr []) = Inr y"
  shows "entry_ok control x y (if editable (fd_kind x) then [] else fd_initial_choices x)
      (if editable (fd_kind x) then length (fd_initial_text x) else 0)"
proof (cases "editable (fd_kind x)")
  case True
  with y have "utf8_encode (fd_initial_text x) = Some y" by (simp add: encoded_def split: option.splits)
  with True f show ?thesis unfolding entry_ok_def field_ok_def by (simp, intro exI [of _ "fd_initial_text x"]) simp
next
  case False
  with f y show ?thesis by (auto simp: entry_ok_def field_ok_def)
qed

lemma form_state_init_ok:
  assumes f: "form_ok control f" and fo: "list_all (field_ok control) (fm_fields f)"
  shows "\<exists>s. form_state_init f d = Inr s \<and> editor_ok control s \<and> fs_form s = f \<and> fs_deadline s = d"
proof -
  let ?g = "\<lambda>x. if editable (fd_kind x) then encoded (fd_initial_text x) else Inr []"
  have "\<exists>ys. rmap ?g xs = Inr ys" if "list_all (field_ok control) xs" for xs
    using that
  proof (induction xs)
    case (Cons x xs)
    then have "\<exists>y. ?g x = Inr y"
      using text_ok_encode [of control "fd_initial_text x" "fd_max_bytes x" "fd_kind x = Multiline"]
      by (auto simp: field_ok_def encoded_def)
    with Cons show ?case by auto
  qed simp
  with fo obtain ys where ys: "rmap ?g (fm_fields f) = Inr ys" by blast
  from rmap_nth [OF ys] have len: "length ys = length (fm_fields f)"
    and nth: "\<And>i. i < length (fm_fields f) \<Longrightarrow> ?g (fm_fields f ! i) = Inr (ys ! i)" by auto
  let ?s = "\<lparr>fs_form = f, fs_deadline = d, fs_status = Editing, fs_error = No_complaint, fs_focus = 0,
        fs_width = 0, fs_height = 0, fs_buffers = ys,
        fs_selections = map (\<lambda>f. if editable (fd_kind f) then [] else fd_initial_choices f) (fm_fields f),
        fs_cursors = map (\<lambda>f. if editable (fd_kind f) then length (fd_initial_text f) else 0) (fm_fields f)\<rparr>"
  have init: "form_state_init f d = Inr ?s" by (simp add: form_state_init_def ys)
  have "entry_ok control (fm_fields f ! i) (ys ! i) (if editable (fd_kind (fm_fields f ! i)) then [] else fd_initial_choices (fm_fields f ! i))
      (if editable (fd_kind (fm_fields f ! i)) then length (fd_initial_text (fm_fields f ! i)) else 0)"
    if i: "i < length (fm_fields f)" for i
  proof -
    have "field_ok control (fm_fields f ! i)" using fo i by (simp add: list_all_length)
    from init_entry_ok [OF this nth [OF i]] show ?thesis .
  qed
  with f fo len have "editor_ok control ?s" by (simp add: editor_ok_def field_count_def field_at_def)
  with init show ?thesis by auto
qed

section \<open>Delivery\<close>

lemma first_complaint_None: "first_complaint k f xs = None \<longleftrightarrow> (\<forall>x \<in> set xs. f x = None)"
  by (induction xs arbitrary: k) (auto split: option.splits)

lemma answer_of_map:
  assumes "distinct (map fd_name (fm_fields (fs_form s)))" and "i < field_count s"
  shows "answer_of (map (\<lambda>i. (fd_name (field_at s i), g i)) [0..<field_count s]) (fd_name (field_at s i)) = g i"
proof -
  let ?l = "map (\<lambda>i. (fd_name (field_at s i), g i)) [0..<field_count s]"
  have "map fst ?l = map fd_name (fm_fields (fs_form s))"
    by (intro nth_equalityI) (simp_all add: field_count_def field_at_def)
  with assms(1) have "distinct (map fst ?l)" by simp
  from map_of_is_SomeI [OF this, of "fd_name (field_at s i)" "g i"] assms(2)
  have "map_of ?l (fd_name (field_at s i)) = Some (g i)" by auto
  then show ?thesis by (simp add: answer_of_def)
qed

lemma form_fields_conv: "fm_fields (fs_form s) = map (field_at s) [0..<field_count s]"
  by (intro nth_equalityI) (simp_all add: field_count_def field_at_def)

lemma delivered_selection:
  assumes "distinct vals" and "distinct sel" and "set sel \<subseteq> set vals"
  shows "distinct (filter (\<lambda>v. v \<in> set sel) vals)" and "set (filter (\<lambda>v. v \<in> set sel) vals) = set sel"
    and "length (filter (\<lambda>v. v \<in> set sel) vals) = length sel"
proof -
  show d: "distinct (filter (\<lambda>v. v \<in> set sel) vals)" using assms(1) by simp
  show s: "set (filter (\<lambda>v. v \<in> set sel) vals) = set sel" using assms(3) by auto
  show "length (filter (\<lambda>v. v \<in> set sel) vals) = length sel"
    using distinct_card [OF d] distinct_card [OF assms(2)] s by simp
qed

lemma field_complaint_delivered:
  assumes f: "field_ok control f" and e: "entry_ok control f bs sel c" and ne: "\<not> editable (fd_kind f)"
  shows "field_complaint control f (Choice_answer (filter (\<lambda>v. v \<in> set sel) (map ch_value (fd_choices f))))
    = field_complaint control f (Choice_answer sel)"
proof -
  have v: "distinct (map ch_value (fd_choices f))" using f ne by (simp add: field_ok_def)
  have sel: "distinct sel" "set sel \<subseteq> set (map ch_value (fd_choices f))" using e ne by (simp_all add: entry_ok_def)
  note ds = delivered_selection [OF v sel]
  have "filter (\<lambda>v. v \<in> set sel) (map ch_value (fd_choices f)) = [] \<longleftrightarrow> sel = []"
    using ds(3) by (metis length_0_conv)
  with ds ne sel(1) show ?thesis by (simp only: field_complaint_def Let_def answer.case if_False answer.inject insert_iff) simp
qed

lemma delivered_valid:
  assumes ok: "editor_ok control s" and v: "validate_response control (fs_form s) (answers s) = None"
  shows "validate_response control (fs_form s) (delivered_answers s) = None"
proof -
  have dist: "distinct (map fd_name (fm_fields (fs_form s)))" using editor_okD(1) [OF ok] by (simp add: form_ok_def)
  let ?a = "\<lambda>i. if editable (fd_kind (field_at s i)) then Bytes_answer (fs_buffers s ! i) else Choice_answer (fs_selections s ! i)"
  let ?d = "\<lambda>i. if editable (fd_kind (field_at s i)) then Bytes_answer (fs_buffers s ! i)
     else Choice_answer (filter (\<lambda>v. v \<in> set (fs_selections s ! i)) (map ch_value (fd_choices (field_at s i))))"
  have ans: "answer_of (answers s) (fd_name (field_at s i)) = ?a i" "answer_of (delivered_answers s) (fd_name (field_at s i)) = ?d i"
    if "i < field_count s" for i
    using answer_of_map [OF dist that, of ?a] answer_of_map [OF dist that, of ?d]
    by (simp_all only: answers_def delivered_answers_def)
  have all: "\<forall>x \<in> set (fm_fields (fs_form s)). field_complaint control x (answer_of (answers s) (fd_name x)) = None"
    "\<forall>x \<in> set (fm_fields (fs_form s)). match_complaint (answers s) x = None"
    using v by (auto simp: validate_response_def first_complaint_None split: if_splits option.splits)
  have mem: "field_at s i \<in> set (fm_fields (fs_form s))" if "i < field_count s" for i
    using that by (simp add: field_at_def field_count_def)
  have fc: "field_complaint control (field_at s i) (?a i) = None" if i: "i < field_count s" for i
    using bspec [OF all(1) mem [OF i]] unfolding ans(1) [OF i] .
  have mc: "match_complaint (answers s) (field_at s i) = None" if i: "i < field_count s" for i
    using all(2) mem [OF i] by blast
  have fd: "field_complaint control (field_at s i) (?d i) = None" if i: "i < field_count s" for i
    using fc [OF i] field_complaint_delivered [OF editor_okD(2) [OF ok i] editor_okD(6) [OF ok i]] by (cases "editable (fd_kind (field_at s i))") simp_all
  have md: "match_complaint (delivered_answers s) (field_at s i) = None" if i: "i < field_count s" for i
  proof (cases "fd_matches (field_at s i)")
    case None
    then show ?thesis by (simp add: match_complaint_def)
  next
    case (Some m)
    have pw: "fd_kind (field_at s i) = Password" using editor_okD(2) [OF ok i] Some by (auto simp: field_ok_def)
    have "matches_earlier (fm_fields (fs_form s)) i"
      using editor_okD(1) [OF ok] i by (auto simp: form_ok_def list_all_iff field_count_def)
    with Some obtain j where j: "j < i" "fd_name (field_at s j) = m" "fd_kind (field_at s j) = Password"
      by (auto simp: matches_earlier_def list_ex_iff field_at_def)
    from j(1) i have jc: "j < field_count s" by simp
    from mc [OF i] Some j pw ans(1) [OF i] ans(1) [OF jc] ans(2) [OF i] ans(2) [OF jc]
    show ?thesis by (auto simp: match_complaint_def editable_def split: if_splits)
  qed
  have "set (map fst (delivered_answers s)) = set (map fst (answers s))"
    by (simp add: delivered_answers_def answers_def comp_def)
  with v have keys: "set (map fst (delivered_answers s)) = set (map fd_name (fm_fields (fs_form s)))"
    by (auto simp: validate_response_def split: if_splits)
  have "field_complaint control x (answer_of (delivered_answers s) (fd_name x)) = None
      \<and> match_complaint (delivered_answers s) x = None" if x: "x \<in> set (fm_fields (fs_form s))" for x
  proof -
    obtain i where i: "i < field_count s" "x = field_at s i" using x unfolding form_fields_conv by auto
    show ?thesis unfolding i(2) ans(2) [OF i(1)] using fd [OF i(1)] md [OF i(1)] by simp
  qed
  then have "first_complaint 0 (\<lambda>x. field_complaint control x (answer_of (delivered_answers s) (fd_name x))) (fm_fields (fs_form s)) = None"
    "first_complaint 0 (match_complaint (delivered_answers s)) (fm_fields (fs_form s)) = None"
    by (simp_all add: first_complaint_None)
  with keys show ?thesis by (simp add: validate_response_def)
qed

text \<open>Once the editor is delivered or closed, no call revives it.\<close>

lemma tick_closed: "fs_status s \<notin> {Editing, Submitted} \<Longrightarrow> tick now s = s"
  by (auto simp: tick_def)

lemma form_step_closed:
  assumes "fs_status s \<notin> {Editing, Submitted}" and "form_step control s c = Inr s'"
  shows "fs_status s' = fs_status s"
proof (cases c)
  case (Resize w h now)
  with assms show ?thesis by (auto simp: form_step_def resize_def tick_def)
next
  case (Close status)
  with assms show ?thesis by (auto simp: form_step_def close_checked_def close_form_def require_def split: if_splits)
qed (use assms in \<open>auto simp: form_step_def tick_closed insert_text_def press_key_def take_response_def Let_def\<close>)

interpretation closed: stepped "form_step control" "\<lambda>s. editor_ok control s \<and> fs_status s = st \<and> st \<notin> {Editing, Submitted}" for control st
proof unfold_locales
  fix s c s'
  assume "editor_ok control s \<and> fs_status s = st \<and> st \<notin> {Editing, Submitted}" and "form_step control s c = Inr s'"
  with form_step_ok [of control s c] form_step_closed [of s control c s']
  show "editor_ok control s' \<and> fs_status s' = st \<and> st \<notin> {Editing, Submitted}" by auto
qed


section \<open>What the dialogs guarantee\<close>


text \<open>C18. Delivery: when a running editor delivers, the response passes the form's validation, the
  deadline had not come, and nothing of it is left behind; and whatever is called afterwards,
  no second delivery happens and the buffers stay empty.\<close>

theorem delivery_once:
  assumes form: "form_from_mapping control j = Inr f" and init: "form_state_init f deadline = Inr s0"
    and run: "rfold (form_step control) s0 calls = Inr s" and take: "take_response now s = (s', Inr r)"
  shows "validate_response control (fs_form s) r = None \<and> now < fs_deadline s \<and> fs_status s' = Delivered \<and> wiped s'
    \<and> (\<forall>later t s''. rfold (form_step control) s' later = Inr s'' \<longrightarrow>
         snd (take_response t s'') = Inl Value_error \<and> wiped s'')"
proof -
  have "editor_ok control s0"
    using form_state_init_ok [of control f deadline] form_from_mapping_ok [OF form] init by auto
  then have ok: "editor_ok control s" using run by (rule editor.run_inv)
  from take have st: "fs_status (tick now s) = Submitted" and r: "r = delivered_answers (tick now s)"
    and s': "fs_status s' = Delivered"
    by (auto simp: take_response_def Let_def split: if_splits)
  from st have tick: "tick now s = s" and sub: "fs_status s = Submitted" and dl: "now < fs_deadline s"
    by (auto simp: tick_def close_form_def split: if_splits)
  have valid: "validate_response control (fs_form s) r = None"
    unfolding r tick using delivered_valid [OF ok editor_okD(9) [OF ok sub]] .
  have s'ok: "editor_ok control s'" using take_response_ok [OF ok, of now] take by simp
  have "snd (take_response t s'') = Inl Value_error \<and> wiped s''"
    if "rfold (form_step control) s' later = Inr s''" for later t s''
  proof -
    from closed.run_inv [of control s' Delivered later s''] that s'ok s'
    have "editor_ok control s''" "fs_status s'' = Delivered" by simp_all
    then show ?thesis using editor_okD(8) [of control s''] by (simp add: take_response_def tick_closed Let_def)
  qed
  with valid dl s' editor_okD(8) [OF s'ok] show ?thesis by simp
qed

text \<open>Editing: while the editor is open, an insertion into an editable field either puts the
  text at the cursor and moves the cursor behind it, exactly when the typed text and the
  result respect the field's limits, or leaves every buffer, selection and cursor as it was;
  and a single character inserted is removed again by a backspace, which restores the buffers
  and the cursors.\<close>

theorem insert_then_backspace:
  assumes ok: "editor_ok control s" and st: "fs_status s = Editing" and i: "fs_focus s < field_count s"
    and ed: "editable (fd_kind (field_at s (fs_focus s)))" and time: "now < fs_deadline s" "now' < fs_deadline s"
    and ins: "insert_text control now x s = Inr (s1, accepted)" and t: "decoded (fs_buffers s ! fs_focus s) = Inr t"
  shows "(accepted \<longleftrightarrow> (let f = field_at s (fs_focus s); c = fs_cursors s ! fs_focus s; new = take c t @ x @ drop c t in
            text_ok control x (fd_max_bytes f) (fd_kind f = Multiline)
            \<and> text_ok control new (fd_max_bytes f) (fd_kind f = Multiline) \<and> newlines new + 1 \<le> fd_max_lines f))
    \<and> (\<not> accepted \<longrightarrow> fs_buffers s1 = fs_buffers s \<and> fs_cursors s1 = fs_cursors s \<and> fs_selections s1 = fs_selections s)
    \<and> (accepted \<longrightarrow> decoded (fs_buffers s1 ! fs_focus s) = Inr (take (fs_cursors s ! fs_focus s) t @ x @ drop (fs_cursors s ! fs_focus s) t)
         \<and> fs_cursors s1 ! fs_focus s = fs_cursors s ! fs_focus s + length x)
    \<and> (accepted \<and> length x = 1 \<longrightarrow> (\<exists>s2. press_key control now' now'' K_backspace s1 = Inr s2
         \<and> fs_buffers s2 = fs_buffers s \<and> fs_cursors s2 = fs_cursors s))"
proof -
  let ?i = "fs_focus s" let ?f = "field_at s ?i" let ?c = "fs_cursors s ! ?i"
  let ?u = "take ?c t @ x @ drop ?c t"
  let ?good = "text_ok control x (fd_max_bytes ?f) (fd_kind ?f = Multiline)
      \<and> text_ok control ?u (fd_max_bytes ?f) (fd_kind ?f = Multiline) \<and> newlines ?u + 1 \<le> fd_max_lines ?f"
  have tick: "tick now s = s" using time(1) by (simp add: tick_def)
  have lens: "?i < length (fs_buffers s)" "?i < length (fs_cursors s)" using editor_okD(3,5) [OF ok] i by simp_all
  from entry_text [OF editor_okD(6) [OF ok i] ed] t obtain
    enc: "utf8_encode t = Some (fs_buffers s ! ?i)" and c: "?c \<le> length t" by auto
  show ?thesis
  proof (cases ?good)
    case False
    with ins t st i ed have "accepted = False" "s1 = s\<lparr>fs_error := Refused_input\<rparr>"
      by (auto simp: insert_text_def tick Let_def)
    with False show ?thesis by (simp add: Let_def)
  next
    case True
    from text_ok_encode [of control ?u] True obtain bs where bs: "utf8_encode ?u = Some bs" by blast
    with ins t st i ed True have acc: "accepted = True" and s1: "s1 = s\<lparr>fs_buffers := (fs_buffers s)[?i := bs],
        fs_cursors := (fs_cursors s)[?i := ?c + length x], fs_error := No_complaint\<rparr>"
      by (auto simp: insert_text_def replace_text_def encoded_def tick Let_def)
    have dec: "decoded (fs_buffers s1 ! ?i) = Inr ?u" using utf8_round_trip [OF bs] lens by (simp add: s1 decoded_def)
    have undo: "\<exists>s2. press_key control now' now'' K_backspace s1 = Inr s2 \<and> fs_buffers s2 = fs_buffers s \<and> fs_cursors s2 = fs_cursors s"
      if "length x = 1"
    proof -
      have t1: "tick now' s1 = s1" using time(2) by (simp add: tick_def s1)
      have cur: "fs_cursors s1 ! ?i = ?c + 1" using lens that by (simp add: s1)
      have cut: "take ?c ?u @ drop (?c + 1) ?u = t" using that c by (cases x) simp_all
      have "text_key control now'' K_backspace s1 = replace_text ?i t ?c s1"
        using dec cur cut by (simp add: text_key_def Let_def s1)
      also have "\<dots> = Inr (s1\<lparr>fs_buffers := (fs_buffers s1)[?i := fs_buffers s ! ?i], fs_cursors := (fs_cursors s1)[?i := ?c], fs_error := No_complaint\<rparr>)"
        by (simp add: replace_text_def encoded_def enc)
      finally have "press_key control now' now'' K_backspace s1
          = Inr (s1\<lparr>fs_buffers := (fs_buffers s1)[?i := fs_buffers s ! ?i], fs_cursors := (fs_cursors s1)[?i := ?c], fs_error := No_complaint\<rparr>)"
        using st i ed by (simp add: press_key_def t1 Let_def) (simp add: s1 field_count_def field_at_def)
      then show ?thesis by (auto simp: s1)
    qed
    from True dec acc undo lens show ?thesis by (simp add: Let_def s1)
  qed
qed


section \<open>Witnesses\<close>

definition sample_control :: "nat \<Rightarrow> bool" where
  "sample_control c \<longleftrightarrow> c < 32 \<or> (127 \<le> c \<and> c < 160) \<or> surrogate c"

definition sample_request :: json where
  "sample_request = JObj [(u ''title'', JStr (u ''Unlock'')), (u ''fields'', JList [
     JObj [(u ''name'', JStr (u ''pw'')), (u ''label'', JStr (u ''Password'')), (u ''kind'', JStr (u ''password'')), (u ''required'', JBool True)],
     JObj [(u ''name'', JStr (u ''pick'')), (u ''label'', JStr (u ''Pick'')), (u ''kind'', JStr (u ''radio'')),
       (u ''choices'', JList [JObj [(u ''value'', JStr (u ''a'')), (u ''label'', JStr (u ''A''))],
                              JObj [(u ''label'', JStr (u ''B'')), (u ''value'', JStr (u ''b''))]])]])]"

definition sample_calls :: "form_call list" where
  "sample_calls = [Resize 80 24 0, Insert 1 (u ''se'' @ [233]), Key 2 2 K_tab, Key 3 3 K_down, Key 3 3 K_space, Key 4 4 K_submit]"

definition sample_form :: dialog_form where
  "sample_form = (case form_from_mapping sample_control sample_request of Inr f \<Rightarrow> f | Inl e \<Rightarrow> undefined)"

lemma sample_form: "form_from_mapping sample_control sample_request = Inr sample_form"
proof -
  have "is_ok (form_from_mapping sample_control sample_request)" by code_simp
  then show ?thesis by (auto simp: is_ok_iff sample_form_def)
qed

definition sample_start :: form_state where
  "sample_start = (case form_state_init sample_form 100 of Inr s \<Rightarrow> s | Inl e \<Rightarrow> undefined)"

lemma sample_start: "form_state_init sample_form 100 = Inr sample_start"
proof -
  from form_from_mapping_ok [OF sample_form] obtain s where "form_state_init sample_form 100 = Inr s"
    using form_state_init_ok by blast
  then show ?thesis by (simp add: sample_start_def)
qed

lemma sample_run: "\<exists>s. rfold (form_step sample_control) sample_start sample_calls = Inr s \<and> fs_status s = Submitted \<and> fs_deadline s = 100
    \<and> delivered_answers s = [(u ''pw'', Bytes_answer [115, 101, 195, 169]), (u ''pick'', Choice_answer [u ''b''])]"
proof -
  have "case form_from_mapping sample_control sample_request of Inl e \<Rightarrow> False | Inr f \<Rightarrow>
      (case form_state_init f 100 of Inl e \<Rightarrow> False | Inr s0 \<Rightarrow>
        (case rfold (form_step sample_control) s0 sample_calls of Inl e \<Rightarrow> False
         | Inr s \<Rightarrow> fs_status s = Submitted \<and> fs_deadline s = 100
             \<and> delivered_answers s = [(u ''pw'', Bytes_answer [115, 101, 195, 169]), (u ''pick'', Choice_answer [u ''b''])]))"
    by code_simp
  then show ?thesis by (simp add: sample_form sample_start split: sum.splits)
qed


theorem delivery_once_witness:
  "\<exists>s s' r. rfold (form_step sample_control) sample_start sample_calls = Inr s \<and> take_response 50 s = (s', Inr r)
     \<and> validate_response sample_control (fs_form s) r = None
     \<and> snd (take_response 51 s') = Inl Value_error"
proof -
  obtain s where s: "rfold (form_step sample_control) sample_start sample_calls = Inr s" "fs_status s = Submitted" "fs_deadline s = 100"
    using sample_run by blast
  then have "tick 50 s = s" by (simp add: tick_def)
  with s(2) obtain s' r where t: "take_response 50 s = (s', Inr r)" by (auto simp: take_response_def Let_def)
  from delivery_once [OF sample_form sample_start s(1) t]
  have "validate_response sample_control (fs_form s) r = None" "snd (take_response 51 s') = Inl Value_error"
    by (auto dest: spec [of _ "[]"])
  with s(1) t show ?thesis by blast
qed

theorem insert_then_backspace_witness:
  "\<exists>s1 s2. insert_text sample_control 1 [65] sample_start = Inr (s1, True)
     \<and> press_key sample_control 2 2 K_backspace s1 = Inr s2 \<and> fs_buffers s2 = fs_buffers sample_start"
proof -
  have ok: "editor_ok sample_control sample_start"
    using form_state_init_ok [of sample_control sample_form 100] form_from_mapping_ok [OF sample_form] sample_start by auto
  have "case form_from_mapping sample_control sample_request of Inl e \<Rightarrow> False | Inr f \<Rightarrow>
      (case form_state_init f 100 of Inl e \<Rightarrow> False | Inr s0 \<Rightarrow> fs_status s0 = Editing \<and> fs_focus s0 < field_count s0
        \<and> editable (fd_kind (field_at s0 (fs_focus s0))) \<and> fs_deadline s0 = 100 \<and> decoded (fs_buffers s0 ! fs_focus s0) = Inr []
        \<and> (case insert_text sample_control 1 [65] s0 of Inl e \<Rightarrow> False | Inr (s1, b) \<Rightarrow> b))"
    by code_simp
  then have st: "fs_status sample_start = Editing" "fs_focus sample_start < field_count sample_start"
    "editable (fd_kind (field_at sample_start (fs_focus sample_start)))" "fs_deadline sample_start = 100"
    "decoded (fs_buffers sample_start ! fs_focus sample_start) = Inr []"
    "case insert_text sample_control 1 [65] sample_start of Inl e \<Rightarrow> False | Inr (s1, b) \<Rightarrow> b"
    by (simp_all add: sample_form sample_start)
  from st(6) obtain s1 where s1: "insert_text sample_control 1 [65] sample_start = Inr (s1, True)" by (auto split: sum.splits)
  from insert_then_backspace [OF ok st(1-3) _ _ s1 st(5), of 2 2] st(4) s1 show ?thesis by auto
qed


end
