(* ===== verification/Python.thy ===== *)
theory Python
  imports Json
begin

text \<open>
  Python's exceptions as values, with the text the source raises them with where callers can
  tell them apart by it, and the readings of a parsed table the configuration code shares.
\<close>

datatype py_error =
    ValueError string | RuntimeError string | PermissionError string | ConnectionError string | TimeoutError string |
    TypeError | KeyError | IndexError | AttributeError |
    AssertionError | StopIteration

text \<open>\<open>str.strip\<close> and the whitespace it removes.\<close>

definition whitespace :: "nat \<Rightarrow> bool" where
  "whitespace c \<longleftrightarrow> 9 \<le> c \<and> c \<le> 13 \<or> 28 \<le> c \<and> c \<le> 32 \<or> c = 133 \<or> c = 160 \<or> c = 5760 \<or>
     8192 \<le> c \<and> c \<le> 8202 \<or> c = 8232 \<or> c = 8233 \<or> c = 8239 \<or> c = 8287 \<or> c = 12288"

definition strip :: "pytext \<Rightarrow> pytext" where
  "strip t = rev (dropWhile whitespace (rev (dropWhile whitespace t)))"

text \<open>\<open>type(v) is int and low <= v <= high\<close>, with the default for an absent member.\<close>

definition int_within :: "int \<Rightarrow> int \<Rightarrow> json \<Rightarrow> bool" where
  "int_within low high v = (case v of JInt i \<Rightarrow> low \<le> i \<and> i \<le> high | _ \<Rightarrow> False)"

definition bounded_int ::
    "(pytext \<times> json) list \<Rightarrow> string \<Rightarrow> int \<Rightarrow> int \<Rightarrow> int \<Rightarrow> string \<Rightarrow> (py_error, int) result" where
  "bounded_int obj name d low high msg =
     (case member_or obj name (JInt d) of
        JInt i \<Rightarrow> if low \<le> i \<and> i \<le> high then Inr i else Inl (ValueError msg)
      | _ \<Rightarrow> Inl (ValueError msg))"

lemma bounded_int_Inr: "bounded_int obj name d low high msg = Inr i \<Longrightarrow> low \<le> i \<and> i \<le> high"
  by (auto simp: bounded_int_def split: json.splits if_splits)

end
