(* ===== verification/Test_Scheduling.thy ===== *)
theory Test_Scheduling
  imports Python "HOL-Library.AList" "HOL-Library.Product_Lexorder"
begin

text \<open>
  The live scheduler (\<open>src/ls/core/test_scheduling.py\<close>): a subclass of xdist's
  \<open>LoadScheduling\<close> that keeps one queue per worker, dispatches at most two tests ahead and moves
  only what it has not dispatched. The base class is not part of the repository: what it keeps
  (\<open>node2pending\<close>, whose keys are \<open>nodes\<close>, \<open>node2collection\<close>, \<open>collection\<close>, \<open>numnodes\<close>) are
  fields of the state, and the methods the source calls on it are parameters. Sends, shutdowns
  and growth requests are logged; whether a worker is shutting down is the workers' state, which
  the environment may change between any two calls.
\<close>

type_synonym node = nat

datatype effect = Send node "nat list" | Shutdown node | Grow

record sched =
  node2pending :: "(node \<times> nat list) list"
  node2collection :: "(node \<times> pytext list) list"
  collection :: "pytext list option"
  numnodes :: nat
  queues :: "(node \<times> nat list) list"
  slots :: "(node \<times> nat) list"
  draining :: "node set"
  unassigned :: "nat list"
  completed :: "nat set"
  unresolved :: "nat set"
  target :: int
  next_slot :: nat
  stopping :: bool
  shutting_down :: "node set"
  effects :: "effect list"

definition sched_init :: "nat \<Rightarrow> sched" where
  "sched_init n =
     \<lparr>node2pending = [], node2collection = [], collection = None, numnodes = n, queues = [], slots = [],
      draining = {}, unassigned = [], completed = {}, unresolved = {}, target = int n, next_slot = 0,
      stopping = False, shutting_down = {}, effects = []\<rparr>"

section \<open>Queries\<close>

definition held :: "('k \<times> 'v list) list \<Rightarrow> 'v list" where
  "held m = concat (map snd m)"

definition collection_is_completed :: "sched \<Rightarrow> bool" where
  "collection_is_completed s \<longleftrightarrow> collection s \<noteq> None \<or> numnodes s \<le> length (node2collection s)"

definition has_pending :: "sched \<Rightarrow> bool" where
  "has_pending s \<longleftrightarrow> unassigned s \<noteq> [] \<or> held (queues s) \<noteq> [] \<or> held (node2pending s) \<noteq> []"

definition tests_finished :: "sched \<Rightarrow> bool" where
  "tests_finished s \<longleftrightarrow> collection s \<noteq> None \<and> \<not> has_pending s"

definition nodes :: "sched \<Rightarrow> node list" where
  "nodes s = map fst (node2pending s)"

text \<open>\<open>d[k]\<close>.\<close>

definition item :: "('k \<times> 'v) list \<Rightarrow> 'k \<Rightarrow> (py_error, 'v) result" where
  "item d k = (case map_of d k of None \<Rightarrow> Inl KeyError | Some v \<Rightarrow> Inr v)"

definition active_nodes :: "sched \<Rightarrow> node list" where
  "active_nodes s = filter (\<lambda>n. n \<notin> draining s \<and> n \<notin> shutting_down s \<and> map_of (node2collection s) n \<noteq> None) (nodes s)"

definition slot_of :: "sched \<Rightarrow> node \<Rightarrow> nat" where
  "slot_of s n = the (map_of (slots s) n)"

definition eligible :: "sched \<Rightarrow> (py_error, node list) result" where
  "eligible s =
     rbind (require (list_all (\<lambda>n. map_of (slots s) n \<noteq> None) (active_nodes s)) KeyError) (\<lambda>_.
       Inr (sort_key (slot_of s) (active_nodes s)))"

section \<open>Moving controller-held work\<close>

definition load :: "sched \<Rightarrow> node \<Rightarrow> nat" where
  "load s n = length (the (map_of (node2pending s) n)) + length (the (map_of (queues s) n))"

text \<open>\<open>min(active, key=...)\<close>: the first of the nodes with the least key.\<close>

fun least_by :: "('a \<Rightarrow> 'b::linorder) \<Rightarrow> 'a \<Rightarrow> 'a list \<Rightarrow> 'a" where
  "least_by key best [] = best"
| "least_by key best (x # xs) = least_by key (if key x < key best then x else best) xs"

definition place :: "node list \<Rightarrow> sched \<Rightarrow> nat \<Rightarrow> (py_error, sched) result" where
  "place active s index =
     (case active of
        [] \<Rightarrow> Inl (ValueError ''min() arg is an empty sequence'')
      | n0 # rest \<Rightarrow>
         rbind (require (list_all (\<lambda>n. map_of (queues s) n \<noteq> None) active) KeyError) (\<lambda>_.
         let n = least_by (\<lambda>n. (load s n, slot_of s n)) n0 rest
         in Inr (s\<lparr>queues := AList.update n (the (map_of (queues s) n) @ [index]) (queues s)\<rparr>)))"

definition rebalance :: "sched \<Rightarrow> (py_error, sched) result" where
  "rebalance s =
     (let remaining = sort (unassigned s @ held (queues s));
          s = s\<lparr>queues := map (\<lambda>(n, q). (n, [])) (queues s), unassigned := []\<rparr>
      in rbind (eligible s) (\<lambda>active.
         if active = [] then Inr (s\<lparr>unassigned := remaining\<rparr>) else rfold (place active) s remaining))"

section \<open>Dispatch\<close>

definition shut :: "sched \<Rightarrow> node \<Rightarrow> sched" where
  "shut s n = s\<lparr>effects := effects s @ [Shutdown n]\<rparr>"

definition dispatch_node :: "sched \<Rightarrow> node \<Rightarrow> (py_error, sched) result" where
  "dispatch_node s n =
     rbind (item (node2pending s) n) (\<lambda>pending.
     rbind (item (queues s) n) (\<lambda>queue.
     let cnt = 2 - length pending;
         selected = take cnt queue;
         s = s\<lparr>queues := AList.update n (drop cnt queue) (queues s)\<rparr>
     in Inr (if selected \<noteq> []
             then s\<lparr>node2pending := AList.update n (pending @ selected) (node2pending s),
                    effects := effects s @ [Send n selected]\<rparr>
             else s)))"

definition dispatch :: "sched \<Rightarrow> (py_error, sched) result" where
  "dispatch s =
     (if stopping s \<or> collection s = None then Inr s
      else rbind (eligible s) (\<lambda>active.
           rbind (rfold dispatch_node s active) (\<lambda>s.
           if unassigned s = [] \<and> held (queues s) = []
           then rbind (eligible s) (\<lambda>active. Inr (foldl shut s active))
           else Inr s)))"

definition redistribute :: "sched \<Rightarrow> (py_error, sched) result" where
  "redistribute s = rbind (rebalance s) dispatch"

section \<open>The calls\<close>

text \<open>\<open>active_count\<close> is what the bridge reports, absent when there is no bridge.\<close>

definition maybe_grow :: "nat option \<Rightarrow> sched \<Rightarrow> sched" where
  "maybe_grow active_count s =
     (case active_count of
        None \<Rightarrow> s
      | Some k \<Rightarrow>
         if stopping s \<or> draining s \<noteq> {} \<or> \<not> (unassigned s \<noteq> [] \<or> held (queues s) \<noteq> []) then s
         else if int k < target s then s\<lparr>effects := effects s @ [Grow]\<rparr> else s)"

definition drain :: "sched \<Rightarrow> node \<Rightarrow> sched" where
  "drain s n = shut (s\<lparr>draining := insert n (draining s)\<rparr>) n"

definition set_target :: "nat option \<Rightarrow> int \<Rightarrow> sched \<Rightarrow> (py_error, sched) result" where
  "set_target active_count t s =
     rbind (require (1 \<le> t \<and> t \<le> int (numnodes s))
             (ValueError ''Adaptive worker target is outside its configured bounds'')) (\<lambda>_.
     let s = s\<lparr>target := t\<rparr>
     in if collection s = None then Inr s
        else rbind (eligible s) (\<lambda>active.
             rbind (redistribute (foldl drain s (rev (drop (nat t) active)))) (\<lambda>s.
             Inr (maybe_grow active_count s))))"

definition schedule :: "(sched \<Rightarrow> bool) \<Rightarrow> nat option \<Rightarrow> sched \<Rightarrow> (py_error, sched) result" where
  "schedule same_collection active_count s =
     (if stopping s then Inr s
      else if collection s = None then
        (if \<not> collection_is_completed s then Inr s
         else if \<not> same_collection s then Inr (foldl shut (s\<lparr>stopping := True\<rparr>) (nodes s))
         else case node2collection s of
           [] \<Rightarrow> Inl StopIteration
         | (n, c) # _ \<Rightarrow>
             set_target active_count (target s) (s\<lparr>collection := Some c, unassigned := [0..<length c]\<rparr>))
      else set_target active_count (target s) s)"

definition mark_test_complete :: "node \<Rightarrow> nat \<Rightarrow> sched \<Rightarrow> (py_error, sched) result" where
  "mark_test_complete n index s =
     (if index \<in> completed s
      then Inl (RuntimeError ''Adaptive test completion has no unique assigned owner'')
      else rbind (item (node2pending s) n) (\<lambda>pending.
        if index \<notin> set pending
        then Inl (RuntimeError ''Adaptive test completion has no unique assigned owner'')
        else redistribute (s\<lparr>node2pending := AList.update n (remove1 index pending) (node2pending s),
                             completed := insert index (completed s)\<rparr>)))"

definition check_schedule :: "sched \<Rightarrow> (py_error, sched) result" where
  "check_schedule s = redistribute s"

text \<open>The exit status the worker reported, absent when it reported none.\<close>

definition remove_node :: "node \<Rightarrow> int option \<Rightarrow> sched \<Rightarrow> (py_error, sched \<times> pytext option) result" where
  "remove_node n exitstatus s =
     rbind (item (node2pending s) n) (\<lambda>assigned.
     rbind (item (queues s) n) (\<lambda>queue.
     rbind (item (slots s) n) (\<lambda>_.
     let planned = n \<in> draining s;
         s = s\<lparr>node2pending := AList.delete n (node2pending s), queues := AList.delete n (queues s),
               unassigned := unassigned s @ queue, slots := AList.delete n (slots s),
               node2collection := AList.delete n (node2collection s), draining := draining s - {n}\<rparr>
     in rbind (case assigned of
                 [] \<Rightarrow> Inr (s, None)
               | first # rest \<Rightarrow>
                   if planned \<and> exitstatus = Some 0
                   then Inl (RuntimeError ''Retired worker exited before acknowledging its assigned tests'')
                   else (case collection s of
                           None \<Rightarrow> Inl AssertionError
                         | Some c \<Rightarrow>
                             if first < length c
                             then Inr (s\<lparr>unresolved := insert first (unresolved s),
                                         unassigned := unassigned s @ rest\<rparr>, Some (c ! first))
                             else Inl IndexError)) (\<lambda>(s, crash).
        rbind (redistribute s) (\<lambda>s. Inr (s, crash))))))"

fun index_of :: "'a list \<Rightarrow> 'a \<Rightarrow> nat option" where
  "index_of [] x = None"
| "index_of (y # ys) x = (if y = x then Some 0 else map_option Suc (index_of ys x))"

definition mark_test_pending :: "pytext \<Rightarrow> sched \<Rightarrow> (py_error, sched) result" where
  "mark_test_pending test s =
     (case collection s of
        None \<Rightarrow> Inl AttributeError
      | Some c \<Rightarrow>
         (case index_of c test of
            None \<Rightarrow> Inl (ValueError ''list.index(x): x not in list'')
          | Some index \<Rightarrow>
              if index \<in> completed s then Inl (RuntimeError ''Cannot replay a completed adaptive test'')
              else redistribute (s\<lparr>unresolved := unresolved s - {index},
                                   unassigned := unassigned s @ [index]\<rparr>)))"

definition stop_dispatch :: "sched \<Rightarrow> sched" where
  "stop_dispatch s = foldl shut (s\<lparr>stopping := True\<rparr>) (nodes s)"

definition add_node :: "(node \<Rightarrow> sched \<Rightarrow> (py_error, sched) result) \<Rightarrow> node \<Rightarrow> sched \<Rightarrow> (py_error, sched) result" where
  "add_node super n s =
     rbind (super n s) (\<lambda>s.
       Inr (s\<lparr>queues := AList.update n [] (queues s), slots := AList.update n (next_slot s) (slots s),
              next_slot := next_slot s + 1\<rparr>))"

definition add_node_collection ::
    "(node \<Rightarrow> pytext list \<Rightarrow> sched \<Rightarrow> (py_error, sched) result) \<Rightarrow> node \<Rightarrow> pytext list \<Rightarrow> sched \<Rightarrow>
     (py_error, sched) result" where
  "add_node_collection super n c s =
     (if collection s \<noteq> None \<and> collection s \<noteq> Some c
      then Inl (RuntimeError ''Adaptive worker collection differs; no work was assigned'')
      else super n c s)"


section \<open>A session's calls\<close>

datatype sched_call =
    Add_node node | Add_collection node "pytext list" | Schedule "nat option" | Complete node nat | Check
  | Remove node "int option" | Replay pytext | Set_target "nat option" int | Stop | Shutting_down "node set"

text \<open>
  xdist's session asks for a replay only of a test whose worker crashed while running it; every
  other call may come at any time.
\<close>

definition well_called :: "sched \<Rightarrow> sched_call \<Rightarrow> bool" where
  "well_called s c =
     (case c of
        Replay test \<Rightarrow>
          (case collection s of
             None \<Rightarrow> True
           | Some ids \<Rightarrow> (case index_of ids test of None \<Rightarrow> True | Some i \<Rightarrow> i \<in> unresolved s \<or> i \<in> completed s))
      | _ \<Rightarrow> True)"

definition sched_step ::
    "(node \<Rightarrow> sched \<Rightarrow> (py_error, sched) result) \<Rightarrow>
     (node \<Rightarrow> pytext list \<Rightarrow> sched \<Rightarrow> (py_error, sched) result) \<Rightarrow> (sched \<Rightarrow> bool) \<Rightarrow>
     sched \<Rightarrow> sched_call \<Rightarrow> (py_error, sched) result" where
  "sched_step super_add super_collection same s c =
     rbind (require (well_called s c) (ValueError ''outside the session's protocol'')) (\<lambda>_.
     case c of
       Add_node n \<Rightarrow> add_node super_add n s
     | Add_collection n ids \<Rightarrow> add_node_collection super_collection n ids s
     | Schedule k \<Rightarrow> schedule same k s
     | Complete n i \<Rightarrow> mark_test_complete n i s
     | Check \<Rightarrow> check_schedule s
     | Remove n status \<Rightarrow> rbind (remove_node n status s) (\<lambda>(s, _). Inr s)
     | Replay test \<Rightarrow> mark_test_pending test s
     | Set_target k t \<Rightarrow> set_target k t s
     | Stop \<Rightarrow> Inr (stop_dispatch s)
     | Shutting_down ns \<Rightarrow> Inr (s\<lparr>shutting_down := ns\<rparr>))"

text \<open>What the base class documents of the two methods the source calls on it.\<close>

definition adds_idle_node :: "(node \<Rightarrow> sched \<Rightarrow> (py_error, sched) result) \<Rightarrow> bool" where
  "adds_idle_node super \<longleftrightarrow>
     (\<forall>n s s'. super n s = Inr s' \<longrightarrow>
        n \<notin> set (nodes s) \<and> s' = s\<lparr>node2pending := node2pending s @ [(n, [])]\<rparr>)"

definition records_collection :: "(node \<Rightarrow> pytext list \<Rightarrow> sched \<Rightarrow> (py_error, sched) result) \<Rightarrow> bool" where
  "records_collection super \<longleftrightarrow>
     (\<forall>n ids s s'. super n ids s = Inr s' \<longrightarrow> (\<exists>m. s' = s\<lparr>node2collection := m\<rparr>))"

section \<open>The invariant\<close>

text \<open>Every index is in exactly one place; no worker holds more than two tests.\<close>

definition placed :: "sched \<Rightarrow> nat multiset" where
  "placed s = mset (unassigned s) + mset (held (queues s)) + mset (held (node2pending s))"

definition keys_ok :: "sched \<Rightarrow> bool" where
  "keys_ok s \<longleftrightarrow>
     distinct (map fst (node2pending s)) \<and> distinct (map fst (queues s)) \<and> distinct (map fst (slots s)) \<and>
     fst ` set (queues s) = fst ` set (node2pending s) \<and> fst ` set (slots s) = fst ` set (node2pending s)"

definition short :: "sched \<Rightarrow> bool" where
  "short s \<longleftrightarrow> (\<forall>p \<in> snd ` set (node2pending s). length p \<le> 2)"

definition covered :: "sched \<Rightarrow> bool" where
  "covered s \<longleftrightarrow> finite (completed s) \<and> finite (unresolved s) \<and>
     placed s + mset_set (completed s) + mset_set (unresolved s) =
       (case collection s of None \<Rightarrow> {#} | Some ids \<Rightarrow> mset [0..<length ids])"

definition sched_ok :: "sched \<Rightarrow> bool" where
  "sched_ok s \<longleftrightarrow> keys_ok s \<and> short s \<and> covered s"

section \<open>Maps of lists\<close>

lemma held_Nil [simp]: "held [] = []"
  by (simp add: held_def)

lemma held_Cons [simp]: "held (kv # m) = snd kv @ held m"
  by (simp add: held_def)

lemma held_append [simp]: "held (m @ m') = held m @ held m'"
  by (simp add: held_def)

lemma held_update:
  assumes "map_of m k = Some v" and "distinct (map fst m)"
  shows "mset (held (AList.update k w m)) + mset v = mset (held m) + mset w"
  using assms
proof (induction m)
  case (Cons kv m)
  then show ?case by (cases kv) (auto split: if_splits)
qed simp

lemma held_delete:
  assumes "map_of m k = Some v" and "distinct (map fst m)"
  shows "mset (held m) = mset (held (AList.delete k m)) + mset v"
  using assms
proof (induction m)
  case (Cons kv m)
  then show ?case
    by (cases kv) (auto simp: delete_id split: if_splits)
qed simp

lemma update_keys_in: "k \<in> fst ` set m \<Longrightarrow> map fst (AList.update k w m) = map fst m"
  by (simp add: update_keys)

lemma map_of_in_keys: "map_of m k = Some v \<Longrightarrow> k \<in> fst ` set m"
  by (metis domI dom_map_of_conv_image_fst)

lemma keys_have: "k \<in> fst ` set m \<Longrightarrow> \<exists>v. map_of m k = Some v"
  by (metis domD dom_map_of_conv_image_fst)

lemma update_values: "snd ` set (AList.update k w m) \<subseteq> insert w (snd ` set m)"
  by (induction m) auto

lemma delete_values: "snd ` set (AList.delete k m) \<subseteq> snd ` set m"
  by (auto simp: AList.delete_eq)

lemma map_clear [simp]: "map fst (map (\<lambda>(n, q). (n, [])) m) = map fst m" "held (map (\<lambda>(n, q). (n, [])) m) = []"
  "fst ` (\<lambda>(n, q). (n, [])) ` set m = fst ` set m"
  by (induction m) (auto simp: image_iff)

lemma least_by_in: "least_by key best xs \<in> insert best (set xs)"
proof (induction xs arbitrary: best)
  case (Cons x xs)
  from Cons.IH [of "if key x < key best then x else best"] show ?case by auto
qed simp

lemma least_by_le: "x \<in> insert best (set xs) \<Longrightarrow> key (least_by key best xs) \<le> key x"
proof (induction xs arbitrary: best x)
  case (Cons y ys)
  let ?b = "if key y < key best then y else best"
  have "key (least_by key ?b ys) \<le> key z" if "z \<in> insert ?b (set ys)" for z
    using Cons.IH [OF that] .
  moreover have "key ?b \<le> key best" "key ?b \<le> key y" by auto
  ultimately show ?case using Cons.prems
    by (metis insert_iff least_by.simps(2) list.set_intros(1) list.simps(15) order_trans)
qed simp

section \<open>Moving work keeps all of it\<close>

text \<open>Only controller-held work differs between two states.\<close>

definition moved :: "sched \<Rightarrow> sched \<Rightarrow> bool" where
  "moved s s' \<longleftrightarrow> (\<exists>q w. s' = s\<lparr>queues := q, unassigned := w\<rparr> \<and> map fst q = map fst (queues s) \<and>
     mset w + mset (held q) = mset (unassigned s) + mset (held (queues s)))"

lemma active_nodes_keys: "keys_ok s \<Longrightarrow> n \<in> set (active_nodes s) \<Longrightarrow>
    n \<in> fst ` set (node2pending s) \<and> n \<in> fst ` set (queues s) \<and> n \<in> fst ` set (slots s)"
  by (auto simp: active_nodes_def nodes_def keys_ok_def)

lemma eligible_ok: "keys_ok s \<Longrightarrow> eligible s = Inr (sort_key (slot_of s) (active_nodes s))"
proof -
  assume k: "keys_ok s"
  have "list_all (\<lambda>n. map_of (slots s) n \<noteq> None) (active_nodes s)"
    unfolding list_all_iff
  proof
    fix n assume "n \<in> set (active_nodes s)"
    with active_nodes_keys [OF k] have "n \<in> fst ` set (slots s)" by blast
    from keys_have [OF this] show "map_of (slots s) n \<noteq> None" by blast
  qed
  then show ?thesis by (simp add: eligible_def)
qed

lemma place_queues:
  assumes "place active s i = Inr s'"
  obtains n q where "n \<in> set active" "map_of (queues s) n = Some q"
    "s' = s\<lparr>queues := AList.update n (q @ [i]) (queues s)\<rparr>" "\<And>m. m \<in> set active \<Longrightarrow> load s n \<le> load s m"
proof -
  have "active \<noteq> []" using assms by (auto simp only: place_def list.case)
  then obtain n0 rest where a: "active = n0 # rest" by (cases active) simp_all
  let ?key = "\<lambda>n. (load s n, slot_of s n)"
  let ?n = "least_by ?key n0 rest"
  have n: "?n \<in> set active" using least_by_in [of ?key n0 rest] unfolding a by simp
  from assms have l: "list_all (\<lambda>n. map_of (queues s) n \<noteq> None) active"
    and s': "s' = s\<lparr>queues := AList.update ?n (the (map_of (queues s) ?n) @ [i]) (queues s)\<rparr>"
    unfolding a by (simp_all add: place_def rbind_Inr_iff require_Inr_iff Let_def)
  from l n have "map_of (queues s) ?n \<noteq> None" unfolding list_all_iff by blast
  then obtain q where q: "map_of (queues s) ?n = Some q" by blast
  have least: "load s ?n \<le> load s m" if "m \<in> set active" for m
    using least_by_le [of m n0 rest ?key] that unfolding a less_eq_prod_def by auto
  show thesis by (rule that [OF n q _ least]) (simp_all add: s' q)
qed



definition balanced :: "node list \<Rightarrow> sched \<Rightarrow> bool" where
  "balanced active s \<longleftrightarrow>
     (\<forall>n \<in> set active. \<forall>m \<in> set active. the (map_of (queues s) n) \<noteq> [] \<longrightarrow> load s n \<le> load s m + 1)"

definition filling :: "node list \<Rightarrow> sched \<Rightarrow> sched \<Rightarrow> nat list \<Rightarrow> bool" where
  "filling active s0 s xs \<longleftrightarrow>
     (\<exists>q. s = s0\<lparr>queues := q\<rparr> \<and> map fst q = map fst (queues s0) \<and>
        mset (held q) = mset (held (queues s0)) + mset xs \<and>
        (\<forall>n. n \<notin> set active \<longrightarrow> map_of q n = map_of (queues s0) n)) \<and> balanced active s"

lemma load_update:
  "load (s\<lparr>queues := AList.update n q (queues s)\<rparr>) m =
     (if m = n then length (the (map_of (node2pending s) n)) + length q else load s m)"
  by (simp add: load_def update_conv')

lemma place_balanced:
  assumes b: "balanced active s" and p: "place active s i = Inr s'"
  shows "balanced active s'"
proof -
  from p obtain n q where n: "n \<in> set active" and q: "map_of (queues s) n = Some q"
    and s': "s' = s\<lparr>queues := AList.update n (q @ [i]) (queues s)\<rparr>"
    and least: "\<And>m. m \<in> set active \<Longrightarrow> load s n \<le> load s m" by (rule place_queues) blast
  have ln: "load s' n = load s n + 1" using q by (simp add: s' load_update) (simp add: load_def)
  have lm: "load s' m = load s m" if "m \<noteq> n" for m using that by (simp add: s' load_update)
  have qm: "the (map_of (queues s') m) = the (map_of (queues s) m)" if "m \<noteq> n" for m
    using that by (simp add: s' update_conv')
  show ?thesis
    unfolding balanced_def
  proof (intro ballI impI)
    fix a m assume a: "a \<in> set active" and m: "m \<in> set active" and ne: "the (map_of (queues s') a) \<noteq> []"
    show "load s' a \<le> load s' m + 1"
    proof (cases "a = n")
      case True
      then show ?thesis using ln lm least [OF m] by (cases "m = n") auto
    next
      case False
      then have "load s a \<le> load s m + 1" using b a m ne qm [OF False] by (auto simp: balanced_def)
      then show ?thesis using False lm ln by (cases "m = n") auto
    qed
  qed
qed

lemma place_filling:
  assumes d: "distinct (map fst (queues s0))" and f: "filling active s0 s xs" and p: "place active s i = Inr s'"
  shows "filling active s0 s' (xs @ [i])"
proof -
  from f obtain q0 where s: "s = s0\<lparr>queues := q0\<rparr>" and keys: "map fst q0 = map fst (queues s0)"
    and ms: "mset (held q0) = mset (held (queues s0)) + mset xs"
    and other: "\<forall>n. n \<notin> set active \<longrightarrow> map_of q0 n = map_of (queues s0) n" and b: "balanced active s"
    unfolding filling_def by blast
  from p obtain n q where n: "n \<in> set active" and q: "map_of (queues s) n = Some q"
    and s': "s' = s\<lparr>queues := AList.update n (q @ [i]) (queues s)\<rparr>"
    using place_queues by metis
  let ?q = "AList.update n (q @ [i]) q0"
  have "mset (held ?q) + mset q = mset (held q0) + mset (q @ [i])"
    by (rule held_update) (use q s keys d in simp_all)
  then have "mset (held ?q) = mset (held (queues s0)) + mset (xs @ [i])" using ms by simp
  moreover have "map fst ?q = map fst (queues s0)"
    using update_keys_in [OF map_of_in_keys [OF q], of "q @ [i]"] keys s by simp
  moreover have "\<forall>m. m \<notin> set active \<longrightarrow> map_of ?q m = map_of (queues s0) m"
    using other n by (auto simp: update_conv')
  ultimately show ?thesis
    using place_balanced [OF b p] unfolding filling_def s' s by (intro conjI exI [of _ ?q]) simp_all
qed

lemma place_succeeds:
  assumes "active \<noteq> []" and "\<forall>n \<in> set active. n \<in> fst ` set (queues s)"
  shows "\<exists>s'. place active s i = Inr s'"
proof -
  obtain n0 rest where a: "active = n0 # rest" using assms(1) by (cases active) auto
  have "list_all (\<lambda>n. map_of (queues s) n \<noteq> None) active"
    unfolding list_all_iff using assms(2) keys_have by fast
  then show ?thesis by (simp add: place_def a Let_def)
qed

lemma rfold_place_succeeds:
  assumes "active \<noteq> []" and "\<forall>n \<in> set active. n \<in> fst ` set (queues s)"
  shows "\<exists>s'. rfold (place active) s xs = Inr s'"
  using assms(2)
proof (induction xs arbitrary: s)
  case (Cons x xs)
  obtain s' where s': "place active s x = Inr s'" using place_succeeds [OF assms(1) Cons.prems] by blast
  then obtain n q where "map_of (queues s) n = Some q" "s' = s\<lparr>queues := AList.update n (q @ [x]) (queues s)\<rparr>"
    by (rule place_queues)
  then have "map fst (queues s') = map fst (queues s)" using update_keys_in [OF map_of_in_keys] by simp
  then have "fst ` set (queues s') = fst ` set (queues s)" by (metis list.set_map)
  with Cons s' show ?case by simp
qed simp

lemma active_nodes_queues [simp]: "active_nodes (s\<lparr>queues := q, unassigned := w\<rparr>) = active_nodes s"
  "active_nodes (s\<lparr>queues := q\<rparr>) = active_nodes s" "active_nodes (s\<lparr>unassigned := w\<rparr>) = active_nodes s"
  by (simp_all add: active_nodes_def nodes_def)

lemma same_keys: "map fst q = map fst m \<Longrightarrow> fst ` set q = fst ` set m"
  by (metis list.set_map)

lemma keys_ok_queues:
  assumes "keys_ok s" and "map fst q = map fst (queues s)"
  shows "keys_ok (s\<lparr>queues := q, unassigned := w\<rparr>)"
  using assms same_keys [OF assms(2)] by (simp add: keys_ok_def)



lemma set_sort_key [simp]: "set (sort_key f xs) = set xs"
  by simp

lemma balanced_cong: "set a = set b \<Longrightarrow> balanced a s = balanced b s"
  by (simp add: balanced_def)

lemma map_of_clear: "map_of (map (\<lambda>(n, q). (n, [])) m) n = (if n \<in> fst ` set m then Some [] else None)"
  by (induction m) (auto split: if_splits)

lemma rebalance_ok:
  assumes k: "keys_ok s"
  shows "\<exists>s'. rebalance s = Inr s' \<and> moved s s' \<and>
    (active_nodes s = [] \<longrightarrow> held (queues s') = []) \<and>
    (active_nodes s \<noteq> [] \<longrightarrow> unassigned s' = [] \<and> balanced (active_nodes s) s' \<and>
       (\<forall>n. n \<notin> set (active_nodes s) \<longrightarrow> map_of (queues s') n \<in> {None, Some []}))"
proof -
  let ?q = "map (\<lambda>(n, q). (n, [])) (queues s) :: (node \<times> nat list) list"
  let ?r = "sort (unassigned s @ held (queues s))"
  let ?s = "s\<lparr>queues := ?q, unassigned := []\<rparr>"
  let ?a = "sort_key (slot_of ?s) (active_nodes s)"
  have k0: "keys_ok ?s" using keys_ok_queues [OF k map_clear(1), of "[]"] .
  have e: "eligible ?s = Inr ?a" using eligible_ok [OF k0] by (simp add: active_nodes_def nodes_def)
  show ?thesis
  proof (cases "active_nodes s = []")
    case True
    then have "rebalance s = Inr (?s\<lparr>unassigned := ?r\<rparr>)"
      by (simp add: rebalance_def Let_def e)
    moreover have "moved s (?s\<lparr>unassigned := ?r\<rparr>)"
      unfolding moved_def by (rule exI [of _ ?q], rule exI [of _ ?r]) (auto simp: case_prod_beta)
    ultimately show ?thesis using True by (intro exI [of _ "?s\<lparr>unassigned := ?r\<rparr>"]) simp
  next
    case False
    then have ne: "?a \<noteq> []" by (metis set_empty set_sort_key)
    have act: "\<forall>n \<in> set ?a. n \<in> fst ` set (queues ?s)" using active_nodes_keys [OF k] by auto
    from rfold_place_succeeds [OF ne act, of ?r] obtain s' where s': "rfold (place ?a) ?s ?r = Inr s'" by blast
    have d: "distinct (map fst (queues ?s))" using k0 by (simp add: keys_ok_def)
    have "balanced ?a ?s" using act by (auto simp: balanced_def map_of_clear)
    then have "filling ?a ?s ?s []" unfolding filling_def by (intro conjI exI [of _ ?q]) simp_all
    with s' have "filling ?a ?s s' ?r"
      by (rule rfold_invariant [of "place ?a" ?s ?r s' "filling ?a ?s"]) (rule place_filling [OF d])
    then obtain q where q: "s' = ?s\<lparr>queues := q\<rparr>" "map fst q = map fst ?q" "mset (held q) = mset (held ?q) + mset ?r"
      "\<forall>n. n \<notin> set ?a \<longrightarrow> map_of q n = map_of ?q n" and b: "balanced ?a s'"
      unfolding filling_def by auto
    have "rebalance s = Inr s'" using s' ne by (simp add: rebalance_def Let_def e)
    moreover have "moved s s'"
      unfolding moved_def q(1) using q(2,3) by (intro exI [of _ q] exI [of _ "[]"]) (auto simp: case_prod_beta)
    moreover have "balanced (active_nodes s) s'" using b balanced_cong [of ?a "active_nodes s"] by simp
    ultimately show ?thesis using False q by (intro exI [of _ s']) (auto simp: map_of_clear)
  qed
qed

section \<open>Dispatch keeps all of it\<close>

definition sent :: "sched \<Rightarrow> sched \<Rightarrow> bool" where
  "sent s s' \<longleftrightarrow> (\<exists>p q e. s' = s\<lparr>node2pending := p, queues := q, effects := e\<rparr> \<and>
     map fst p = map fst (node2pending s) \<and> map fst q = map fst (queues s) \<and>
     mset (held p) + mset (held q) = mset (held (node2pending s)) + mset (held (queues s)))"

lemma sent_refl: "sent s s"
  unfolding sent_def by (rule exI [of _ "node2pending s"], rule exI [of _ "queues s"], rule exI [of _ "effects s"]) simp

lemma sent_trans:
  assumes "sent s t" and "sent t v" shows "sent s v"
proof -
  from assms(1) obtain p q e where t: "t = s\<lparr>node2pending := p, queues := q, effects := e\<rparr>"
    "map fst p = map fst (node2pending s)" "map fst q = map fst (queues s)"
    "mset (held p) + mset (held q) = mset (held (node2pending s)) + mset (held (queues s))"
    unfolding sent_def by blast
  from assms(2) obtain p' q' e' where v: "v = t\<lparr>node2pending := p', queues := q', effects := e'\<rparr>"
    "map fst p' = map fst (node2pending t)" "map fst q' = map fst (queues t)"
    "mset (held p') + mset (held q') = mset (held (node2pending t)) + mset (held (queues t))"
    unfolding sent_def by blast
  show ?thesis unfolding sent_def
    by (rule exI [of _ p'], rule exI [of _ q'], rule exI [of _ e']) (use t v in simp)
qed

lemma sent_fields:
  assumes "sent s s'"
  shows "keys_ok s \<Longrightarrow> keys_ok s'" "placed s' = placed s" "completed s' = completed s"
    "unresolved s' = unresolved s" "collection s' = collection s" "active_nodes s' = active_nodes s"
    "unassigned s' = unassigned s" "stopping s' = stopping s" "nodes s' = nodes s"
    "numnodes s' = numnodes s" "target s' = target s" "slots s' = slots s" "draining s' = draining s"
proof -
  from assms obtain p q e where s': "s' = s\<lparr>node2pending := p, queues := q, effects := e\<rparr>"
    and p: "map fst p = map fst (node2pending s)" and q: "map fst q = map fst (queues s)"
    and m: "mset (held p) + mset (held q) = mset (held (node2pending s)) + mset (held (queues s))"
    unfolding sent_def by blast
  show "keys_ok s \<Longrightarrow> keys_ok s'"
    using p q same_keys [OF p] same_keys [OF q] by (simp add: s' keys_ok_def)
  show "placed s' = placed s" using m by (simp add: s' placed_def ac_simps)
  show "active_nodes s' = active_nodes s" "nodes s' = nodes s"
    using p by (simp_all add: s' active_nodes_def nodes_def)
qed (use assms in \<open>auto simp: sent_def\<close>)

lemma dispatch_node_ok:
  assumes k: "keys_ok s" and n: "n \<in> fst ` set (node2pending s)"
  defines "P \<equiv> \<lambda>m. the (map_of (node2pending s) m)" and "Q \<equiv> \<lambda>m. the (map_of (queues s) m)"
  shows "\<exists>s'. dispatch_node s n = Inr s' \<and> sent s s' \<and>
    map_of (node2pending s') = (map_of (node2pending s))(n \<mapsto> P n @ take (2 - length (P n)) (Q n)) \<and>
    map_of (queues s') = (map_of (queues s))(n \<mapsto> drop (2 - length (P n)) (Q n))"
proof -
  from keys_have [OF n] have p: "map_of (node2pending s) n = Some (P n)" by (auto simp: P_def)
  have nq: "n \<in> fst ` set (queues s)" using n k by (simp add: keys_ok_def)
  from keys_have [OF this] have q: "map_of (queues s) n = Some (Q n)" by (auto simp: Q_def)
  let ?t = "take (2 - length (P n)) (Q n)" and ?d = "drop (2 - length (P n)) (Q n)"
  let ?q = "AList.update n ?d (queues s)"
  have "mset (held ?q) + mset (Q n) = mset (held (queues s)) + mset ?d"
    by (rule held_update [OF q]) (use k in \<open>simp add: keys_ok_def\<close>)
  moreover have td: "mset ?t + mset ?d = mset (Q n)" by (metis append_take_drop_id mset_append)
  ultimately have "mset (held ?q) + mset ?t + mset ?d = mset (held (queues s)) + mset ?d"
    by (simp only: add.assoc td)
  then have mq: "mset (held ?q) + mset ?t = mset (held (queues s))" by (rule add_right_imp_eq)
  have kq: "map fst ?q = map fst (queues s)" by (rule update_keys_in [OF nq])
  show ?thesis
  proof (cases "?t = []")
    case True
    let ?s = "s\<lparr>queues := ?q\<rparr>"
    have "dispatch_node s n = Inr ?s" using p q True by (auto simp: dispatch_node_def item_def Let_def)
    moreover have "sent s ?s" unfolding sent_def
      by (rule exI [of _ "node2pending s"], rule exI [of _ ?q], rule exI [of _ "effects s"]) (use mq kq True in simp)
    moreover have "map_of (node2pending ?s) = (map_of (node2pending s))(n \<mapsto> P n @ ?t)"
      using p True by (auto simp: fun_eq_iff)
    ultimately show ?thesis by (intro exI [of _ ?s]) (simp add: update_conv' del: take_eq_Nil)
  next
    case False
    let ?p = "AList.update n (P n @ ?t) (node2pending s)"
    let ?e = "effects s @ [Send n ?t]"
    let ?s = "s\<lparr>queues := ?q, node2pending := ?p, effects := ?e\<rparr>"
    have "dispatch_node s n = Inr ?s" using p q False by (simp add: dispatch_node_def item_def Let_def del: take_eq_Nil)
    moreover have "mset (held ?p) + mset (P n) = mset (held (node2pending s)) + mset (P n @ ?t)"
      by (rule held_update [OF p]) (use k in \<open>simp add: keys_ok_def\<close>)
    then have mp: "mset (held ?p) = mset (held (node2pending s)) + mset ?t" by simp
    have "sent s ?s" unfolding sent_def
      by (rule exI [of _ ?p], rule exI [of _ ?q], rule exI [of _ ?e])
        (use mq mp kq update_keys_in [OF n] in \<open>simp add: ac_simps del: take_eq_Nil\<close>)
    ultimately show ?thesis by (intro exI [of _ ?s]) (simp add: update_conv' del: take_eq_Nil)
  qed
qed



abbreviation pending_of :: "sched \<Rightarrow> node \<Rightarrow> nat list" where
  "pending_of s n \<equiv> the (map_of (node2pending s) n)"

abbreviation queue_of :: "sched \<Rightarrow> node \<Rightarrow> nat list" where
  "queue_of s n \<equiv> the (map_of (queues s) n)"

definition room :: "sched \<Rightarrow> node \<Rightarrow> nat" where
  "room s n = 2 - length (pending_of s n)"

lemma dispatch_nodes_ok:
  assumes "keys_ok s" and "distinct xs" and "set xs \<subseteq> fst ` set (node2pending s)"
  shows "\<exists>s'. rfold dispatch_node s xs = Inr s' \<and> sent s s' \<and>
    (\<forall>n. map_of (node2pending s') n =
       (if n \<in> set xs then Some (pending_of s n @ take (room s n) (queue_of s n)) else map_of (node2pending s) n)) \<and>
    (\<forall>n. map_of (queues s') n =
       (if n \<in> set xs then Some (drop (room s n) (queue_of s n)) else map_of (queues s) n))"
  using assms
proof (induction xs arbitrary: s)
  case Nil
  then show ?case by (auto intro: sent_refl)
next
  case (Cons x xs)
  from dispatch_node_ok [OF Cons.prems(1), of x] Cons.prems(3) obtain t where
    t: "dispatch_node s x = Inr t" "sent s t"
    "map_of (node2pending t) = (map_of (node2pending s))(x \<mapsto> pending_of s x @ take (room s x) (queue_of s x))"
    "map_of (queues t) = (map_of (queues s))(x \<mapsto> drop (room s x) (queue_of s x))"
    by (auto simp: room_def)
  have k: "keys_ok t" using sent_fields(1) [OF t(2)] Cons.prems(1) by simp
  have "nodes t = nodes s" by (rule sent_fields(9) [OF t(2)])
  then have "set xs \<subseteq> fst ` set (node2pending t)" using Cons.prems(3) by (metis insert_subset list.set(2) list.set_map nodes_def)
  from Cons.IH [OF k _ this] Cons.prems(2) obtain s' where s': "rfold dispatch_node t xs = Inr s'" "sent t s'"
    "\<forall>n. map_of (node2pending s') n =
       (if n \<in> set xs then Some (pending_of t n @ take (room t n) (queue_of t n)) else map_of (node2pending t) n)"
    "\<forall>n. map_of (queues s') n =
       (if n \<in> set xs then Some (drop (room t n) (queue_of t n)) else map_of (queues t) n)"
    by auto
  have same: "pending_of t n = pending_of s n" "queue_of t n = queue_of s n" "room t n = room s n" if "n \<noteq> x" for n
    using that by (simp_all add: t(3,4) room_def)
  have "x \<notin> set xs" using Cons.prems(2) by simp
  then have "\<forall>n. map_of (node2pending s') n =
       (if n \<in> set (x # xs) then Some (pending_of s n @ take (room s n) (queue_of s n)) else map_of (node2pending s) n)"
    using s'(3) same t(3) by (metis fun_upd_apply insert_iff list.set(2))
  moreover have "\<forall>n. map_of (queues s') n =
       (if n \<in> set (x # xs) then Some (drop (room s n) (queue_of s n)) else map_of (queues s) n)"
    using s'(4) same t(4) \<open>x \<notin> set xs\<close> by (metis fun_upd_apply insert_iff list.set(2))
  ultimately show ?case using t(1) s'(1) sent_trans [OF t(2) s'(2)] by auto
qed

lemma sent_effects: "sent s s' \<Longrightarrow> sent s (s'\<lparr>effects := e\<rparr>)"
  unfolding sent_def by (elim exE conjE) (rule exI, rule exI, rule exI [of _ e], auto)

lemma shut_all: "foldl shut s ns = s\<lparr>effects := effects s @ map Shutdown ns\<rparr>"
  by (induction ns arbitrary: s) (simp_all add: shut_def)

lemma eligible_sent: "keys_ok s \<Longrightarrow> sent s s' \<Longrightarrow> eligible s' = Inr (sort_key (slot_of s) (active_nodes s))"
  using eligible_ok [of s'] sent_fields [of s s'] by (simp add: slot_of_def [abs_def])

lemma distinct_active: "keys_ok s \<Longrightarrow> distinct (active_nodes s)"
  by (simp add: active_nodes_def nodes_def keys_ok_def)

text \<open>What one dispatch does to a state whose keys agree.\<close>

lemma dispatch_ok:
  assumes k: "keys_ok s" and on: "\<not> stopping s" "collection s \<noteq> None"
  shows "\<exists>s'. dispatch s = Inr s' \<and> sent s s' \<and>
    (\<forall>n. map_of (node2pending s') n =
       (if n \<in> set (active_nodes s) then Some (pending_of s n @ take (room s n) (queue_of s n))
        else map_of (node2pending s) n)) \<and>
    (\<forall>n. map_of (queues s') n =
       (if n \<in> set (active_nodes s) then Some (drop (room s n) (queue_of s n)) else map_of (queues s) n)) \<and>
    (unassigned s' = [] \<and> held (queues s') = [] \<longrightarrow> (\<forall>n \<in> set (active_nodes s). Shutdown n \<in> set (effects s')))"
proof -
  let ?a = "sort_key (slot_of s) (active_nodes s)"
  have "distinct ?a" "set ?a \<subseteq> fst ` set (node2pending s)"
    using distinct_active [OF k] active_nodes_keys [OF k] by auto
  from dispatch_nodes_ok [OF k this] obtain t where t: "rfold dispatch_node s ?a = Inr t" "sent s t"
    "\<forall>n. map_of (node2pending t) n =
       (if n \<in> set ?a then Some (pending_of s n @ take (room s n) (queue_of s n)) else map_of (node2pending s) n)"
    "\<forall>n. map_of (queues t) n =
       (if n \<in> set ?a then Some (drop (room s n) (queue_of s n)) else map_of (queues s) n)" by blast
  show ?thesis
  proof (cases "unassigned t = [] \<and> held (queues t) = []")
    case True
    let ?s = "t\<lparr>effects := effects t @ map Shutdown ?a\<rparr>"
    have "dispatch s = Inr ?s"
      using on t(1) True by (auto simp add: dispatch_def eligible_ok [OF k] eligible_sent [OF k t(2)] shut_all)
    with t(3,4) sent_effects [OF t(2)] show ?thesis by (intro exI [of _ ?s]) simp
  next
    case False
    then have "dispatch s = Inr t"
      using on t(1) by (auto simp: dispatch_def eligible_ok [OF k])
    with t False show ?thesis by (intro exI [of _ t]) auto
  qed
qed

lemma moved_fields:
  assumes "moved s s'"
  shows "keys_ok s \<Longrightarrow> keys_ok s'" "placed s' = placed s" "completed s' = completed s"
    "unresolved s' = unresolved s" "collection s' = collection s" "active_nodes s' = active_nodes s"
    "stopping s' = stopping s" "node2pending s' = node2pending s" "draining s' = draining s"
    "numnodes s' = numnodes s" "target s' = target s"
proof -
  from assms obtain q w where s': "s' = s\<lparr>queues := q, unassigned := w\<rparr>" and q: "map fst q = map fst (queues s)"
    and m: "mset w + mset (held q) = mset (unassigned s) + mset (held (queues s))"
    unfolding moved_def by blast
  show "keys_ok s \<Longrightarrow> keys_ok s'" unfolding s' by (rule keys_ok_queues [OF _ q])
  show "placed s' = placed s" using m by (simp add: s' placed_def)
qed (use assms in \<open>auto simp: moved_def\<close>)

lemma short_iff: "keys_ok s \<Longrightarrow> short s \<longleftrightarrow> (\<forall>n p. map_of (node2pending s) n = Some p \<longrightarrow> length p \<le> 2)"
  unfolding short_def keys_ok_def
  by (metis (no_types, lifting) image_iff map_of_SomeD map_of_eq_Some_iff prod.collapse snd_conv)

text \<open>
  The tail of every handler: it raises nothing, keeps all work and the bound of two, and leaves
  no eligible worker short of work while any is held back.
\<close>

lemma redistribute_ok:
  assumes k: "keys_ok s" and sh: "short s"
  shows "\<exists>s'. redistribute s = Inr s' \<and> keys_ok s' \<and> short s' \<and> placed s' = placed s \<and>
    completed s' = completed s \<and> unresolved s' = unresolved s \<and> collection s' = collection s \<and>
    stopping s' = stopping s \<and> active_nodes s' = active_nodes s \<and> nodes s' = nodes s \<and>
    (\<not> stopping s \<and> collection s \<noteq> None \<longrightarrow>
       ((unassigned s' \<noteq> [] \<or> held (queues s') \<noteq> []) \<longrightarrow> (\<forall>n \<in> set (active_nodes s). length (pending_of s' n) = 2)) \<and>
       (unassigned s' = [] \<and> held (queues s') = [] \<longrightarrow> (\<forall>n \<in> set (active_nodes s). Shutdown n \<in> set (effects s'))))"
proof -
  from rebalance_ok [OF k] obtain t where t: "rebalance s = Inr t" "moved s t"
    and idle: "active_nodes s \<noteq> [] \<longrightarrow> unassigned t = [] \<and> balanced (active_nodes s) t \<and>
       (\<forall>n. n \<notin> set (active_nodes s) \<longrightarrow> map_of (queues t) n \<in> {None, Some []})" by blast
  note m = moved_fields [OF t(2)]
  have kt: "keys_ok t" by (rule m(1) [OF k])
  have sht: "short t" using sh by (simp add: short_def m)
  show ?thesis
  proof (cases "stopping s \<or> collection s = None")
    case True
    then have "redistribute s = Inr t" using t(1) m by (simp add: redistribute_def dispatch_def)
    with True m kt sht show ?thesis by (intro exI [of _ t]) (auto simp: nodes_def)
  next
    case False
    with m have "\<not> stopping t" "collection t \<noteq> None" by simp_all
    from dispatch_ok [OF kt this] obtain s' where s': "dispatch t = Inr s'" "sent t s'"
      and P: "\<And>n. map_of (node2pending s') n =
         (if n \<in> set (active_nodes s) then Some (pending_of t n @ take (room t n) (queue_of t n)) else map_of (node2pending t) n)"
      and Q: "\<And>n. map_of (queues s') n =
         (if n \<in> set (active_nodes s) then Some (drop (room t n) (queue_of t n)) else map_of (queues t) n)"
      and stop: "unassigned s' = [] \<and> held (queues s') = [] \<longrightarrow> (\<forall>n \<in> set (active_nodes s). Shutdown n \<in> set (effects s'))"
      unfolding m by blast
    note f = sent_fields [OF s'(2)]
    have red: "redistribute s = Inr s'" using t(1) s'(1) by (simp add: redistribute_def)
    have ks: "keys_ok s'" by (rule f(1) [OF kt])
    have tn: "length (pending_of t n) \<le> 2" if "n \<in> set (active_nodes s)" for n
      using sht active_nodes_keys [OF k that] keys_have [of n "node2pending t"] m short_iff [OF kt] by auto
    have "short s'" unfolding short_iff [OF ks]
    proof (intro allI impI)
      fix n p assume p: "map_of (node2pending s') n = Some p"
      show "length p \<le> 2"
      proof (cases "n \<in> set (active_nodes s)")
        case True
        with p tn [OF True] show ?thesis by (auto simp: P room_def)
      next
        case False
        with p sht short_iff [OF kt] show ?thesis by (auto simp: P)
      qed
    qed
    moreover have "length (pending_of s' n) = 2"
      if held: "unassigned s' \<noteq> [] \<or> held (queues s') \<noteq> []" and n: "n \<in> set (active_nodes s)" for n
    proof -
      have ne: "active_nodes s \<noteq> []" using n by auto
      then have "unassigned s' = []" using idle f by simp
      with held obtain k q where kq: "(k, q) \<in> set (queues s')" "q \<noteq> []" by (auto simp: held_def)
      then have mk: "map_of (queues s') k = Some q" using ks by (simp add: keys_ok_def)
      have ka: "k \<in> set (active_nodes s)"
      proof (rule ccontr)
        assume "k \<notin> set (active_nodes s)"
        with mk idle ne Q [of k] kq(2) show False by fastforce
      qed
      with mk Q [of k] kq(2) have "room t k < length (queue_of t k)" by auto
      then have "3 \<le> load t k" "queue_of t k \<noteq> []" using tn [OF ka] by (auto simp: load_def room_def)
      then have "2 \<le> load t n" using idle ne ka n unfolding balanced_def by fastforce
      then show ?thesis using tn [OF n] n by (simp add: P load_def room_def)
    qed
    ultimately show ?thesis using red ks stop f m by (intro exI [of _ s']) (simp add: nodes_def)
  qed
qed



section \<open>Every call keeps the invariant\<close>

lemma redistribute_sched_ok:
  assumes "redistribute s = Inr s'" and "sched_ok s"
  shows "sched_ok s'"
  using redistribute_ok [of s] assms by (auto simp: sched_ok_def covered_def)

lemma sched_ok_effects [simp]: "sched_ok (s\<lparr>effects := e\<rparr>) = sched_ok s"
  "sched_ok (s\<lparr>stopping := b\<rparr>) = sched_ok s" "sched_ok (s\<lparr>shutting_down := ns\<rparr>) = sched_ok s"
  "sched_ok (s\<lparr>draining := d\<rparr>) = sched_ok s" "sched_ok (s\<lparr>target := t\<rparr>) = sched_ok s"
  "sched_ok (s\<lparr>node2collection := m\<rparr>) = sched_ok s" "sched_ok (s\<lparr>next_slot := k\<rparr>) = sched_ok s"
  by (simp_all add: sched_ok_def keys_ok_def short_def covered_def placed_def)

lemma drain_all: "sched_ok (foldl drain s ns) = sched_ok s"
proof (induction ns arbitrary: s)
  case (Cons n ns)
  have "sched_ok (drain s n) = sched_ok s" unfolding drain_def shut_def by (simp only: sched_ok_effects)
  with Cons show ?case by simp
qed simp

lemma maybe_grow_sched_ok: "sched_ok (maybe_grow k s) = sched_ok s"
  by (simp add: maybe_grow_def split: option.split)

lemma set_target_sched_ok:
  assumes "set_target k t s = Inr s'" and "sched_ok s"
  shows "sched_ok s'"
proof (cases "collection s = None")
  case True
  with assms show ?thesis by (auto simp: set_target_def result_simps)
next
  case False
  with assms obtain ns s1 where "redistribute (foldl drain (s\<lparr>target := t\<rparr>) ns) = Inr s1" "s' = maybe_grow k s1"
    by (auto simp: set_target_def result_simps Let_def)
  moreover have "sched_ok (foldl drain (s\<lparr>target := t\<rparr>) ns)" using assms(2) by (simp add: drain_all)
  ultimately show ?thesis using redistribute_sched_ok by (simp add: maybe_grow_sched_ok)
qed

text \<open>A placed index is nowhere else.\<close>

lemma covered_placed:
  assumes c: "covered s" and i: "i \<in># placed s"
  obtains ids where "collection s = Some ids" "i < length ids" "i \<notin> completed s" "i \<notin> unresolved s" "count (placed s) i = 1"
proof -
  let ?m = "placed s + mset_set (completed s) + mset_set (unresolved s)"
  have "i \<in># ?m" using i by simp
  with c obtain ids where ids: "collection s = Some ids" and m: "?m = mset [0..<length ids]"
    by (auto simp: covered_def split: option.splits)
  with \<open>i \<in># ?m\<close> have lt: "i < length ids" by auto
  have one: "count ?m i = 1" unfolding m using lt by (simp add: distinct_count_atmost_1)
  then have sum: "count (placed s) i + count (mset_set (completed s)) i + count (mset_set (unresolved s)) i = 1" by simp
  have "1 \<le> count (placed s) i" using i by (metis count_greater_eq_one_iff)
  with sum have z: "count (placed s) i = 1" "count (mset_set (completed s)) i = 0" "count (mset_set (unresolved s)) i = 0"
    by linarith+
  have "finite (completed s)" "finite (unresolved s)" using c by (simp_all add: covered_def)
  with z(2,3) have "i \<notin> completed s \<and> i \<notin> unresolved s" by (simp add: count_eq_zero_iff)
  then show thesis using that [OF ids lt _ _ z(1)] by blast
qed

lemma pending_placed: "map_of (node2pending s) n = Some p \<Longrightarrow> i \<in> set p \<Longrightarrow> i \<in># placed s"
  by (force simp: placed_def held_def dest!: map_of_SomeD)

lemma complete_sched_ok:
  assumes "mark_test_complete n i s = Inr s'" and ok: "sched_ok s"
  shows "sched_ok s'"
proof -
  from assms(1) obtain p where p: "map_of (node2pending s) n = Some p" "i \<in> set p" "i \<notin> completed s"
    and r: "redistribute (s\<lparr>node2pending := AList.update n (remove1 i p) (node2pending s),
                             completed := insert i (completed s)\<rparr>) = Inr s'" (is "redistribute ?s = _")
    by (auto simp: mark_test_complete_def item_def result_simps split: if_splits option.splits)
  have keys: "map fst (AList.update n (remove1 i p) (node2pending s)) = map fst (node2pending s)"
    by (rule update_keys_in [OF map_of_in_keys [OF p(1)]])
  have d: "distinct (map fst (node2pending s))" using ok by (simp add: sched_ok_def keys_ok_def)
  have "keys_ok ?s" using ok keys same_keys [OF keys] by (simp add: sched_ok_def keys_ok_def)
  moreover have "short ?s"
  proof -
    have "length (remove1 i p) \<le> 2"
    proof -
      have "length p \<le> 2" using ok p(1) short_iff [of s] by (simp add: sched_ok_def)
      moreover have "length (remove1 i p) \<le> length p" by (simp add: length_remove1)
      ultimately show ?thesis by simp
    qed
    then show ?thesis
      using ok update_values [of n "remove1 i p" "node2pending s"] by (fastforce simp: sched_ok_def short_def)
  qed
  moreover have "covered ?s"
  proof -
    have "mset (held (AList.update n (remove1 i p) (node2pending s))) + mset p =
        mset (held (node2pending s)) + mset (remove1 i p)" by (rule held_update [OF p(1) d])
    moreover have "mset p = mset (remove1 i p) + {#i#}" using p(2) by simp
    ultimately have "mset (held (AList.update n (remove1 i p) (node2pending s))) + {#i#} + mset (remove1 i p) =
        mset (held (node2pending s)) + mset (remove1 i p)" by (simp only: ac_simps)
    then have "mset (held (AList.update n (remove1 i p) (node2pending s))) + {#i#} = mset (held (node2pending s))"
      by (rule add_right_imp_eq)
    then have "placed s = placed ?s + {#i#}" by (simp add: placed_def ac_simps)
    moreover have "finite (completed s)" using ok by (simp add: sched_ok_def covered_def)
    ultimately show ?thesis using ok p(3) unfolding sched_ok_def covered_def by (simp add: ac_simps)
  qed
  ultimately show ?thesis using redistribute_sched_ok [OF r] by (simp add: sched_ok_def)
qed

lemma index_of_lt: "index_of xs x = Some i \<Longrightarrow> i < length xs \<and> xs ! i = x"
  by (induction xs arbitrary: i) (auto split: if_splits)

lemma replay_sched_ok:
  assumes "mark_test_pending test s = Inr s'" and ok: "sched_ok s" and w: "well_called s (Replay test)"
  shows "sched_ok s'"
proof -
  from assms(1) w obtain i where i: "i \<notin> completed s" "i \<in> unresolved s"
    and r: "redistribute (s\<lparr>unresolved := unresolved s - {i}, unassigned := unassigned s @ [i]\<rparr>) = Inr s'"
      (is "redistribute ?s = _")
    by (auto simp: mark_test_pending_def well_called_def split: option.splits if_splits)
  have f: "finite (unresolved s)" using ok by (simp add: sched_ok_def covered_def)
  then have "mset_set (unresolved s) = mset_set (unresolved s - {i}) + {#i#}"
    using i(2) by (metis add_mset_add_single mset_set.remove)
  then have "covered ?s" using ok f by (simp add: sched_ok_def covered_def placed_def ac_simps)
  moreover have "keys_ok ?s" "short ?s" using ok by (simp_all add: sched_ok_def keys_ok_def short_def)
  ultimately show ?thesis using redistribute_sched_ok [OF r] by (simp add: sched_ok_def)
qed

lemma schedule_sched_ok:
  assumes "schedule same k s = Inr s'" and ok: "sched_ok s"
  shows "sched_ok s'"
proof -
  consider (skip) "s' = s" | (halt) "s' = foldl shut (s\<lparr>stopping := True\<rparr>) (nodes s)"
    | (start) c where "collection s = None" "set_target k (target s) (s\<lparr>collection := Some c, unassigned := [0..<length c]\<rparr>) = Inr s'"
    | (go) "set_target k (target s) s = Inr s'"
  proof (cases "stopping s \<or> (collection s = None \<and> \<not> collection_is_completed s)")
    case True
    then have "schedule same k s = Inr s" by (cases "stopping s") (simp_all add: schedule_def)
    with assms(1) have "s' = s" by simp
    then show thesis by (rule skip)
  next
    case active: False
    show thesis
    proof (cases "collection s = None")
      case True
      show thesis
      proof (cases "same s")
        case False
        with active True assms(1) have "s' = foldl shut (s\<lparr>stopping := True\<rparr>) (nodes s)" by (simp add: schedule_def)
        then show thesis by (rule halt)
      next
        case same: True
        with active True assms(1) obtain n c ms where "node2collection s = (n, c) # ms"
          by (cases "node2collection s") (auto simp: schedule_def)
        with same active True assms(1)
        have "set_target k (target s) (s\<lparr>collection := Some c, unassigned := [0..<length c]\<rparr>) = Inr s'"
          by (simp add: schedule_def)
        with True show thesis by (rule start)
      qed
    next
      case False
      with active assms(1) have "set_target k (target s) s = Inr s'" by (simp add: schedule_def)
      then show thesis by (rule go)
    qed
  qed
  then show ?thesis
  proof cases
    case skip
    with ok show ?thesis by simp
  next
    case halt
    with ok show ?thesis by (simp add: shut_all)
  next
    case (start c)
    have "placed s = {#}" "completed s = {}" "unresolved s = {}"
      using ok start(1) by (auto simp: sched_ok_def covered_def mset_set_empty_iff)
    then have "sched_ok (s\<lparr>collection := Some c, unassigned := [0..<length c]\<rparr>)"
      using ok by (simp add: sched_ok_def keys_ok_def short_def covered_def placed_def)
    with set_target_sched_ok [OF start(2)] show ?thesis by simp
  next
    case go
    with set_target_sched_ok ok show ?thesis by blast
  qed
qed



lemma keys_delete: "fst ` set (AList.delete k m) = fst ` set m - {k}"
  by (metis delete_keys list.set_map set_removeAll)

lemma covered_by:
  assumes "covered s" and "collection s' = collection s"
    and "placed s' + mset_set (completed s') + mset_set (unresolved s') =
      placed s + mset_set (completed s) + mset_set (unresolved s)"
    and "completed s' = completed s" and "finite (unresolved s')"
  shows "covered s'"
  using assms by (simp add: covered_def)

lemma remove_node_sched_ok:
  assumes "remove_node n status s = Inr (s', crash)" and ok: "sched_ok s"
  shows "sched_ok s'"
proof -
  let ?base = "s\<lparr>node2pending := AList.delete n (node2pending s), queues := AList.delete n (queues s),
               unassigned := unassigned s @ the (map_of (queues s) n), slots := AList.delete n (slots s),
               node2collection := AList.delete n (node2collection s), draining := draining s - {n}\<rparr>"
  from assms(1) obtain p q where p: "map_of (node2pending s) n = Some p" and q: "map_of (queues s) n = Some q"
    and r: "p = [] \<and> redistribute ?base = Inr s' \<or>
       (\<exists>first rest. p = first # rest \<and> redistribute (?base\<lparr>unresolved := insert first (unresolved s),
          unassigned := unassigned ?base @ rest\<rparr>) = Inr s')"
    by (auto simp: remove_node_def item_def result_simps Let_def split: option.splits list.splits if_splits)
  have d: "distinct (map fst (node2pending s))" "distinct (map fst (queues s))" "distinct (map fst (slots s))"
    using ok by (simp_all add: sched_ok_def keys_ok_def)
  have kb: "keys_ok ?base"
    using ok d by (simp add: sched_ok_def keys_ok_def distinct_delete keys_delete)
  have sb: "short ?base"
  proof -
    have "\<forall>p \<in> snd ` set (node2pending s). length p \<le> 2" using ok by (simp add: sched_ok_def short_def)
    then have "\<forall>p \<in> snd ` set (AList.delete n (node2pending s)). length p \<le> 2"
      using delete_values [of n "node2pending s"] by blast
    then show ?thesis by (simp add: short_def)
  qed
  have pl: "placed ?base + mset p = placed s"
    using held_delete [OF p d(1)] held_delete [OF q d(2)] q by (simp add: placed_def ac_simps)
  from r show ?thesis
  proof (elim disjE exE conjE)
    assume "p = []" and rb: "redistribute ?base = Inr s'"
    then have "covered ?base" using ok pl by (simp add: sched_ok_def covered_def)
    with kb sb redistribute_sched_ok [OF rb] show ?thesis by (simp add: sched_ok_def)
  next
    fix first rest
    let ?s = "?base\<lparr>unresolved := insert first (unresolved s), unassigned := unassigned ?base @ rest\<rparr>"
    assume pe: "p = first # rest" and rb: "redistribute ?s = Inr s'"
    have "first \<in># placed s" using pending_placed [OF p] pe by simp
    moreover have cov: "covered s" using ok by (simp add: sched_ok_def)
    ultimately have nu: "first \<notin> unresolved s" using covered_placed by blast
    have f: "finite (unresolved s)" using cov by (simp add: covered_def)
    have "placed ?s = placed ?base + mset rest" by (simp add: placed_def ac_simps)
    then have "placed ?s + {#first#} = placed s" using pl pe by simp
    then have "placed s = placed ?s + {#first#}" by (rule sym)
    then have "covered ?s" using nu f by (intro covered_by [OF cov]) (simp_all add: ac_simps)
    moreover have "keys_ok ?s" "short ?s" using kb sb by (simp_all add: keys_ok_def short_def)
    ultimately show ?thesis using redistribute_sched_ok [OF rb] by (simp add: sched_ok_def)
  qed
qed

lemma update_new: "k \<notin> fst ` set m \<Longrightarrow> AList.update k v m = m @ [(k, v)]"
  by (induction m) auto

lemma add_node_sched_ok:
  assumes "add_node super n s = Inr s'" and sup: "adds_idle_node super" and ok: "sched_ok s"
  shows "sched_ok s'"
proof -
  from assms(1) obtain t where t: "super n s = Inr t"
    and s': "s' = t\<lparr>queues := AList.update n [] (queues t), slots := AList.update n (next_slot t) (slots t),
              next_slot := next_slot t + 1\<rparr>"
    by (auto simp: add_node_def result_simps)
  from sup t have n: "n \<notin> fst ` set (node2pending s)" and te: "t = s\<lparr>node2pending := node2pending s @ [(n, [])]\<rparr>"
    unfolding adds_idle_node_def nodes_def by auto
  have "n \<notin> fst ` set (queues s)" "n \<notin> fst ` set (slots s)" using n ok by (simp_all add: sched_ok_def keys_ok_def)
  then have "s' = s\<lparr>node2pending := node2pending s @ [(n, [])], queues := queues s @ [(n, [])],
      slots := slots s @ [(n, next_slot s)], next_slot := next_slot s + 1\<rparr>"
    by (simp add: s' te update_new)
  then show ?thesis
    using ok n \<open>n \<notin> fst ` set (queues s)\<close> \<open>n \<notin> fst ` set (slots s)\<close>
    by (simp add: sched_ok_def keys_ok_def short_def covered_def placed_def)
qed

lemma add_collection_sched_ok:
  assumes "add_node_collection super n ids s = Inr s'" and "records_collection super" and "sched_ok s"
  shows "sched_ok s'"
proof -
  from assms(1) have "super n ids s = Inr s'" by (auto simp: add_node_collection_def split: if_splits)
  with assms(2) have "\<exists>m. s' = s\<lparr>node2collection := m\<rparr>" unfolding records_collection_def by blast
  with assms(3) show ?thesis by auto
qed

lemma sched_step_ok:
  assumes "sched_step super_add super_collection same s c = Inr s'"
    and "adds_idle_node super_add" "records_collection super_collection" and "sched_ok s"
  shows "sched_ok s'"
proof -
  have w: "well_called s c" using assms(1) by (simp add: sched_step_def result_simps)
  show ?thesis
  proof (cases c)
    case (Replay test)
    with assms w show ?thesis by (auto simp: sched_step_def intro: replay_sched_ok)
  qed (use assms in \<open>auto simp: sched_step_def result_simps stop_dispatch_def shut_all check_schedule_def
      intro: add_node_sched_ok add_collection_sched_ok schedule_sched_ok complete_sched_ok
        redistribute_sched_ok remove_node_sched_ok set_target_sched_ok\<close>)
qed

lemma sched_init_ok: "sched_ok (sched_init n)"
  by (simp add: sched_init_def sched_ok_def keys_ok_def short_def covered_def placed_def)

text \<open>The scheduler is a stepped component whose base-class methods do what they document.\<close>

definition session_step ::
    "(node \<Rightarrow> sched \<Rightarrow> (py_error, sched) result) \<times> (node \<Rightarrow> pytext list \<Rightarrow> sched \<Rightarrow> (py_error, sched) result) \<Rightarrow>
     (sched \<Rightarrow> bool) \<Rightarrow> sched \<Rightarrow> sched_call \<Rightarrow> (py_error, sched) result" where
  "session_step super = sched_step (fst super) (snd super)"

interpretation session: stepped "session_step super same"
    "\<lambda>s. adds_idle_node (fst super) \<and> records_collection (snd super) \<longrightarrow> sched_ok s" for super same
  by unfold_locales (auto simp: session_step_def intro: sched_step_ok)

lemma session_ok:
  assumes "rfold (session_step super same) (sched_init n) calls = Inr s"
    and "adds_idle_node (fst super)" "records_collection (snd super)"
  shows "sched_ok s"
  using session.run_inv [OF _ assms(1)] sched_init_ok assms(2,3) by blast

section \<open>Properties\<close>

text \<open>C35. Exact coverage: after any sequence of calls (workers joining, crashing and being retired,
  completions, replays, changes of target), every test of the canonical collection is in exactly
  one place: completed, unresolved, held for some worker, dispatched to one worker, or
  unassigned; and no worker was ever sent more than two tests ahead.\<close>

theorem schedule_exact_coverage:
  assumes "rfold (session_step super same) (sched_init n) calls = Inr s"
    and "adds_idle_node (fst super)" "records_collection (snd super)"
    and "collection s = Some ids"
  shows "mset (unassigned s) + mset (held (queues s)) + mset (held (node2pending s)) +
      mset_set (completed s) + mset_set (unresolved s) = mset [0..<length ids] \<and>
    (\<forall>n p. map_of (node2pending s) n = Some p \<longrightarrow> length p \<le> 2) \<and>
    (tests_finished s \<longrightarrow> completed s \<union> unresolved s = {0..<length ids})"
proof -
  have ok: "sched_ok s" by (rule session_ok [OF assms(1-3)])
  then have cov: "placed s + mset_set (completed s) + mset_set (unresolved s) = mset [0..<length ids]"
    and fin: "finite (completed s)" "finite (unresolved s)"
    using assms(4) by (simp_all add: sched_ok_def covered_def)
  have "\<forall>n p. map_of (node2pending s) n = Some p \<longrightarrow> length p \<le> 2"
    using ok short_iff [of s] by (simp add: sched_ok_def)
  moreover have "completed s \<union> unresolved s = {0..<length ids}" if "tests_finished s"
  proof -
    have "placed s = {#}" using that by (simp add: tests_finished_def has_pending_def placed_def)
    with cov have "mset_set (completed s) + mset_set (unresolved s) = mset [0..<length ids]" by simp
    from arg_cong [OF this, of set_mset] fin show ?thesis by simp
  qed
  ultimately show ?thesis using cov by (simp add: placed_def)
qed

text \<open>C36. No starvation: in every reachable state a scheduling round returns, and while any test is
  still held back every worker that may take work holds two; once nothing is held back, every
  such worker is told to finish.\<close>

theorem schedule_no_starvation:
  assumes "rfold (session_step super same) (sched_init n) calls = Inr s"
    and "adds_idle_node (fst super)" "records_collection (snd super)"
    and "collection s \<noteq> None" and "\<not> stopping s"
  shows "\<exists>s'. check_schedule s = Inr s' \<and>
    (unassigned s' \<noteq> [] \<or> held (queues s') \<noteq> [] \<longrightarrow>
       (\<forall>w \<in> set (active_nodes s'). length (the (map_of (node2pending s') w)) = 2)) \<and>
    (unassigned s' = [] \<and> held (queues s') = [] \<longrightarrow>
       (\<forall>w \<in> set (active_nodes s'). Shutdown w \<in> set (effects s')))"
proof -
  have "keys_ok s" "short s" using session_ok [OF assms(1-3)] by (simp_all add: sched_ok_def)
  from redistribute_ok [OF this] assms(4,5) show ?thesis unfolding check_schedule_def by auto
qed

section \<open>Witnesses\<close>

definition xdist_add :: "node \<Rightarrow> sched \<Rightarrow> (py_error, sched) result" where
  "xdist_add n s = (if n \<in> set (nodes s) then Inl AssertionError
     else Inr (s\<lparr>node2pending := node2pending s @ [(n, [])]\<rparr>))"

definition xdist_collection :: "node \<Rightarrow> pytext list \<Rightarrow> sched \<Rightarrow> (py_error, sched) result" where
  "xdist_collection n ids s = Inr (s\<lparr>node2collection := AList.update n ids (node2collection s)\<rparr>)"

lemma xdist_documented: "adds_idle_node (fst (xdist_add, xdist_collection))"
    "records_collection (snd (xdist_add, xdist_collection))"
  by (auto simp: adds_idle_node_def records_collection_def xdist_add_def xdist_collection_def)

text \<open>Two workers, eight tests; one completes a test and the other crashes.\<close>

definition sample_ids :: "pytext list" where
  "sample_ids = map (\<lambda>k. [97 + k]) [0, 1, 2, 3, 4, 5, 6, 7]"

definition sample_calls :: "sched_call list" where
  "sample_calls = [Add_node 1, Add_node 2, Add_collection 1 sample_ids, Add_collection 2 sample_ids,
     Schedule None, Complete 1 0, Remove 2 None, Replay [98]]"

definition sample_session :: sched where
  "sample_session = projr (rfold (session_step (xdist_add, xdist_collection) (\<lambda>_. True)) (sched_init 2) sample_calls)"

lemma sample_session_runs:
  "is_ok (rfold (session_step (xdist_add, xdist_collection) (\<lambda>_. True)) (sched_init 2) sample_calls)"
  by code_simp

lemma sample_session:
  "rfold (session_step (xdist_add, xdist_collection) (\<lambda>_. True)) (sched_init 2) sample_calls = Inr sample_session"
  using sample_session_runs by (auto simp: sample_session_def is_ok_iff)

lemma sample_session_state: "collection sample_session = Some sample_ids" "\<not> stopping sample_session"
  "held (queues sample_session) \<noteq> []"
  unfolding sample_session_def by (code_simp, code_simp, code_simp)

theorem schedule_exact_coverage_witness:
  "mset (unassigned sample_session) + mset (held (queues sample_session)) + mset (held (node2pending sample_session)) +
      mset_set (completed sample_session) + mset_set (unresolved sample_session) = mset [0..<length sample_ids]"
  using schedule_exact_coverage [OF sample_session xdist_documented sample_session_state(1)] by blast

theorem schedule_no_starvation_witness:
  "\<exists>s'. check_schedule sample_session = Inr s'"
proof -
  have "collection sample_session \<noteq> None" using sample_session_state(1) by simp
  from schedule_no_starvation [OF sample_session xdist_documented this sample_session_state(2)]
  show ?thesis by blast
qed

end
