(* ===== verification/Pressure.thy ===== *)
theory Pressure
  imports Python
begin

text \<open>
  Memory pressure of a test run (\<open>src/ls/core/test_pressure.py\<close>): the parsed policy, the
  reading of one pressure sample, and the controller that turns samples into a number of
  workers. Percentages and times are rationals: the source computes them as floats, whose
  rounding is not modelled.
\<close>

section \<open>The policy\<close>

record adaptive_policy =
  enabled :: bool
  min_workers :: int
  target_percent :: int
  recovery_percent :: int
  critical_percent :: int
  down_dwell_seconds :: int
  recovery_dwell_seconds :: int
  cooldown_seconds :: int
  emergency_grace_seconds :: int
  sample_seconds :: int

definition policy_fields :: "string list" where
  "policy_fields = [''enabled'', ''min_workers'', ''target_percent'', ''recovery_percent'',
     ''critical_percent'', ''down_dwell_seconds'', ''recovery_dwell_seconds'',
     ''cooldown_seconds'', ''emergency_grace_seconds'', ''sample_seconds'']"

definition policy_int :: "(pytext \<times> json) list \<Rightarrow> string \<Rightarrow> int \<Rightarrow> (py_error, int) result" where
  "policy_int obj name d = bounded_int obj name d 1 3600
     (''testing adaptive '' @ name @ '' must be a positive bounded integer'')"

definition policy_of :: "(pytext \<times> json) list \<Rightarrow> (py_error, adaptive_policy) result" where
  "policy_of obj =
     rbind (require (only_members obj policy_fields)
             (ValueError ''testing adaptive has unsupported fields'')) (\<lambda>_.
     rbind (case member_or obj ''enabled'' (JBool True) of
              JBool b \<Rightarrow> Inr b
            | _ \<Rightarrow> Inl (ValueError ''testing adaptive enabled must be boolean'')) (\<lambda>on.
     rbind (policy_int obj ''min_workers'' 1) (\<lambda>workers.
     rbind (policy_int obj ''target_percent'' 80) (\<lambda>high.
     rbind (policy_int obj ''recovery_percent'' 70) (\<lambda>low.
     rbind (policy_int obj ''critical_percent'' 95) (\<lambda>critical.
     rbind (policy_int obj ''down_dwell_seconds'' 5) (\<lambda>down.
     rbind (policy_int obj ''recovery_dwell_seconds'' 30) (\<lambda>recover.
     rbind (policy_int obj ''cooldown_seconds'' 15) (\<lambda>cool.
     rbind (policy_int obj ''emergency_grace_seconds'' 5) (\<lambda>grace.
     rbind (policy_int obj ''sample_seconds'' 1) (\<lambda>sample.
     rbind (require (1 \<le> low \<and> low < high \<and> high < critical \<and> critical \<le> 95)
             (ValueError ''adaptive thresholds require recovery < target < critical <= 95'')) (\<lambda>_.
     rbind (require (sample \<le> min down grace)
             (ValueError ''adaptive sampling must not exceed the shortest safety dwell'')) (\<lambda>_.
       Inr \<lparr>enabled = on, min_workers = workers, target_percent = high, recovery_percent = low,
            critical_percent = critical, down_dwell_seconds = down, recovery_dwell_seconds = recover,
            cooldown_seconds = cool, emergency_grace_seconds = grace, sample_seconds = sample\<rparr>)))))))))))))"

fun parse_policy :: "json \<Rightarrow> (py_error, adaptive_policy) result" where
  "parse_policy JNull = policy_of []"
| "parse_policy (JObj obj) = policy_of obj"
| "parse_policy _ = Inl (ValueError ''testing adaptive has unsupported fields'')"

definition policy_ok :: "adaptive_policy \<Rightarrow> bool" where
  "policy_ok p \<longleftrightarrow>
     1 \<le> min_workers p \<and> min_workers p \<le> 3600 \<and>
     1 \<le> recovery_percent p \<and> recovery_percent p < target_percent p \<and>
     target_percent p < critical_percent p \<and> critical_percent p \<le> 95 \<and>
     1 \<le> sample_seconds p \<and> sample_seconds p \<le> down_dwell_seconds p \<and>
     sample_seconds p \<le> emergency_grace_seconds p \<and>
     down_dwell_seconds p \<le> 3600 \<and> emergency_grace_seconds p \<le> 3600 \<and>
     1 \<le> recovery_dwell_seconds p \<and> recovery_dwell_seconds p \<le> 3600 \<and>
     1 \<le> cooldown_seconds p \<and> cooldown_seconds p \<le> 3600"

section \<open>One sample\<close>

record pressure_sample =
  charged_bytes :: int
  working_bytes :: int
  limit_bytes :: int
  window_bytes :: int
  host_available_bytes :: int
  reserve_bytes :: int

definition percent :: "pressure_sample \<Rightarrow> rat" where
  "percent s = of_int (working_bytes s * 100) / of_int (max 1 (window_bytes s))"

record host_memory =
  mem_total :: int
  mem_available :: int

text \<open>
  The settings have passed the configuration's validation: an absent member reads its default,
  a present one is an integer.
\<close>

record host_settings =
  host_reserve_mib :: "int option"
  host_reserve_percent :: "int option"
  physical_memory_percent :: "int option"

definition or_default :: "'a option \<Rightarrow> 'a \<Rightarrow> 'a" where
  "or_default x d = (case x of Some v \<Rightarrow> v | None \<Rightarrow> d)"

definition host_reserve :: "host_memory \<Rightarrow> host_settings \<Rightarrow> int" where
  "host_reserve memory settings =
     max (or_default (host_reserve_mib settings) 512 * 1024 ^ 2)
         (mem_total memory * or_default (host_reserve_percent settings) 5 div 100)"

text \<open>
  What the cgroup files of one directory read as: \<open>memory.max\<close> is the word \<open>max\<close> or a number
  (anything else makes \<open>int\<close> raise), and a parent without the file is skipped.
\<close>

datatype memory_max = Max_word | Max_bytes int

record cgroup =
  memory_current :: int
  memory_max :: memory_max
  inactive_file :: "int option"

definition parent_window :: "int \<Rightarrow> int \<Rightarrow> (memory_max \<times> int) option \<Rightarrow> int" where
  "parent_window working window parent =
     (case parent of
        None \<Rightarrow> window
      | Some (Max_word, _) \<Rightarrow> window
      | Some (Max_bytes raw, current) \<Rightarrow> min window (working + max 0 (raw - current)))"

definition sample_pressure ::
    "cgroup \<Rightarrow> (memory_max \<times> int) option list \<Rightarrow> host_memory \<Rightarrow> host_settings \<Rightarrow>
     (py_error, pressure_sample) result" where
  "sample_pressure dir parents memory settings =
     (let charged = memory_current dir in
      case memory_max dir of
        Max_word \<Rightarrow> Inl (ValueError ''invalid literal for int()'')
      | Max_bytes limit \<Rightarrow>
          (let working = max 0 (charged - min charged (or_default (inactive_file dir) 0));
               reserve = host_reserve memory settings;
               window = min (min limit (mem_total memory * or_default (physical_memory_percent settings) 95 div 100))
                            (working + max 0 (mem_available memory - reserve));
               window = foldl (parent_window working) window parents
           in Inr \<lparr>charged_bytes = charged, working_bytes = working, limit_bytes = limit,
                   window_bytes = max 1 window, host_available_bytes = mem_available memory,
                   reserve_bytes = reserve\<rparr>))"

section \<open>The controller\<close>

datatype reason = Critical_pressure | Interrupted_pressure | Memory_pressure | Sustained_recovery

record decision =
  workers :: int
  reason_of :: "reason option"
  is_emergency :: bool

record controller =
  maximum :: int
  minimum :: int
  target :: int
  policy :: adaptive_policy
  high_since :: "rat option"
  low_since :: "rat option"
  critical_since :: "rat option"
  last_change :: "rat option"
  last_sample :: "rat option"
  emergency :: bool

definition controller_init :: "int \<Rightarrow> adaptive_policy \<Rightarrow> controller" where
  "controller_init m p =
     \<lparr>maximum = m, minimum = min m (min_workers p), target = m, policy = p, high_since = None,
      low_since = None, critical_since = None, last_change = None, last_sample = None,
      emergency = False\<rparr>"

text \<open>A run of samples keeps the time it began at; a sample outside it ends it.\<close>

definition since :: "rat option \<Rightarrow> bool \<Rightarrow> rat \<Rightarrow> rat option" where
  "since old holds now = (if holds then (case old of None \<Rightarrow> Some now | Some t \<Rightarrow> Some t) else None)"

definition dwelt :: "rat option \<Rightarrow> rat \<Rightarrow> int \<Rightarrow> bool" where
  "dwelt start now seconds = (case start of None \<Rightarrow> False | Some t \<Rightarrow> of_int seconds \<le> now - t)"

definition note_sample :: "controller \<Rightarrow> rat \<Rightarrow> rat \<Rightarrow> controller" where
  "note_sample c pct now =
     c\<lparr>last_sample := Some now,
       high_since := since (high_since c) (of_int (target_percent (policy c)) \<le> pct) now,
       low_since := since (low_since c) (pct < of_int (recovery_percent (policy c))) now,
       critical_since := since (critical_since c) (of_int (critical_percent (policy c)) \<le> pct) now\<rparr>"

definition on_critical :: "controller \<Rightarrow> rat \<Rightarrow> rat \<Rightarrow> decision \<times> controller" where
  "on_critical c began now =
     (let c = c\<lparr>emergency := emergency c \<or> of_int (emergency_grace_seconds (policy c)) \<le> now - began\<rparr>;
          c = (if target c \<noteq> minimum c
               then c\<lparr>target := minimum c, last_change := Some now\<rparr> else c)
      in (\<lparr>workers = target c, reason_of = Some Critical_pressure, is_emergency = emergency c\<rparr>, c))"

definition on_steady :: "controller \<Rightarrow> rat \<Rightarrow> decision \<times> controller" where
  "on_steady c now =
     (if emergency c
      then (\<lparr>workers = target c, reason_of = Some Interrupted_pressure, is_emergency = True\<rparr>, c)
      else if last_change c \<noteq> None \<and> \<not> dwelt (last_change c) now (cooldown_seconds (policy c))
      then (\<lparr>workers = target c, reason_of = None, is_emergency = False\<rparr>, c)
      else if dwelt (high_since c) now (down_dwell_seconds (policy c)) \<and> minimum c < target c
      then (\<lparr>workers = target c - 1, reason_of = Some Memory_pressure, is_emergency = False\<rparr>,
            c\<lparr>target := target c - 1, last_change := Some now\<rparr>)
      else if dwelt (low_since c) now (recovery_dwell_seconds (policy c)) \<and> target c < maximum c
      then (\<lparr>workers = target c + 1, reason_of = Some Sustained_recovery, is_emergency = False\<rparr>,
            c\<lparr>target := target c + 1, last_change := Some now, low_since := Some now\<rparr>)
      else (\<lparr>workers = target c, reason_of = None, is_emergency = False\<rparr>, c))"

definition observe :: "controller \<Rightarrow> rat \<Rightarrow> rat \<Rightarrow> (py_error, decision \<times> controller) result" where
  "observe c pct now =
     (if maximum c \<le> 1 \<or> \<not> enabled (policy c)
      then Inr (\<lparr>workers = maximum c, reason_of = None, is_emergency = False\<rparr>, c)
      else if (case last_sample c of None \<Rightarrow> False | Some t \<Rightarrow> now < t)
      then Inl (ValueError ''pressure samples must use monotonic time'')
      else (let c = note_sample c pct now in
            Inr (case critical_since c of
                   Some began \<Rightarrow> on_critical c began now
                 | None \<Rightarrow> on_steady c now)))"

definition observe_step :: "controller \<Rightarrow> rat \<times> rat \<Rightarrow> (py_error, controller) result" where
  "observe_step c sample = rbind (observe c (fst sample) (snd sample)) (\<lambda>(d, c'). Inr c')"


section \<open>What the policy and a sample promise\<close>

lemma policy_of_ok: "policy_of obj = Inr p \<Longrightarrow> policy_ok p"
  by (auto simp: policy_of_def policy_int_def result_simps policy_ok_def
      dest!: bounded_int_Inr split: json.splits)

lemma parse_policy_ok: "parse_policy v = Inr p \<Longrightarrow> policy_ok p"
  by (cases v rule: parse_policy.cases) (auto intro: policy_of_ok)

lemma parent_window_bounds: "parent_window working window parent \<le> window"
  by (auto simp: parent_window_def split: option.splits memory_max.splits)

lemma parent_windows_bounds: "foldl (parent_window working) window parents \<le> window"
proof (induction parents arbitrary: window)
  case (Cons a parents)
  from Cons.IH [of "parent_window working window a"] parent_window_bounds [of working window a]
  show ?case by simp
qed simp

lemma parent_windows_each:
  "Some (Max_bytes raw, current) \<in> set parents \<Longrightarrow>
     foldl (parent_window working) window parents \<le> working + max 0 (raw - current)"
proof (induction parents arbitrary: window)
  case (Cons a parents)
  then show ?case
    using parent_windows_bounds [of working "min window (working + max 0 (raw - current))" parents]
    by (auto simp: parent_window_def [of _ window "Some (Max_bytes raw, current)"])
qed simp

section \<open>The runs of samples the controller remembers\<close>

text \<open>
  The specification reads the whole history: the run of most recent samples with the property,
  and the time it began.
\<close>

definition run_began :: "(rat \<Rightarrow> bool) \<Rightarrow> (rat \<times> rat) list \<Rightarrow> rat option" where
  "run_began P hist =
     (case takeWhile (\<lambda>x. P (fst x)) (rev hist) of [] \<Rightarrow> None | x # xs \<Rightarrow> Some (snd (last (x # xs))))"

lemma run_began_Nil [simp]: "run_began P [] = None"
  by (simp add: run_began_def)

lemma run_began_snoc [simp]:
  "run_began P (hist @ [x]) = since (run_began P hist) (P (fst x)) (snd x)"
  by (simp add: run_began_def since_def split: list.splits)

text \<open>The most recent samples, from one taken at \<open>t\<close> on, all have the property.\<close>

definition run_from :: "(rat \<Rightarrow> bool) \<Rightarrow> (rat \<times> rat) list \<Rightarrow> rat \<Rightarrow> bool" where
  "run_from P hist t \<longleftrightarrow>
     (\<exists>before run. hist = before @ run \<and> run \<noteq> [] \<and> (\<forall>x \<in> set run. P (fst x)) \<and> snd (hd run) = t)"

lemma run_from_new: "P (fst x) \<Longrightarrow> run_from P (hist @ [x]) (snd x)"
  unfolding run_from_def by (rule exI [of _ hist], rule exI [of _ "[x]"]) simp

lemma run_from_snoc:
  assumes "run_from P hist t" and "P (fst x)"
  shows "run_from P (hist @ [x]) t"
proof -
  from assms(1) obtain before run where "hist = before @ run" "run \<noteq> []"
    "\<forall>x \<in> set run. P (fst x)" "snd (hd run) = t" by (auto simp: run_from_def)
  with assms(2) show ?thesis
    unfolding run_from_def by (intro exI [of _ before] exI [of _ "run @ [x]"]) auto
qed

lemma run_began_run: "run_began P hist = Some t \<Longrightarrow> run_from P hist t"
proof (induction hist arbitrary: t rule: rev_induct)
  case (snoc x xs)
  then show ?case
    by (auto simp: since_def split: if_splits option.splits intro: run_from_new run_from_snoc)
qed simp

definition high_at :: "adaptive_policy \<Rightarrow> rat \<Rightarrow> bool" where
  "high_at p q \<longleftrightarrow> of_int (target_percent p) \<le> q"

definition low_at :: "adaptive_policy \<Rightarrow> rat \<Rightarrow> bool" where
  "low_at p q \<longleftrightarrow> q < of_int (recovery_percent p)"

definition critical_at :: "adaptive_policy \<Rightarrow> rat \<Rightarrow> bool" where
  "critical_at p q \<longleftrightarrow> of_int (critical_percent p) \<le> q"

text \<open>Some moment of the history ended a critical run as long as the grace period.\<close>

definition grace_exceeded :: "adaptive_policy \<Rightarrow> (rat \<times> rat) list \<Rightarrow> bool" where
  "grace_exceeded p hist \<longleftrightarrow>
     list_ex (\<lambda>n. dwelt (run_began (critical_at p) (take n hist)) (snd (hist ! (n - 1)))
                    (emergency_grace_seconds p)) [1..<length hist + 1]"

lemma grace_exceeded_Nil [simp]: "\<not> grace_exceeded p []"
  by (simp add: grace_exceeded_def)

lemma grace_exceeded_snoc [simp]:
  "grace_exceeded p (hist @ [x]) \<longleftrightarrow>
     grace_exceeded p hist \<or>
     dwelt (run_began (critical_at p) (hist @ [x])) (snd x) (emergency_grace_seconds p)"
proof -
  have "n \<in> set [1..<length hist + 1] \<Longrightarrow> (hist @ [x]) ! (n - 1) = hist ! (n - 1)" for n
    by (auto simp: nth_append)
  then have "list_ex (\<lambda>n. dwelt (run_began (critical_at p) (take n (hist @ [x]))) (snd ((hist @ [x]) ! (n - 1)))
                 (emergency_grace_seconds p)) [1..<length hist + 1] = grace_exceeded p hist"
    by (auto simp: grace_exceeded_def list_ex_iff)
  moreover have "[1..<length (hist @ [x]) + 1] = [1..<length hist + 1] @ [length hist + 1]" by simp
  ultimately show ?thesis
    unfolding grace_exceeded_def [of _ "hist @ [x]"] by (simp only: list_ex_append) simp
qed

section \<open>The invariant of the controller\<close>

definition controller_ok :: "int \<Rightarrow> adaptive_policy \<Rightarrow> controller \<Rightarrow> bool" where
  "controller_ok m p c \<longleftrightarrow>
     maximum c = m \<and> policy c = p \<and> minimum c = min m (min_workers p) \<and>
     minimum c \<le> target c \<and> target c \<le> maximum c \<and>
     (case (last_change c, last_sample c) of
        (None, _) \<Rightarrow> target c = m
      | (Some t, Some s) \<Rightarrow> t \<le> s
      | (Some t, None) \<Rightarrow> False)"

lemma controller_ok_init: "controller_ok m p (controller_init m p)"
  by (simp add: controller_ok_def controller_init_def)

lemma controller_ok_note:
  "controller_ok m p c \<Longrightarrow> \<not> (case last_sample c of None \<Rightarrow> False | Some t \<Rightarrow> now < t) \<Longrightarrow>
     controller_ok m p (note_sample c pct now) \<and> last_sample (note_sample c pct now) = Some now"
  by (auto simp: controller_ok_def note_sample_def split: option.splits)

lemma on_critical_ok:
  assumes "controller_ok m p c" and "last_sample c = Some now" and "on_critical c began now = (d, c')"
  shows "controller_ok m p c' \<and> workers d = target c'"
proof (cases "target c = minimum c")
  case True
  with assms show ?thesis by (auto simp: on_critical_def controller_ok_def split: option.splits)
next
  case False
  with assms show ?thesis by (auto simp: on_critical_def controller_ok_def)
qed

text \<open>The four outcomes of a sample outside critical pressure.\<close>

lemma on_steady_cases:
  assumes "on_steady c now = (d, c')"
  obtains (stay) "c' = c" "workers d = target c" "reason_of d \<in> {None, Some Interrupted_pressure}"
            "is_emergency d = emergency c"
  | (shed) "c' = c\<lparr>target := target c - 1, last_change := Some now\<rparr>" "workers d = target c - 1"
      "reason_of d = Some Memory_pressure" "\<not> is_emergency d" "\<not> emergency c" "minimum c < target c"
      "last_change c = None \<or> dwelt (last_change c) now (cooldown_seconds (policy c))"
      "dwelt (high_since c) now (down_dwell_seconds (policy c))"
  | (grow) "c' = c\<lparr>target := target c + 1, last_change := Some now, low_since := Some now\<rparr>"
      "workers d = target c + 1"
      "reason_of d = Some Sustained_recovery" "\<not> is_emergency d" "\<not> emergency c" "target c < maximum c"
      "last_change c = None \<or> dwelt (last_change c) now (cooldown_seconds (policy c))"
      "dwelt (low_since c) now (recovery_dwell_seconds (policy c))"
proof -
  let ?cool = "last_change c = None \<or> dwelt (last_change c) now (cooldown_seconds (policy c))"
  let ?hot = "dwelt (high_since c) now (down_dwell_seconds (policy c)) \<and> minimum c < target c"
  let ?cold = "dwelt (low_since c) now (recovery_dwell_seconds (policy c)) \<and> target c < maximum c"
  consider (e) "emergency c" | (w) "\<not> emergency c" "\<not> ?cool" | (h) "\<not> emergency c" ?cool ?hot
    | (l) "\<not> emergency c" ?cool "\<not> ?hot" ?cold | (n) "\<not> emergency c" ?cool "\<not> ?hot" "\<not> ?cold" by blast
  then show thesis
  proof cases
    case e
    with assms show ?thesis by (intro stay) (auto simp: on_steady_def)
  next
    case w
    then have "on_steady c now = (\<lparr>workers = target c, reason_of = None, is_emergency = False\<rparr>, c)"
      by (simp add: on_steady_def)
    with assms w show ?thesis by (intro stay) auto
  next
    case h
    with assms show ?thesis by (intro shed) (auto simp: on_steady_def)
  next
    case l
    with assms show ?thesis by (intro grow) (auto simp: on_steady_def)
  next
    case n
    then have "on_steady c now = (\<lparr>workers = target c, reason_of = None, is_emergency = False\<rparr>, c)"
      by (auto simp: on_steady_def)
    with assms n show ?thesis by (intro stay) auto
  qed
qed

lemma on_steady_ok:
  assumes "controller_ok m p c" and "last_sample c = Some now" and "on_steady c now = (d, c')"
  shows "controller_ok m p c' \<and> workers d = target c'"
  using assms(3)
proof (cases rule: on_steady_cases)
  case stay
  with assms show ?thesis by simp
next
  case shed
  with assms show ?thesis by (simp add: controller_ok_def)
next
  case grow
  with assms show ?thesis by (simp add: controller_ok_def)
qed

lemma observe_cases:
  assumes "observe c pct now = Inr (d, c')"
  obtains (idle) "maximum c \<le> 1 \<or> \<not> enabled (policy c)" "c' = c"
      "d = \<lparr>workers = maximum c, reason_of = None, is_emergency = False\<rparr>"
  | (critical) began where "\<not> (case last_sample c of None \<Rightarrow> False | Some t \<Rightarrow> now < t)"
      "1 < maximum c" "enabled (policy c)"
      "critical_since (note_sample c pct now) = Some began"
      "on_critical (note_sample c pct now) began now = (d, c')"
  | (steady) "\<not> (case last_sample c of None \<Rightarrow> False | Some t \<Rightarrow> now < t)"
      "1 < maximum c" "enabled (policy c)"
      "critical_since (note_sample c pct now) = None"
      "on_steady (note_sample c pct now) now = (d, c')"
  using assms that by (simp add: observe_def Let_def split: if_splits option.splits) (metis not_le)+

lemma observe_ok:
  assumes "controller_ok m p c" and "observe c pct now = Inr (d, c')"
  shows "controller_ok m p c' \<and> workers d = (if m \<le> 1 \<or> \<not> enabled p then m else target c')"
  using assms(2)
proof (cases rule: observe_cases)
  case idle
  with assms(1) show ?thesis by (simp add: controller_ok_def)
next
  case (critical began)
  have "maximum c = m" "policy c = p" using assms(1) by (simp_all add: controller_ok_def)
  with controller_ok_note [OF assms(1) critical(1)] on_critical_ok [OF _ _ critical(5), of m p] critical(2,3)
  show ?thesis by simp
next
  case steady
  have "maximum c = m" "policy c = p" using assms(1) by (simp_all add: controller_ok_def)
  with controller_ok_note [OF assms(1) steady(1)] on_steady_ok [OF _ _ steady(5), of m p] steady(2,3)
  show ?thesis by simp
qed

interpretation pressure: stepped observe_step "controller_ok m p" for m p
proof unfold_locales
  fix c sample c'
  assume ok: "controller_ok m p c" and "observe_step c sample = Inr c'"
  then obtain d where "observe c (fst sample) (snd sample) = Inr (d, c')"
    by (auto simp: observe_step_def result_simps)
  from observe_ok [OF ok this] show "controller_ok m p c'" by simp
qed

text \<open>What the controller remembers is what the specification reads off the history.\<close>

definition tracks :: "int \<Rightarrow> adaptive_policy \<Rightarrow> controller \<Rightarrow> (rat \<times> rat) list \<Rightarrow> bool" where
  "tracks m p c hist \<longleftrightarrow>
     maximum c = m \<and> policy c = p \<and>
     high_since c = run_began (high_at p) hist \<and>
     critical_since c = run_began (critical_at p) hist \<and>
     (emergency c \<longleftrightarrow> grace_exceeded p hist) \<and>
     (case low_since c of
        None \<Rightarrow> run_began (low_at p) hist = None
      | Some t \<Rightarrow> run_from (low_at p) hist t)"

lemma tracks_note:
  assumes "tracks m p c hist"
  shows "high_since (note_sample c pct now) = run_began (high_at p) (hist @ [(pct, now)])"
    and "critical_since (note_sample c pct now) = run_began (critical_at p) (hist @ [(pct, now)])"
    and "case low_since (note_sample c pct now) of
        None \<Rightarrow> run_began (low_at p) (hist @ [(pct, now)]) = None
      | Some t \<Rightarrow> run_from (low_at p) (hist @ [(pct, now)]) t"
proof -
  show "high_since (note_sample c pct now) = run_began (high_at p) (hist @ [(pct, now)])"
    and "critical_since (note_sample c pct now) = run_began (critical_at p) (hist @ [(pct, now)])"
    using assms by (simp_all add: tracks_def note_sample_def high_at_def critical_at_def)
  show "case low_since (note_sample c pct now) of
        None \<Rightarrow> run_began (low_at p) (hist @ [(pct, now)]) = None
      | Some t \<Rightarrow> run_from (low_at p) (hist @ [(pct, now)]) t"
    using assms run_from_snoc [of "low_at p" hist _ "(pct, now)"] run_from_new [of "low_at p" "(pct, now)" hist]
    by (cases "low_since c") (auto simp: tracks_def note_sample_def since_def low_at_def)
qed



lemma tracks_init: "tracks m p (controller_init m p) []"
  by (simp add: tracks_def controller_init_def)

lemma critical_since_note:
  "tracks m p c hist \<Longrightarrow> critical_since (note_sample c pct now) = None \<longleftrightarrow> \<not> critical_at p pct"
  by (simp add: tracks_note(2) since_def split: option.split)

lemma note_sample_same [simp]:
  "maximum (note_sample c pct now) = maximum c" "policy (note_sample c pct now) = policy c"
  "target (note_sample c pct now) = target c" "minimum (note_sample c pct now) = minimum c"
  "emergency (note_sample c pct now) = emergency c" "last_change (note_sample c pct now) = last_change c"
  by (simp_all add: note_sample_def)

lemma on_critical_fields:
  assumes "on_critical c began now = (d, c')"
  shows "maximum c' = maximum c" "policy c' = policy c" "high_since c' = high_since c"
    "low_since c' = low_since c" "critical_since c' = critical_since c"
    "emergency c' \<longleftrightarrow> emergency c \<or> of_int (emergency_grace_seconds (policy c)) \<le> now - began"
    "is_emergency d = emergency c'" "reason_of d = Some Critical_pressure"
    "workers d = minimum c"
  using assms by (cases "target c = minimum c"; auto simp: on_critical_def Let_def)+

lemma tracks_update:
  "tracks m p c hist \<Longrightarrow> run_from (low_at p) hist t \<Longrightarrow>
     tracks m p (c\<lparr>target := k, last_change := x, low_since := Some t\<rparr>) hist"
  by (simp add: tracks_def)

text \<open>The state after a sample again holds what the extended history says.\<close>

lemma observe_tracks:
  assumes t: "tracks m p c hist" and on: "1 < m" "enabled p"
    and obs: "observe c pct now = Inr (d, c')"
  shows "tracks m p c' (hist @ [(pct, now)]) \<and> is_emergency d = emergency c'"
  using obs
proof (cases rule: observe_cases)
  case idle
  with t on show ?thesis by (simp add: tracks_def)
next
  case (critical began)
  note f = on_critical_fields [OF critical(5)]
  have b: "run_began (critical_at p) (hist @ [(pct, now)]) = Some began"
    using critical(4) tracks_note(2) [OF t] by simp
  have e: "emergency c' \<longleftrightarrow> grace_exceeded p (hist @ [(pct, now)])"
    using f(6) t b unfolding grace_exceeded_snoc by (simp add: tracks_def dwelt_def)
  show ?thesis
    using t e tracks_note [OF t, of pct now] unfolding tracks_def f(1-5) f(7) note_sample_same by blast
next
  case steady
  have "run_began (critical_at p) (hist @ [(pct, now)]) = None"
    using steady(4) tracks_note(2) [OF t] by simp
  then have e: "emergency c \<longleftrightarrow> grace_exceeded p (hist @ [(pct, now)])"
    using t unfolding grace_exceeded_snoc by (simp add: tracks_def dwelt_def)
  have n: "tracks m p (note_sample c pct now) (hist @ [(pct, now)])"
    using t e tracks_note [OF t, of pct now] unfolding tracks_def note_sample_same by blast
  from steady(5) show ?thesis
  proof (cases rule: on_steady_cases)
    case stay
    with n show ?thesis by (simp)
  next
    case shed
    with n show ?thesis by (simp add: tracks_def)
  next
    case grow
    have l: "low_at p pct" using grow(8) t
      by (auto simp: dwelt_def note_sample_def since_def tracks_def low_at_def split: if_splits)
    from run_from_new [of "low_at p" "(pct, now)" hist] l
    have r: "run_from (low_at p) (hist @ [(pct, now)]) now" by simp
    have "tracks m p c' (hist @ [(pct, now)])" unfolding grow(1) by (rule tracks_update [OF n r])
    moreover have "is_emergency d = emergency c'" using grow by simp
    ultimately show ?thesis ..
  qed
qed

lemma run_tracks:
  assumes "rfold observe_step (controller_init m p) hist = Inr c" and "1 < m" "enabled p"
  shows "tracks m p c hist"
  using assms(1)
proof (rule rfold_invariant)
  show "tracks m p (controller_init m p) []" by (rule tracks_init)
next
  fix s ys x s'
  assume "tracks m p s ys" and "observe_step s x = Inr s'"
  then show "tracks m p s' (ys @ [x])"
    using observe_tracks [of m p s ys "fst x" "snd x"] assms(2,3)
    by (auto simp: observe_step_def result_simps)
qed

lemma observe_moves:
  assumes ok: "controller_ok m p c" and obs: "observe c pct now = Inr (d, c')"
  shows "(reason_of d = Some Critical_pressure \<longrightarrow> workers d = min m (min_workers p)) \<and>
    (reason_of d \<noteq> Some Critical_pressure \<longrightarrow> target c' = target c \<or>
       \<bar>target c' - target c\<bar> = 1 \<and>
         (\<forall>t. last_change c = Some t \<longrightarrow> of_int (cooldown_seconds p) \<le> now - t))"
  using obs
proof (cases rule: observe_cases)
  case (critical began)
  with on_critical_fields(8,9) [OF critical(5)] ok show ?thesis by (simp add: controller_ok_def)
next
  case steady
  have "policy c = p" using ok by (simp add: controller_ok_def)
  with steady(5) show ?thesis by (cases rule: on_steady_cases) (auto simp: dwelt_def)
qed simp

lemma not_cooling:
  "(last_change c = None \<or> dwelt (last_change c) now k) \<longleftrightarrow>
     (\<forall>t. last_change c = Some t \<longrightarrow> of_int k \<le> now - t)"
  by (cases "last_change c") (simp_all add: dwelt_def)

lemma on_steady_shed:
  "reason_of (fst (on_steady c now)) = Some Memory_pressure \<longleftrightarrow>
     \<not> emergency c \<and> (\<forall>t. last_change c = Some t \<longrightarrow> of_int (cooldown_seconds (policy c)) \<le> now - t) \<and>
     dwelt (high_since c) now (down_dwell_seconds (policy c)) \<and> minimum c < target c"
  unfolding not_cooling [symmetric] by (auto simp: on_steady_def)

lemma observe_reasons:
  assumes t: "tracks m p c hist" and on: "1 < m" "enabled p"
    and obs: "observe c pct now = Inr (d, c')"
  shows "(reason_of d = Some Critical_pressure \<longleftrightarrow> critical_at p pct) \<and>
    (reason_of d = Some Memory_pressure \<longleftrightarrow>
       \<not> critical_at p pct \<and> \<not> grace_exceeded p (hist @ [(pct, now)]) \<and>
       (\<forall>t. last_change c = Some t \<longrightarrow> of_int (cooldown_seconds p) \<le> now - t) \<and>
       dwelt (run_began (high_at p) (hist @ [(pct, now)])) now (down_dwell_seconds p) \<and>
       minimum c < target c) \<and>
    (reason_of d = Some Sustained_recovery \<longrightarrow>
       (\<exists>t. run_from (low_at p) (hist @ [(pct, now)]) t \<and> of_int (recovery_dwell_seconds p) \<le> now - t))"
  using obs
proof (cases rule: observe_cases)
  case idle
  with t on show ?thesis by (simp add: tracks_def)
next
  case (critical began)
  then have "critical_at p pct" using critical_since_note [OF t, of pct now] by simp
  with on_critical_fields(8) [OF critical(5)] show ?thesis by simp
next
  case steady
  then have nc: "\<not> critical_at p pct" using critical_since_note [OF t, of pct now] by simp
  have e: "emergency (note_sample c pct now) \<longleftrightarrow> grace_exceeded p (hist @ [(pct, now)])"
    using t nc unfolding grace_exceeded_snoc by (simp add: tracks_def since_def dwelt_def)
  have pc: "policy c = p" using t by (simp add: tracks_def)
  have shed: "reason_of d = Some Memory_pressure \<longleftrightarrow>
      \<not> grace_exceeded p (hist @ [(pct, now)]) \<and>
       (\<forall>t. last_change c = Some t \<longrightarrow> of_int (cooldown_seconds p) \<le> now - t) \<and>
       dwelt (run_began (high_at p) (hist @ [(pct, now)])) now (down_dwell_seconds p) \<and>
       minimum c < target c"
    using on_steady_shed [of "note_sample c pct now" now] e steady(5) tracks_note(1) [OF t, of pct now] pc by simp
  have grow: "reason_of d = Some Sustained_recovery \<longrightarrow>
       (\<exists>t. run_from (low_at p) (hist @ [(pct, now)]) t \<and> of_int (recovery_dwell_seconds p) \<le> now - t)"
    and nocrit: "reason_of d \<noteq> Some Critical_pressure"
    using steady(5)
    by (cases rule: on_steady_cases; use tracks_note(3) [OF t, of pct now] pc in
        \<open>auto simp: dwelt_def split: option.splits\<close>)+
  from nc shed grow nocrit show ?thesis by simp
qed

section \<open>Properties\<close>


text \<open>C38. The controller's few remembered times decide as a reading of the whole history of samples
  would: an emergency is declared exactly when some critical run has lasted the grace period, and
  stays; a worker is shed for pressure only when every sample of a run at least as long as the dwell
  was high, and is always shed when the current high run is that long, the cooldown is over and the
  target is above the minimum; a worker is added only after a run of low samples as long as the
  recovery dwell.\<close>

theorem controller_reads_history:
  assumes run: "rfold observe_step (controller_init m p) hist = Inr c" and on: "1 < m" "enabled p"
    and obs: "observe c pct now = Inr (d, c')"
  shows "(reason_of d = Some Critical_pressure \<longleftrightarrow> critical_at p pct) \<and>
    (is_emergency d \<longleftrightarrow> grace_exceeded p (hist @ [(pct, now)])) \<and>
    (reason_of d = Some Memory_pressure \<longleftrightarrow>
       \<not> critical_at p pct \<and> \<not> grace_exceeded p (hist @ [(pct, now)]) \<and>
       (\<forall>t. last_change c = Some t \<longrightarrow> of_int (cooldown_seconds p) \<le> now - t) \<and>
       dwelt (run_began (high_at p) (hist @ [(pct, now)])) now (down_dwell_seconds p) \<and>
       min m (min_workers p) < target c) \<and>
    (reason_of d = Some Sustained_recovery \<longrightarrow>
       (\<exists>t. run_from (low_at p) (hist @ [(pct, now)]) t \<and> of_int (recovery_dwell_seconds p) \<le> now - t))"
proof -
  have t: "tracks m p c hist" by (rule run_tracks [OF run on])
  have ok: "controller_ok m p c" by (rule pressure.run_inv [OF controller_ok_init run])
  then have mx: "maximum c = m" "policy c = p" "minimum c = min m (min_workers p)"
    by (simp_all add: controller_ok_def)
  have "is_emergency d \<longleftrightarrow> grace_exceeded p (hist @ [(pct, now)])"
    using observe_tracks [OF t on obs] by (simp add: tracks_def)
  with observe_reasons [OF t on obs] mx show ?thesis by simp
qed



section \<open>Witnesses\<close>

definition default_policy :: adaptive_policy where
  "default_policy =
     \<lparr>enabled = True, min_workers = 1, target_percent = 80, recovery_percent = 70,
      critical_percent = 95, down_dwell_seconds = 5, recovery_dwell_seconds = 30,
      cooldown_seconds = 15, emergency_grace_seconds = 5, sample_seconds = 1\<rparr>"

lemma parse_default: "parse_policy JNull = Inr default_policy"
  by code_simp

text \<open>Six seconds of high pressure, a lull, and a sample half a minute later.\<close>

definition sample_run :: "(rat \<times> rat) list" where
  "sample_run = [(85, 0), (86, 3), (90, 6), (50, 7)]"

definition sample_controller :: controller where
  "sample_controller = (controller_init 4 default_policy)
     \<lparr>target := 3, last_change := Some 6, low_since := Some 7, last_sample := Some 7\<rparr>"

lemma sample_run_controller:
  "rfold observe_step (controller_init 4 default_policy) sample_run = Inr sample_controller"
  by code_simp


theorem controller_reads_history_witness:
  "\<exists>d c'. observe sample_controller 60 40 = Inr (d, c') \<and>
     (\<exists>t. run_from (low_at default_policy) (sample_run @ [(60, 40)]) t \<and> 30 \<le> 40 - t)"
proof -
  have o: "observe sample_controller 60 40 =
     Inr (\<lparr>workers = 4, reason_of = Some Sustained_recovery, is_emergency = False\<rparr>,
          sample_controller\<lparr>target := 4, last_change := Some 40, low_since := Some 40, last_sample := Some 40\<rparr>)"
    by code_simp
  from controller_reads_history [OF sample_run_controller _ _ o] o
  show ?thesis by (auto simp: default_policy_def)
qed

end
