(* ===== verification/Test_Order.thy ===== *)
theory Test_Order
  imports Python "HOL-Library.List_Lexorder" "HOL-Library.Product_Lexorder"
begin

text \<open>
  Reproducible test order and balanced shards (\<open>src/ls/core/test_ordering.py\<close>). SHA-256 and the
  random source are parameters; a test item is its node id and the identity Python gives it.
\<close>

section \<open>Seeds\<close>

definition max_seed :: int where
  "max_seed = 2 ^ 31 - 1"

definition validate_seed :: "json \<Rightarrow> (py_error, int) result" where
  "validate_seed v =
     (case v of
        JInt i \<Rightarrow> if 0 \<le> i \<and> i \<le> max_seed then Inr i
                  else Inl (ValueError ''test shuffle seed must be an integer between 0 and 2147483647'')
      | _ \<Rightarrow> Inl (ValueError ''test shuffle seed must be an integer between 0 and 2147483647''))"

datatype seed_source = Command_line | Environment | Configuration | Github_run | Shared_shard_default | Random

text \<open>The first four bytes of the digest, most significant first, without the top bit.\<close>

definition run_seed :: "(bytes \<Rightarrow> bytes) \<Rightarrow> bytes \<Rightarrow> int" where
  "run_seed sha run = int (foldl (\<lambda>n b. 256 * n + b) 0 (take 4 (sha run)) mod 2 ^ 31)"

text \<open>
  \<open>env_seed\<close> is the environment's \<open>LOCALSETUP_TEST_SEED\<close> with what \<open>int\<close> makes of it (None: it
  raises), \<open>run_id\<close> the encoded \<open>GITHUB_RUN_ID\<close> (None: it cannot be encoded), \<open>bits\<close> the
  31 random bits.
\<close>

definition select_seed ::
    "(bytes \<Rightarrow> bytes) \<Rightarrow> (pytext \<times> json) list \<Rightarrow> json option \<Rightarrow> int option option \<Rightarrow> pytext option \<Rightarrow>
     bool \<Rightarrow> int \<Rightarrow> (py_error, int \<times> seed_source) result" where
  "select_seed sha settings explicit env_seed run_id sharded bits =
     (case explicit of
        Some v \<Rightarrow> rbind (validate_seed v) (\<lambda>s. Inr (s, Command_line))
      | None \<Rightarrow>
     (case env_seed of
        Some None \<Rightarrow> Inl (ValueError ''invalid literal for int()'')
      | Some (Some i) \<Rightarrow> rbind (validate_seed (JInt i)) (\<lambda>s. Inr (s, Environment))
      | None \<Rightarrow>
        (if member_or settings ''shuffle_seed'' JNull \<noteq> JNull
         then rbind (validate_seed (member_or settings ''shuffle_seed'' JNull)) (\<lambda>s. Inr (s, Configuration))
         else case run_id of
           Some (c # cs) \<Rightarrow>
             (case utf8_encode (c # cs) of
                None \<Rightarrow> Inl (ValueError ''surrogates not allowed'')
              | Some b \<Rightarrow> Inr (run_seed sha b, Github_run))
         | _ \<Rightarrow> if sharded then Inr (0, Shared_shard_default) else Inr (bits, Random))))"

section \<open>Partition\<close>

record test_item =
  nodeid :: pytext
  identity :: nat

definition be32 :: "int \<Rightarrow> bytes" where
  "be32 i = map (\<lambda>k. nat (i div 256 ^ k) mod 256) [3, 2, 1, 0]"

definition item_key :: "(bytes \<Rightarrow> bytes) \<Rightarrow> int \<Rightarrow> test_item \<Rightarrow> bytes \<times> pytext" where
  "item_key sha seed item = (sha (be32 seed @ 0 # the (utf8_encode (nodeid item))), nodeid item)"

text \<open>\<open>xs[start::step]\<close>.\<close>

fun every :: "nat \<Rightarrow> nat \<Rightarrow> 'a list \<Rightarrow> 'a list" where
  "every step n [] = []"
| "every step 0 (x # xs) = x # every step (step - 1) xs"
| "every step (Suc n) (x # xs) = every step n xs"

definition mixed :: "(bytes \<Rightarrow> bytes) \<Rightarrow> int \<Rightarrow> test_item list \<Rightarrow> test_item list" where
  "mixed sha seed items = sort_key (item_key sha seed) items"

definition partition_items ::
    "(bytes \<Rightarrow> bytes) \<Rightarrow> test_item list \<Rightarrow> json \<Rightarrow> int \<Rightarrow> int \<Rightarrow> bool \<Rightarrow>
     (py_error, test_item list \<times> test_item list) result" where
  "partition_items sha items seed shard shards shuffle =
     rbind (validate_seed seed) (\<lambda>s.
     rbind (require (1 \<le> shards \<and> shards \<le> 32 \<and> 0 \<le> shard \<and> shard < shards)
             (ValueError ''invalid test partition'')) (\<lambda>_.
     rbind (require (list_all (\<lambda>item. utf8_encode (nodeid item) \<noteq> None) items)
             (ValueError ''surrogates not allowed'')) (\<lambda>_.
     let selected = every (nat shards) (nat shard) (mixed sha s items);
         ids = map identity selected;
         excluded = filter (\<lambda>item. identity item \<notin> set ids) items
     in Inr (if shuffle then selected else filter (\<lambda>item. identity item \<in> set ids) items, excluded))))"


section \<open>Seeds stay in range\<close>

lemma validate_seed_Inr: "validate_seed v = Inr s \<longleftrightarrow> v = JInt s \<and> 0 \<le> s \<and> s \<le> max_seed"
  by (auto simp: validate_seed_def split: json.splits)

lemma run_seed_range: "0 \<le> run_seed sha b \<and> run_seed sha b \<le> max_seed"
proof -
  have "n mod 2 ^ 31 < (2::nat) ^ 31" for n by simp
  from this [of "foldl (\<lambda>n b. 256 * n + b) 0 (take 4 (sha b))"]
  have "int (foldl (\<lambda>n b. 256 * n + b) 0 (take 4 (sha b)) mod 2 ^ 31) < 2 ^ 31"
    by (metis of_nat_less_iff of_nat_numeral of_nat_power)
  then show ?thesis by (simp add: run_seed_def max_seed_def)
qed

lemma select_seed_range:
  assumes "select_seed sha settings explicit env_seed run_id sharded bits = Inr (s, src)"
    and "0 \<le> bits" and "bits \<le> max_seed"
  shows "0 \<le> s \<and> s \<le> max_seed"
  using assms run_seed_range
  by (auto simp: select_seed_def result_simps validate_seed_Inr max_seed_def
      split: option.splits if_splits list.splits)

section \<open>Dealing a list into slots\<close>

lemma every_partition:
  "0 < step \<Longrightarrow> (\<Sum>n<step. mset (every step n xs)) = mset xs"
proof (induction xs)
  case (Cons x xs)
  from Cons.prems obtain k where k: "step = Suc k" by (cases step) auto
  have "(\<Sum>n<step. mset (every step n (x # xs))) =
      mset (every step 0 (x # xs)) + (\<Sum>n<k. mset (every step (Suc n) (x # xs)))"
    unfolding k by (rule sum.lessThan_Suc_shift)
  also have "\<dots> = {#x#} + (\<Sum>n<step. mset (every step n xs))"
    by (simp add: k)
  finally show ?case using Cons.IH [OF Cons.prems] by simp
qed simp

lemma every_length:
  "n < step \<Longrightarrow> length (every step n xs) = (length xs + (step - 1) - n) div step"
proof (induction step n xs rule: every.induct)
  case (2 step x xs)
  then have "length (every step 0 (x # xs)) = Suc (length xs div step)" by simp
  also have "\<dots> = (length xs + step) div step" using 2 by simp
  also have "length xs + step = length (x # xs) + (step - 1) - 0" using 2 by simp
  finally show ?case .
qed auto

lemma div_round_up: "n < step \<Longrightarrow> (l + (step - 1) - n) div step \<in> {l div step, l div step + (1::nat)}"
proof -
  assume n: "n < step"
  have "l div step \<le> (l + (step - 1) - n) div step" using n by (intro div_le_mono) simp
  moreover have "(l + (step - 1) - n) div step \<le> (l + step) div step" by (intro div_le_mono) simp
  moreover have "(l + step) div step = l div step + 1" using n by simp
  ultimately show ?thesis by auto
qed

lemma every_subset: "set (every step n xs) \<subseteq> set xs"
  by (induction step n xs rule: every.induct) auto

lemma every_distinct: "distinct xs \<Longrightarrow> distinct (every step n xs)"
  by (induction step n xs rule: every.induct) (use every_subset in fastforce)+

section \<open>The partition\<close>

lemma mixed_simps [simp]: "mset (mixed sha s items) = mset items" "set (mixed sha s items) = set items"
  "length (mixed sha s items) = length items"
  by (simp_all add: mixed_def)

lemma filter_identity:
  assumes "distinct (map identity items)" and "set sel \<subseteq> set items"
  shows "filter (\<lambda>item. identity item \<in> identity ` set sel) items = filter (\<lambda>item. item \<in> set sel) items"
proof (rule filter_cong [OF refl])
  fix item assume "item \<in> set items"
  with assms show "identity item \<in> identity ` set sel \<longleftrightarrow> item \<in> set sel"
    by (auto simp: distinct_map inj_on_def subset_iff)
qed

lemma partition_items_eq:
  assumes "partition_items sha items (JInt s) shard shards shuffle = Inr (sel, exc)"
    and "distinct (map identity items)"
  shows "mset sel = mset (every (nat shards) (nat shard) (mixed sha s items))"
    and "mset sel + mset exc = mset items"
    and "shuffle \<Longrightarrow> sel = every (nat shards) (nat shard) (mixed sha s items)"
    and "\<not> shuffle \<Longrightarrow> sel = filter (\<lambda>item. item \<in> set (every (nat shards) (nat shard) (mixed sha s items))) items"
    and "exc = filter (\<lambda>item. item \<notin> set (every (nat shards) (nat shard) (mixed sha s items))) items"
proof -
  let ?e = "every (nat shards) (nat shard) (mixed sha s items)"
  have sub: "set ?e \<subseteq> set items" using every_subset [of "nat shards" "nat shard" "mixed sha s items"] by simp
  have d: "distinct items" using assms(2) by (simp add: distinct_map)
  then have "distinct (mixed sha s items)" by (simp add: mixed_def)
  then have de: "distinct ?e" by (rule every_distinct)
  have f: "filter (\<lambda>item. identity item \<in> identity ` set ?e) items = filter (\<lambda>item. item \<in> set ?e) items"
    by (rule filter_identity [OF assms(2) sub])
  have "filter (\<lambda>item. identity item \<notin> identity ` set ?e) items = filter (\<lambda>item. item \<notin> set ?e) items"
    using assms(2) sub by (intro filter_cong refl) (auto simp: distinct_map inj_on_def subset_iff)
  with assms(1) f show exc: "exc = filter (\<lambda>item. item \<notin> set ?e) items"
    and s1: "shuffle \<Longrightarrow> sel = ?e" and s2: "\<not> shuffle \<Longrightarrow> sel = filter (\<lambda>item. item \<in> set ?e) items"
    by (auto simp: partition_items_def result_simps validate_seed_Inr Let_def)
  have "mset (filter (\<lambda>item. item \<in> set ?e) items) = mset ?e"
    using d de sub by (intro set_eq_iff_mset_eq_distinct [THEN iffD1]) auto
  with s1 s2 show m: "mset sel = mset ?e" by (cases shuffle) auto
  show "mset sel + mset exc = mset items"
    using \<open>mset (filter _ items) = mset ?e\<close> multiset_partition [of "mset items" "\<lambda>item. item \<in> set ?e"]
    unfolding m exc by simp
qed

lemma partition_items_returns:
  assumes "0 \<le> s" "s \<le> max_seed" "shards \<le> 32" "k < nat shards"
    and "list_all (\<lambda>item. utf8_encode (nodeid item) \<noteq> None) items"
  shows "\<exists>sel exc. partition_items sha items (JInt s) (int k) shards shuffle = Inr (sel, exc)"
proof -
  have "1 \<le> shards \<and> shards \<le> 32 \<and> 0 \<le> int k \<and> int k < shards" using assms by auto
  with assms show ?thesis by (simp add: partition_items_def validate_seed_def Let_def)
qed

section \<open>Properties\<close>

text \<open>C39. The shards of one seed partition the collected tests: every shard's call succeeds and
  splits the collection into what it runs and what it leaves, every test is run by exactly one
  shard, and the shards' sizes differ by at most one.\<close>

theorem shards_partition:
  assumes "validate_seed seed = Inr s" and "shards \<le> 32" and "1 \<le> shards"
    and "distinct (map identity items)"
    and "list_all (\<lambda>item. utf8_encode (nodeid item) \<noteq> None) items"
  shows "\<exists>run skip. (\<forall>k < nat shards.
      partition_items sha items seed (int k) shards shuffle = Inr (run k, skip k) \<and>
      mset (run k) + mset (skip k) = mset items \<and>
      length (run k) \<in> {length items div nat shards, length items div nat shards + 1}) \<and>
    (\<Sum>k<nat shards. mset (run k)) = mset items"
proof -
  have seed: "seed = JInt s" "0 \<le> s" "s \<le> max_seed" using assms(1) by (auto simp: validate_seed_Inr)
  let ?r = "\<lambda>k. projr (partition_items sha items seed (int k) shards shuffle)"
  let ?e = "\<lambda>k. every (nat shards) k (mixed sha s items)"
  have r: "partition_items sha items seed (int k) shards shuffle = Inr (fst (?r k), snd (?r k))"
    if "k < nat shards" for k
    using partition_items_returns [OF seed(2,3) assms(2) that assms(5), of sha shuffle] seed(1) by force
  have each: "mset (fst (?r k)) = mset (?e k)" "mset (fst (?r k)) + mset (snd (?r k)) = mset items"
    if "k < nat shards" for k
    using partition_items_eq(1,2) [OF r [OF that, unfolded seed(1)] assms(4)] seed(1) by simp_all
  have len: "length (fst (?r k)) \<in> {length items div nat shards, length items div nat shards + 1}"
    if "k < nat shards" for k
  proof -
    have "length (fst (?r k)) = length (?e k)"
      using each(1) [OF that] by (metis size_mset)
    also have "\<dots> = (length items + (nat shards - 1) - k) div nat shards"
      using every_length [OF that, of "mixed sha s items"] by simp
    finally show ?thesis using div_round_up [OF that, of "length items"] by simp
  qed
  have "(\<Sum>k<nat shards. mset (fst (?r k))) = (\<Sum>k<nat shards. mset (?e k))"
    by (rule sum.cong) (use each in auto)
  also have "\<dots> = mset items" using every_partition [of "nat shards" "mixed sha s items"] assms(3) by simp
  finally have all: "(\<Sum>k<nat shards. mset (fst (?r k))) = mset items" .
  show ?thesis
  proof (rule exI [of _ "\<lambda>k. fst (?r k)"], rule exI [of _ "\<lambda>k. snd (?r k)"], intro conjI allI impI)
    fix k assume k: "k < nat shards"
    show "partition_items sha items seed (int k) shards shuffle = Inr (fst (?r k), snd (?r k))"
      and "mset (fst (?r k)) + mset (snd (?r k)) = mset items"
      and "length (fst (?r k)) \<in> {length items div nat shards, length items div nat shards + 1}"
      by (rule r [OF k], rule each(2) [OF k], rule len [OF k])
  qed (rule all)
qed

text \<open>Which tests a shard runs depends on the seed and the set of node ids alone: machines
  that collect the same tests in another order shuffle them identically, and a run without
  shuffling selects the same tests, in its own collection order.\<close>

theorem shards_independent_of_order:
  assumes "distinct (map nodeid items)" and "distinct (map identity items)" and "mset items = mset items'"
    and "partition_items sha items seed shard shards True = Inr (sel, exc)"
    and "partition_items sha items' seed shard shards True = Inr (sel', exc')"
    and "partition_items sha items' seed shard shards False = Inr (sel'', exc'')"
  shows "sel' = sel \<and> set exc' = set exc \<and> exc'' = exc' \<and>
    sel'' = filter (\<lambda>item. item \<in> set sel) items'"
proof -
  obtain s where s: "seed = JInt s"
    using assms(4) by (auto simp: partition_items_def result_simps validate_seed_Inr)
  have d': "distinct (map identity items')"
    using assms(2,3) by (metis distinct_map mset_eq_imp_distinct_iff mset_eq_setD)
  have "inj_on (item_key sha s) (set items)"
    using assms(1) by (auto simp: inj_on_def item_key_def distinct_map)
  with assms(3) have m: "mixed sha s items = mixed sha s items'"
    unfolding mixed_def by (intro sort_key_inj_key_eq) auto
  note e = partition_items_eq [OF assms(4) [unfolded s] assms(2)]
    and e' = partition_items_eq [OF assms(5) [unfolded s] d']
    and e'' = partition_items_eq [OF assms(6) [unfolded s] d']
  have sel: "sel' = sel" using e(3) e'(3) m by simp
  have "set items = set items'" using assms(3) by (metis set_mset_mset)
  with e(5) e'(5) m have "set exc' = set exc" by simp
  moreover have "exc'' = exc'" using e'(5) e''(5) by simp
  moreover have "sel'' = filter (\<lambda>item. item \<in> set sel) items'" using e(3) e''(4) m by simp
  ultimately show ?thesis using sel by simp
qed

section \<open>Witnesses\<close>

text \<open>A digest for the witnesses: any function of the bytes will do.\<close>

definition toy_digest :: "bytes \<Rightarrow> bytes" where
  "toy_digest b = [sum_list b * 37 mod 101]"

definition sample_items :: "test_item list" where
  "sample_items = map (\<lambda>k. \<lparr>nodeid = [116, 48 + k], identity = k\<rparr>) [0,1,2,3]"

lemma sample_items_ok:
  "distinct (map identity sample_items)" "distinct (map nodeid sample_items)"
  "list_all (\<lambda>item. utf8_encode (nodeid item) \<noteq> None) sample_items"
  "validate_seed (JInt 7) = Inr 7" "mset sample_items = mset (rev sample_items)"
  by (code_simp, code_simp, code_simp, code_simp, simp)

theorem shards_partition_witness:
  "\<exists>run skip. partition_items toy_digest sample_items (JInt 7) 1 2 True = Inr (run, skip) \<and>
     mset run + mset skip = mset sample_items \<and> length run \<in> {2, 3}"
proof -
  have l: "length sample_items = 4" by code_simp
  from shards_partition [OF sample_items_ok(4) _ _ sample_items_ok(1,3), of 2 toy_digest True] obtain run skip where
    "\<forall>k < nat 2. partition_items toy_digest sample_items (JInt 7) (int k) 2 True = Inr (run k, skip k) \<and>
      mset (run k) + mset (skip k) = mset sample_items \<and>
      length (run k) \<in> {length sample_items div nat 2, length sample_items div nat 2 + 1}" by auto
  from spec [OF this, of 1] l show ?thesis by (intro exI [of _ "run (Suc 0)"] exI [of _ "skip (Suc 0)"]) auto
qed

theorem shards_independent_of_order_witness:
  "\<exists>sel exc exc'. partition_items toy_digest sample_items (JInt 7) 1 2 True = Inr (sel, exc) \<and>
     partition_items toy_digest (rev sample_items) (JInt 7) 1 2 True = Inr (sel, exc') \<and> sel \<noteq> []"
proof -
  have ok: "is_ok (partition_items toy_digest sample_items (JInt 7) 1 2 True)"
    "is_ok (partition_items toy_digest (rev sample_items) (JInt 7) 1 2 True)"
    "is_ok (partition_items toy_digest (rev sample_items) (JInt 7) 1 2 False)"
    "fst (projr (partition_items toy_digest sample_items (JInt 7) 1 2 True)) \<noteq> []"
    by (code_simp, code_simp, code_simp, code_simp)
  from ok(1,4) obtain sel exc where a: "partition_items toy_digest sample_items (JInt 7) 1 2 True = Inr (sel, exc)" and "sel \<noteq> []"
    by (auto simp: is_ok_iff)
  moreover from ok(2) obtain sel' exc' where b: "partition_items toy_digest (rev sample_items) (JInt 7) 1 2 True = Inr (sel', exc')"
    by (auto simp: is_ok_iff)
  moreover from ok(3) obtain sel'' exc'' where c: "partition_items toy_digest (rev sample_items) (JInt 7) 1 2 False = Inr (sel'', exc'')"
    by (auto simp: is_ok_iff)
  ultimately show ?thesis
    using shards_independent_of_order [OF sample_items_ok(2,1,5) a b c] by auto
qed

end
