(* ===== verification/Test_Workers.thy ===== *)
theory Test_Workers
  imports Pressure Test_Order
begin

text \<open>
  The testing configuration and the number of test workers (\<open>src/ls/core/test_workers.py\<close>).
  Tables are parsed TOML as JSON values; the environment and the processor counts are arguments.
\<close>

section \<open>Integers from text\<close>

text \<open>
  \<open>int(text, 10)\<close> on stripped text: a sign, then decimal digits, one underscore allowed between
  two of them, at most 4300 digits. \<open>decimal\<close> is Unicode's table of decimal digits.
\<close>

fun digits_of :: "(nat \<Rightarrow> nat option) \<Rightarrow> pytext \<Rightarrow> nat list option" where
  "digits_of decimal [] = None"
| "digits_of decimal [c] = (case decimal c of None \<Rightarrow> None | Some d \<Rightarrow> Some [d])"
| "digits_of decimal (c # c' # t) =
     (case decimal c of
        None \<Rightarrow> None
      | Some d \<Rightarrow>
         (case digits_of decimal (if c' = 95 then t else c' # t) of
            None \<Rightarrow> None
          | Some ds \<Rightarrow> Some (d # ds)))"

definition unsigned :: "(nat \<Rightarrow> nat option) \<Rightarrow> pytext \<Rightarrow> int option" where
  "unsigned decimal t =
     (case digits_of decimal t of
        None \<Rightarrow> None
      | Some ds \<Rightarrow> if length ds \<le> 4300 then Some (foldl (\<lambda>n d. 10 * n + int d) 0 ds) else None)"

definition int10 :: "(nat \<Rightarrow> nat option) \<Rightarrow> pytext \<Rightarrow> int option" where
  "int10 decimal t =
     (case t of
        [] \<Rightarrow> None
      | c # r \<Rightarrow>
         if c = 45 then (case unsigned decimal r of None \<Rightarrow> None | Some n \<Rightarrow> Some (- n))
         else if c = 43 then unsigned decimal r
         else unsigned decimal t)"

section \<open>The configuration\<close>

datatype worker_choice = Auto | Fixed int

record test_configuration =
  workers_setting :: worker_choice
  shard_count :: int
  memory_percent :: int
  tasks_max :: int
  worker_memory_mib :: int
  memory_limit_mib :: "int option"
  physical_percent :: int
  reserve_percent :: int
  reserve_mib :: int
  adaptive :: adaptive_policy
  shuffle :: bool
  shuffle_seed :: "int option"
  telemetry_interval_seconds :: int

definition testing_fields :: "string list" where
  "testing_fields = [''workers'', ''shard_count'', ''memory_percent'', ''tasks_max'', ''worker_memory_mib'',
     ''memory_limit_mib'', ''physical_memory_percent'', ''host_reserve_percent'', ''host_reserve_mib'',
     ''adaptive'', ''shuffle'', ''shuffle_seed'', ''telemetry_interval_seconds'']"

definition worker_choice_of :: "json \<Rightarrow> (py_error, worker_choice) result" where
  "worker_choice_of v =
     (if v = JStr (u ''auto'') then Inr Auto
      else case v of
        JInt i \<Rightarrow> if i < 1 then Inl (ValueError ''testing workers must be 'auto' or a positive integer'')
                  else Inr (Fixed i)
      | _ \<Rightarrow> Inl (ValueError ''testing workers must be 'auto' or a positive integer''))"

definition testing_int :: "(pytext \<times> json) list \<Rightarrow> string \<Rightarrow> int \<Rightarrow> int \<Rightarrow> int \<Rightarrow> string \<Rightarrow> (py_error, int) result" where
  "testing_int obj name d low high bounds =
     bounded_int obj name d low high (''testing '' @ name @ '' must be between '' @ bounds)"

definition optional_int :: "json \<Rightarrow> int \<Rightarrow> int \<Rightarrow> string \<Rightarrow> (py_error, int option) result" where
  "optional_int v low high msg =
     (case v of
        JNull \<Rightarrow> Inr None
      | JInt i \<Rightarrow> if low \<le> i \<and> i \<le> high then Inr (Some i) else Inl (ValueError msg)
      | _ \<Rightarrow> Inl (ValueError msg))"

definition validate_table :: "(pytext \<times> json) list \<Rightarrow> (py_error, test_configuration) result" where
  "validate_table obj =
     rbind (require (only_members obj testing_fields)
             (ValueError ''[tool.localsetup.testing] has unsupported fields'')) (\<lambda>_.
     rbind (worker_choice_of (member_or obj ''workers'' (JStr (u ''auto'')))) (\<lambda>w.
     rbind (testing_int obj ''shard_count'' 1 1 32 ''1 and 32'') (\<lambda>shards.
     rbind (testing_int obj ''memory_percent'' 50 1 50 ''1 and 50'') (\<lambda>memory.
     rbind (testing_int obj ''tasks_max'' 1024 32 4096 ''32 and 4096'') (\<lambda>tasks.
     rbind (testing_int obj ''worker_memory_mib'' 1024 256 65536 ''256 and 65536'') (\<lambda>each.
     rbind (testing_int obj ''physical_memory_percent'' 95 1 95 ''1 and 95'') (\<lambda>physical.
     rbind (testing_int obj ''host_reserve_percent'' 5 1 95 ''1 and 95'') (\<lambda>reserve.
     rbind (testing_int obj ''host_reserve_mib'' 512 1 1048576 ''1 and 1048576'') (\<lambda>mib.
     rbind (optional_int (member_or obj ''memory_limit_mib'' JNull) 512 16777216
             ''testing memory_limit_mib must be between 512 and 16777216'') (\<lambda>limit.
     rbind (case member_or obj ''shuffle'' (JBool True) of
              JBool b \<Rightarrow> Inr b
            | _ \<Rightarrow> Inl (ValueError ''testing shuffle must be boolean'')) (\<lambda>shuf.
     rbind (if member_or obj ''shuffle_seed'' JNull = JNull then Inr None
            else rbind (validate_seed (member_or obj ''shuffle_seed'' JNull)) (\<lambda>s. Inr (Some s))) (\<lambda>seed.
     rbind (testing_int obj ''telemetry_interval_seconds'' 5 1 60 ''1 and 60'') (\<lambda>interval.
     rbind (parse_policy (member_or obj ''adaptive'' JNull)) (\<lambda>pol.
       Inr \<lparr>workers_setting = w, shard_count = shards, memory_percent = memory, tasks_max = tasks,
            worker_memory_mib = each, memory_limit_mib = limit, physical_percent = physical,
            reserve_percent = reserve, reserve_mib = mib, adaptive = pol, shuffle = shuf,
            shuffle_seed = seed, telemetry_interval_seconds = interval\<rparr>))))))))))))))"

fun validate_testing_configuration :: "json \<Rightarrow> (py_error, test_configuration option) result" where
  "validate_testing_configuration JNull = Inr None"
| "validate_testing_configuration (JObj obj) = rbind (validate_table obj) (\<lambda>c. Inr (Some c))"
| "validate_testing_configuration _ = Inl (ValueError ''[tool.localsetup.testing] has unsupported fields'')"

text \<open>The dictionaries the source returns.\<close>

definition policy_json :: "adaptive_policy \<Rightarrow> json" where
  "policy_json p = JObj
     [(u ''enabled'', JBool (enabled p)), (u ''min_workers'', JInt (min_workers p)),
      (u ''target_percent'', JInt (target_percent p)), (u ''recovery_percent'', JInt (recovery_percent p)),
      (u ''critical_percent'', JInt (critical_percent p)), (u ''down_dwell_seconds'', JInt (down_dwell_seconds p)),
      (u ''recovery_dwell_seconds'', JInt (recovery_dwell_seconds p)),
      (u ''cooldown_seconds'', JInt (cooldown_seconds p)),
      (u ''emergency_grace_seconds'', JInt (emergency_grace_seconds p)),
      (u ''sample_seconds'', JInt (sample_seconds p))]"

definition opt_json :: "int option \<Rightarrow> json" where
  "opt_json x = (case x of None \<Rightarrow> JNull | Some i \<Rightarrow> JInt i)"

definition choice_json :: "worker_choice \<Rightarrow> json" where
  "choice_json w = (case w of Auto \<Rightarrow> JStr (u ''auto'') | Fixed i \<Rightarrow> JInt i)"

definition configuration_json :: "test_configuration \<Rightarrow> json" where
  "configuration_json c = JObj
     [(u ''workers'', choice_json (workers_setting c)), (u ''shard_count'', JInt (shard_count c)),
      (u ''memory_percent'', JInt (memory_percent c)), (u ''tasks_max'', JInt (tasks_max c)),
      (u ''worker_memory_mib'', JInt (worker_memory_mib c)), (u ''memory_limit_mib'', opt_json (memory_limit_mib c)),
      (u ''physical_memory_percent'', JInt (physical_percent c)),
      (u ''host_reserve_percent'', JInt (reserve_percent c)), (u ''host_reserve_mib'', JInt (reserve_mib c)),
      (u ''adaptive'', policy_json (adaptive c)), (u ''shuffle'', JBool (shuffle c)),
      (u ''shuffle_seed'', opt_json (shuffle_seed c)),
      (u ''telemetry_interval_seconds'', JInt (telemetry_interval_seconds c))]"

text \<open>The project file's table: absent, unreadable, or its parsed document.\<close>

definition legacy_table :: "(py_error, (pytext \<times> json) list) result option \<Rightarrow> (py_error, json) result" where
  "legacy_table file =
     (case file of
        None \<Rightarrow> Inr JNull
      | Some (Inl e) \<Rightarrow> Inl (ValueError ''invalid testing project configuration'')
      | Some (Inr document) \<Rightarrow>
         (case member_or document ''tool'' (JObj []) of
            JObj tools \<Rightarrow>
              (case member_or tools ''localsetup'' (JObj []) of
                 JObj ls \<Rightarrow> Inr (member_or ls ''testing'' JNull)
               | _ \<Rightarrow> Inl (ValueError ''[tool.localsetup] must be a table''))
          | _ \<Rightarrow> Inl (ValueError ''[tool] must be a table'')))"

section \<open>The number of workers\<close>

definition min_test_workers :: int where
  "min_test_workers = 1"

text \<open>\<open>x or y\<close> on a count that may be absent.\<close>

definition count_or :: "int option \<Rightarrow> int option \<Rightarrow> int option" where
  "count_or x y = (case x of Some n \<Rightarrow> if n \<noteq> 0 then Some n else y | None \<Rightarrow> y)"

text \<open>
  The process's count and its affinity are absent where the platform lacks the call; reading the
  affinity may fail, which counts as zero.
\<close>

definition available_cpu_count :: "int option option \<Rightarrow> int option option \<Rightarrow> int option \<Rightarrow> int option" where
  "available_cpu_count process affinity cpus =
     count_or (case process of None \<Rightarrow> None | Some n \<Rightarrow> n)
       (count_or (case affinity of None \<Rightarrow> None | Some None \<Rightarrow> Some 0 | Some (Some n) \<Rightarrow> Some n) cpus)"

definition effective_max_test_workers :: "int option \<Rightarrow> int option \<Rightarrow> int" where
  "effective_max_test_workers available cpu_count =
     max min_test_workers
       (the (count_or (if cpu_count \<noteq> None then cpu_count else available) (Some min_test_workers)))"

definition clamp_test_workers :: "int option \<Rightarrow> int option \<Rightarrow> int \<Rightarrow> int" where
  "clamp_test_workers available cpu_count v =
     min (effective_max_test_workers available cpu_count) (max min_test_workers v)"

definition default_test_workers :: "int option \<Rightarrow> int option \<Rightarrow> int" where
  "default_test_workers available cpu_count =
     max min_test_workers (effective_max_test_workers available cpu_count div 3)"

definition parse_test_worker_override ::
    "(nat \<Rightarrow> nat option) \<Rightarrow> int option \<Rightarrow> int option \<Rightarrow> string \<Rightarrow> pytext \<Rightarrow> (py_error, int) result" where
  "parse_test_worker_override decimal available cpu_count field v =
     (if strip v = [] then Inl (ValueError (field @ '' must be an integer''))
      else case int10 decimal (strip v) of
        None \<Rightarrow> Inl (ValueError (field @ '' must be an integer''))
      | Some i \<Rightarrow> Inr (clamp_test_workers available cpu_count i))"

datatype override = Number int | Words pytext

definition resolved_test_workers ::
    "(nat \<Rightarrow> nat option) \<Rightarrow> int option \<Rightarrow> override option \<Rightarrow> int option \<Rightarrow> pytext option \<Rightarrow>
     (py_error, test_configuration option) result \<Rightarrow> (py_error, int) result" where
  "resolved_test_workers decimal available over cpu_count env configured =
     (case over of
        Some (Number i) \<Rightarrow> Inr (clamp_test_workers available cpu_count i)
      | Some (Words t) \<Rightarrow> parse_test_worker_override decimal available cpu_count ''--workers'' t
      | None \<Rightarrow>
     (case env of
        Some t \<Rightarrow> parse_test_worker_override decimal available cpu_count ''LOCALSETUP_TEST_WORKERS'' t
      | None \<Rightarrow>
        rbind configured (\<lambda>c.
          case c of
            None \<Rightarrow> Inr (default_test_workers available cpu_count)
          | Some c \<Rightarrow>
             (case workers_setting c of
                Auto \<Rightarrow> Inr (default_test_workers available cpu_count)
              | Fixed i \<Rightarrow> Inr (clamp_test_workers available cpu_count i)))))"

datatype worker_source = From_command_line | From_environment | From_project | Automatic

record workers_payload =
  pl_workers :: int
  pl_source :: worker_source
  pl_available :: "int option"
  pl_min :: int
  pl_max :: int
  pl_configured :: "worker_choice option"
  pl_shard_count :: "int option"
  pl_shard_indices :: "int list"
  pl_per_shard :: "int option"
  pl_max_parallel :: int
  pl_adaptive :: "adaptive_policy option"
  pl_slots :: int
  pl_adaptive_enabled :: bool

definition is_fixed :: "test_configuration option \<Rightarrow> bool" where
  "is_fixed c = (case c of None \<Rightarrow> False | Some c \<Rightarrow> workers_setting c \<noteq> Auto)"

definition test_workers_payload ::
    "(nat \<Rightarrow> nat option) \<Rightarrow> int option \<Rightarrow> override option \<Rightarrow> int option \<Rightarrow> pytext option \<Rightarrow>
     (py_error, test_configuration option) result \<Rightarrow> (py_error, workers_payload) result" where
  "test_workers_payload decimal available over cpu_count env configured =
     rbind configured (\<lambda>c.
     rbind (resolved_test_workers decimal available over cpu_count env configured) (\<lambda>w.
       Inr \<lparr>pl_workers = w,
            pl_source = (if over \<noteq> None then From_command_line else if env \<noteq> None then From_environment
                         else if is_fixed c then From_project else Automatic),
            pl_available = (if cpu_count \<noteq> None then cpu_count else available),
            pl_min = min_test_workers,
            pl_max = effective_max_test_workers available cpu_count,
            pl_configured = map_option workers_setting c,
            pl_shard_count = map_option shard_count c,
            pl_shard_indices = (case c of None \<Rightarrow> [] | Some c \<Rightarrow> [0..shard_count c - 1]),
            pl_per_shard = map_option (\<lambda>_. w) c,
            pl_max_parallel = (case c of None \<Rightarrow> w | Some c \<Rightarrow> min w (shard_count c)),
            pl_adaptive = map_option adaptive c,
            pl_slots = w,
            pl_adaptive_enabled = (1 < w \<and> (case c of None \<Rightarrow> False | Some c \<Rightarrow> enabled (adaptive c)))\<rparr>))"


section \<open>What the validation promises\<close>

definition configuration_ok :: "test_configuration \<Rightarrow> bool" where
  "configuration_ok c \<longleftrightarrow>
     (case workers_setting c of Auto \<Rightarrow> True | Fixed i \<Rightarrow> 1 \<le> i) \<and>
     1 \<le> shard_count c \<and> shard_count c \<le> 32 \<and>
     1 \<le> memory_percent c \<and> memory_percent c \<le> 50 \<and>
     32 \<le> tasks_max c \<and> tasks_max c \<le> 4096 \<and>
     256 \<le> worker_memory_mib c \<and> worker_memory_mib c \<le> 65536 \<and>
     (case memory_limit_mib c of None \<Rightarrow> True | Some i \<Rightarrow> 512 \<le> i \<and> i \<le> 16777216) \<and>
     1 \<le> physical_percent c \<and> physical_percent c \<le> 95 \<and>
     1 \<le> reserve_percent c \<and> reserve_percent c \<le> 95 \<and>
     1 \<le> reserve_mib c \<and> reserve_mib c \<le> 1048576 \<and>
     policy_ok (adaptive c) \<and>
     (case shuffle_seed c of None \<Rightarrow> True | Some i \<Rightarrow> 0 \<le> i \<and> i \<le> max_seed) \<and>
     1 \<le> telemetry_interval_seconds c \<and> telemetry_interval_seconds c \<le> 60"

lemma worker_choice_ok: "worker_choice_of v = Inr w \<Longrightarrow> case w of Auto \<Rightarrow> True | Fixed i \<Rightarrow> 1 \<le> i"
  by (auto simp: worker_choice_of_def split: if_splits json.splits)

lemma testing_int_ok: "testing_int obj name d low high bounds = Inr i \<Longrightarrow> low \<le> i \<and> i \<le> high"
  unfolding testing_int_def by (rule bounded_int_Inr)

lemma optional_int_ok:
  "optional_int v low high msg = Inr x \<Longrightarrow> case x of None \<Rightarrow> True | Some i \<Rightarrow> low \<le> i \<and> i \<le> high"
  by (auto simp: optional_int_def split: if_splits json.splits)

lemma optional_seed_ok:
  "(if v = JNull then Inr None else rbind (validate_seed v) (\<lambda>s. Inr (Some s))) = Inr x \<Longrightarrow>
     case x of None \<Rightarrow> True | Some i \<Rightarrow> 0 \<le> i \<and> i \<le> max_seed"
  by (auto simp: result_simps validate_seed_Inr split: if_splits)

lemma validate_table_ok:
  assumes "validate_table obj = Inr c"
  shows "configuration_ok c"
proof -
  from assms obtain w shards memory tasks each physical reserve mib limit shuf seed interval pol where
    p: "worker_choice_of (member_or obj ''workers'' (JStr (u ''auto''))) = Inr w"
    "testing_int obj ''shard_count'' 1 1 32 ''1 and 32'' = Inr shards"
    "testing_int obj ''memory_percent'' 50 1 50 ''1 and 50'' = Inr memory"
    "testing_int obj ''tasks_max'' 1024 32 4096 ''32 and 4096'' = Inr tasks"
    "testing_int obj ''worker_memory_mib'' 1024 256 65536 ''256 and 65536'' = Inr each"
    "testing_int obj ''physical_memory_percent'' 95 1 95 ''1 and 95'' = Inr physical"
    "testing_int obj ''host_reserve_percent'' 5 1 95 ''1 and 95'' = Inr reserve"
    "testing_int obj ''host_reserve_mib'' 512 1 1048576 ''1 and 1048576'' = Inr mib"
    "optional_int (member_or obj ''memory_limit_mib'' JNull) 512 16777216
             ''testing memory_limit_mib must be between 512 and 16777216'' = Inr limit"
    "(if member_or obj ''shuffle_seed'' JNull = JNull then Inr None
            else rbind (validate_seed (member_or obj ''shuffle_seed'' JNull)) (\<lambda>s. Inr (Some s))) = Inr seed"
    "testing_int obj ''telemetry_interval_seconds'' 5 1 60 ''1 and 60'' = Inr interval"
    "parse_policy (member_or obj ''adaptive'' JNull) = Inr pol"
    and c: "c = \<lparr>workers_setting = w, shard_count = shards, memory_percent = memory, tasks_max = tasks,
            worker_memory_mib = each, memory_limit_mib = limit, physical_percent = physical,
            reserve_percent = reserve, reserve_mib = mib, adaptive = pol, shuffle = shuf,
            shuffle_seed = seed, telemetry_interval_seconds = interval\<rparr>"
    unfolding validate_table_def rbind_Inr_iff sum.inject
    apply (elim exE conjE) apply (rule that) apply (assumption | erule sym)+ done
  show ?thesis
    unfolding configuration_ok_def c test_configuration.simps
    using worker_choice_ok [OF p(1)] testing_int_ok [OF p(2)] testing_int_ok [OF p(3)] testing_int_ok [OF p(4)]
      testing_int_ok [OF p(5)] testing_int_ok [OF p(6)] testing_int_ok [OF p(7)] testing_int_ok [OF p(8)]
      optional_int_ok [OF p(9)] optional_seed_ok [OF p(10)] testing_int_ok [OF p(11)] parse_policy_ok [OF p(12)]
    by blast
qed

section \<open>Validating what the validation returned\<close>

lemma u_eq_iff [simp]: "u s = u t \<longleftrightarrow> s = t"
  by (auto simp: u_def inj_map_eq_map inj_def)

lemma member_or_Cons [simp]:
  "member_or ((u k, v) # obj) name d = (if name = k then v else member_or obj name d)"
  by (simp add: member_or_def member_def)

lemma member_or_Nil [simp]: "member_or [] name d = d"
  by (simp add: member_or_def member_def)

lemma only_members_Cons [simp]:
  "only_members ((u k, v) # obj) names \<longleftrightarrow> k \<in> set names \<and> only_members obj names"
  by (auto simp: only_members_def image_iff)

lemma only_members_Nil [simp]: "only_members [] names"
  by (simp add: only_members_def)

lemma parse_policy_json: "policy_ok p \<Longrightarrow> parse_policy (policy_json p) = Inr p"
  unfolding policy_json_def parse_policy.simps policy_of_def policy_fields_def policy_int_def bounded_int_def policy_ok_def
  by simp

lemma worker_choice_json:
  "(case w of Auto \<Rightarrow> True | Fixed i \<Rightarrow> 1 \<le> i) \<Longrightarrow> worker_choice_of (choice_json w) = Inr w"
  by (cases w) (simp_all add: worker_choice_of_def choice_json_def)

lemma optional_int_json:
  "(case x of None \<Rightarrow> True | Some i \<Rightarrow> low \<le> i \<and> i \<le> high) \<Longrightarrow> optional_int (opt_json x) low high msg = Inr x"
  by (cases x) (simp_all add: optional_int_def opt_json_def)

lemma opt_json_simps: "opt_json None = JNull" "opt_json (Some i) = JInt i"
  by (simp_all add: opt_json_def)

lemma validate_configuration_json:
  "configuration_ok c \<Longrightarrow> validate_testing_configuration (configuration_json c) = Inr (Some c)"
  unfolding configuration_ok_def configuration_json_def validate_testing_configuration.simps validate_table_def
    testing_fields_def testing_int_def bounded_int_def
  by (cases "shuffle_seed c")
    (simp_all add: worker_choice_json optional_int_json opt_json_simps validate_seed_def parse_policy_json)

section \<open>Bounds of the number of workers\<close>

lemma effective_max_pos: "1 \<le> effective_max_test_workers available cpus"
  by (simp add: effective_max_test_workers_def min_test_workers_def)

lemma clamp_bounds: "1 \<le> clamp_test_workers available cpus v \<and>
    clamp_test_workers available cpus v \<le> effective_max_test_workers available cpus"
  using effective_max_pos [of available cpus] by (simp add: clamp_test_workers_def min_test_workers_def)

lemma default_bounds: "1 \<le> default_test_workers available cpus \<and>
    default_test_workers available cpus \<le> effective_max_test_workers available cpus"
  using effective_max_pos [of available cpus] by (auto simp: default_test_workers_def min_test_workers_def)

lemma override_bounds:
  "parse_test_worker_override decimal available cpus field t = Inr w \<Longrightarrow>
     1 \<le> w \<and> w \<le> effective_max_test_workers available cpus"
  using clamp_bounds by (auto simp: parse_test_worker_override_def split: if_splits option.splits)

lemma resolved_bounds:
  assumes "resolved_test_workers decimal available over cpus env configured = Inr w"
  shows "1 \<le> w \<and> w \<le> effective_max_test_workers available cpus"
proof (cases over)
  case (Some r)
  with assms show ?thesis using clamp_bounds override_bounds
    by (cases r) (auto simp: resolved_test_workers_def)
next
  case no: None
  show ?thesis
  proof (cases env)
    case (Some t)
    with assms no show ?thesis using override_bounds by (simp add: resolved_test_workers_def)
  next
    case None
    show ?thesis
    proof (cases configured)
      case (Inl e)
      with assms no None show ?thesis by (simp add: resolved_test_workers_def)
    next
      case (Inr c)
      with assms no None show ?thesis using clamp_bounds default_bounds
        by (cases c) (auto simp: resolved_test_workers_def split: worker_choice.splits)
    qed
  qed
qed



section \<open>Properties\<close>

text \<open>C40. A testing table that validates is within every documented range, and the dictionary the
  validation returns validates again, to the same configuration: the settings can be stored and
  re-read any number of times.\<close>

theorem configuration_round_trip:
  assumes "validate_testing_configuration v = Inr (Some c)"
  shows "configuration_ok c \<and> validate_testing_configuration (configuration_json c) = Inr (Some c)"
proof -
  from assms obtain obj where "validate_table obj = Inr c"
    by (cases v rule: validate_testing_configuration.cases) (auto simp: result_simps)
  then have "configuration_ok c" by (rule validate_table_ok)
  with validate_configuration_json show ?thesis by blast
qed

lemma resolved_source:
  "over = None \<Longrightarrow> env = None \<Longrightarrow> configured = Inr c \<Longrightarrow> \<not> is_fixed c \<Longrightarrow>
     resolved_test_workers decimal available over cpus env configured = Inr (default_test_workers available cpus)"
  by (cases c) (auto simp: resolved_test_workers_def is_fixed_def)

text \<open>The report of the worker count agrees with itself: the number is between one and the
  ceiling the processors give, the named source is the first of command line, environment and
  project that says anything (and without one the number is a third of the ceiling, at least one),
  no more shards run in parallel than there are workers, and adaptive scheduling is on only with
  more than one worker.\<close>

theorem workers_payload_consistent:
  assumes "test_workers_payload decimal available over cpus env configured = Inr pl"
  shows "1 \<le> pl_workers pl \<and> pl_workers pl \<le> pl_max pl \<and> pl_max_parallel pl \<le> pl_workers pl \<and>
    pl_slots pl = pl_workers pl \<and>
    resolved_test_workers decimal available over cpus env configured = Inr (pl_workers pl) \<and>
    (pl_source pl = From_command_line \<longleftrightarrow> over \<noteq> None) \<and>
    (pl_source pl = From_environment \<longleftrightarrow> over = None \<and> env \<noteq> None) \<and>
    (pl_source pl = Automatic \<longrightarrow> pl_workers pl = max 1 (pl_max pl div 3)) \<and>
    (pl_source pl = From_project \<longrightarrow>
       (\<exists>i. pl_configured pl = Some (Fixed i) \<and> pl_workers pl = min (pl_max pl) (max 1 i))) \<and>
    (pl_adaptive_enabled pl \<longrightarrow> 1 < pl_workers pl \<and> pl_adaptive pl \<noteq> None)"
proof -
  from assms obtain c w where c: "configured = Inr c"
    and w: "resolved_test_workers decimal available over cpus env configured = Inr w"
    using that unfolding test_workers_payload_def rbind_Inr_iff by blast
  have pl: "pl_workers pl = w" "pl_max pl = effective_max_test_workers available cpus" "pl_slots pl = w"
      "pl_source pl = (if over \<noteq> None then From_command_line else if env \<noteq> None then From_environment
                         else if is_fixed c then From_project else Automatic)"
      "pl_max_parallel pl = (case c of None \<Rightarrow> w | Some c \<Rightarrow> min w (shard_count c))"
      "pl_configured pl = map_option workers_setting c" "pl_adaptive pl = map_option adaptive c"
      "pl_adaptive_enabled pl = (1 < w \<and> (case c of None \<Rightarrow> False | Some c \<Rightarrow> enabled (adaptive c)))"
    using assms unfolding test_workers_payload_def w unfolding c by auto
  have "w = max 1 (pl_max pl div 3)" if "pl_source pl = Automatic"
    using that resolved_source [OF _ _ c, of over env decimal available cpus] w pl
    by (auto simp: default_test_workers_def min_test_workers_def split: if_splits)
  moreover have "\<exists>i. pl_configured pl = Some (Fixed i) \<and> w = min (pl_max pl) (max 1 i)" if "pl_source pl = From_project"
    using that w c pl
    by (auto simp: is_fixed_def resolved_test_workers_def clamp_test_workers_def min_test_workers_def
        split: if_splits option.splits worker_choice.splits)
  ultimately show ?thesis
    using resolved_bounds [OF w] w pl by (auto split: option.splits)
qed

section \<open>Witnesses\<close>

definition sample_table :: json where
  "sample_table = JObj [(u ''workers'', JInt 6), (u ''shard_count'', JInt 4), (u ''shuffle_seed'', JInt 11),
     (u ''adaptive'', JObj [(u ''min_workers'', JInt 2)])]"

definition sample_configuration :: test_configuration where
  "sample_configuration = the (projr (validate_testing_configuration sample_table))"

lemma sample_configuration:
  "validate_testing_configuration sample_table = Inr (Some sample_configuration)"
  unfolding sample_configuration_def by code_simp

theorem configuration_round_trip_witness:
  "validate_testing_configuration (configuration_json sample_configuration) = Inr (Some sample_configuration)"
  using configuration_round_trip [OF sample_configuration] by blast

definition ascii_digit :: "nat \<Rightarrow> nat option" where
  "ascii_digit c = (if 48 \<le> c \<and> c \<le> 57 then Some (c - 48) else None)"

theorem workers_payload_consistent_witness:
  "\<exists>pl. test_workers_payload ascii_digit (Some 8) None None (Some [32, 49, 95, 48]) (Inr (Some sample_configuration)) = Inr pl
     \<and> 1 \<le> pl_workers pl \<and> pl_workers pl \<le> pl_max pl \<and> pl_source pl = From_environment"
proof -
  have "is_ok (test_workers_payload ascii_digit (Some 8) None None (Some [32, 49, 95, 48]) (Inr (Some sample_configuration)))"
    by code_simp
  then obtain pl where pl: "test_workers_payload ascii_digit (Some 8) None None (Some [32, 49, 95, 48])
      (Inr (Some sample_configuration)) = Inr pl" by (auto simp: is_ok_iff)
  from workers_payload_consistent [OF pl] pl show ?thesis by simp
qed

end
