(* ===== verification/Text_Grammars.thy ===== *)
theory Text_Grammars
  imports Json
begin

text \<open>
  The bounded identifier grammars the protected records share, after the regular expressions of
  \<open>src/ls/core/openpgp/artifact_records.py\<close> and of the modules that reuse them, on code points.
\<close>

definition hex_code :: "nat \<Rightarrow> bool" where
  "hex_code c \<longleftrightarrow> 48 \<le> c \<and> c \<le> 57 \<or> 97 \<le> c \<and> c \<le> 102"

definition digit_code :: "nat \<Rightarrow> bool" where
  "digit_code c \<longleftrightarrow> 48 \<le> c \<and> c \<le> 57"

definition lower_code :: "nat \<Rightarrow> bool" where
  "lower_code c \<longleftrightarrow> 97 \<le> c \<and> c \<le> 122"

definition alnum_code :: "nat \<Rightarrow> bool" where
  "alnum_code c \<longleftrightarrow> lower_code c \<or> 65 \<le> c \<and> c \<le> 90 \<or> digit_code c"

text \<open>\<open>[0-9a-f]{n}\Z\<close>, and \<open>[first][rest]{0,n}\Z\<close>.\<close>

definition hex_text :: "nat \<Rightarrow> pytext \<Rightarrow> bool" where
  "hex_text n s \<longleftrightarrow> length s = n \<and> list_all hex_code s"

definition led_text :: "(nat \<Rightarrow> bool) \<Rightarrow> (nat \<Rightarrow> bool) \<Rightarrow> nat \<Rightarrow> pytext \<Rightarrow> bool" where
  "led_text first rest n s \<longleftrightarrow> (case s of [] \<Rightarrow> False | c # cs \<Rightarrow> first c \<and> list_all rest cs \<and> length cs \<le> n)"

definition opaque_text :: "pytext \<Rightarrow> bool" where
  "opaque_text s \<longleftrightarrow> hex_text 32 s \<and> s \<noteq> replicate 32 48"

definition digest_text :: "pytext \<Rightarrow> bool" where
  "digest_text s \<longleftrightarrow> hex_text 64 s"

text \<open>\<open>[a-zA-Z0-9_.:-]{1,128}\Z\<close>\<close>

definition journal_id :: "pytext \<Rightarrow> bool" where
  "journal_id s \<longleftrightarrow> 1 \<le> length s \<and> length s \<le> 128 \<and>
     list_all (\<lambda>c. alnum_code c \<or> c = 95 \<or> c = 46 \<or> c = 58 \<or> c = 45) s"

text \<open>\<open>split('/')\<close>\<close>

fun split_slash :: "pytext \<Rightarrow> pytext list" where
  "split_slash [] = [[]]"
| "split_slash (c # s) =
     (if c = 47 then [] # split_slash s
      else case split_slash s of [] \<Rightarrow> [[c]] | p # ps \<Rightarrow> (c # p) # ps)"

lemma hex_scalar: "hex_text n s \<Longrightarrow> list_all scalar_value s"
  by (auto simp: hex_text_def list_all_iff hex_code_def scalar_value_def code_point_def surrogate_def)

lemma journal_scalar: "journal_id s \<Longrightarrow> list_all scalar_value s"
  by (auto simp: journal_id_def list_all_iff alnum_code_def lower_code_def digit_code_def scalar_value_def code_point_def surrogate_def)

lemma opaque_text_length: "opaque_text s \<Longrightarrow> length s = 32"
  by (simp add: opaque_text_def hex_text_def)

lemma opaque_text_no_slash: "opaque_text s \<Longrightarrow> 47 \<notin> set s"
  by (auto simp: opaque_text_def hex_text_def list_all_iff hex_code_def)

lemma led_text_chars: "led_text f r n s \<Longrightarrow> c \<in> set s \<Longrightarrow> f c \<or> r c"
  by (cases s) (auto simp: led_text_def list_all_iff)

lemma led_text_length: "led_text f r n s \<Longrightarrow> length s \<le> Suc n"
  by (cases s) (auto simp: led_text_def)

end
