(* ===== verification/Base64.thy ===== *)
theory Base64
  imports Json
begin

text \<open>
  Python's \<open>base64.b64encode\<close> and \<open>base64.b64decode(..., validate=True)\<close> on byte lists, and the
  canonical wrapped blocks the secure containers are made of: lines of at most 57 bytes, each
  encoded on its own, indented and ended by a newline.
\<close>

definition byte_list :: "bytes \<Rightarrow> bool" where
  "byte_list bs \<longleftrightarrow> list_all (\<lambda>b. b < 256) bs"

definition b64_char :: "nat \<Rightarrow> nat" where
  "b64_char n =
     (if n < 26 then 65 + n else if n < 52 then 71 + n else if n < 62 then n - 4
      else if n = 62 then 43 else 47)"

definition b64_value :: "nat \<Rightarrow> nat option" where
  "b64_value c =
     (if 65 \<le> c \<and> c \<le> 90 then Some (c - 65) else if 97 \<le> c \<and> c \<le> 122 then Some (c - 71)
      else if 48 \<le> c \<and> c \<le> 57 then Some (c + 4) else if c = 43 then Some 62
      else if c = 47 then Some 63 else None)"

fun b64encode :: "bytes \<Rightarrow> bytes" where
  "b64encode [] = []"
| "b64encode [a] = [b64_char (a div 4), b64_char (a mod 4 * 16), 61, 61]"
| "b64encode [a, b] = [b64_char (a div 4), b64_char (a mod 4 * 16 + b div 16), b64_char (b mod 16 * 4), 61]"
| "b64encode (a # b # c # r) =
     b64_char (a div 4) # b64_char (a mod 4 * 16 + b div 16) # b64_char (b mod 16 * 4 + c div 64) #
     b64_char (c mod 64) # b64encode r"

definition values4 :: "nat \<Rightarrow> nat \<Rightarrow> nat \<Rightarrow> nat \<Rightarrow> (nat \<times> nat \<times> nat \<times> nat) option" where
  "values4 w x y z =
     (case (b64_value w, b64_value x, b64_value y, b64_value z) of
        (Some a, Some b, Some c, Some d) \<Rightarrow> Some (a, b, c, d)
      | _ \<Rightarrow> None)"

text \<open>Padding is accepted at the end only; the spare bits before it are not looked at.\<close>

fun b64decode :: "bytes \<Rightarrow> bytes option" where
  "b64decode [] = Some []"
| "b64decode (w # x # y # z # r) =
     (if z = 61 \<and> y = 61 then
        (case values4 w x 65 65 of
           Some (a, b, _) \<Rightarrow> if r = [] then Some [a * 4 + b div 16] else None
         | None \<Rightarrow> None)
      else if z = 61 then
        (case values4 w x y 65 of
           Some (a, b, c, _) \<Rightarrow> if r = [] then Some [a * 4 + b div 16, b mod 16 * 16 + c div 4] else None
         | None \<Rightarrow> None)
      else
        (case values4 w x y z of
           Some (a, b, c, d) \<Rightarrow>
             (case b64decode r of
                Some bs \<Rightarrow> Some ((a * 4 + b div 16) # (b mod 16 * 16 + c div 4) # (c mod 4 * 64 + d) # bs)
              | None \<Rightarrow> None)
         | None \<Rightarrow> None))"
| "b64decode _ = None"

section \<open>The encoding\<close>

lemma b64_value_char [simp]: "n < 64 \<Longrightarrow> b64_value (b64_char n) = Some n"
  by (auto simp: b64_value_def b64_char_def)

lemma b64_char_ne [simp]: "n < 64 \<Longrightarrow> b64_char n \<noteq> 61" "n < 64 \<Longrightarrow> b64_char n \<noteq> 10"
    "n < 64 \<Longrightarrow> 61 \<noteq> b64_char n" "n < 64 \<Longrightarrow> 10 \<noteq> b64_char n"
  by (auto simp: b64_char_def)

lemma b64_value_65 [simp]: "b64_value 65 = Some 0"
  by (simp add: b64_value_def)

lemma b64_value_lt: "b64_value c = Some n \<Longrightarrow> n < 64"
  by (auto simp: b64_value_def split: if_splits)

lemma sextets [simp]:
  "a < 256 \<Longrightarrow> a div 4 < (64::nat)" "a mod 4 * 16 < (64::nat)" "b mod 16 * 4 < (64::nat)" "c mod 64 < (64::nat)"
  "b < 256 \<Longrightarrow> a mod 4 * 16 + b div 16 < (64::nat)" "c < 256 \<Longrightarrow> b mod 16 * 4 + c div 64 < (64::nat)"
proof -
  have m: "a mod 4 < 4" "b mod 16 < 16" by simp_all
  then show "a mod 4 * 16 < 64" "b mod 16 * 4 < 64" by linarith+
  show "a < 256 \<Longrightarrow> a div 4 < 64" "c mod 64 < 64" by simp_all
  show "a mod 4 * 16 + b div 16 < 64" if "b < 256"
  proof -
    have "b div 16 < 16" using that by simp
    with m show ?thesis by linarith
  qed
  show "b mod 16 * 4 + c div 64 < 64" if "c < 256"
  proof -
    have "c div 64 < 4" using that by simp
    with m show ?thesis by linarith
  qed
qed

lemma join_first: "a < 256 \<Longrightarrow> b < 256 \<Longrightarrow> a div 4 * 4 + (a mod 4 * 16 + b div 16) div 16 = (a::nat)"
proof -
  assume "b < 256"
  then have "b div 16 < 16" by simp
  then have "(a mod 4 * 16 + b div 16) div 16 = a mod 4" by simp
  then show ?thesis by simp
qed

lemma join_second: "b < 256 \<Longrightarrow> c < 256 \<Longrightarrow>
    (a * 16 + b div 16) mod 16 * 16 + (b mod 16 * 4 + c div 64) div 4 = (b::nat)"
proof -
  assume "b < 256" "c < 256"
  then have "b div 16 < 16" "c div 64 < 4" by simp_all
  then have "(a * 16 + b div 16) mod 16 = b div 16" "(b mod 16 * 4 + c div 64) div 4 = b mod 16" by simp_all
  then show ?thesis by simp
qed

lemma join_third: "c < 256 \<Longrightarrow> (b * 4 + c div 64) mod 4 * 64 + c mod 64 = (c::nat)"
proof -
  assume "c < 256"
  then have "c div 64 < 4" by simp
  then have "(b * 4 + c div 64) mod 4 = c div 64" by simp
  then show ?thesis by simp
qed

lemma b64_round_trip: "byte_list bs \<Longrightarrow> b64decode (b64encode bs) = Some bs"
proof (induction bs rule: b64encode.induct)
  case (2 a)
  then have "(a mod 4 * 16) div 16 = a mod 4" by simp
  with 2 show ?case by (simp add: byte_list_def values4_def)
next
  case (3 a b)
  then show ?case using join_first [of a b] join_second [of b 0 "a mod 4"]
    by (simp add: byte_list_def values4_def)
next
  case (4 a b c r)
  then have l: "a < 256" "b < 256" "c < 256" "b64decode (b64encode r) = Some r" by (simp_all add: byte_list_def)
  then show ?case using join_first [of a b] join_second [of b c "a mod 4"] join_third [of c "b mod 16"]
    by (simp add: values4_def)
qed simp

lemma b64encode_append: "length xs mod 3 = 0 \<Longrightarrow> b64encode (xs @ ys) = b64encode xs @ b64encode ys"
proof (induction xs rule: b64encode.induct)
  case (4 a b c r)
  then show ?case by simp
qed simp_all

lemma b64encode_length: "length (b64encode bs) = 4 * ((length bs + 2) div 3)"
proof (induction bs rule: b64encode.induct)
  case (4 a b c r)
  have "(length (a # b # c # r) + 2) div 3 = Suc ((length r + 2) div 3)" by simp
  with 4 show ?case by simp
qed auto

lemma b64encode_no_newline: "byte_list bs \<Longrightarrow> 10 \<notin> set (b64encode bs)"
proof (induction bs rule: b64encode.induct)
  case (4 a b c r)
  then have "a < 256" "b < 256" "c < 256" "10 \<notin> set (b64encode r)" by (simp_all add: byte_list_def)
  then show ?case by simp
qed (simp_all add: byte_list_def)

lemma b64encode_padding: "byte_list bs \<Longrightarrow> 61 \<in> set (b64encode bs) \<longleftrightarrow> length bs mod 3 \<noteq> 0"
proof (induction bs rule: b64encode.induct)
  case (4 a b c r)
  then have "a < 256" "b < 256" "c < 256" "61 \<in> set (b64encode r) \<longleftrightarrow> length r mod 3 \<noteq> 0"
    by (simp_all add: byte_list_def)
  moreover have "length (a # b # c # r) mod 3 = length r mod 3" by simp
  ultimately show ?case by (simp del: length_Cons)
qed (simp_all add: byte_list_def)

lemma b64encode_Nil_iff [simp]: "b64encode bs = [] \<longleftrightarrow> bs = []"
  by (cases bs rule: b64encode.cases) auto

lemma b64decode_bytes: "b64decode cs = Some bs \<Longrightarrow> byte_list bs"
proof (induction cs arbitrary: bs rule: b64decode.induct)
  case (2 w x y z r)
  have lt: "a * 4 + b div 16 < 256" "b mod 16 * 16 + c div 4 < 256" "c mod 4 * 64 + d < 256"
    if "a < 64" "b < 64" "c < 64" "d < (64::nat)" for a b c d
  proof -
    have "b div 16 < 4" "b mod 16 < 16" "c div 4 < 16" "c mod 4 < 4" using that by auto
    then show "a * 4 + b div 16 < 256" "b mod 16 * 16 + c div 4 < 256" "c mod 4 * 64 + d < 256"
      using that by linarith+
  qed
  from 2 show ?case
    by (auto simp: byte_list_def values4_def intro!: lt dest!: b64_value_lt split: if_splits option.splits)
qed (auto simp: byte_list_def)

section \<open>Cutting a list into pieces\<close>

function chunks :: "nat \<Rightarrow> 'a list \<Rightarrow> 'a list list" where
  "chunks k xs = (if k = 0 \<or> xs = [] then [] else take k xs # chunks k (drop k xs))"
  by auto
termination by (relation "measure (length \<circ> snd)") auto

declare chunks.simps [simp del]

lemma chunks_Nil [simp]: "chunks k [] = []"
  by (simp add: chunks.simps)

lemma chunks_step: "0 < k \<Longrightarrow> xs \<noteq> [] \<Longrightarrow> chunks k xs = take k xs # chunks k (drop k xs)"
  by (simp add: chunks.simps)

lemma concat_chunks: "0 < k \<Longrightarrow> concat (chunks k xs) = xs"
proof (induction k xs rule: chunks.induct)
  case (1 k xs)
  then show ?case by (cases "xs = []") (simp_all add: chunks_step)
qed

lemma chunks_append: "0 < k \<Longrightarrow> length xs mod k = 0 \<Longrightarrow> chunks k (xs @ ys) = chunks k xs @ chunks k ys"
proof (induction k xs rule: chunks.induct)
  case (1 k xs)
  show ?case
  proof (cases "xs = []")
    case False
    with 1(3) have l: "k \<le> length xs" using 1(2)
      by (metis length_greater_0_conv mod_less not_le not_less_iff_gr_or_eq)
    then have "length (drop k xs) mod k = 0" using 1(3) by (simp add: le_mod_geq [symmetric])
    then have "chunks k (drop k xs @ ys) = chunks k (drop k xs) @ chunks k ys" using 1 False by simp
    with False l 1(2) show ?thesis by (simp add: chunks_step)
  qed simp
qed

lemma chunks_nonempty: "c \<in> set (chunks k xs) \<Longrightarrow> c \<noteq> [] \<and> length c \<le> k"
proof (induction k xs rule: chunks.induct)
  case (1 k xs)
  then show ?case by (subst (asm) (2) chunks.simps) (auto split: if_splits)
qed

lemma chunks_eq_Nil [simp]: "0 < k \<Longrightarrow> chunks k xs = [] \<longleftrightarrow> xs = []"
  by (subst chunks.simps) simp

section \<open>Canonical blocks\<close>

text \<open>One line per 57 bytes: the reference the streaming writers are compared with.\<close>

definition block_line :: "bytes \<Rightarrow> bytes \<Rightarrow> bytes" where
  "block_line indent line = indent @ b64encode line @ [10]"

definition block :: "bytes \<Rightarrow> bytes \<Rightarrow> bytes" where
  "block indent bs = concat (map (block_line indent) (chunks 57 bs))"

lemma block_Nil [simp]: "block indent [] = []"
  by (simp add: block_def)

lemma block_step:
  "bs \<noteq> [] \<Longrightarrow> block indent bs = block_line indent (take 57 bs) @ block indent (drop 57 bs)"
  by (simp add: block_def chunks_step)

lemma block_append: "length xs mod 57 = 0 \<Longrightarrow> block indent (xs @ ys) = block indent xs @ block indent ys"
  by (simp add: block_def chunks_append)

lemma block_short: "bs \<noteq> [] \<Longrightarrow> length bs \<le> 57 \<Longrightarrow> block indent bs = block_line indent bs"
  by (simp add: block_step)

lemma chunks_encode: "chunks 76 (b64encode bs) = map b64encode (chunks 57 bs)"
proof (induction "length bs" arbitrary: bs rule: less_induct)
  case less
  show ?case
  proof (cases "bs = []")
    case False
    show ?thesis
    proof (cases "57 \<le> length bs")
      case True
      then have e: "b64encode bs = b64encode (take 57 bs) @ b64encode (drop 57 bs)"
        using b64encode_append [of "take 57 bs" "drop 57 bs"] by simp
      have l: "length (b64encode (take 57 bs)) = 76" using True by (simp add: b64encode_length)
      have "chunks 76 (b64encode (drop 57 bs)) = map b64encode (chunks 57 (drop 57 bs))"
        using less [of "drop 57 bs"] False by simp
      with e l False show ?thesis by (simp add: chunks_step)
    next
      case short: False
      then have "length (b64encode bs) \<le> 76" by (simp add: b64encode_length)
      with False short show ?thesis by (simp add: chunks_step)
    qed
  qed simp
qed

lemma byte_list_chunks: "byte_list bs \<Longrightarrow> c \<in> set (chunks k bs) \<Longrightarrow> byte_list c"
proof (induction k bs rule: chunks.induct)
  case (1 k xs)
  from 1(2) have "byte_list (take k xs)" "byte_list (drop k xs)"
    by (auto simp: byte_list_def list_all_iff dest: in_set_takeD in_set_dropD)
  with 1 show ?case by (subst (asm) (2) chunks.simps) (auto split: if_splits)
qed

end
