(* ===== verification/Decimal.thy ===== *)
theory Decimal
  imports Utf8
begin

text \<open>Python's \<open>str\<close> of a natural number, and that its digits determine it.\<close>

fun decimal :: "nat \<Rightarrow> bytes" where
  "decimal n = (if n < 10 then [48 + n] else decimal (n div 10) @ [48 + n mod 10])"

declare decimal.simps [simp del]

lemma decimal_digits: "list_all (\<lambda>d. 48 \<le> d \<and> d \<le> 57) (decimal n)" "decimal n \<noteq> []"
proof (induction n rule: decimal.induct)
  case (1 n)
  { case 1 then show ?case using "1.IH"(1) by (subst decimal.simps) auto }
  { case 2 then show ?case by (subst decimal.simps) auto }
qed

lemma decimal_lead: "hd (decimal n) = 48 \<Longrightarrow> n = 0"
proof (induction n rule: decimal.induct)
  case (1 n)
  then show ?case
    by (cases "n < 10") (auto simp: decimal.simps [of n] decimal_digits(2))
qed

lemma decimal_value: "foldl (\<lambda>n d. 10 * n + (d - 48)) 0 (decimal n) = n"
proof (induction n rule: decimal.induct)
  case (1 n)
  then show ?case by (cases "n < 10") (simp_all add: decimal.simps [of n])
qed

lemma decimal_unique:
  "ds \<noteq> [] \<Longrightarrow> list_all (\<lambda>d. 48 \<le> d \<and> d \<le> 57) ds \<Longrightarrow> (hd ds = 48 \<longrightarrow> length ds = 1) \<Longrightarrow>
     decimal (foldl (\<lambda>n d. 10 * n + (d - 48)) 0 ds) = ds \<and> (hd ds \<noteq> 48 \<longrightarrow> 0 < foldl (\<lambda>n d. 10 * n + (d - 48)) 0 ds)"
proof (induction ds rule: rev_induct)
  case (snoc d ds)
  show ?case
  proof (cases "ds = []")
    case True
    with snoc.prems show ?thesis by (subst decimal.simps) auto
  next
    case False
    let ?v = "foldl (\<lambda>n d. 10 * n + (d - 48)) 0 ds"
    from snoc.prems False have h: "hd ds \<noteq> 48" "48 \<le> d" "d \<le> 57" "list_all (\<lambda>d. 48 \<le> d \<and> d \<le> 57) ds" by auto
    with snoc.IH False have ih: "decimal ?v = ds" "0 < ?v" by simp_all
    have ten: "(10 * v + e) div 10 = v \<and> (10 * v + e) mod 10 = e" if "e < 10" for v e :: nat using that by simp
    have "d - 48 < 10" using h by simp
    from ten [OF this, of ?v] have dv: "(10 * ?v + (d - 48)) div 10 = ?v" "(10 * ?v + (d - 48)) mod 10 = d - 48" by blast+
    have "decimal (10 * ?v + (d - 48)) = decimal ?v @ [48 + (d - 48)]"
      using ih(2) dv by (subst decimal.simps) simp
    then show ?thesis using ih h False by simp
  qed
qed simp

end
