(* ===== verification/Container_Format.thy ===== *)
theory Container_Format
  imports Base64 Decimal "HOL-Library.List_Lexorder"
begin

text \<open>
  The framing of secure containers (\<open>src/ls/core/openpgp/container_format.py\<close>): a public header
  with the recipients' fingerprints, the encrypted metadata, and the encrypted messages as wrapped
  base64 blocks. Bytes are lists of numbers below 256; a destination is the bytes it has accepted.
  SHA-256 is a parameter, in the hexadecimal form the source stores.
\<close>

datatype format_error =
    Format_error | Limit_error | Unsupported_version nat | Descriptor_error | Source_error | Source_changed | Value_error

record container_limits =
  max_public_header_bytes :: nat
  max_metadata_bytes :: nat
  max_message_bytes :: nat
  max_messages :: nat
  max_recipient_hints :: nat
  max_line_bytes :: nat
  io_chunk_bytes :: nat
  max_container_bytes :: nat
  max_files :: nat
  max_volumes :: nat
  max_total_segments :: nat

definition limits_ok :: "container_limits \<Rightarrow> bool" where
  "limits_ok l \<longleftrightarrow>
     0 < max_public_header_bytes l \<and> 0 < max_metadata_bytes l \<and> 0 < max_message_bytes l \<and>
     0 < max_messages l \<and> 0 < max_recipient_hints l \<and> 0 < max_line_bytes l \<and> 0 < io_chunk_bytes l \<and>
     0 < max_container_bytes l \<and> 0 < max_files l \<and> 0 < max_volumes l \<and> 0 < max_total_segments l"

definition default_limits :: container_limits where
  "default_limits =
     \<lparr>max_public_header_bytes = 64 * 1024, max_metadata_bytes = 16 * 1024 * 1024,
      max_message_bytes = 2 * 1024 * 1024 * 1024, max_messages = 100000, max_recipient_hints = 256,
      max_line_bytes = 4096, io_chunk_bytes = 64 * 1024, max_container_bytes = 8 * 1024 * 1024 * 1024,
      max_files = 100000, max_volumes = 100000, max_total_segments = 1000000\<rparr>"

section \<open>The fixed lines\<close>

definition newline :: bytes where "newline = [10]"
definition format_line :: bytes where "format_line = u ''format: localsetup.secure-container'' @ newline"
definition recipients_line :: bytes where "recipients_line = u ''recipient_hints:'' @ newline"
definition metadata_marker :: bytes where "metadata_marker = u ''metadata: !!binary |'' @ newline"
definition messages_header :: bytes where "messages_header = u ''messages:'' @ newline"
definition message_marker :: bytes where "message_marker = u ''  - !!binary |'' @ newline"
definition container_version :: nat where "container_version = 1"

text \<open>\<open>(0|[1-9][0-9]*)\<close> read back by \<open>int\<close>, which refuses more than 4300 digits.\<close>

definition parse_decimal :: "bytes \<Rightarrow> (format_error, nat) result" where
  "parse_decimal ds =
     (if ds = [] \<or> \<not> list_all (\<lambda>d. 48 \<le> d \<and> d \<le> 57) ds \<or> (hd ds = 48 \<and> length ds \<noteq> 1) then Inl Format_error
      else if 4300 < length ds then Inl Value_error
      else Inr (foldl (\<lambda>n d. 10 * n + (d - 48)) 0 ds))"

definition version_prefix :: bytes where "version_prefix = u ''version: ''"
definition length_prefix :: bytes where "length_prefix = u ''metadata_length: ''"

definition version_line :: bytes where
  "version_line = version_prefix @ decimal container_version @ newline"

definition length_line :: "nat \<Rightarrow> bytes" where
  "length_line n = length_prefix @ decimal n @ newline"

definition hint_prefix :: bytes where "hint_prefix = [32, 32, 45, 32, 39]"

definition hint_line :: "pytext \<Rightarrow> bytes" where
  "hint_line h = hint_prefix @ h @ [39] @ newline"

section \<open>Fingerprints\<close>

definition upper_hex :: "nat \<Rightarrow> bool" where
  "upper_hex c \<longleftrightarrow> 48 \<le> c \<and> c \<le> 57 \<or> 65 \<le> c \<and> c \<le> 70"

definition any_hex :: "nat \<Rightarrow> bool" where
  "any_hex c \<longleftrightarrow> upper_hex c \<or> 97 \<le> c \<and> c \<le> 102"

definition upper :: "nat \<Rightarrow> nat" where
  "upper c = (if 97 \<le> c \<and> c \<le> 122 then c - 32 else c)"

text \<open>Stripping and then dropping spaces is dropping spaces.\<close>

definition normalize_fingerprint :: "pytext \<Rightarrow> pytext option" where
  "normalize_fingerprint v =
     (let ungrouped = filter (\<lambda>c. c \<noteq> 32) v in
      if length ungrouped = 40 \<and> list_all any_hex ungrouped then Some (map upper ungrouped) else None)"

definition fingerprint_ok :: "pytext \<Rightarrow> bool" where
  "fingerprint_ok h \<longleftrightarrow> length h = 40 \<and> list_all upper_hex h"

definition add_hint :: "container_limits \<Rightarrow> pytext list \<Rightarrow> pytext \<Rightarrow> (format_error, pytext list) result" where
  "add_hint limits normalized v =
     (if max_recipient_hints limits \<le> length normalized then Inl Limit_error
      else case normalize_fingerprint v of
        None \<Rightarrow> Inl Format_error
      | Some h \<Rightarrow> Inr (normalized @ [h]))"

definition normalize_hints :: "container_limits \<Rightarrow> pytext list \<Rightarrow> (format_error, pytext list) result" where
  "normalize_hints limits hints =
     rbind (rfold (add_hint limits) [] hints) (\<lambda>normalized.
     rbind (require (normalized \<noteq> []) Format_error) (\<lambda>_.
     rbind (require (distinct normalized) Format_error) (\<lambda>_.
       Inr (sort normalized))))"

section \<open>Writing\<close>

definition emit :: "container_limits \<Rightarrow> bytes \<Rightarrow> bytes \<Rightarrow> (format_error, bytes) result" where
  "emit limits out data =
     (if max_container_bytes limits < length out + length data then Inl Limit_error else Inr (out @ data))"

text \<open>\<open>public\<close>: the public header's size is counted and its bytes go to the public hash.\<close>

definition write_public :: "container_limits \<Rightarrow> bytes \<times> bytes \<Rightarrow> bytes \<Rightarrow> (format_error, bytes \<times> bytes) result" where
  "write_public limits st data =
     (case st of (out, pub) \<Rightarrow>
        if max_public_header_bytes limits < length pub + length data then Inl Limit_error
        else rbind (emit limits out data) (\<lambda>out. Inr (out, pub @ data)))"

definition header_lines :: "pytext list \<Rightarrow> nat \<Rightarrow> bytes list" where
  "header_lines hints n =
     [format_line, version_line, recipients_line] @ map hint_line hints @ [length_line n, metadata_marker]"

definition write_base64_batch :: "container_limits \<Rightarrow> bytes \<Rightarrow> bytes \<Rightarrow> bytes \<Rightarrow> (format_error, bytes) result" where
  "write_base64_batch limits indent out v =
     (if v = [] then Inr out
      else emit limits out (concat (map (\<lambda>l. indent @ l @ [10]) (chunks 76 (b64encode v)))))"

definition batch_bytes :: "container_limits \<Rightarrow> nat" where
  "batch_bytes limits = max 57 (io_chunk_bytes limits div 57 * 57)"

definition write_binary_bytes :: "container_limits \<Rightarrow> bytes \<Rightarrow> bytes \<Rightarrow> bytes \<Rightarrow> (format_error, bytes) result" where
  "write_binary_bytes limits indent out v =
     rfold (write_base64_batch limits indent) out (chunks (batch_bytes limits) v)"

text \<open>A message is bytes, or a stream given by the blocks its \<open>read\<close> returns, empty at its end.\<close>

datatype message = Whole bytes | Stream "bytes list"

definition message_blocks :: "container_limits \<Rightarrow> message \<Rightarrow> bytes list" where
  "message_blocks limits m =
     (case m of Whole bs \<Rightarrow> chunks (io_chunk_bytes limits) bs | Stream blocks \<Rightarrow> takeWhile (\<lambda>b. b \<noteq> []) blocks)"

record stream_writer =
  sw_out :: bytes
  sw_content :: bytes
  sw_carry :: bytes
  sw_lines :: "bytes list"
  sw_size :: nat

definition write_block :: "container_limits \<Rightarrow> bytes \<Rightarrow> stream_writer \<Rightarrow> bytes \<Rightarrow> (format_error, stream_writer) result" where
  "write_block limits indent w blk =
     (if blk = [] then Inr w
      else if max_message_bytes limits < length (sw_content w) + length blk then Inl Limit_error
      else
        (let carry = sw_carry w @ blk;
             complete = length carry div 57 * 57;
             w = w\<lparr>sw_content := sw_content w @ blk\<rparr>
         in if complete = 0 then Inr (w\<lparr>sw_carry := carry\<rparr>)
            else
              (let encoded = b64encode (take complete carry);
                   lns = sw_lines w @ map (\<lambda>l. indent @ l @ [10]) (chunks 76 encoded);
                   size = sw_size w + length encoded div 76 * (length indent + 76 + 1);
                   w = w\<lparr>sw_carry := drop complete carry\<rparr>
               in if io_chunk_bytes limits \<le> size
                  then rbind (emit limits (sw_out w) (concat lns)) (\<lambda>out.
                         Inr (w\<lparr>sw_out := out, sw_lines := [], sw_size := 0\<rparr>))
                  else Inr (w\<lparr>sw_lines := lns, sw_size := size\<rparr>))))"

definition write_binary_stream ::
    "container_limits \<Rightarrow> bytes \<Rightarrow> bytes \<Rightarrow> message \<Rightarrow> (format_error, bytes \<times> bytes) result" where
  "write_binary_stream limits indent out m =
     rbind (rfold (write_block limits indent)
              \<lparr>sw_out = out, sw_content = [], sw_carry = [], sw_lines = [], sw_size = 0\<rparr>
              (message_blocks limits m)) (\<lambda>w.
     let lns = (if sw_carry w = [] then sw_lines w else sw_lines w @ [indent @ b64encode (sw_carry w) @ [10]])
     in if lns = [] then Inr (sw_out w, sw_content w)
        else rbind (emit limits (sw_out w) (concat lns)) (\<lambda>out. Inr (out, sw_content w)))"

record message_descriptor =
  message_index :: nat
  offset :: nat
  serialized_length :: nat
  ciphertext_length :: nat
  sha256 :: string

definition hex64 :: "string \<Rightarrow> bool" where
  "hex64 s \<longleftrightarrow> length s = 64 \<and>
     list_all (\<lambda>c. (CHR ''0'' \<le> c \<and> c \<le> CHR ''9'') \<or> (CHR ''a'' \<le> c \<and> c \<le> CHR ''f'')) s"

definition message_descriptor_new ::
    "nat \<Rightarrow> nat \<Rightarrow> nat \<Rightarrow> nat \<Rightarrow> string \<Rightarrow> (format_error, message_descriptor) result" where
  "message_descriptor_new i off ser len dig =
     (if hex64 dig
      then Inr \<lparr>message_index = i, offset = off, serialized_length = ser, ciphertext_length = len, sha256 = dig\<rparr>
      else Inl Value_error)"

abbreviation message_indent :: bytes where "message_indent \<equiv> [32, 32, 32, 32]"
abbreviation metadata_indent :: bytes where "metadata_indent \<equiv> [32, 32]"

definition write_message ::
    "(bytes \<Rightarrow> string) \<Rightarrow> container_limits \<Rightarrow> nat \<Rightarrow> bytes \<times> message_descriptor list \<Rightarrow> message \<Rightarrow>
     (format_error, bytes \<times> message_descriptor list) result" where
  "write_message sha limits messages_offset st m =
     (case st of (out, descriptors) \<Rightarrow>
        rbind (require (length descriptors < max_messages limits) Limit_error) (\<lambda>_.
        rbind (emit limits out message_marker) (\<lambda>out1.
        rbind (write_binary_stream limits message_indent out1 m) (\<lambda>(out2, content).
        rbind (require (content \<noteq> []) Format_error) (\<lambda>_.
        rbind (message_descriptor_new (length descriptors) (length out - messages_offset)
                 (length out2 - length out) (length content) (sha content)) (\<lambda>d.
          Inr (out2, descriptors @ [d])))))))"

record write_result =
  message_descriptors :: "message_descriptor list"
  written_length :: nat
  public_header_sha256 :: string

definition write_container ::
    "(bytes \<Rightarrow> string) \<Rightarrow> container_limits \<Rightarrow> pytext list \<Rightarrow> bytes \<Rightarrow> message list \<Rightarrow>
     (format_error, bytes \<times> write_result) result" where
  "write_container sha limits recipient_hints metadata messages =
     rbind (require (metadata \<noteq> []) Format_error) (\<lambda>_.
     rbind (require (length metadata \<le> max_metadata_bytes limits) Limit_error) (\<lambda>_.
     rbind (normalize_hints limits recipient_hints) (\<lambda>hints.
     rbind (rfold (write_public limits) ([], []) (header_lines hints (length metadata))) (\<lambda>(out, pub).
     rbind (write_binary_bytes limits metadata_indent out metadata) (\<lambda>out.
     rbind (emit limits out messages_header) (\<lambda>out1.
     rbind (rfold (write_message sha limits (length out)) (out1, []) messages) (\<lambda>(out2, descriptors).
     rbind (require (descriptors \<noteq> []) Format_error) (\<lambda>_.
       Inr (out2, \<lparr>message_descriptors = descriptors, written_length = length out2,
                   public_header_sha256 = sha pub\<rparr>)))))))))"

section \<open>Sources\<close>

text \<open>
  A source answers size and range requests. Its contents do not change while it is read, so the
  source's comparisons of two observations of the size are not repeated here.
\<close>

record range_source =
  rs_size :: nat
  rs_read :: "nat \<Rightarrow> nat \<Rightarrow> (format_error, bytes) result"

definition bytes_source :: "bytes \<Rightarrow> range_source" where
  "bytes_source data =
     \<lparr>rs_size = length data,
      rs_read = (\<lambda>off len. if length data < off + len then Inl Source_error else Inr (take len (drop off data)))\<rparr>"

definition read_exact :: "range_source \<Rightarrow> nat \<Rightarrow> nat \<Rightarrow> (format_error, bytes) result" where
  "read_exact src off len =
     (if rs_size src < off + len then Inl Format_error
      else rbind (rs_read src off len) (\<lambda>data.
           if length data \<noteq> len then Inl Source_error else Inr data))"

lemma read_exact_bound: "read_exact src off len = Inr data \<Longrightarrow> off + len \<le> rs_size src"
  by (auto simp: read_exact_def split: if_splits)

lemma read_exact_length: "read_exact src off len = Inr data \<Longrightarrow> length data = len"
  by (auto simp: read_exact_def result_simps split: if_splits)

section \<open>Reading the header\<close>

function read_line_from :: "range_source \<Rightarrow> nat \<Rightarrow> nat \<Rightarrow> bytes \<Rightarrow> (format_error, bytes \<times> nat) result" where
  "read_line_from src mx pos data =
     (if length data < mx \<and> pos < rs_size src then
        rbind (read_exact src pos 1) (\<lambda>b.
          if b = [10] then Inr (data @ b, pos + 1) else read_line_from src mx (pos + 1) (data @ b))
      else if mx \<le> length data then Inl Limit_error
      else Inl Format_error)"
  by auto
termination by (relation "measure (\<lambda>(src, mx, pos, data). rs_size src - pos)") auto

declare read_line_from.simps [simp del]

definition read_line_with_prefix ::
    "range_source \<Rightarrow> nat \<Rightarrow> bytes \<Rightarrow> nat \<Rightarrow> (format_error, bytes \<times> nat) result" where
  "read_line_with_prefix src off prefix mx =
     (if mx < length prefix then Inl Limit_error else read_line_from src mx (off + length prefix) prefix)"

definition read_line :: "range_source \<Rightarrow> nat \<Rightarrow> nat \<Rightarrow> (format_error, bytes \<times> nat) result" where
  "read_line src off mx = read_line_with_prefix src off [] mx"

text \<open>The regular expressions of the form \<open>prefix(0|[1-9][0-9]*)\n\Z\<close>.\<close>

definition numbered_line :: "bytes \<Rightarrow> bytes \<Rightarrow> (format_error, nat) result" where
  "numbered_line prefix line =
     (if take (length prefix) line = prefix \<and> length prefix < length line \<and> last line = 10
      then parse_decimal (drop (length prefix) (butlast line))
      else Inl Format_error)"

definition check_public_header_size :: "container_limits \<Rightarrow> bytes \<Rightarrow> (format_error, unit) result" where
  "check_public_header_size limits pub = require (length pub \<le> max_public_header_bytes limits) Limit_error"

definition match_hint :: "bytes \<Rightarrow> pytext option" where
  "match_hint line =
     (let h = take 40 (drop 5 line) in
      if length line = 47 \<and> take 5 line = hint_prefix \<and> list_all upper_hex h \<and> drop 45 line = [39, 10] then Some h else None)"

function read_hints ::
    "container_limits \<Rightarrow> range_source \<Rightarrow> nat \<Rightarrow> pytext list \<Rightarrow> bytes \<Rightarrow>
     (format_error, pytext list \<times> nat \<times> nat \<times> bytes) result" where
  "read_hints limits src pos hints pub =
     rbind (read_exact src pos 5) (\<lambda>probe.
       if probe = hint_prefix then
         rbind (read_exact src (pos + 5) 42) (\<lambda>rest.
         if max_recipient_hints limits \<le> length hints then Inl Limit_error
         else case match_hint (probe @ rest) of
           None \<Rightarrow> Inl Format_error
         | Some h \<Rightarrow>
             rbind (check_public_header_size limits (pub @ probe @ rest)) (\<lambda>_.
               read_hints limits src (pos + length (probe @ rest)) (hints @ [h]) (pub @ probe @ rest)))
       else
         rbind (read_line_with_prefix src pos probe (max_line_bytes limits)) (\<lambda>(line, pos).
         rbind (numbered_line length_prefix line) (\<lambda>n.
         rbind (check_public_header_size limits (pub @ line)) (\<lambda>_.
           Inr (hints, n, pos, pub @ line)))))"
  by pat_completeness auto
termination
  by (relation "measure (\<lambda>(limits, src, pos, hints, pub). rs_size src - pos)")
    (auto dest!: read_exact_bound simp: hint_prefix_def)

declare read_hints.simps [simp del]

section \<open>Binary blocks\<close>

definition block_length :: "bytes \<Rightarrow> nat \<Rightarrow> nat" where
  "block_length indent n =
     (let encoded = 4 * ((n + 2) div 3); line_count = (encoded + 75) div 76
      in length indent * line_count + encoded + line_count)"

definition decode_canonical_base64 :: "bytes \<Rightarrow> (format_error, bytes) result" where
  "decode_canonical_base64 encoded =
     (if encoded = [] \<or> 76 < length encoded \<or> length encoded mod 4 \<noteq> 0 then Inl Format_error
      else case b64decode encoded of
        None \<Rightarrow> Inl Format_error
      | Some decoded \<Rightarrow> if b64encode decoded \<noteq> encoded then Inl Format_error else Inr decoded)"

text \<open>
  The loops of \<open>_read_binary_block\<close> and of \<open>_copy_binary_block_to\<close> are the same but for the error
  they raise: lines are decoded out of groups of about the configured chunk size.
\<close>

primrec block_rows ::
    "format_error \<Rightarrow> bytes \<Rightarrow> nat \<Rightarrow> bytes \<Rightarrow> nat \<Rightarrow> nat \<Rightarrow> nat \<Rightarrow> bytes \<Rightarrow> (format_error, nat \<times> bytes) result" where
  "block_rows err indent amount raw 0 cursor chars dec = Inr (cursor, dec)"
| "block_rows err indent amount raw (Suc rows) cursor chars dec =
     (let cnt = min chars 76;
          line_size = length indent + cnt + 1;
          line = take line_size (drop cursor raw)
      in if take (length indent) line \<noteq> indent \<or> line = [] \<or> last line \<noteq> 10 then Inl err
         else rbind (decode_canonical_base64 (drop (length indent) (butlast line))) (\<lambda>decoded.
              if length decoded \<noteq> min 57 (amount - length dec) then Inl err
              else block_rows err indent amount raw rows (cursor + line_size) (chars - cnt) (dec @ decoded)))"

definition lines_per_group :: "container_limits \<Rightarrow> bytes \<Rightarrow> nat" where
  "lines_per_group limits indent = max 1 (io_chunk_bytes limits div (length indent + 76 + 1))"

definition group_lines :: "container_limits \<Rightarrow> bytes \<Rightarrow> nat \<Rightarrow> nat" where
  "group_lines limits indent chars = min (lines_per_group limits indent) ((chars + 75) div 76)"

definition group_chars :: "container_limits \<Rightarrow> bytes \<Rightarrow> nat \<Rightarrow> nat" where
  "group_chars limits indent chars = min chars (group_lines limits indent chars * 76)"

lemma group_lines_pos: "0 < chars \<Longrightarrow> 0 < group_lines limits indent chars"
proof -
  assume "0 < chars"
  then have "1 \<le> (chars + 75) div 76" by linarith
  then show ?thesis by (simp add: group_lines_def lines_per_group_def)
qed

lemma group_chars_pos: "0 < chars \<Longrightarrow> 0 < group_chars limits indent chars"
  using group_lines_pos by (simp add: group_chars_def)

function block_groups ::
    "format_error \<Rightarrow> container_limits \<Rightarrow> range_source \<Rightarrow> bytes \<Rightarrow> nat \<Rightarrow> nat \<Rightarrow> nat \<Rightarrow> bytes \<Rightarrow>
     (format_error, nat \<times> bytes) result" where
  "block_groups err limits src indent amount pos chars_left dec =
     (if chars_left = 0 then Inr (pos, dec)
      else
        (let line_count = group_lines limits indent chars_left;
             group = group_chars limits indent chars_left;
             group_bytes = length indent * line_count + group + line_count
         in rbind (read_exact src pos group_bytes) (\<lambda>raw.
            rbind (block_rows err indent amount raw line_count 0 group dec) (\<lambda>(cursor, dec).
            if cursor \<noteq> length raw then Inl err
            else block_groups err limits src indent amount (pos + group_bytes) (chars_left - group) dec))))"
  by pat_completeness auto
termination
  by (relation "measure (\<lambda>(err, limits, src, indent, amount, pos, chars_left, dec). chars_left)")
    (simp_all add: group_chars_pos)

declare block_groups.simps [simp del]

definition read_binary_block ::
    "container_limits \<Rightarrow> range_source \<Rightarrow> nat \<Rightarrow> nat \<Rightarrow> bytes \<Rightarrow> nat \<Rightarrow> (format_error, bytes \<times> nat) result" where
  "read_binary_block limits src off n indent mx =
     (if mx < n then Inl Limit_error
      else if rs_size src < off + block_length indent n then Inl Format_error
      else rbind (block_groups Format_error limits src indent n off (4 * ((n + 2) div 3)) []) (\<lambda>(pos, dec).
           if length dec \<noteq> n then Inl Format_error else Inr (dec, pos)))"

definition copy_binary_block_to ::
    "container_limits \<Rightarrow> range_source \<Rightarrow> nat \<Rightarrow> nat \<Rightarrow> bytes \<Rightarrow> (format_error, bytes) result" where
  "copy_binary_block_to limits src off n indent =
     (if rs_size src < off + block_length indent n then Inl Descriptor_error
      else rbind (block_groups Descriptor_error limits src indent n off (4 * ((n + 2) div 3)) []) (\<lambda>(pos, dec).
           if length dec \<noteq> n \<or> pos \<noteq> off + block_length indent n then Inl Descriptor_error else Inr dec))"

section \<open>The header\<close>

record container_header =
  recipient_hints :: "pytext list"
  encrypted_metadata :: bytes
  messages_offset :: nat
  canonical_public_header :: bytes

definition expect :: "range_source \<Rightarrow> nat \<Rightarrow> bytes \<Rightarrow> (format_error, unit) result" where
  "expect src pos line =
     rbind (read_exact src pos (length line)) (\<lambda>data. require (data = line) Format_error)"

definition read_metadata :: "container_limits \<Rightarrow> range_source \<Rightarrow> (format_error, container_header) result" where
  "read_metadata limits src =
     rbind (expect src 0 format_line) (\<lambda>_.
     rbind (read_line src (length format_line) (max_line_bytes limits)) (\<lambda>(line, pos).
     rbind (numbered_line version_prefix line) (\<lambda>version.
     rbind (require (version = container_version) (Unsupported_version version)) (\<lambda>_.
     rbind (expect src pos recipients_line) (\<lambda>_.
     rbind (read_hints limits src (pos + length recipients_line) [] (format_line @ line @ recipients_line))
       (\<lambda>(hints, n, pos, pub).
     rbind (require (hints \<noteq> []) Format_error) (\<lambda>_.
     rbind (require (hints = sort (remdups hints)) Format_error) (\<lambda>_.
     rbind (require (0 < n) Format_error) (\<lambda>_.
     rbind (require (n \<le> max_metadata_bytes limits) Limit_error) (\<lambda>_.
     rbind (expect src pos metadata_marker) (\<lambda>_.
     rbind (check_public_header_size limits (pub @ metadata_marker)) (\<lambda>_.
     rbind (read_binary_block limits src (pos + length metadata_marker) n metadata_indent (max_metadata_bytes limits))
       (\<lambda>(metadata, pos).
     rbind (expect src pos messages_header) (\<lambda>_.
     if rs_size src \<le> pos + length messages_header then Inl Format_error
     else Inr \<lparr>recipient_hints = hints, encrypted_metadata = metadata, messages_offset = pos,
               canonical_public_header = pub @ metadata_marker\<rparr>))))))))))))))"

definition same_header :: "container_header \<Rightarrow> container_header \<Rightarrow> bool" where
  "same_header h h' \<longleftrightarrow> canonical_public_header h = canonical_public_header h' \<and>
     encrypted_metadata h = encrypted_metadata h' \<and> messages_offset h = messages_offset h'"

section \<open>Reading one message\<close>

definition copy_message ::
    "(bytes \<Rightarrow> string) \<Rightarrow> container_limits \<Rightarrow> range_source \<Rightarrow> container_header \<Rightarrow> message_descriptor \<Rightarrow>
     nat option \<Rightarrow> (format_error, bytes) result" where
  "copy_message sha limits src header d expected_index =
     rbind (require (case expected_index of None \<Rightarrow> True | Some i \<Rightarrow> message_index d = i) Descriptor_error) (\<lambda>_.
     rbind (require (message_index d < max_messages limits) Limit_error) (\<lambda>_.
     rbind (require (0 < ciphertext_length d \<and> ciphertext_length d \<le> max_message_bytes limits) Limit_error) (\<lambda>_.
     rbind (require (serialized_length d = length message_marker + block_length message_indent (ciphertext_length d))
             Descriptor_error) (\<lambda>_.
     rbind (require (length messages_header \<le> offset d) Descriptor_error) (\<lambda>_.
     rbind (read_metadata limits src) (\<lambda>observed.
     rbind (require (same_header observed header) Source_changed) (\<lambda>_.
     let start = messages_offset header + offset d in
     rbind (require (start + serialized_length d \<le> rs_size src) Descriptor_error) (\<lambda>_.
     rbind (read_exact src start (length message_marker)) (\<lambda>marker.
     rbind (require (marker = message_marker) Descriptor_error) (\<lambda>_.
     rbind (copy_binary_block_to limits src (start + length message_marker) (ciphertext_length d) message_indent) (\<lambda>content.
     rbind (require (length content = ciphertext_length d) Descriptor_error) (\<lambda>_.
     rbind (require (sha content = sha256 d) Descriptor_error) (\<lambda>_.
       Inr content)))))))))))))"

section \<open>Scanning all messages\<close>

definition request_size :: "container_limits \<Rightarrow> range_source \<Rightarrow> nat \<Rightarrow> bytes \<Rightarrow> nat" where
  "request_size limits src pos collected =
     min (io_chunk_bytes limits) (min (max_line_bytes limits + 1 - length collected) (rs_size src - pos))"

function read_stream_line_from ::
    "container_limits \<Rightarrow> range_source \<Rightarrow> nat \<Rightarrow> bytes \<Rightarrow> (format_error, bytes \<times> nat) result" where
  "read_stream_line_from limits src pos collected =
     (if pos < rs_size src then
        (if request_size limits src pos collected = 0 then Inl Limit_error
         else rbind (read_exact src pos (request_size limits src pos collected)) (\<lambda>chunk.
           if 10 \<in> set chunk then
             (let head = takeWhile (\<lambda>b. b \<noteq> 10) chunk @ [10] in
              if max_line_bytes limits < length (collected @ head) then Inl Limit_error
              else Inr (collected @ head, pos + length head))
           else if max_line_bytes limits \<le> length (collected @ chunk) then Inl Limit_error
           else read_stream_line_from limits src (pos + length chunk) (collected @ chunk)))
      else Inl Format_error)"
  by pat_completeness auto
termination
  by (relation "measure (\<lambda>(limits, src, pos, collected). rs_size src - pos)")
    (simp_all, drule read_exact_length, simp)

declare read_stream_line_from.simps [simp del]

definition read_stream_line :: "container_limits \<Rightarrow> range_source \<Rightarrow> nat \<Rightarrow> (format_error, bytes \<times> nat) result" where
  "read_stream_line limits src off =
     (if rs_size src \<le> off then Inl Format_error else read_stream_line_from limits src off [])"

definition parse_binary_line :: "bytes \<Rightarrow> bytes \<Rightarrow> (format_error, bytes) result" where
  "parse_binary_line indent line =
     (if line = [] \<or> last line \<noteq> 10 \<or> take (length indent) line \<noteq> indent then Inl Format_error
      else
        (let encoded = drop (length indent) (butlast line) in
         if encoded = [] \<or> 76 < length encoded \<or> length encoded mod 4 \<noteq> 0 then Inl Format_error else Inr encoded))"

record line_state =
  previous_short :: bool
  previous_padded :: bool
  scanned :: bytes

definition scan_line :: "container_limits \<Rightarrow> line_state \<Rightarrow> bytes \<Rightarrow> (format_error, line_state) result" where
  "scan_line limits st line =
     rbind (require (take 3 line \<noteq> [32, 32, 45]) Format_error) (\<lambda>_.
     rbind (require (\<not> previous_padded st) Format_error) (\<lambda>_.
     rbind (parse_binary_line message_indent line) (\<lambda>encoded.
     rbind (require (\<not> previous_short st) Format_error) (\<lambda>_.
     rbind (decode_canonical_base64 encoded) (\<lambda>decoded.
     rbind (require (\<not> (length encoded = 76 \<and> 61 \<notin> set encoded \<and> length decoded \<noteq> 57)) Format_error) (\<lambda>_.
     rbind (require (\<not> (length encoded = 76 \<and> 61 \<in> set encoded \<and> length decoded \<notin> {55, 56})) Format_error) (\<lambda>_.
     rbind (require (length (scanned st @ decoded) \<le> max_message_bytes limits) Limit_error) (\<lambda>_.
       Inr \<lparr>previous_short = length encoded < 76, previous_padded = 61 \<in> set encoded,
            scanned = scanned st @ decoded\<rparr>))))))))"

lemma read_stream_line_progress:
  "read_stream_line_from limits src pos collected = Inr (line, next) \<Longrightarrow> pos < next"
proof (induction limits src pos collected rule: read_stream_line_from.induct)
  case (1 limits src pos collected)
  from 1(2) show ?case
    by (subst (asm) read_stream_line_from.simps)
      (auto simp: Let_def result_simps split: if_splits dest!: 1(1) [rotated -1])
qed

text \<open>
  The lines of one message, up to the next marker (which the source keeps for the next round and
  the model reads again there) or the end of the container.
\<close>

function scan_lines ::
    "container_limits \<Rightarrow> range_source \<Rightarrow> nat \<Rightarrow> line_state \<Rightarrow> (format_error, nat \<times> line_state) result" where
  "scan_lines limits src pos st =
     (if pos < rs_size src then
        rbind (read_stream_line limits src pos) (\<lambda>(line, next).
          if line = message_marker then Inr (pos, st)
          else rbind (scan_line limits st line) (\<lambda>st. scan_lines limits src next st))
      else Inr (pos, st))"
  by pat_completeness auto
termination
  by (relation "measure (\<lambda>(limits, src, pos, st). rs_size src - pos)")
    (auto simp: read_stream_line_def split: if_splits dest: read_stream_line_progress)

declare scan_lines.simps [simp del]

lemma scan_lines_progress: "scan_lines limits src pos st = Inr (p, st') \<Longrightarrow> pos \<le> p"
proof (induction limits src pos st rule: scan_lines.induct)
  case (1 limits src pos st)
  show ?case
  proof (cases "pos < rs_size src")
    case False
    with 1(2) show ?thesis by (subst (asm) scan_lines.simps) simp
  next
    case True
    with 1(2) obtain line nxt where l: "read_stream_line limits src pos = Inr (line, nxt)"
      and r: "(if line = message_marker then Inr (pos, st)
          else rbind (scan_line limits st line) (\<lambda>st. scan_lines limits src nxt st)) = Inr (p, st')"
      by (subst (asm) scan_lines.simps) (auto simp: result_simps)
    have "pos < nxt" using l by (auto simp: read_stream_line_def split: if_splits dest: read_stream_line_progress)
    show ?thesis
    proof (cases "line = message_marker")
      case True
      with r show ?thesis by simp
    next
      case False
      with r obtain st1 where "scan_line limits st line = Inr st1" "scan_lines limits src nxt st1 = Inr (p, st')"
        by (auto simp: result_simps)
      with 1(1) [OF True l refl False] \<open>pos < nxt\<close> show ?thesis by fastforce
    qed
  qed
qed

function scan_messages ::
    "(bytes \<Rightarrow> string) \<Rightarrow> container_limits \<Rightarrow> range_source \<Rightarrow> nat \<Rightarrow> nat \<Rightarrow> message_descriptor list \<Rightarrow>
     (format_error, message_descriptor list) result" where
  "scan_messages sha limits src base pos descriptors =
     (if pos < rs_size src then
        rbind (require (length descriptors < max_messages limits) Limit_error) (\<lambda>_.
        rbind (read_stream_line limits src pos) (\<lambda>(first, next).
        rbind (require (first = message_marker) Format_error) (\<lambda>_.
        rbind (scan_lines limits src next \<lparr>previous_short = False, previous_padded = False, scanned = []\<rparr>) (\<lambda>(stop, st).
        rbind (require (scanned st \<noteq> []) Format_error) (\<lambda>_.
        rbind (require (stop - pos = length message_marker + block_length message_indent (length (scanned st))) Format_error) (\<lambda>_.
        rbind (message_descriptor_new (length descriptors) (pos - base) (stop - pos) (length (scanned st)) (sha (scanned st))) (\<lambda>d.
          scan_messages sha limits src base stop (descriptors @ [d]))))))))
      else Inr descriptors)"
  by pat_completeness auto
termination
proof (relation "measure (\<lambda>(sha, limits, src, base, pos, descriptors). rs_size src - pos)", goal_cases)
  case (2 sha limits src base pos descriptors x xa y nxt xb xc stop st xd xe d)
  have "pos < nxt" using 2 by (auto simp: read_stream_line_def split: if_splits dest: read_stream_line_progress)
  moreover have "nxt \<le> stop" using 2 by (auto dest: scan_lines_progress)
  ultimately show ?case using 2(1) by simp
qed simp

declare scan_messages.simps [simp del]

definition scan_message_descriptors ::
    "(bytes \<Rightarrow> string) \<Rightarrow> container_limits \<Rightarrow> range_source \<Rightarrow> container_header option \<Rightarrow>
     (format_error, message_descriptor list) result" where
  "scan_message_descriptors sha limits src header =
     rbind (read_metadata limits src) (\<lambda>observed.
     rbind (require (case header of None \<Rightarrow> True | Some h \<Rightarrow> same_header observed h) Source_changed) (\<lambda>_.
     rbind (require (rs_size src \<le> max_container_bytes limits) Limit_error) (\<lambda>_.
     rbind (scan_messages sha limits src (messages_offset observed)
              (messages_offset observed + length messages_header) []) (\<lambda>descriptors.
     rbind (require (descriptors \<noteq> []) Format_error) (\<lambda>_.
       Inr descriptors)))))"

section \<open>The canonical serialization\<close>

text \<open>What a container of given recipients, metadata and messages is, without any streaming.\<close>

definition header_bytes :: "pytext list \<Rightarrow> nat \<Rightarrow> bytes" where
  "header_bytes hints n = concat (header_lines hints n)"

definition message_bytes :: "bytes \<Rightarrow> bytes" where
  "message_bytes m = message_marker @ block message_indent m"

definition messages_bytes :: "bytes list \<Rightarrow> bytes" where
  "messages_bytes msgs = messages_header @ concat (map message_bytes msgs)"

definition container_bytes :: "pytext list \<Rightarrow> bytes \<Rightarrow> bytes list \<Rightarrow> bytes" where
  "container_bytes hints metadata msgs =
     header_bytes hints (length metadata) @ block metadata_indent metadata @ messages_bytes msgs"

fun descriptors_from :: "(bytes \<Rightarrow> string) \<Rightarrow> nat \<Rightarrow> nat \<Rightarrow> bytes list \<Rightarrow> message_descriptor list" where
  "descriptors_from sha i off [] = []"
| "descriptors_from sha i off (m # ms) =
     \<lparr>message_index = i, offset = off, serialized_length = length (message_bytes m),
      ciphertext_length = length m, sha256 = sha m\<rparr> #
     descriptors_from sha (i + 1) (off + length (message_bytes m)) ms"

definition message_content :: "message \<Rightarrow> bytes" where
  "message_content m = (case m of Whole bs \<Rightarrow> bs | Stream blocks \<Rightarrow> concat (takeWhile (\<lambda>b. b \<noteq> []) blocks))"

section \<open>Lengths\<close>

definition enc :: "nat \<Rightarrow> nat" where
  "enc n = 4 * ((n + 2) div 3)"

definition line_total :: "nat \<Rightarrow> nat" where
  "line_total n = (n + 56) div 57"

lemma enc_0 [simp]: "enc 0 = 0" and line_total_0 [simp]: "line_total 0 = 0"
  by (simp_all add: enc_def line_total_def)

lemma enc_57: "enc (57 + n) = 76 + enc n"
proof -
  have "(57 + n + 2) div 3 = 19 + (n + 2) div 3" by linarith
  then show ?thesis by (simp add: enc_def)
qed

lemma line_total_small: "0 < n \<Longrightarrow> n \<le> 57 \<Longrightarrow> line_total n = 1"
  unfolding line_total_def by linarith

lemma line_total_57: "line_total (57 + n) = Suc (line_total n)"
  by (simp add: line_total_def)

lemma enc_mult: "enc (57 * g + n) = 76 * g + enc n"
proof (induction g)
  case (Suc g)
  have "57 * Suc g + n = 57 + (57 * g + n)" by simp
  then show ?case using Suc enc_57 [of "57 * g + n"] by (metis add.assoc mult_Suc_right)
qed simp

lemma line_total_mult: "line_total (57 * g + n) = g + line_total n"
proof (induction g)
  case (Suc g)
  have "57 * Suc g + n = 57 + (57 * g + n)" by simp
  then show ?case using Suc line_total_57 [of "57 * g + n"] by (metis add_Suc)
qed simp

lemma enc_small: "n \<le> 57 \<Longrightarrow> enc n \<le> 76" "0 < n \<Longrightarrow> 4 \<le> enc n"
  by (auto simp: enc_def)

lemma enc_mono: "m \<le> n \<Longrightarrow> enc m \<le> enc n"
  by (simp add: enc_def div_le_mono)

lemma enc_ge: "n \<le> enc n"
proof -
  have "n \<le> 3 * ((n + 2) div 3)" using mult_div_mod_eq [of 3 "n + 2"] mod_less_divisor [of 3 "n + 2"] by linarith
  also have "\<dots> \<le> enc n" by (simp add: enc_def)
  finally show ?thesis .
qed

lemma enc_eq_0 [simp]: "enc n = 0 \<longleftrightarrow> n = 0"
  using enc_ge [of n] by (auto simp: enc_def)

lemma enc_pos [simp]: "0 < enc n \<longleftrightarrow> 0 < n"
  using enc_eq_0 [of n] by linarith

lemma enc_lines: "(enc n + 75) div 76 = line_total n"
proof -
  obtain g r where n: "n = 57 * g + r" "r < 57" by (metis mod_less_divisor mult_div_mod_eq zero_less_numeral)
  have "enc n + 75 = 76 * g + (enc r + 75)" unfolding n(1) enc_mult by simp
  then have "(enc n + 75) div 76 = (76 * g + (enc r + 75)) div 76" by simp
  also have "\<dots> = g + (enc r + 75) div 76" by simp
  also have "(enc r + 75) div 76 = line_total r"
  proof (cases "r = 0")
    case False
    with n(2) enc_small [of r] have "76 \<le> enc r + 75" "enc r + 75 < 152" by auto
    then have "(enc r + 75) div 76 = 1" by linarith
    moreover have "line_total r = 1" using False n(2) by (simp add: line_total_small)
    ultimately show ?thesis by simp
  qed simp
  finally show ?thesis unfolding n(1) line_total_mult .
qed

lemma enc_min: "min (enc n) (76 * g) = enc (min n (57 * g))"
proof (cases "57 * g \<le> n")
  case True
  then obtain r where "n = 57 * g + r" by (metis le_Suc_ex)
  then show ?thesis by (simp add: enc_mult) (simp add: enc_mult [of g 0, simplified])
next
  case False
  then show ?thesis using enc_mono [of n "57 * g"] enc_mult [of g 0] by simp
qed

lemma enc_diff: "enc n - min (enc n) (76 * g) = enc (n - 57 * g)"
proof (cases "57 * g \<le> n")
  case True
  then obtain r where "n = 57 * g + r" by (metis le_Suc_ex)
  then show ?thesis by (simp add: enc_mult)
next
  case False
  then show ?thesis using enc_mono [of n "57 * g"] enc_mult [of g 0] by simp
qed

lemma block_length_enc: "block_length indent n = (length indent + 1) * line_total n + enc n"
  using enc_lines [of n] by (simp add: block_length_def Let_def enc_def)

lemma block_line_length: "length (block_line indent l) = length indent + enc (length l) + 1"
  by (simp add: block_line_def b64encode_length enc_def)

lemma block_length: "length (block indent bs) = block_length indent (length bs)"
proof (induction "length bs" arbitrary: bs rule: less_induct)
  case less
  show ?case
  proof (cases "57 \<le> length bs")
    case True
    then obtain r where r: "length bs = 57 + r" by (metis le_Suc_ex)
    then have "length (block indent (drop 57 bs)) = block_length indent r" using less [of "drop 57 bs"] by simp
    with r show ?thesis
      by (subst block_step) (auto simp: block_line_length block_length_enc enc_57 line_total_57 enc_mult [of 1 0, simplified])
  next
    case False
    show ?thesis
    proof (cases "bs = []")
      case True
      then show ?thesis by (simp add: block_length_enc)
    next
      case ne: False
      then have "line_total (length bs) = 1" using False by (simp add: line_total_small)
      with ne False show ?thesis by (simp add: block_short block_line_length block_length_enc)
    qed
  qed
qed

end
