(* ===== verification/Artifact_Records.thy ===== *)
theory Artifact_Records
  imports Text_Grammars Container_Format Json_Fields "HOL-Library.Product_Lexorder"
begin

text \<open>
  The protected records of secure containers (\<open>src/ls/core/openpgp/artifact_records.py\<close>) with the
  per-file delta claims, the snapshot claims and the worker proofs inside them
  (\<open>container_delta_records.py\<close>, \<open>container_snapshot_records.py\<close>, \<open>container_worker_records.py\<close>),
  over parsed JSON. Unicode's NFC is a parameter \<open>nfc\<close>.
\<close>

text \<open>
  \<open>ArtifactRecordError\<close>, the plain \<open>ValueError\<close> of the delta and snapshot records,
  \<open>UnicodeEncodeError\<close>, and Python's \<open>TypeError\<close>.
\<close>

datatype record_error = Record_error | Evidence_error | Text_error | Type_error

text \<open>\<open>type(value) is int and value >= low\<close>\<close>

definition int_from :: "int \<Rightarrow> json \<Rightarrow> (record_error, nat) result" where
  "int_from low v = (case v of JInt i \<Rightarrow> if low \<le> i then Inr (nat i) else Inl Record_error | _ \<Rightarrow> Inl Record_error)"

definition text_where :: "(pytext \<Rightarrow> bool) \<Rightarrow> json \<Rightarrow> (record_error, pytext) result" where
  "text_where good v = (case v of JStr s \<Rightarrow> if good s then Inr s else Inl Record_error | _ \<Rightarrow> Inl Record_error)"

section \<open>Identifiers and keys\<close>

definition validate_opaque_id :: "json \<Rightarrow> (record_error, pytext) result" where
  "validate_opaque_id v = text_where opaque_text v"

definition validate_digest :: "json \<Rightarrow> (record_error, pytext) result" where
  "validate_digest v = text_where digest_text v"

definition field_name :: "pytext \<Rightarrow> bool" where
  "field_name s \<longleftrightarrow> led_text alnum_code (\<lambda>c. alnum_code c \<or> c = 95 \<or> c = 46 \<or> c = 45) 63 s"

definition public_namespace :: "pytext \<Rightarrow> bool" where
  "public_namespace s \<longleftrightarrow> led_text (\<lambda>c. lower_code c \<or> digit_code c) (\<lambda>c. lower_code c \<or> digit_code c \<or> c = 45) 63 s"

definition canonical_container_key ::
    "pytext \<Rightarrow> pytext \<Rightarrow> pytext \<Rightarrow> pytext \<Rightarrow> pytext \<Rightarrow> pytext \<Rightarrow> (record_error, pytext) result" where
  "canonical_container_key tenant project publisher artifact version volume =
     rbind (require (public_namespace tenant \<and> public_namespace project) Record_error) (\<lambda>_.
     rbind (validate_opaque_id (JStr publisher)) (\<lambda>p.
     rbind (validate_opaque_id (JStr artifact)) (\<lambda>a.
     rbind (validate_opaque_id (JStr version)) (\<lambda>v.
     rbind (validate_opaque_id (JStr volume)) (\<lambda>w.
       Inr (u ''lssc/v1/'' @ tenant @ [47] @ project @ [47] @ p @ [47] @ a @ [47] @ v @ [47] @ w @ u ''.lssc''))))))"

definition parse_container_key ::
    "json \<Rightarrow> pytext \<Rightarrow> pytext \<Rightarrow> pytext \<Rightarrow> (record_error, pytext \<times> pytext \<times> pytext) result" where
  "parse_container_key key artifact version volume =
     (case key of JStr k \<Rightarrow>
        if 512 < length k then Inl Record_error
        else
          (let parts = split_slash k in
           if length parts \<noteq> 8 \<or> take 2 parts \<noteq> [u ''lssc'', u ''v1''] then Inl Record_error
           else
             (let tenant = parts ! 2; project = parts ! 3; publisher = parts ! 4 in
              rbind (canonical_container_key tenant project publisher artifact version volume) (\<lambda>c.
                if k \<noteq> c then Inl Record_error else Inr (tenant, project, publisher))))
      | _ \<Rightarrow> Inl Record_error)"

definition artifact_magic :: bytes where "artifact_magic = u ''LSAR'' @ [0, 1]"
definition approval_magic :: bytes where "approval_magic = u ''LSAW'' @ [0, 1]"

definition is_artifact_payload :: "bytes \<Rightarrow> bool" where
  "is_artifact_payload payload \<longleftrightarrow>
     take (length artifact_magic) payload = artifact_magic \<or> take (length approval_magic) payload = approval_magic \<or>
     take (length format_line) payload = format_line"

section \<open>Provenance\<close>

text \<open>Unicode's category Cc is the two ranges of control characters.\<close>

definition control_char :: "nat \<Rightarrow> bool" where
  "control_char c \<longleftrightarrow> c < 32 \<or> 127 \<le> c \<and> c < 160"

definition private_text :: "(pytext \<Rightarrow> pytext) \<Rightarrow> nat \<Rightarrow> json \<Rightarrow> (record_error, pytext) result" where
  "private_text nfc maximum v =
     (case v of JStr s \<Rightarrow>
        if s = [] then Inl Record_error
        else (case utf8_encode s of
            None \<Rightarrow> Inl Text_error
          | Some bs \<Rightarrow>
              if maximum < length bs \<or> nfc s \<noteq> s \<or> list_ex control_char s then Inl Record_error else Inr s)
      | _ \<Rightarrow> Inl Record_error)"

definition optional_text :: "(pytext \<Rightarrow> pytext) \<Rightarrow> nat \<Rightarrow> json \<Rightarrow> (record_error, pytext option) result" where
  "optional_text nfc maximum v =
     (if v = JNull then Inr None else rbind (private_text nfc maximum v) (\<lambda>s. Inr (Some s)))"

record artifact_provenance =
  original_name :: "pytext option"
  original_path :: "pytext option"
  source_revision :: "pytext option"
  source_hashes :: "pytext list"
  operational_metadata :: "(pytext \<times> pytext) list"

definition add_metadata ::
    "(pytext \<Rightarrow> pytext) \<Rightarrow> nat \<times> (pytext \<times> pytext) list \<Rightarrow> pytext \<times> json \<Rightarrow>
     (record_error, nat \<times> (pytext \<times> pytext) list) result" where
  "add_metadata nfc st kv =
     (case (st, kv) of ((amount, copied), (k, v)) \<Rightarrow>
        if \<not> field_name k then Inl Record_error
        else rbind (private_text nfc 512 v) (\<lambda>s.
             case (utf8_encode k, utf8_encode s) of
               (Some ks, Some vs) \<Rightarrow> Inr (amount + length ks + length vs, copied @ [(k, s)])
             | _ \<Rightarrow> Inl Text_error))"

definition provenance_new ::
    "(pytext \<Rightarrow> pytext) \<Rightarrow> json \<Rightarrow> json \<Rightarrow> json \<Rightarrow> json list \<Rightarrow> json \<Rightarrow> (record_error, artifact_provenance) result" where
  "provenance_new nfc name path revision hashes metadata =
     rbind (optional_text nfc 255 name) (\<lambda>name.
     rbind (optional_text nfc 1024 path) (\<lambda>path.
     rbind (optional_text nfc 128 revision) (\<lambda>revision.
     rbind (require (length hashes \<le> 16) Record_error) (\<lambda>_.
     rbind (rmap validate_digest hashes) (\<lambda>hashes.
     rbind (require (distinct hashes) Record_error) (\<lambda>_.
     rbind (expect_some Record_error (as_obj metadata)) (\<lambda>entries.
     rbind (require (length entries \<le> 16) Record_error) (\<lambda>_.
     rbind (rfold (add_metadata nfc) (0, []) entries) (\<lambda>(amount, copied).
     rbind (require (amount \<le> 4096) Record_error) (\<lambda>_.
       Inr \<lparr>original_name = name, original_path = path, source_revision = revision, source_hashes = hashes,
            operational_metadata = copied\<rparr>))))))))))"

definition or_null :: "pytext option \<Rightarrow> json" where
  "or_null v = (case v of None \<Rightarrow> JNull | Some s \<Rightarrow> JStr s)"

definition provenance_object :: "artifact_provenance \<Rightarrow> json" where
  "provenance_object p =
     JObj [(u ''original_name'', or_null (original_name p)), (u ''original_path'', or_null (original_path p)),
           (u ''source_revision'', or_null (source_revision p)),
           (u ''source_hashes'', JList (map JStr (source_hashes p))),
           (u ''operational_metadata'', JObj (map (\<lambda>(k, v). (k, JStr v)) (operational_metadata p)))]"

definition provenance_keys :: "string list" where
  "provenance_keys = [''original_name'', ''original_path'', ''source_revision'', ''source_hashes'', ''operational_metadata'']"

definition parse_provenance :: "(pytext \<Rightarrow> pytext) \<Rightarrow> json \<Rightarrow> (record_error, artifact_provenance) result" where
  "parse_provenance nfc v =
     rbind (expect_some Record_error (as_obj v)) (\<lambda>obj.
     rbind (require (keys_are obj provenance_keys) Record_error) (\<lambda>_.
     rbind (expect_some Record_error (as_list (entry obj ''source_hashes''))) (\<lambda>hashes.
       provenance_new nfc (entry obj ''original_name'') (entry obj ''original_path'') (entry obj ''source_revision'')
         hashes (entry obj ''operational_metadata''))))"

section \<open>Descriptors\<close>

definition descriptor_object :: "message_descriptor \<Rightarrow> json" where
  "descriptor_object d =
     JObj [(u ''message_index'', JInt (int (message_index d))), (u ''offset'', JInt (int (offset d))),
           (u ''serialized_length'', JInt (int (serialized_length d))),
           (u ''ciphertext_length'', JInt (int (ciphertext_length d))), (u ''sha256'', JStr (u (sha256 d)))]"

definition parse_descriptor :: "json \<Rightarrow> (record_error, message_descriptor) result" where
  "parse_descriptor v =
     rbind (expect_some Record_error (as_obj v)) (\<lambda>obj.
     rbind (require (keys_are obj [''message_index'', ''offset'', ''serialized_length'', ''ciphertext_length'', ''sha256''])
             Record_error) (\<lambda>_.
     rbind (int_from 0 (entry obj ''message_index'')) (\<lambda>i.
     rbind (int_from 0 (entry obj ''offset'')) (\<lambda>off.
     rbind (int_from 0 (entry obj ''serialized_length'')) (\<lambda>ser.
     rbind (int_from 0 (entry obj ''ciphertext_length'')) (\<lambda>len.
     rbind (text_where digest_text (entry obj ''sha256'')) (\<lambda>dig.
       Inr \<lparr>message_index = i, offset = off, serialized_length = ser, ciphertext_length = len,
            sha256 = map char_of dig\<rparr>)))))))"

section \<open>Delta claims\<close>

record file_evidence =
  evidence_length :: nat
  evidence_sha256 :: pytext

definition file_evidence_new :: "json \<Rightarrow> json \<Rightarrow> (record_error, file_evidence) result" where
  "file_evidence_new len sha =
     (case (len, sha) of
        (JInt n, JStr s) \<Rightarrow>
          if 0 \<le> n \<and> n \<le> 2 ^ 63 - 1 \<and> digest_text s
          then Inr \<lparr>evidence_length = nat n, evidence_sha256 = s\<rparr> else Inl Evidence_error
      | _ \<Rightarrow> Inl Evidence_error)"

text \<open>\<open>FileEvidence(**v)\<close>: anything but the two arguments is Python's \<open>TypeError\<close>.\<close>

definition file_evidence_of :: "json \<Rightarrow> (record_error, file_evidence) result" where
  "file_evidence_of v =
     rbind (expect_some Type_error (as_obj v)) (\<lambda>obj.
     rbind (require (keys_are obj [''length'', ''sha256'']) Type_error) (\<lambda>_.
       file_evidence_new (entry obj ''length'') (entry obj ''sha256'')))"

record file_delta =
  base_version :: pytext
  base_commitment :: pytext
  base_file_id :: pytext
  base_evidence :: file_evidence
  patch_evidence :: file_evidence
  result_evidence :: file_evidence
  change_id :: pytext

definition delta_codec :: pytext where "delta_codec = u ''zstd-patch-v1''"

definition delta_text :: "(pytext \<Rightarrow> bool) \<Rightarrow> json \<Rightarrow> (record_error, pytext) result" where
  "delta_text good v = (case v of JStr s \<Rightarrow> if good s then Inr s else Inl Evidence_error | _ \<Rightarrow> Inl Evidence_error)"

definition file_delta_new ::
    "json \<Rightarrow> json \<Rightarrow> json \<Rightarrow> file_evidence \<Rightarrow> file_evidence \<Rightarrow> file_evidence \<Rightarrow> json \<Rightarrow> json \<Rightarrow>
     (record_error, file_delta) result" where
  "file_delta_new version commitment file_id base patch res change codec =
     rbind (delta_text opaque_text version) (\<lambda>v.
     rbind (delta_text opaque_text file_id) (\<lambda>f.
     rbind (delta_text opaque_text change) (\<lambda>c.
     rbind (delta_text digest_text commitment) (\<lambda>m.
     rbind (require (evidence_length patch \<noteq> 0 \<and> codec = JStr delta_codec) Evidence_error) (\<lambda>_.
       Inr \<lparr>base_version = v, base_commitment = m, base_file_id = f, base_evidence = base,
            patch_evidence = patch, result_evidence = res, change_id = c\<rparr>)))))"

definition delta_keys :: "string list" where
  "delta_keys = [''base_version'', ''base_commitment'', ''base_file_id'', ''base'', ''patch'', ''change_id'', ''codec'']"

text \<open>\<open>file_delta\<close>, for a file record that has its \<open>length\<close> and \<open>sha256\<close>.\<close>

definition file_delta_of :: "(pytext \<times> json) list \<Rightarrow> (record_error, file_delta) result" where
  "file_delta_of file =
     rbind (expect_some Evidence_error (as_obj (entry file ''delta''))) (\<lambda>d.
     rbind (require (keys_are d delta_keys) Evidence_error) (\<lambda>_.
     rbind (file_evidence_of (entry d ''base'')) (\<lambda>base.
     rbind (file_evidence_of (entry d ''patch'')) (\<lambda>patch.
     rbind (file_evidence_new (entry file ''length'') (entry file ''sha256'')) (\<lambda>res.
       file_delta_new (entry d ''base_version'') (entry d ''base_commitment'') (entry d ''base_file_id'')
         base patch res (entry d ''change_id'') (entry d ''codec''))))))"

definition evidence_object :: "file_evidence \<Rightarrow> json" where
  "evidence_object e = JObj [(u ''length'', JInt (int (evidence_length e))), (u ''sha256'', JStr (evidence_sha256 e))]"

definition delta_record :: "file_delta \<Rightarrow> json" where
  "delta_record d =
     JObj [(u ''base_version'', JStr (base_version d)), (u ''base_commitment'', JStr (base_commitment d)),
           (u ''base_file_id'', JStr (base_file_id d)), (u ''base'', evidence_object (base_evidence d)),
           (u ''patch'', evidence_object (patch_evidence d)), (u ''change_id'', JStr (change_id d)),
           (u ''codec'', JStr delta_codec)]"

definition stored_evidence :: "(pytext \<times> json) list \<Rightarrow> (record_error, file_evidence) result" where
  "stored_evidence file =
     (if member file ''delta'' \<noteq> None then rbind (file_delta_of file) (\<lambda>d. Inr (patch_evidence d))
      else file_evidence_new (entry file ''length'') (entry file ''sha256''))"

section \<open>Worker proofs\<close>

definition max_worker_proof_bytes :: nat where "max_worker_proof_bytes = 32 * 1024"

text \<open>
  The proof is the decoded request. A text outside ASCII is refused by \<open>b64decode\<close>, and
  \<open>record\<close> must give the text back, so a record is the encoding of the request.
\<close>

definition worker_record :: "bytes \<Rightarrow> json" where
  "worker_record request = JObj [(u ''request'', JStr (b64encode request))]"

definition worker_snapshot_proof :: "json \<Rightarrow> (record_error, bytes) result" where
  "worker_snapshot_proof v =
     rbind (expect_some Evidence_error (as_obj v)) (\<lambda>obj.
     rbind (require (keys_are obj [''request'']) Evidence_error) (\<lambda>_.
     rbind (expect_some Evidence_error (as_str (entry obj ''request''))) (\<lambda>s.
     rbind (require (length s \<le> 4 * ((max_worker_proof_bytes + 2) div 3)) Evidence_error) (\<lambda>_.
     rbind (expect_some Evidence_error (b64decode s)) (\<lambda>request.
     rbind (require (0 < length request \<and> length request \<le> max_worker_proof_bytes) Evidence_error) (\<lambda>_.
     rbind (require (b64encode request = s) Evidence_error) (\<lambda>_.
       Inr request)))))))"

section \<open>Snapshots\<close>

record covered_file =
  covered_version :: pytext
  covered_commitment :: pytext
  covered_id :: pytext
  covered_evidence :: file_evidence
  covered_change :: "pytext option"

definition covered_file_new :: "(pytext \<times> json) list \<Rightarrow> (record_error, covered_file) result" where
  "covered_file_new item =
     rbind (delta_text opaque_text (entry item ''version_id'')) (\<lambda>v.
     rbind (delta_text opaque_text (entry item ''file_id'')) (\<lambda>f.
     rbind (delta_text digest_text (entry item ''commitment_sha256'')) (\<lambda>c.
     rbind (file_evidence_new (entry item ''length'') (entry item ''sha256'')) (\<lambda>e.
     rbind (if entry item ''change_id'' = JNull then Inr None
            else rbind (delta_text opaque_text (entry item ''change_id'')) (\<lambda>x. Inr (Some x))) (\<lambda>x.
       Inr \<lparr>covered_version = v, covered_commitment = c, covered_id = f, covered_evidence = e, covered_change = x\<rparr>)))))"

definition covered_key :: "covered_file \<Rightarrow> pytext \<times> pytext" where
  "covered_key c = (covered_version c, covered_id c)"

record snapshot_claim =
  source_version :: pytext
  source_commitment :: pytext
  covered :: "covered_file list"
  worker :: "bytes option"

definition max_covered_files :: nat where "max_covered_files = 100000"

text \<open>\<open>commitments.setdefault(...)\<close> for each covered file.\<close>

definition add_commitment ::
    "(pytext \<times> pytext) list \<Rightarrow> covered_file \<Rightarrow> (record_error, (pytext \<times> pytext) list) result" where
  "add_commitment commitments c =
     (case map_of commitments (covered_version c) of
        None \<Rightarrow> Inr (commitments @ [(covered_version c, covered_commitment c)])
      | Some previous \<Rightarrow> if previous \<noteq> covered_commitment c then Inl Evidence_error else Inr commitments)"

definition snapshot_claim_new ::
    "json \<Rightarrow> json \<Rightarrow> covered_file list \<Rightarrow> bytes option \<Rightarrow> (record_error, snapshot_claim) result" where
  "snapshot_claim_new version commitment files proof_bytes =
     rbind (delta_text opaque_text version) (\<lambda>v.
     rbind (delta_text digest_text commitment) (\<lambda>m.
     rbind (require (1 \<le> length files \<and> length files \<le> max_covered_files) Evidence_error) (\<lambda>_.
     rbind (require (map covered_key files = sort (remdups (map covered_key files))) Evidence_error) (\<lambda>_.
     rbind (rfold add_commitment [] files) (\<lambda>commitments.
     rbind (require (map_of commitments v = Some m) Evidence_error) (\<lambda>_.
       Inr \<lparr>source_version = v, source_commitment = m, covered = files, worker = proof_bytes\<rparr>))))))"

definition covered_item :: "json \<Rightarrow> (record_error, (pytext \<times> json) list) result" where
  "covered_item v =
     rbind (expect_some Evidence_error (as_obj v)) (\<lambda>obj.
     rbind (require (keys_are obj [''version_id'', ''commitment_sha256'', ''file_id'', ''length'', ''sha256'', ''change_id''])
             Evidence_error) (\<lambda>_. Inr obj))"

definition snapshot_claim_of :: "json \<Rightarrow> (record_error, snapshot_claim) result" where
  "snapshot_claim_of v =
     rbind (expect_some Evidence_error (as_obj v)) (\<lambda>obj.
     rbind (require (keys_are obj [''source_version'', ''source_commitment'', ''covered''] \<or>
                     keys_are obj [''source_version'', ''source_commitment'', ''covered'', ''worker'']) Evidence_error) (\<lambda>_.
     rbind (expect_some Evidence_error (as_list (entry obj ''covered''))) (\<lambda>items.
     rbind (require (1 \<le> length items \<and> length items \<le> max_covered_files) Evidence_error) (\<lambda>_.
     rbind (rmap covered_item items) (\<lambda>items.
     rbind (rmap covered_file_new items) (\<lambda>files.
     rbind (if member obj ''worker'' = None then Inr None
            else rbind (worker_snapshot_proof (entry obj ''worker'')) (\<lambda>w. Inr (Some w))) (\<lambda>w.
       snapshot_claim_new (entry obj ''source_version'') (entry obj ''source_commitment'') files w)))))))"

text \<open>The file records of a version: their identifiers, lengths and digests, read where they have been checked.\<close>

definition file_entry :: "json \<Rightarrow> (pytext \<times> json) list" where
  "file_entry v = (case v of JObj kvs \<Rightarrow> kvs | _ \<Rightarrow> [])"

definition str_of :: "json \<Rightarrow> pytext" where
  "str_of v = (case v of JStr s \<Rightarrow> s | _ \<Rightarrow> [])"

definition same_dict :: "('k \<times> 'v) list \<Rightarrow> ('k \<times> 'v) list \<Rightarrow> bool" where
  "same_dict d d' \<longleftrightarrow> set (dict_of d) = set (dict_of d')"

definition validate_snapshot :: "(pytext \<times> json) list \<Rightarrow> json list \<Rightarrow> (record_error, unit) result" where
  "validate_snapshot logical files =
     rbind (snapshot_claim_of (entry logical ''snapshot'')) (\<lambda>claim.
     rbind (require (entry logical ''parent_versions'' = JList [JStr (source_version claim)] \<and>
                     entry logical ''version_id'' \<noteq> JStr (source_version claim)) Evidence_error) (\<lambda>_.
     let source_files = map (\<lambda>c. (covered_id c, (JInt (int (evidence_length (covered_evidence c))),
                                                  JStr (evidence_sha256 (covered_evidence c)))))
                          (filter (\<lambda>c. covered_version c = source_version claim) (covered claim));
         result_files = map (\<lambda>f. (str_of (entry (file_entry f) ''file_id''),
                                   (entry (file_entry f) ''length'', entry (file_entry f) ''sha256''))) files
     in
     rbind (require (same_dict source_files result_files \<and>
                     list_all (\<lambda>f. member (file_entry f) ''delta'' = None) files) Evidence_error) (\<lambda>_.
       require (list_all (\<lambda>c. entry logical ''version_id'' \<noteq> JStr (covered_version c)) (covered claim)) Evidence_error)))"

section \<open>Logical records\<close>

definition logical_keys :: "string list" where
  "logical_keys = [''artifact_id'', ''version_id'', ''parent_versions'', ''origin'', ''audience'', ''scope'',
     ''purpose'', ''content_revision'', ''created_at'', ''expires_at'', ''files'']"

definition fingerprint_text :: "pytext \<Rightarrow> bool" where
  "fingerprint_text s \<longleftrightarrow> length s = 40 \<and> list_all upper_hex s"

definition scope_text :: "pytext \<Rightarrow> bool" where
  "scope_text s \<longleftrightarrow> field_name s \<or> led_text alnum_code (\<lambda>c. alnum_code c \<or> c \<in> {95, 46, 58, 47, 45}) 127 s"

definition label_text :: "pytext \<Rightarrow> bool" where
  "label_text s \<longleftrightarrow> length s \<le> 128 \<and> led_text alnum_code (\<lambda>c. alnum_code c \<or> c \<in> {95, 46, 58, 43, 47, 45}) (length s) s"

definition validate_parents :: "json \<Rightarrow> (record_error, pytext list) result" where
  "validate_parents v =
     rbind (expect_some Record_error (as_list v)) (\<lambda>items.
     rbind (require (length items \<le> 64) Record_error) (\<lambda>_.
     rbind (rmap validate_opaque_id items) (\<lambda>ids.
     rbind (require (ids = sort (remdups ids)) Record_error) (\<lambda>_. Inr ids))))"

definition validate_origin :: "json \<Rightarrow> (record_error, unit) result" where
  "validate_origin v =
     rbind (expect_some Record_error (as_obj v)) (\<lambda>origin.
     rbind (require (keys_are origin [''store_id'', ''revision'', ''epoch'', ''fingerprint'']) Record_error) (\<lambda>_.
     rbind (validate_digest (entry origin ''store_id'')) (\<lambda>_.
     rbind (int_from 0 (entry origin ''revision'')) (\<lambda>_.
     rbind (int_from 1 (entry origin ''epoch'')) (\<lambda>_.
     rbind (text_where fingerprint_text (entry origin ''fingerprint'')) (\<lambda>_. Inr ()))))))"

text \<open>
  \<open>value != sorted(set(value))\<close> is evaluated before the items' types are looked at. A list or an
  object cannot be put into the set, and a set of values that are not all numbers or all texts
  cannot be sorted, unless \<open>None\<close> is all there is.
\<close>

definition number_json :: "json \<Rightarrow> bool" where
  "number_json v = (case v of JInt i \<Rightarrow> True | JFloat r \<Rightarrow> True | JBool b \<Rightarrow> True | _ \<Rightarrow> False)"

definition unhashable :: "json \<Rightarrow> bool" where
  "unhashable v = (case v of JList xs \<Rightarrow> True | JObj kvs \<Rightarrow> True | _ \<Rightarrow> False)"

definition sorted_texts :: "nat \<Rightarrow> json \<Rightarrow> (record_error, pytext list) result" where
  "sorted_texts maximum v =
     rbind (expect_some Record_error (as_list v)) (\<lambda>items.
     rbind (require (items \<noteq> [] \<and> length items \<le> maximum) Record_error) (\<lambda>_.
     case all_some (map as_str items) of
       Some texts \<Rightarrow> if texts = sort (remdups texts) then Inr texts else Inl Record_error
     | None \<Rightarrow>
         if list_ex unhashable items then Inl Type_error
         else if list_all number_json items \<or> list_all (\<lambda>x. x = JNull) items then Inl Record_error
         else Inl Type_error))"

definition validate_times :: "(pytext \<times> json) list \<Rightarrow> (record_error, unit) result" where
  "validate_times logical =
     rbind (int_from 0 (entry logical ''created_at'')) (\<lambda>created.
     rbind (int_from 0 (entry logical ''expires_at'')) (\<lambda>expires.
       require (created < expires \<and> expires - created \<le> 30 * 24 * 3600) Record_error))"

text \<open>The delta and the snapshot of a record are checked under one handler: any error is \<open>ArtifactRecordError\<close>.\<close>

definition recast :: "(record_error, 'a) result \<Rightarrow> (record_error, 'a) result" where
  "recast r = (case r of Inl e \<Rightarrow> Inl Record_error | Inr x \<Rightarrow> Inr x)"

definition validate_delta :: "pytext list \<Rightarrow> pytext \<Rightarrow> (pytext \<times> json) list \<Rightarrow> (record_error, unit) result" where
  "validate_delta parents version file =
     (if member file ''delta'' = None then Inr ()
      else recast (rbind (file_delta_of file) (\<lambda>d.
             require (base_version d \<in> set parents \<and> base_version d \<noteq> version) Evidence_error)))"

definition validate_file ::
    "(pytext \<Rightarrow> pytext) \<Rightarrow> pytext list \<Rightarrow> pytext \<Rightarrow> pytext list \<Rightarrow> json \<Rightarrow> (record_error, pytext list) result" where
  "validate_file nfc parents version seen v =
     rbind (expect_some Record_error (as_obj v)) (\<lambda>file.
     rbind (require (keys_are file [''file_id'', ''length'', ''sha256'', ''provenance''] \<or>
                     keys_are file [''file_id'', ''length'', ''sha256'', ''provenance'', ''delta'']) Record_error) (\<lambda>_.
     rbind (validate_opaque_id (entry file ''file_id'')) (\<lambda>fid.
     rbind (require (fid \<notin> set seen) Record_error) (\<lambda>_.
     rbind (int_from 0 (entry file ''length'')) (\<lambda>_.
     rbind (validate_digest (entry file ''sha256'')) (\<lambda>_.
     rbind (parse_provenance nfc (entry file ''provenance'')) (\<lambda>_.
     rbind (validate_delta parents version file) (\<lambda>_. Inr (seen @ [fid])))))))))"

definition validate_logical ::
    "(pytext \<Rightarrow> pytext) \<Rightarrow> container_limits \<Rightarrow> json \<Rightarrow> (record_error, unit) result" where
  "validate_logical nfc limits v =
     rbind (expect_some Record_error (as_obj v)) (\<lambda>logical.
     rbind (require (keys_are logical logical_keys \<or> keys_are logical (''snapshot'' # logical_keys)) Record_error) (\<lambda>_.
     rbind (validate_opaque_id (entry logical ''artifact_id'')) (\<lambda>_.
     rbind (validate_opaque_id (entry logical ''version_id'')) (\<lambda>version.
     rbind (validate_parents (entry logical ''parent_versions'')) (\<lambda>parents.
     rbind (validate_origin (entry logical ''origin'')) (\<lambda>_.
     rbind (sorted_texts 64 (entry logical ''audience'')) (\<lambda>audience.
     rbind (sorted_texts 32 (entry logical ''scope'')) (\<lambda>scope.
     rbind (require (list_all fingerprint_text audience) Record_error) (\<lambda>_.
     rbind (require (list_all scope_text scope) Record_error) (\<lambda>_.
     rbind (text_where label_text (entry logical ''purpose'')) (\<lambda>_.
     rbind (text_where label_text (entry logical ''content_revision'')) (\<lambda>_.
     rbind (validate_times logical) (\<lambda>_.
     rbind (expect_some Record_error (as_list (entry logical ''files''))) (\<lambda>files.
     rbind (require (files \<noteq> [] \<and> length files \<le> max_files limits) Record_error) (\<lambda>_.
     rbind (rfold (validate_file nfc parents version) [] files) (\<lambda>_.
       if member logical ''snapshot'' = None then Inr ()
       else recast (validate_snapshot logical files)))))))))))))))))"

section \<open>Inventories\<close>

text \<open>
  The accepted items of an inventory, of which only the numbers are used again: \<open>by_file\<close> of the
  code is the list of all accepted items, looked up by file.
\<close>

record segment_item =
  si_file :: pytext
  si_offset :: nat
  si_length :: nat
  si_index :: nat
  si_count :: nat

definition segment_keys :: "string list" where
  "segment_keys = [''file_id'', ''offset'', ''length'', ''segment_index'', ''segment_count'', ''plaintext_sha256'', ''descriptor'']"

definition known_file :: "pytext list \<Rightarrow> json \<Rightarrow> (record_error, pytext) result" where
  "known_file ids v =
     (if unhashable v then Inl Type_error
      else case v of JStr s \<Rightarrow> if s \<in> set ids then Inr s else Inl Record_error | _ \<Rightarrow> Inl Record_error)"

definition framed_at :: "nat \<Rightarrow> nat \<Rightarrow> message_descriptor \<Rightarrow> bool" where
  "framed_at i expected_offset d \<longleftrightarrow>
     message_index d = i \<and> offset d = expected_offset \<and> 0 < ciphertext_length d \<and>
     serialized_length d = length message_marker + block_length message_indent (ciphertext_length d)"

text \<open>One message: the state is the messages seen, the expected offset and the accepted items.\<close>

definition check_item ::
    "pytext list \<Rightarrow> nat \<times> nat \<times> segment_item list \<Rightarrow> json \<Rightarrow> (record_error, nat \<times> nat \<times> segment_item list) result" where
  "check_item ids st v =
     (case st of (i, expected_offset, items) \<Rightarrow>
       rbind (expect_some Record_error (as_obj v)) (\<lambda>item.
       rbind (require (keys_are item segment_keys) Record_error) (\<lambda>_.
       rbind (known_file ids (entry item ''file_id'')) (\<lambda>fid.
       rbind (int_from 0 (entry item ''offset'')) (\<lambda>off.
       rbind (int_from 0 (entry item ''length'')) (\<lambda>len.
       rbind (int_from 0 (entry item ''segment_index'')) (\<lambda>si.
       rbind (int_from 0 (entry item ''segment_count'')) (\<lambda>sc.
       rbind (require (1 \<le> sc \<and> si < sc) Record_error) (\<lambda>_.
       rbind (validate_digest (entry item ''plaintext_sha256'')) (\<lambda>_.
       rbind (parse_descriptor (entry item ''descriptor'')) (\<lambda>d.
       rbind (require (framed_at i expected_offset d) Record_error) (\<lambda>_.
         Inr (i + 1, expected_offset + serialized_length d,
              items @ [\<lparr>si_file = fid, si_offset = off, si_length = len, si_index = si, si_count = sc\<rparr>])))))))))))))"

record inventory_state =
  volume_ids :: "pytext list"
  volume_keys :: "pytext list"
  namespace :: "(pytext \<times> pytext \<times> pytext) option"
  by_file :: "segment_item list"
  total_segments :: nat

definition check_volume ::
    "container_limits \<Rightarrow> pytext \<Rightarrow> pytext \<Rightarrow> pytext list \<Rightarrow> inventory_state \<Rightarrow> json \<Rightarrow> (record_error, inventory_state) result" where
  "check_volume limits artifact version ids st v =
     rbind (expect_some Record_error (as_obj v)) (\<lambda>volume.
     rbind (require (keys_are volume [''volume_id'', ''key'', ''messages'']) Record_error) (\<lambda>_.
     rbind (validate_opaque_id (entry volume ''volume_id'')) (\<lambda>vid.
     rbind (parse_container_key (entry volume ''key'') artifact version vid) (\<lambda>observed.
     let key = str_of (entry volume ''key'') in
     rbind (require (vid \<notin> set (volume_ids st) \<and> key \<notin> set (volume_keys st) \<and>
                     (namespace st = None \<or> namespace st = Some observed)) Record_error) (\<lambda>_.
     rbind (expect_some Record_error (as_list (entry volume ''messages''))) (\<lambda>messages.
     rbind (require (messages \<noteq> [] \<and> length messages \<le> max_messages limits) Record_error) (\<lambda>_.
     rbind (require (total_segments st + length messages \<le> max_total_segments limits) Record_error) (\<lambda>_.
     rbind (rfold (check_item ids) (0, length messages_header, by_file st) messages) (\<lambda>(_, _, items).
       Inr \<lparr>volume_ids = volume_ids st @ [vid], volume_keys = volume_keys st @ [key], namespace = Some observed,
            by_file = items, total_segments = total_segments st + length messages\<rparr>)))))))))"

text \<open>The loop over one file's parts, in the order of their offsets.\<close>

definition check_part :: "nat \<Rightarrow> nat \<Rightarrow> nat \<times> nat \<Rightarrow> segment_item \<Rightarrow> (record_error, nat \<times> nat) result" where
  "check_part amount stored st part =
     (case st of (i, position) \<Rightarrow>
        if si_offset part \<noteq> position \<or> si_index part \<noteq> i \<or> si_count part \<noteq> amount \<or> (si_length part = 0 \<and> stored \<noteq> 0)
        then Inl Record_error else Inr (i + 1, position + si_length part))"

definition check_coverage :: "segment_item list \<Rightarrow> json \<Rightarrow> (record_error, unit) result" where
  "check_coverage items v =
     rbind (stored_evidence (file_entry v)) (\<lambda>stored.
     let parts = sort_key si_offset (filter (\<lambda>p. si_file p = str_of (entry (file_entry v) ''file_id'')) items) in
     rbind (require (parts \<noteq> [] \<and> length parts = si_count (hd parts)) Record_error) (\<lambda>_.
     rbind (rfold (check_part (length parts) (evidence_length stored)) (0, 0) parts) (\<lambda>(_, position).
       require (position = evidence_length stored) Record_error)))"

definition list_of :: "json \<Rightarrow> json list" where
  "list_of v = (case v of JList xs \<Rightarrow> xs | _ \<Rightarrow> [])"

definition logical_files :: "json \<Rightarrow> json list" where
  "logical_files logical = list_of (entry (file_entry logical) ''files'')"

definition file_id_of :: "json \<Rightarrow> pytext" where
  "file_id_of file = str_of (entry (file_entry file) ''file_id'')"

definition validate_inventory ::
    "(pytext \<Rightarrow> pytext) \<Rightarrow> container_limits \<Rightarrow> json \<Rightarrow> json \<Rightarrow> (record_error, inventory_state) result" where
  "validate_inventory nfc limits inventory logical =
     rbind (validate_logical nfc limits logical) (\<lambda>_.
     rbind (expect_some Record_error (as_obj inventory)) (\<lambda>inv.
     rbind (require (keys_are inv [''volumes'']) Record_error) (\<lambda>_.
     rbind (expect_some Record_error (as_list (entry inv ''volumes''))) (\<lambda>volumes.
     rbind (require (volumes \<noteq> [] \<and> length volumes \<le> max_volumes limits) Record_error) (\<lambda>_.
     let rec = file_entry logical; files = logical_files logical in
     rbind (rfold (check_volume limits (str_of (entry rec ''artifact_id'')) (str_of (entry rec ''version_id''))
                     (map file_id_of files))
              \<lparr>volume_ids = [], volume_keys = [], namespace = None, by_file = [], total_segments = 0\<rparr> volumes) (\<lambda>st.
     rbind (rmap (check_coverage (by_file st)) files) (\<lambda>_.
       Inr st)))))))"

end
