(* ===== verification/Container_Writing.thy ===== *)
theory Container_Writing
  imports Container_Format
begin

text \<open>
  What the writer of \<open>container_format.py\<close> produces, and the lemmas that carry a reader over it:
  \<open>ahead data pos bs\<close> says that \<open>bs\<close> is what is left of \<open>data\<close> at \<open>pos\<close>.
\<close>


section \<open>What the writers write\<close>

lemma emit_ok: "length out + length data \<le> max_container_bytes limits \<Longrightarrow> emit limits out data = Inr (out @ data)"
  by (simp add: emit_def)

lemma write_public_ok:
  "length out + length (concat lns) \<le> max_container_bytes limits \<Longrightarrow>
   length pub + length (concat lns) \<le> max_public_header_bytes limits \<Longrightarrow>
     rfold (write_public limits) (out, pub) lns = Inr (out @ concat lns, pub @ concat lns)"
proof (induction lns arbitrary: out pub)
  case (Cons l lns)
  then have "write_public limits (out, pub) l = Inr (out @ l, pub @ l)"
    by (simp add: write_public_def emit_ok)
  with Cons show ?case by simp
qed simp

lemma encoded_lines: "concat (map (\<lambda>l. indent @ l @ [10]) (chunks 76 (b64encode v))) = block indent v"
  by (simp add: chunks_encode block_def block_line_def [abs_def] comp_def)

lemma write_base64_batch_ok:
  "length out + length (block indent v) \<le> max_container_bytes limits \<Longrightarrow>
     write_base64_batch limits indent out v = Inr (out @ block indent v)"
  by (simp add: write_base64_batch_def encoded_lines emit_ok)

lemma block_split: "0 < k \<Longrightarrow> k mod 57 = 0 \<Longrightarrow> block indent v = block indent (take k v) @ block indent (drop k v)"
proof -
  assume k: "0 < k" "k mod 57 = 0"
  show ?thesis
  proof (cases "k \<le> length v")
    case True
    then show ?thesis using block_append [of "take k v" indent "drop k v"] k by (simp add: min_def)
  qed simp
qed

lemma batch_bytes_pos: "0 < batch_bytes limits" "batch_bytes limits mod 57 = 0"
  by (auto simp: batch_bytes_def max_def)

lemma write_binary_bytes_ok:
  assumes "length out + length (block indent v) \<le> max_container_bytes limits"
  shows "write_binary_bytes limits indent out v = Inr (out @ block indent v)"
proof -
  have "rfold (write_base64_batch limits indent) out (chunks k v) = Inr (out @ block indent v)"
    if "0 < k" "k mod 57 = 0" "length out + length (block indent v) \<le> max_container_bytes limits" for k
    using that
  proof (induction k v arbitrary: out rule: chunks.induct)
    case (1 k xs)
    show ?case
    proof (cases "xs = []")
      case False
      note b = block_split [OF 1(2,3), of indent xs]
      with 1(4) have "write_base64_batch limits indent out (take k xs) = Inr (out @ block indent (take k xs))"
        by (intro write_base64_batch_ok) simp
      moreover have "rfold (write_base64_batch limits indent) (out @ block indent (take k xs)) (chunks k (drop k xs)) =
          Inr ((out @ block indent (take k xs)) @ block indent (drop k xs))"
        using 1(2-4) False b by (intro 1(1)) auto
      ultimately show ?thesis using 1(2) False b by (simp add: chunks_step)
    qed simp
  qed
  from this [of "batch_bytes limits"] batch_bytes_pos assms show ?thesis by (simp add: write_binary_bytes_def)
qed

text \<open>The streaming writer has written, or holds as lines, a whole number of 57-byte lines.\<close>

definition stream_at :: "bytes \<Rightarrow> bytes \<Rightarrow> bytes \<Rightarrow> stream_writer \<Rightarrow> bool" where
  "stream_at indent out0 done w \<longleftrightarrow>
     sw_out w @ concat (sw_lines w) = out0 @ block indent done \<and> sw_content w = done @ sw_carry w \<and>
     length done mod 57 = 0 \<and> length (sw_carry w) < 57"

lemma stream_atI:
  "sw_out w @ concat (sw_lines w) = out0 @ block indent done \<Longrightarrow> sw_content w = done @ sw_carry w \<Longrightarrow>
     length done mod 57 = 0 \<Longrightarrow> length (sw_carry w) < 57 \<Longrightarrow> stream_at indent out0 done w"
  by (simp add: stream_at_def)

lemma write_block_ok:
  assumes w: "stream_at indent out0 done w" and W: "sw_content w @ blk @ rest = W"
    and size: "length W \<le> max_message_bytes limits"
    and room: "length out0 + length (block indent W) \<le> max_container_bytes limits"
  shows "\<exists>w' done'. write_block limits indent w blk = Inr w' \<and> stream_at indent out0 done' w' \<and>
    sw_content w' = sw_content w @ blk"
proof (cases "blk = []")
  case True
  with w show ?thesis by (auto simp: write_block_def)
next
  case False
  let ?c = "sw_carry w @ blk"
  let ?n = "length ?c div 57 * 57"
  let ?done = "done @ take ?n ?c"
  from w have out: "sw_out w @ concat (sw_lines w) = out0 @ block indent done"
    and content: "sw_content w = done @ sw_carry w" and m: "length done mod 57 = 0" by (simp_all add: stream_at_def)
  have n: "?n \<le> length ?c" "length ?c - ?n < 57"
    by (simp_all add: minus_div_mult_eq_mod)
  have "length (take ?n ?c) = ?n" using n(1) by (simp only: length_take min_absorb2)
  then have "length ?done = length done + length ?c div 57 * 57" by (simp only: length_append)
  then have dm: "length ?done mod 57 = 0" using m by presburger
  have cs: "sw_content w @ blk = ?done @ drop ?n ?c"
    unfolding content by (simp only: append_assoc append_take_drop_id)
  have ok: "\<not> max_message_bytes limits < length (sw_content w) + length blk"
    using size W by auto
  show ?thesis
  proof (cases "?n = 0")
    case True
    then have "write_block limits indent w blk = Inr (w\<lparr>sw_content := sw_content w @ blk, sw_carry := ?c\<rparr>)"
      using False ok by (simp add: write_block_def Let_def)
    moreover have "stream_at indent out0 done (w\<lparr>sw_content := sw_content w @ blk, sw_carry := ?c\<rparr>)"
      using out content m n True by (simp add: stream_at_def)
    ultimately show ?thesis by (intro exI conjI) auto
  next
    case nz: False
    let ?lns = "sw_lines w @ map (\<lambda>l. indent @ l @ [10]) (chunks 76 (b64encode (take ?n ?c)))"
    let ?size = "sw_size w + length (b64encode (take ?n ?c)) div 76 * (length indent + 76 + 1)"
    let ?w = "w\<lparr>sw_content := sw_content w @ blk, sw_carry := drop ?n ?c\<rparr>"
    have bl: "sw_out w @ concat ?lns = out0 @ block indent ?done"
      using out by (simp add: encoded_lines block_append [OF m] del: append_assoc)
    have "block indent W = block indent ?done @ block indent (drop ?n ?c @ rest)"
      unfolding W [symmetric] using cs block_append [OF dm] by (metis append_assoc)
    then have fits: "length (sw_out w) + length (concat ?lns) \<le> max_container_bytes limits"
      using room arg_cong [OF bl, of length] by simp
    have tail: "length (drop ?n ?c) < 57" using n(2) by simp
    show ?thesis
    proof (cases "io_chunk_bytes limits \<le> ?size")
      case True
      let ?w' = "?w\<lparr>sw_out := sw_out w @ concat ?lns, sw_lines := [], sw_size := 0\<rparr>"
      have "write_block limits indent w blk = Inr ?w'"
        using False ok nz True emit_ok [OF fits] by (simp add: write_block_def Let_def)
      moreover have "stream_at indent out0 ?done ?w'"
        by (rule stream_atI, use bl in simp, use cs in simp, rule dm, use tail in simp)
      ultimately show ?thesis by (intro exI conjI) auto
    next
      case big: False
      let ?w' = "?w\<lparr>sw_lines := ?lns, sw_size := ?size\<rparr>"
      have "write_block limits indent w blk = Inr ?w'"
        using False ok nz big by (simp add: write_block_def Let_def)
      moreover have "stream_at indent out0 ?done ?w'"
        by (rule stream_atI, use bl in simp, use cs in simp, rule dm, use tail in simp)
      ultimately show ?thesis by (intro exI conjI) auto
    qed
  qed
qed

lemma write_blocks_ok:
  assumes "stream_at indent out0 done w" and "sw_content w @ concat blks = W"
    and size: "length W \<le> max_message_bytes limits"
    and room: "length out0 + length (block indent W) \<le> max_container_bytes limits"
  shows "\<exists>w' done'. rfold (write_block limits indent) w blks = Inr w' \<and> stream_at indent out0 done' w' \<and> sw_content w' = W"
  using assms(1,2)
proof (induction blks arbitrary: w "done")
  case Nil
  then show ?case by auto
next
  case (Cons b blks)
  from write_block_ok [OF Cons.prems(1) _ size room, of b "concat blks"] Cons.prems(2)
  obtain w1 done1 where w1: "write_block limits indent w b = Inr w1" "stream_at indent out0 done1 w1"
    "sw_content w1 = sw_content w @ b" by auto
  from Cons.IH [OF w1(2)] w1(3) Cons.prems(2) obtain w' done' where
    "rfold (write_block limits indent) w1 blks = Inr w'" "stream_at indent out0 done' w'" "sw_content w' = W" by auto
  with w1(1) show ?case by auto
qed

lemma message_blocks_content: "0 < io_chunk_bytes limits \<Longrightarrow> concat (message_blocks limits m) = message_content m"
  by (simp add: message_blocks_def message_content_def concat_chunks split: message.split)

text \<open>The streaming writer agrees with the reference whatever the blocks it is fed.\<close>

lemma write_binary_stream_ok:
  assumes "0 < io_chunk_bytes limits" and size: "length (message_content m) \<le> max_message_bytes limits"
    and room: "length out + length (block indent (message_content m)) \<le> max_container_bytes limits"
  shows "write_binary_stream limits indent out m = Inr (out @ block indent (message_content m), message_content m)"
proof -
  let ?w0 = "\<lparr>sw_out = out, sw_content = [], sw_carry = [], sw_lines = [], sw_size = 0\<rparr>"
  have "stream_at indent out [] ?w0" by (simp add: stream_at_def)
  from write_blocks_ok [OF this _ size room, of "message_blocks limits m"] message_blocks_content [OF assms(1)]
  obtain w "done" where w: "rfold (write_block limits indent) ?w0 (message_blocks limits m) = Inr w"
    "stream_at indent out done w" "sw_content w = message_content m" by auto
  let ?lns = "if sw_carry w = [] then sw_lines w else sw_lines w @ [indent @ b64encode (sw_carry w) @ [10]]"
  have out: "sw_out w @ concat ?lns = out @ block indent (message_content m)"
  proof (cases "sw_carry w = []")
    case True
    then show ?thesis using w(2,3) by (simp add: stream_at_def)
  next
    case False
    have c: "message_content m = done @ sw_carry w" and m57: "length done mod 57 = 0" and sh: "length (sw_carry w) \<le> 57"
      and o: "sw_out w @ concat (sw_lines w) = out @ block indent done"
      using w(2,3) by (simp_all add: stream_at_def)
    have "block indent (message_content m) = block indent done @ block_line indent (sw_carry w)"
      unfolding c block_append [OF m57] using block_short [OF False sh] by simp
    then show ?thesis using False o by (simp add: block_line_def)
  qed
  show ?thesis
  proof (cases "?lns = []")
    case True
    then show ?thesis using w(1,3) out by (simp add: write_binary_stream_def Let_def)
  next
    case False
    have "length (sw_out w) + length (concat ?lns) \<le> max_container_bytes limits"
      using room arg_cong [OF out, of length] by simp
    then have "emit limits (sw_out w) (concat ?lns) = Inr (out @ block indent (message_content m))"
      using emit_ok out by metis
    then show ?thesis using w(1,3) False by (simp add: write_binary_stream_def Let_def)
  qed
qed

lemma message_bytes_length: "length (message_bytes m) = length message_marker + length (block message_indent m)"
  by (simp add: message_bytes_def)

lemma write_message_ok:
  assumes "0 < io_chunk_bytes limits" and "length ds < max_messages limits"
    and "message_content m \<noteq> []" and "length (message_content m) \<le> max_message_bytes limits"
    and room: "length out + length (message_bytes (message_content m)) \<le> max_container_bytes limits"
    and "hex64 (sha (message_content m))"
  shows "write_message sha limits base (out, ds) m =
     Inr (out @ message_bytes (message_content m),
          ds @ [\<lparr>message_index = length ds, offset = length out - base,
                 serialized_length = length (message_bytes (message_content m)),
                 ciphertext_length = length (message_content m), sha256 = sha (message_content m)\<rparr>])"
proof -
  have e: "emit limits out message_marker = Inr (out @ message_marker)"
    by (rule emit_ok) (use room in \<open>simp add: message_bytes_length\<close>)
  have s: "write_binary_stream limits message_indent (out @ message_marker) m =
      Inr ((out @ message_marker) @ block message_indent (message_content m), message_content m)"
    by (rule write_binary_stream_ok) (use assms in \<open>simp_all add: message_bytes_length\<close>)
  show ?thesis
    using assms(2,3,6) by (simp add: write_message_def e s message_descriptor_new_def message_bytes_def)
qed

lemma write_messages_ok:
  assumes "0 < io_chunk_bytes limits" and "length ds + length msgs \<le> max_messages limits"
    and "\<forall>m \<in> set msgs. message_content m \<noteq> [] \<and> length (message_content m) \<le> max_message_bytes limits"
    and "length out + length (concat (map (\<lambda>m. message_bytes (message_content m)) msgs)) \<le> max_container_bytes limits"
    and "\<forall>b. hex64 (sha b)" and "base \<le> length out"
  shows "rfold (write_message sha limits base) (out, ds) msgs =
     Inr (out @ concat (map (\<lambda>m. message_bytes (message_content m)) msgs),
          ds @ descriptors_from sha (length ds) (length out - base) (map message_content msgs))"
  using assms(2-4,6)
proof (induction msgs arbitrary: out ds)
  case (Cons m msgs)
  let ?d = "\<lparr>message_index = length ds, offset = length out - base,
                 serialized_length = length (message_bytes (message_content m)),
                 ciphertext_length = length (message_content m), sha256 = sha (message_content m)\<rparr>"
  let ?out = "out @ message_bytes (message_content m)"
  have "write_message sha limits base (out, ds) m = Inr (?out, ds @ [?d])"
    by (rule write_message_ok) (use assms(1,5) Cons.prems in auto)
  moreover have "rfold (write_message sha limits base) (?out, ds @ [?d]) msgs =
     Inr (?out @ concat (map (\<lambda>m. message_bytes (message_content m)) msgs),
          (ds @ [?d]) @ descriptors_from sha (length (ds @ [?d])) (length ?out - base) (map message_content msgs))"
    by (rule Cons.IH) (use Cons.prems in auto)
  moreover have "length ?out - base = length out - base + length (message_bytes (message_content m))"
    using Cons.prems(4) by simp
  ultimately show ?case by simp
qed simp

section \<open>What may be written\<close>

definition writable :: "container_limits \<Rightarrow> pytext list \<Rightarrow> bytes \<Rightarrow> message list \<Rightarrow> bool" where
  "writable limits hints metadata msgs \<longleftrightarrow>
     metadata \<noteq> [] \<and> length metadata \<le> max_metadata_bytes limits \<and>
     length (header_bytes hints (length metadata)) \<le> max_public_header_bytes limits \<and>
     msgs \<noteq> [] \<and> length msgs \<le> max_messages limits \<and>
     list_all (\<lambda>m. message_content m \<noteq> [] \<and> length (message_content m) \<le> max_message_bytes limits) msgs \<and>
     length (container_bytes hints metadata (map message_content msgs)) \<le> max_container_bytes limits"

definition messages_start :: "pytext list \<Rightarrow> bytes \<Rightarrow> nat" where
  "messages_start hints metadata = length (header_bytes hints (length metadata)) + length (block metadata_indent metadata)"

lemma write_container_ok:
  assumes "0 < io_chunk_bytes limits" and h: "normalize_hints limits raw = Inr hints"
    and w: "writable limits hints metadata msgs" and sha: "\<forall>b. hex64 (sha b)"
  shows "write_container sha limits raw metadata msgs =
     Inr (container_bytes hints metadata (map message_content msgs),
          \<lparr>message_descriptors = descriptors_from sha 0 (length messages_header) (map message_content msgs),
           written_length = length (container_bytes hints metadata (map message_content msgs)),
           public_header_sha256 = sha (header_bytes hints (length metadata))\<rparr>)"
proof -
  let ?h = "header_bytes hints (length metadata)"
  let ?ms = "concat (map (\<lambda>m. message_bytes (message_content m)) msgs)"
  have total: "length ?h + length (block metadata_indent metadata) + length messages_header + length ?ms
      \<le> max_container_bytes limits"
    using w by (simp add: writable_def container_bytes_def messages_bytes_def comp_def)
  have p: "rfold (write_public limits) ([], []) (header_lines hints (length metadata)) = Inr (?h, ?h)"
    using write_public_ok [of "[]" "header_lines hints (length metadata)" limits "[]"] w total
    by (simp add: header_bytes_def writable_def)
  have b: "write_binary_bytes limits metadata_indent ?h metadata = Inr (?h @ block metadata_indent metadata)"
    by (rule write_binary_bytes_ok) (use total in simp)
  let ?out = "?h @ block metadata_indent metadata"
  have e: "emit limits ?out messages_header = Inr (?out @ messages_header)"
    by (rule emit_ok) (use total in simp)
  have m: "rfold (write_message sha limits (length ?out)) (?out @ messages_header, []) msgs =
     Inr ((?out @ messages_header) @ ?ms,
          [] @ descriptors_from sha (length ([] :: message_descriptor list))
            (length (?out @ messages_header) - length ?out) (map message_content msgs))"
    by (rule write_messages_ok) (use assms total in \<open>simp_all add: writable_def list_all_iff\<close>)
  have ne: "descriptors_from sha 0 k (map message_content msgs) \<noteq> []" for k
    using w by (cases msgs) (simp_all add: writable_def)
  show ?thesis
    unfolding write_container_def h
    using w ne m by (simp add: writable_def p b e container_bytes_def messages_bytes_def comp_def)
qed

section \<open>Reading at a position\<close>

definition ahead :: "bytes \<Rightarrow> nat \<Rightarrow> bytes \<Rightarrow> bool" where
  "ahead data pos r \<longleftrightarrow> pos \<le> length data \<and> drop pos data = r"

lemma rs_size_bytes [simp]: "rs_size (bytes_source data) = length data"
  by (simp add: bytes_source_def)

lemma ahead_0: "ahead data 0 data"
  by (simp add: ahead_def)

lemma ahead_step: "ahead data pos (d @ r) \<Longrightarrow> ahead data (pos + length d) r"
proof -
  assume a: "ahead data pos (d @ r)"
  then have "drop (length d) (drop pos data) = r" by (simp add: ahead_def)
  moreover have "length d \<le> length (drop pos data)" using a by (simp add: ahead_def)
  moreover have "pos \<le> length data" using a by (simp add: ahead_def)
  ultimately show ?thesis by (simp add: ahead_def add.commute)
qed

lemma ahead_unique: "ahead data pos r \<Longrightarrow> ahead data pos r' \<Longrightarrow> r = r'"
  by (simp add: ahead_def)

lemma ahead_length: "ahead data pos r \<Longrightarrow> pos + length r = length data"
  by (auto simp: ahead_def)

lemma read_exact_iff:
  "read_exact (bytes_source data) pos n = Inr d \<longleftrightarrow> pos + n \<le> length data \<and> d = take n (drop pos data)"
  by (auto simp: read_exact_def bytes_source_def)

lemma read_exact_ahead:
  assumes "ahead data pos (d @ r)" and "n = length d"
  shows "read_exact (bytes_source data) pos n = Inr d"
  using ahead_length [OF assms(1)] assms unfolding read_exact_iff ahead_def by simp

lemma read_exact_back:
  assumes "read_exact (bytes_source data) pos n = Inr d"
  obtains r where "ahead data pos (d @ r)" "ahead data (pos + n) r" "length d = n"
proof -
  from assms have d: "pos + n \<le> length data" "d = take n (drop pos data)" by (simp_all add: read_exact_iff)
  then have a: "ahead data pos (d @ drop (pos + n) data)"
    by (simp add: ahead_def add.commute drop_drop [symmetric] del: drop_drop)
  have "length d = n" using d by simp
  with a ahead_step [OF a] that show thesis by blast
qed

lemma expect_iff:
  "expect (bytes_source data) pos line = Inr v \<longleftrightarrow> (\<exists>r. ahead data pos (line @ r))"
proof
  assume "expect (bytes_source data) pos line = Inr v"
  then have "read_exact (bytes_source data) pos (length line) = Inr line"
    by (auto simp: expect_def result_simps)
  then show "\<exists>r. ahead data pos (line @ r)" by (rule read_exact_back) blast
next
  assume "\<exists>r. ahead data pos (line @ r)"
  then obtain r where "ahead data pos (line @ r)" ..
  from read_exact_ahead [OF this refl] show "expect (bytes_source data) pos line = Inr v"
    by (simp add: expect_def)
qed

lemma read_line_from_ahead:
  "ahead data pos (l @ 10 # r) \<Longrightarrow> 10 \<notin> set l \<Longrightarrow> length acc + length l < mx \<Longrightarrow>
     read_line_from (bytes_source data) mx pos acc = Inr (acc @ l @ [10], pos + length l + 1)"
proof (induction l arbitrary: pos acc)
  case Nil
  then have "ahead data pos ([10] @ r)" by simp
  then have "read_exact (bytes_source data) pos 1 = Inr [10]" "pos < length data"
    using ahead_length by (simp_all add: read_exact_ahead) (force dest: ahead_length)
  with Nil show ?case by (subst read_line_from.simps) simp
next
  case (Cons b l)
  then have a: "ahead data pos ([b] @ l @ 10 # r)" by simp
  then have b: "read_exact (bytes_source data) pos 1 = Inr [b]" "pos < length data"
    by (simp_all add: read_exact_ahead) (force dest: ahead_length)
  have "read_line_from (bytes_source data) mx (pos + 1) (acc @ [b]) =
      Inr ((acc @ [b]) @ l @ [10], pos + 1 + length l + 1)"
    by (rule Cons.IH) (use ahead_step [OF a] Cons.prems in simp_all)
  with b Cons.prems show ?case by (subst read_line_from.simps) simp
qed

lemma read_line_from_back:
  "read_line_from (bytes_source data) mx pos acc = Inr (line, p) \<Longrightarrow>
     \<exists>l r. ahead data pos (l @ 10 # r) \<and> line = acc @ l @ [10] \<and> p = pos + length l + 1"
proof (induction "bytes_source data" mx pos acc rule: read_line_from.induct)
  case (1 mx pos acc)
  from 1(2) have c: "length acc < mx \<and> pos < rs_size (bytes_source data)"
    by (subst (asm) read_line_from.simps) (simp split: if_splits)
  with 1(2) obtain b where b: "read_exact (bytes_source data) pos 1 = Inr b"
    and r: "(if b = [10] then Inr (acc @ b, pos + 1) else read_line_from (bytes_source data) mx (pos + 1) (acc @ b)) = Inr (line, p)"
    by (subst (asm) read_line_from.simps) (auto simp: result_simps)
  from b obtain r where a: "ahead data pos (b @ r)" "ahead data (pos + 1) r" "length b = 1" by (rule read_exact_back)
  show ?case
  proof (cases "b = [10]")
    case True
    with r a(1) show ?thesis by (intro exI [of _ "[]"] exI [of _ r]) auto
  next
    case False
    with r have "read_line_from (bytes_source data) mx (pos + 1) (acc @ b) = Inr (line, p)" by simp
    from 1(1) [OF c b False this] obtain l r' where
      l: "ahead data (pos + 1) (l @ 10 # r')" "line = (acc @ b) @ l @ [10]" "p = pos + 1 + length l + 1" by blast
    have "r = l @ 10 # r'" by (rule ahead_unique [OF a(2) l(1)])
    with a l show ?thesis by (intro exI [of _ "b @ l"] exI [of _ r']) auto
  qed
qed

section \<open>Numbers\<close>

lemma parse_decimal_decimal: "length (decimal n) \<le> 4300 \<Longrightarrow> parse_decimal (decimal n) = Inr n"
  using decimal_digits [of n] decimal_lead [of n] decimal_value [of n]
  by (auto simp: parse_decimal_def decimal.simps [of 0])

lemma parse_decimal_back: "parse_decimal ds = Inr n \<Longrightarrow> ds = decimal n"
  using decimal_unique [of ds] by (auto simp: parse_decimal_def split: if_splits)

lemma numbered_line_ok: "length (decimal n) \<le> 4300 \<Longrightarrow> numbered_line prefix (prefix @ decimal n @ [10]) = Inr n"
  by (simp add: numbered_line_def parse_decimal_decimal butlast_append decimal_digits(2))

lemma numbered_line_back: "numbered_line prefix line = Inr n \<Longrightarrow> line = prefix @ decimal n @ [10]"
proof -
  assume a: "numbered_line prefix line = Inr n"
  then have c: "take (length prefix) line = prefix" "length prefix < length line" "last line = 10"
    and p: "parse_decimal (drop (length prefix) (butlast line)) = Inr n"
    by (auto simp: numbered_line_def split: if_splits)
  from c(2) have "line \<noteq> []" by auto
  then have l: "line = butlast line @ [10]" using c(3) by (metis append_butlast_last_id)
  have "take (length prefix) (butlast line) = prefix" using c(1,2) by (metis butlast_take butlast_conv_take less_eq_Suc_le Suc_pred length_butlast take_butlast)
  then have "butlast line = prefix @ drop (length prefix) (butlast line)" by (metis append_take_drop_id)
  also have "\<dots> = prefix @ decimal n" using parse_decimal_back [OF p] by simp
  finally show ?thesis using l by simp
qed

section \<open>The recipients' lines\<close>

lemma hint_prefix_length [simp]: "length hint_prefix = 5"
  by (simp add: hint_prefix_def)

lemma hint_line_length: "fingerprint_ok h \<Longrightarrow> length (hint_line h) = 47"
  by (simp add: hint_line_def hint_prefix_def newline_def fingerprint_ok_def)

lemma match_hint_line: "fingerprint_ok h \<Longrightarrow> match_hint (hint_line h) = Some h"
  by (simp add: match_hint_def hint_line_def hint_prefix_def newline_def fingerprint_ok_def Let_def)

lemma match_hint_back:
  assumes "match_hint line = Some h"
  shows "fingerprint_ok h \<and> line = hint_line h"
proof -
  from assms have c: "length line = 47" "take 5 line = hint_prefix" "list_all upper_hex h" "drop 45 line = [39, 10]"
    "h = take 40 (drop 5 line)" by (auto simp: match_hint_def Let_def split: if_splits)
  have e1: "line = take 5 line @ take 40 (drop 5 line) @ drop 40 (drop 5 line)"
    by (simp only: append_take_drop_id)
  have e2: "take 5 line @ take 40 (drop 5 line) @ drop 40 (drop 5 line) = hint_prefix @ h @ [39, 10]"
    unfolding c(2) c(5) [symmetric] using c(4) by simp
  have "line = hint_prefix @ h @ [39, 10]" by (rule trans [OF e1 e2])
  moreover have "length h = 40" using c(1,5) by simp
  ultimately show ?thesis using c(3) by (simp add: fingerprint_ok_def hint_line_def newline_def)
qed

lemma length_line_head:
  "\<exists>pr t. length_line n = pr @ t @ [10] \<and> length pr = 5 \<and> pr \<noteq> hint_prefix \<and> 10 \<notin> set t"
proof -
  have "10 \<notin> set (decimal n)" using decimal_digits(1) [of n] by (auto simp: list_all_iff)
  moreover have "length_prefix = [109, 101, 116, 97, 100] @ [97, 116, 97, 95, 108, 101, 110, 103, 116, 104, 58, 32]"
    by (simp add: length_prefix_def u_def)
  ultimately show ?thesis
    by (intro exI [of _ "[109, 101, 116, 97, 100]"] exI [of _ "[97, 116, 97, 95, 108, 101, 110, 103, 116, 104, 58, 32] @ decimal n"])
      (simp add: length_line_def newline_def hint_prefix_def)
qed

lemma hint_line_split: "hint_line h = hint_prefix @ drop 5 (hint_line h)"
  by (simp add: hint_line_def hint_prefix_def)

lemma read_hints_ahead:
  assumes "ahead data pos (concat (map hint_line hs) @ length_line n @ r)"
    and "list_all fingerprint_ok hs" and "length hints + length hs \<le> max_recipient_hints limits"
    and "length (length_line n) \<le> max_line_bytes limits" and "length (decimal n) \<le> 4300"
    and "length (pub @ concat (map hint_line hs) @ length_line n) \<le> max_public_header_bytes limits"
  shows "read_hints limits (bytes_source data) pos hints pub =
    Inr (hints @ hs, n, pos + length (concat (map hint_line hs) @ length_line n),
         pub @ concat (map hint_line hs) @ length_line n)"
  using assms(1-3,6)
proof (induction hs arbitrary: pos hints pub)
  case Nil
  obtain pr t where t: "length_line n = pr @ t @ [10]" "10 \<notin> set t" and pr: "length pr = 5" "pr \<noteq> hint_prefix"
    using length_line_head by blast
  with Nil.prems(1) have a: "ahead data pos (pr @ t @ 10 # r)" by simp
  have p: "read_exact (bytes_source data) pos 5 = Inr pr"
    by (rule read_exact_ahead [OF a]) (simp add: pr)
  have s: "ahead data (pos + 5) (t @ 10 # r)" using ahead_step [OF a] by (simp add: pr)
  have "read_line_with_prefix (bytes_source data) pos pr (max_line_bytes limits) = Inr (pr @ t @ [10], pos + 5 + length t + 1)"
    unfolding read_line_with_prefix_def
    using read_line_from_ahead [OF s t(2), of pr "max_line_bytes limits"] assms(4) t(1) pr by simp
  then have l: "read_line_with_prefix (bytes_source data) pos pr (max_line_bytes limits) =
      Inr (length_line n, pos + length (length_line n))" using t(1) pr by simp
  have "numbered_line length_prefix (length_line n) = Inr n"
    using numbered_line_ok [OF assms(5)] by (simp add: length_line_def newline_def)
  with p l Nil.prems pr show ?case
    by (subst read_hints.simps) (simp add: check_public_header_size_def)
next
  case (Cons h hs)
  have f: "fingerprint_ok h" using Cons.prems(2) by simp
  have a: "ahead data pos (hint_prefix @ drop 5 (hint_line h) @ concat (map hint_line hs) @ length_line n @ r)"
    using Cons.prems(1) hint_line_split [of h] by (metis append_assoc concat.simps(2) list.simps(9))
  have p: "read_exact (bytes_source data) pos 5 = Inr hint_prefix"
    by (rule read_exact_ahead [OF a]) (simp add: hint_prefix_def)
  have a5: "ahead data (pos + 5) (drop 5 (hint_line h) @ concat (map hint_line hs) @ length_line n @ r)"
    using ahead_step [OF a] by simp
  have q: "read_exact (bytes_source data) (pos + 5) 42 = Inr (drop 5 (hint_line h))"
    by (rule read_exact_ahead [OF a5]) (simp add: hint_line_length [OF f])
  have a47: "ahead data (pos + 47) (concat (map hint_line hs) @ length_line n @ r)"
    using ahead_step [OF a5] hint_line_length [OF f] by (simp add: add.commute)
  have "read_hints limits (bytes_source data) (pos + 47) (hints @ [h]) (pub @ hint_line h) =
    Inr ((hints @ [h]) @ hs, n, pos + 47 + length (concat (map hint_line hs) @ length_line n),
         (pub @ hint_line h) @ concat (map hint_line hs) @ length_line n)"
    by (rule Cons.IH [OF a47]) (use Cons.prems in simp_all)
  with p q Cons.prems f show ?case
    by (subst read_hints.simps)
      (simp add: hint_line_split [symmetric] match_hint_line hint_line_length check_public_header_size_def)
qed

lemma read_hints_back:
  "read_hints limits (bytes_source data) pos hints pub = Inr (hints', n, p, pub') \<Longrightarrow>
     \<exists>hs r. hints' = hints @ hs \<and> list_all fingerprint_ok hs \<and>
       length hints' \<le> max (length hints) (max_recipient_hints limits) \<and>
       ahead data pos (concat (map hint_line hs) @ length_line n @ r) \<and>
       p = pos + length (concat (map hint_line hs) @ length_line n) \<and>
       pub' = pub @ concat (map hint_line hs) @ length_line n"
proof (induction limits "bytes_source data" pos hints pub rule: read_hints.induct)
  case (1 limits pos hints pub)
  from 1(2) obtain probe where p: "read_exact (bytes_source data) pos 5 = Inr probe"
    by (subst (asm) read_hints.simps) (auto simp: result_simps)
  then obtain r1 where a: "ahead data pos (probe @ r1)" "ahead data (pos + 5) r1" "length probe = 5"
    by (rule read_exact_back)
  show ?case
  proof (cases "probe = hint_prefix")
    case True
    with 1(2) p obtain rest where q: "read_exact (bytes_source data) (pos + 5) 42 = Inr rest"
      by (subst (asm) read_hints.simps) (auto simp: result_simps)
    then obtain r2 where b: "ahead data (pos + 5) (rest @ r2)" "ahead data (pos + 5 + 42) r2" "length rest = 42"
      by (rule read_exact_back)
    from 1(2) p q True have nl: "\<not> max_recipient_hints limits \<le> length hints"
      by (subst (asm) read_hints.simps) (auto split: if_splits)
    with 1(2) p q True obtain h where h: "match_hint (probe @ rest) = Some h"
      by (subst (asm) read_hints.simps) (auto split: if_splits option.splits)
    with 1(2) p q True nl have c: "check_public_header_size limits (pub @ probe @ rest) = Inr ()"
      and rec: "read_hints limits (bytes_source data) (pos + length (probe @ rest)) (hints @ [h]) (pub @ probe @ rest) =
         Inr (hints', n, p, pub')"
      by (subst (asm) read_hints.simps; auto simp: result_simps split: if_splits)+
    from 1(1) [OF p True q nl h c rec] obtain hs r where
      IH: "hints' = (hints @ [h]) @ hs" "list_all fingerprint_ok hs"
      "length hints' \<le> max (length (hints @ [h])) (max_recipient_hints limits)"
      "ahead data (pos + length (probe @ rest)) (concat (map hint_line hs) @ length_line n @ r)"
      "p = pos + length (probe @ rest) + length (concat (map hint_line hs) @ length_line n)"
      "pub' = (pub @ probe @ rest) @ concat (map hint_line hs) @ length_line n" by blast
    have r1: "r1 = rest @ r2" by (rule ahead_unique [OF a(2) b(1)])
    have r2: "r2 = concat (map hint_line hs) @ length_line n @ r"
    proof (rule ahead_unique [OF b(2)])
      have e: "pos + length (probe @ rest) = pos + 5 + 42" using a(3) b(3) by simp
      show "ahead data (pos + 5 + 42) (concat (map hint_line hs) @ length_line n @ r)" using IH(4) unfolding e .
    qed
    have hl: "fingerprint_ok h" "probe @ rest = hint_line h" using match_hint_back [OF h] by simp_all
    have "ahead data pos (concat (map hint_line (h # hs)) @ length_line n @ r)"
      using a(1) by (simp add: r1 r2 hl(2) [symmetric])
    moreover have "length hints' \<le> max (length hints) (max_recipient_hints limits)" using IH(3) nl by simp
    ultimately show ?thesis using IH(1,2,5,6) hl by (intro exI [of _ "h # hs"] exI [of _ r]) simp
  next
    case False
    with 1(2) p obtain line where l: "read_line_with_prefix (bytes_source data) pos probe (max_line_bytes limits) = Inr (line, p)"
      and nn: "numbered_line length_prefix line = Inr n" and eq: "hints' = hints" "pub' = pub @ line"
      by (subst (asm) read_hints.simps) (auto simp: result_simps split: if_splits)
    from l a(3) have "read_line_from (bytes_source data) (max_line_bytes limits) (pos + 5) probe = Inr (line, p)"
      by (auto simp: read_line_with_prefix_def split: if_splits)
    from read_line_from_back [OF this] obtain t r where
      t: "ahead data (pos + 5) (t @ 10 # r)" "line = probe @ t @ [10]" "p = pos + 5 + length t + 1" by blast
    have r1: "r1 = t @ 10 # r" by (rule ahead_unique [OF a(2) t(1)])
    have "line = length_line n" using numbered_line_back [OF nn] by (simp add: length_line_def newline_def)
    with a t r1 eq show ?thesis by (intro exI [of _ "[]"] exI [of _ r]) auto
  qed
qed

section \<open>Binary blocks read back\<close>

lemma enc_le_76: "enc n \<le> 76 \<Longrightarrow> n \<le> 57"
  unfolding enc_def by linarith

lemma decode_canonical_ok:
  "byte_list l \<Longrightarrow> l \<noteq> [] \<Longrightarrow> length l \<le> 57 \<Longrightarrow> decode_canonical_base64 (b64encode l) = Inr l"
  using enc_small(1) [of "length l"]
  by (simp add: decode_canonical_base64_def b64_round_trip b64encode_length enc_def)

lemma decode_canonical_back:
  assumes "decode_canonical_base64 e = Inr d"
  shows "e = b64encode d \<and> byte_list d \<and> d \<noteq> [] \<and> length d \<le> 57"
proof -
  from assms have e: "e \<noteq> []" "length e \<le> 76" "b64decode e = Some d" "b64encode d = e"
    by (auto simp: decode_canonical_base64_def split: if_splits option.splits)
  then have "length d \<le> 57" using enc_le_76 [of "length d"] by (auto simp: b64encode_length enc_def)
  with e b64decode_bytes [OF e(3)] show ?thesis by auto
qed

lemma line_total_min: "g \<le> line_total n \<Longrightarrow> line_total (min n (57 * g)) = g"
proof -
  assume g: "g \<le> line_total n"
  show ?thesis
  proof (cases "57 * g \<le> n")
    case True
    then show ?thesis using line_total_mult [of g 0] by simp
  next
    case False
    then have "line_total n \<le> line_total (57 * g)" unfolding line_total_def by (intro div_le_mono) simp
    with g False show ?thesis using line_total_mult [of g 0] by simp
  qed
qed

lemma line_total_step: "Suc g \<le> line_total n \<Longrightarrow> 0 < n \<and> g \<le> line_total (n - 57)"
proof -
  assume g: "Suc g \<le> line_total n"
  then have "0 < n" by (cases n) simp_all
  moreover have "g \<le> line_total (n - 57)"
  proof (cases "57 \<le> n")
    case True
    then obtain r where "n = 57 + r" by (metis le_Suc_ex)
    with g show ?thesis by (simp add: line_total_57)
  next
    case False
    with g line_total_small [OF \<open>0 < n\<close>] show ?thesis by simp
  qed
  ultimately show ?thesis ..
qed

lemma enc_row: "min (enc (min n (57 * Suc g))) 76 = enc (min n 57)"
  and enc_rows: "enc (min n (57 * Suc g)) - min (enc (min n (57 * Suc g))) 76 = enc (min (n - 57) (57 * g))"
proof -
  have m: "min (min n (57 * Suc g)) 57 = min n 57" "min n (57 * Suc g) - 57 = min (n - 57) (57 * g)" by auto
  show "min (enc (min n (57 * Suc g))) 76 = enc (min n 57)"
    using enc_min [of "min n (57 * Suc g)" 1] m by simp
  show "enc (min n (57 * Suc g)) - min (enc (min n (57 * Suc g))) 76 = enc (min (n - 57) (57 * g))"
    using enc_diff [of "min n (57 * Suc g)" 1] m by simp
qed

lemmas enc_rows' = enc_rows [unfolded enc_row]

lemma block_line_parts:
  "take (length indent) (block_line indent l) = indent" "block_line indent l \<noteq> []" "last (block_line indent l) = 10"
  "drop (length indent) (butlast (block_line indent l)) = b64encode l"
  by (simp_all add: block_line_def butlast_append)

lemma byte_list_take: "byte_list bs \<Longrightarrow> byte_list (take n bs)" "byte_list bs \<Longrightarrow> byte_list (drop n bs)"
  by (auto simp: byte_list_def list_all_iff dest: in_set_takeD in_set_dropD)

lemma byte_list_append [simp]: "byte_list (a @ b) \<longleftrightarrow> byte_list a \<and> byte_list b"
  by (auto simp: byte_list_def)

lemma block_rows_ok:
  assumes "byte_list bs" and "length dec + length bs = amount" and "g \<le> line_total (length bs)"
  shows "block_rows err indent amount (x @ block indent (take (57 * g) bs)) g (length x) (enc (min (length bs) (57 * g))) dec
     = Inr (length x + length (block indent (take (57 * g) bs)), dec @ take (57 * g) bs)"
  using assms
proof (induction g arbitrary: x bs dec)
  case (Suc g)
  let ?l = "take 57 bs" and ?bs = "drop 57 bs"
  have g: "0 < length bs" "g \<le> line_total (length ?bs)" using line_total_step [OF Suc.prems(3)] by auto
  then have ne: "bs \<noteq> []" "?l \<noteq> []" by auto
  have t: "take (57 * Suc g) bs = ?l @ take (57 * g) ?bs" by (simp add: take_add add.commute)
  have b: "block indent (take (57 * Suc g) bs) = block_line indent ?l @ block indent (take (57 * g) ?bs)"
  proof -
    have e: "take 57 (take (57 * Suc g) bs) = ?l" "drop 57 (take (57 * Suc g) bs) = take (57 * g) ?bs"
      by (simp_all add: min_def drop_take)
    have "take (57 * Suc g) bs \<noteq> []" using ne by simp
    from block_step [OF this, of indent] show ?thesis unfolding e .
  qed
  let ?raw = "x @ block indent (take (57 * Suc g) bs)"
  have raw: "?raw = (x @ block_line indent ?l) @ block indent (take (57 * g) ?bs)" by (simp only: b append_assoc)
  have ll: "length ?l = min (length bs) 57" by (simp add: min.commute)
  have line: "take (length indent + enc (min (length bs) 57) + 1) (drop (length x) ?raw) = block_line indent ?l"
    by (simp add: b block_line_length ll del: mult_Suc_right)
  have dec: "decode_canonical_base64 (b64encode ?l) = Inr ?l"
    by (rule decode_canonical_ok) (use Suc.prems(1) ne byte_list_take in auto)
  have IH: "block_rows err indent amount ?raw g (length x + (length indent + enc (min (length bs) 57) + 1))
      (enc (min (length ?bs) (57 * g))) (dec @ ?l) =
      Inr (length x + length (block_line indent ?l) + length (block indent (take (57 * g) ?bs)), (dec @ ?l) @ take (57 * g) ?bs)"
    using Suc.IH [of ?bs "dec @ ?l" "x @ block_line indent ?l"] Suc.prems(1,2) g(2) byte_list_take
    unfolding raw by (simp add: block_line_length ll)
  have tb: "dec @ take (57 * Suc g) bs = (dec @ ?l) @ take (57 * g) ?bs" by (simp only: t append_assoc)
  have amt: "length ?l = min 57 (amount - length dec)" using Suc.prems(2) ll by simp
  show ?case
    unfolding block_rows.simps Let_def enc_row enc_rows' line block_line_parts dec rbind.simps
    using amt IH block_line_parts(2) [of indent ?l]
    by (simp add: b tb block_line_length del: mult_Suc_right append_assoc) (simp add: ll)?
qed simp

lemma take_length: "k \<le> length xs \<Longrightarrow> length (take k xs) = k"
  by simp

lemma block_rows_back:
  assumes "block_rows err indent amount raw g cur (enc (min n (57 * g))) dec = Inr (cur', dec')"
    and "length dec + n = amount" and "g \<le> line_total n"
    and "cur + (length indent + 1) * g + enc (min n (57 * g)) \<le> length raw"
  shows "\<exists>new y. dec' = dec @ new \<and> length new = min n (57 * g) \<and> byte_list new \<and>
     drop cur raw = block indent new @ y \<and> cur' = cur + length (block indent new)"
  using assms
proof (induction g arbitrary: cur n dec)
  case 0
  then show ?case by (auto simp: byte_list_def)
next
  case (Suc g)
  let ?size = "length indent + enc (min n 57) + 1"
  let ?line = "take ?size (drop cur raw)"
  have g: "0 < n" "g \<le> line_total (n - 57)" using line_total_step [OF Suc.prems(3)] by auto
  from Suc.prems(1) obtain d where
    c: "take (length indent) ?line = indent" "?line \<noteq> []" "last ?line = 10"
    and d: "decode_canonical_base64 (drop (length indent) (butlast ?line)) = Inr d"
    and ld: "length d = min 57 n"
    and rec: "block_rows err indent amount raw g (cur + ?size) (enc (min (n - 57) (57 * g))) (dec @ d) = Inr (cur', dec')"
    unfolding block_rows.simps Let_def enc_row enc_rows' using Suc.prems(2)
    by (auto simp: result_simps simp del: mult_Suc_right split: if_splits)
  have em: "enc (min n 57) + enc (min (n - 57) (57 * g)) = enc (min n (57 * Suc g))"
    using enc_row [of n g] enc_rows [of n g] by linarith
  then have sz: "cur + ?size \<le> length raw" using Suc.prems(4) by simp
  then have ll: "length ?line = ?size" by simp
  have line: "?line = block_line indent d"
  proof -
    have "?line = butlast ?line @ [10]" using c(2,3) by (metis append_butlast_last_id)
    moreover have "take (length indent) (butlast ?line) = indent"
      using c(1) ll by (metis Suc_eq_plus1 add_Suc diff_Suc_1 le_add1 length_butlast take_butlast butlast_take butlast_conv_take less_Suc_eq_le)
    then have "butlast ?line = indent @ drop (length indent) (butlast ?line)" by (metis append_take_drop_id)
    ultimately show ?thesis using decode_canonical_back [OF d] by (simp add: block_line_def)
  qed
  have dn: "length (dec @ d) + (n - 57) = amount" using Suc.prems(2) ld by auto
  have "cur + ?size + (length indent + 1) * g + enc (min (n - 57) (57 * g)) \<le> length raw"
    using Suc.prems(4) em by simp
  from Suc.IH [OF rec dn g(2) this] obtain new y where
    new: "dec' = (dec @ d) @ new" "length new = min (n - 57) (57 * g)" "byte_list new"
      "drop (cur + ?size) raw = block indent new @ y" "cur' = cur + ?size + length (block indent new)" by blast
  have bd: "byte_list d" "d \<noteq> []" "length d \<le> 57" using decode_canonical_back [OF d] by auto
  have blk: "block indent (d @ new) = block_line indent d @ block indent new"
  proof (cases "length d = 57")
    case True
    then show ?thesis using block_append [of d indent new] block_short [of d indent] bd by simp
  next
    case False
    then have "new = []" using new(2) ld by auto
    then show ?thesis using block_short [of d indent] bd by simp
  qed
  have "drop cur raw = ?line @ drop (cur + ?size) raw"
    by (metis append_take_drop_id drop_drop add.commute)
  then have "drop cur raw = block indent (d @ new) @ y" using line new(4) blk by simp
  moreover have "length (d @ new) = min n (57 * Suc g)" using ld new(2) by auto
  moreover have "cur' = cur + length (block indent (d @ new))" using new(5) blk line ll by simp
  ultimately show ?case using new(1,3) bd(1) by (intro exI [of _ "d @ new"] exI [of _ y]) simp
qed

end
