(* ===== verification/Container_Reading.thy ===== *)
theory Container_Reading
  imports Container_Writing "HOL-Library.Code_Target_Nat"
begin

text \<open>
  The readers of \<open>container_format.py\<close> over the canonical serialization, in both directions: they
  accept it and return its contents, and whatever they accept is it.
\<close>


lemma group_lines_le: "group_lines limits indent (enc n) \<le> line_total n"
  by (simp add: group_lines_def enc_lines)

lemma group_chars_enc: "group_chars limits indent (enc n) = enc (min n (57 * group_lines limits indent (enc n)))"
  using enc_min [of n "group_lines limits indent (enc n)"] by (simp add: group_chars_def mult.commute)

lemma group_bytes:
  "length indent * group_lines limits indent (enc n) + group_chars limits indent (enc n) + group_lines limits indent (enc n) =
     block_length indent (min n (57 * group_lines limits indent (enc n)))"
  using line_total_min [OF group_lines_le [of limits indent n]]
  by (simp add: block_length_enc group_chars_enc algebra_simps)

lemma group_rest: "enc n - group_chars limits indent (enc n) = enc (n - 57 * group_lines limits indent (enc n))"
  using enc_diff [of n "group_lines limits indent (enc n)"] by (simp add: group_chars_def mult.commute)

lemma block_groups_step:
  assumes "0 < n"
  defines "g \<equiv> \<lambda>limits indent. group_lines limits indent (enc n)"
  shows "block_groups err limits src indent amount pos (enc n) dec =
    rbind (read_exact src pos (block_length indent (min n (57 * g limits indent)))) (\<lambda>raw.
    rbind (block_rows err indent amount raw (g limits indent) 0 (enc (min n (57 * g limits indent))) dec) (\<lambda>(cursor, dec).
      if cursor \<noteq> length raw then Inl err
      else block_groups err limits src indent amount (pos + block_length indent (min n (57 * g limits indent)))
             (enc (n - 57 * g limits indent)) dec))"
proof -
  have "enc n \<noteq> 0" using assms(1) by simp
  then show ?thesis
    unfolding g_def by (subst block_groups.simps) (simp only: if_False Let_def group_chars_enc group_bytes [unfolded group_chars_enc] group_rest [unfolded group_chars_enc])
qed

lemma block_groups_ok:
  "ahead data pos (block indent bs @ r) \<Longrightarrow> byte_list bs \<Longrightarrow> length dec + length bs = amount \<Longrightarrow>
     block_groups err limits (bytes_source data) indent amount pos (enc (length bs)) dec =
       Inr (pos + length (block indent bs), dec @ bs)"
proof (induction "length bs" arbitrary: pos bs dec rule: less_induct)
  case less
  show ?case
  proof (cases "bs = []")
    case True
    then show ?thesis by (subst block_groups.simps) simp
  next
    case False
    let ?n = "length bs"
    let ?g = "group_lines limits indent (enc ?n)"
    let ?t = "take (57 * ?g) bs" and ?d = "drop (57 * ?g) bs"
    have g: "0 < ?g" by (rule group_lines_pos) (use False in simp)
    have split: "block indent bs = block indent ?t @ block indent ?d"
      using block_split [of "57 * ?g" indent bs] g by simp
    have lt: "length (block indent ?t) = block_length indent (min ?n (57 * ?g))"
      by (simp add: block_length min.commute)
    have a: "ahead data pos (block indent ?t @ block indent ?d @ r)" using less.prems(1) split by simp
    have rd: "read_exact (bytes_source data) pos (block_length indent (min ?n (57 * ?g))) = Inr (block indent ?t)"
      by (rule read_exact_ahead [OF a]) (simp add: lt)
    have rows: "block_rows err indent amount (block indent ?t) ?g 0 (enc (min ?n (57 * ?g))) dec =
        Inr (length (block indent ?t), dec @ ?t)"
      using block_rows_ok [OF less.prems(2,3) group_lines_le, of err indent "[]" limits indent] by simp
    have IH: "block_groups err limits (bytes_source data) indent amount (pos + length (block indent ?t)) (enc (length ?d)) (dec @ ?t) =
        Inr (pos + length (block indent ?t) + length (block indent ?d), (dec @ ?t) @ ?d)"
      by (rule less.hyps [OF _ ahead_step [OF a]]) (use False g less.prems byte_list_take in auto)
    have "0 < ?n" using False by simp
    show ?thesis
      unfolding block_groups_step [OF \<open>0 < ?n\<close>] rd rbind.simps rows prod.case
      using IH [unfolded lt length_drop] lt arg_cong [OF split, of length] by simp
  qed
qed

lemma block_groups_back:
  "block_groups err limits (bytes_source data) indent amount pos (enc n) dec = Inr (p, dec') \<Longrightarrow>
   length dec + n = amount \<Longrightarrow> pos \<le> length data \<Longrightarrow>
     \<exists>new r. dec' = dec @ new \<and> length new = n \<and> byte_list new \<and>
       ahead data pos (block indent new @ r) \<and> p = pos + length (block indent new)"
proof (induction n arbitrary: pos dec rule: less_induct)
  case (less n)
  show ?case
  proof (cases "n = 0")
    case True
    with less.prems show ?thesis
      by (subst (asm) block_groups.simps) (auto simp: byte_list_def ahead_def)
  next
    case False
    let ?g = "group_lines limits indent (enc n)"
    have g: "0 < ?g" by (rule group_lines_pos) (use False in simp)
    from less.prems(1) False obtain raw cur dec1 where
      rd: "read_exact (bytes_source data) pos (block_length indent (min n (57 * ?g))) = Inr raw"
      and rows: "block_rows err indent amount raw ?g 0 (enc (min n (57 * ?g))) dec = Inr (cur, dec1)"
      and cur: "cur = length raw"
      and rec: "block_groups err limits (bytes_source data) indent amount
        (pos + block_length indent (min n (57 * ?g))) (enc (n - 57 * ?g)) dec1 = Inr (p, dec')"
      using block_groups_step [of n] by (auto simp: result_simps split: if_splits)
    from rd obtain r1 where a: "ahead data pos (raw @ r1)" "ahead data (pos + block_length indent (min n (57 * ?g))) r1"
      "length raw = block_length indent (min n (57 * ?g))" by (rule read_exact_back)
    have "0 + (length indent + 1) * ?g + enc (min n (57 * ?g)) \<le> length raw"
      using line_total_min [OF group_lines_le [of limits indent n]] by (simp add: a(3) block_length_enc)
    from block_rows_back [OF rows less.prems(2) group_lines_le this] obtain new1 y where
      n1: "dec1 = dec @ new1" "length new1 = min n (57 * ?g)" "byte_list new1" "raw = block indent new1 @ y"
        "cur = length (block indent new1)" by auto
    then have raw: "raw = block indent new1" using cur by simp
    have "length dec1 + (n - 57 * ?g) = amount" using less.prems(2) n1 by auto
    moreover have "pos + block_length indent (min n (57 * ?g)) \<le> length data" using a(2) by (simp add: ahead_def)
    ultimately obtain new2 r where
      n2: "dec' = dec1 @ new2" "length new2 = n - 57 * ?g" "byte_list new2"
        "ahead data (pos + block_length indent (min n (57 * ?g))) (block indent new2 @ r)"
        "p = pos + block_length indent (min n (57 * ?g)) + length (block indent new2)"
      using less.IH [OF _ rec] False g by auto
    have r1: "r1 = block indent new2 @ r" by (rule ahead_unique [OF a(2) n2(4)])
    have blk: "block indent (new1 @ new2) = block indent new1 @ block indent new2"
    proof (cases "57 * ?g \<le> n")
      case True
      then have "length new1 mod 57 = 0" using n1(2) by simp
      then show ?thesis by (rule block_append)
    next
      case False
      then have "new2 = []" using n2(2) by simp
      then show ?thesis by simp
    qed
    show ?thesis
      using a(1,3) n1 n2 raw r1 blk by (intro exI [of _ "new1 @ new2"] exI [of _ r]) auto
  qed
qed

lemma read_binary_block_ok:
  assumes a: "ahead data pos (block indent bs @ r)" and "byte_list bs" and "length bs \<le> mx"
  shows "read_binary_block limits (bytes_source data) pos (length bs) indent mx = Inr (bs, pos + length (block indent bs))"
  unfolding read_binary_block_def enc_def [symmetric]
  using assms(2,3) ahead_length [OF a] block_groups_ok [OF a assms(2), of "[]"]
  by (simp add: block_length)

lemma read_binary_block_back:
  assumes "read_binary_block limits (bytes_source data) pos n indent mx = Inr (bs, p)"
  obtains r where "length bs = n" "byte_list bs" "ahead data pos (block indent bs @ r)" "p = pos + length (block indent bs)"
proof -
  from assms have "block_groups Format_error limits (bytes_source data) indent n pos (enc n) [] = Inr (p, bs)"
    and "pos \<le> length data"
    unfolding read_binary_block_def enc_def [symmetric] by (auto simp: result_simps split: if_splits)
  from block_groups_back [OF this(1) _ this(2)] that show thesis by auto
qed

lemma copy_binary_block_ok:
  assumes a: "ahead data pos (block indent bs @ r)" and "byte_list bs"
  shows "copy_binary_block_to limits (bytes_source data) pos (length bs) indent = Inr bs"
  unfolding copy_binary_block_to_def enc_def [symmetric]
  using assms(2) ahead_length [OF a] block_groups_ok [OF a assms(2), of "[]"]
  by (simp add: block_length)

section \<open>The header read back\<close>

definition readable_lines :: "container_limits \<Rightarrow> nat \<Rightarrow> bool" where
  "readable_lines limits n \<longleftrightarrow> length version_line \<le> max_line_bytes limits \<and>
     length (length_line n) \<le> max_line_bytes limits \<and> length (decimal n) \<le> 4300 \<and>
     81 \<le> max_line_bytes limits"

definition hints_ok :: "container_limits \<Rightarrow> pytext list \<Rightarrow> bool" where
  "hints_ok limits hints \<longleftrightarrow> hints \<noteq> [] \<and> list_all fingerprint_ok hints \<and> hints = sort (remdups hints) \<and>
     length hints \<le> max_recipient_hints limits"

lemma header_bytes_split:
  "header_bytes hints n = format_line @ version_line @ recipients_line @ concat (map hint_line hints) @ length_line n @ metadata_marker"
  by (simp add: header_bytes_def header_lines_def)

lemma version_line_split: "\<exists>l. version_line = l @ [10] \<and> 10 \<notin> set l"
proof -
  have "10 \<notin> set (decimal container_version)" using decimal_digits(1) [of container_version] by (auto simp: list_all_iff)
  then show ?thesis
    by (intro exI [of _ "version_prefix @ decimal container_version"])
      (simp add: version_line_def newline_def version_prefix_def u_def)
qed

lemma read_metadata_ok:
  assumes data: "data = header_bytes hints (length metadata) @ block metadata_indent metadata @ messages_header @ rest"
    and "rest \<noteq> []" and h: "hints_ok limits hints" and m: "metadata \<noteq> []" "byte_list metadata"
    "length metadata \<le> max_metadata_bytes limits" and l: "readable_lines limits (length metadata)"
    and pub: "length (header_bytes hints (length metadata)) \<le> max_public_header_bytes limits"
  shows "read_metadata limits (bytes_source data) =
    Inr \<lparr>recipient_hints = hints, encrypted_metadata = metadata, messages_offset = messages_start hints metadata,
         canonical_public_header = header_bytes hints (length metadata)\<rparr>"
proof -
  let ?hs = "concat (map hint_line hints)" and ?n = "length metadata"
  let ?tail = "block metadata_indent metadata @ messages_header @ rest"
  have a0: "ahead data 0 (format_line @ version_line @ recipients_line @ ?hs @ length_line ?n @ metadata_marker @ ?tail)"
    by (simp add: ahead_def data header_bytes_split)
  note a1 = ahead_step [OF a0, simplified]
  note a2 = ahead_step [OF a1]
  note a3 = ahead_step [OF a2]
  have a4: "ahead data (length format_line + length version_line + length recipients_line + length (?hs @ length_line ?n))
      (metadata_marker @ ?tail)"
    using ahead_step [of data _ "?hs @ length_line ?n"] a3 by simp
  note a5 = ahead_step [OF a4]
  note a6 = ahead_step [OF a5]
  obtain t where t: "version_line = t @ [10]" "10 \<notin> set t" using version_line_split by blast
  have a1t: "ahead data (length format_line) (t @ 10 # recipients_line @ ?hs @ length_line ?n @ metadata_marker @ ?tail)"
    using a1 [unfolded t(1) append_assoc append_Cons append_Nil] .
  have vl: "length version_line = length t + 1" unfolding t(1) by simp
  have v: "read_line (bytes_source data) (length format_line) (max_line_bytes limits) =
      Inr (version_line, length format_line + length version_line)"
    using read_line_from_ahead [OF a1t t(2), of "[]" "max_line_bytes limits"] vl t(1) l
    by (simp add: read_line_def read_line_with_prefix_def readable_lines_def)
  have vn: "numbered_line version_prefix version_line = Inr container_version"
    using numbered_line_ok [of container_version version_prefix]
    by (simp add: version_line_def newline_def container_version_def decimal.simps)
  have rh: "read_hints limits (bytes_source data) (length format_line + length version_line + length recipients_line) []
      (format_line @ version_line @ recipients_line) =
      Inr ([] @ hints, ?n, length format_line + length version_line + length recipients_line + length (?hs @ length_line ?n),
        (format_line @ version_line @ recipients_line) @ ?hs @ length_line ?n)"
    by (rule read_hints_ahead [OF a3]) (use h l pub in \<open>simp_all add: hints_ok_def readable_lines_def header_bytes_split\<close>)
  have e: "expect (bytes_source data) 0 format_line = Inr ()"
    "expect (bytes_source data) (length format_line + length version_line) recipients_line = Inr ()"
    "expect (bytes_source data) (length format_line + length version_line + length recipients_line + length (?hs @ length_line ?n))
       metadata_marker = Inr ()"
    using a0 a2 a4 unfolding expect_iff by blast+
  have b: "read_binary_block limits (bytes_source data)
      (length format_line + length version_line + length recipients_line + length (?hs @ length_line ?n) + length metadata_marker)
      ?n metadata_indent (max_metadata_bytes limits) =
      Inr (metadata, length format_line + length version_line + length recipients_line + length (?hs @ length_line ?n) +
        length metadata_marker + length (block metadata_indent metadata))"
    by (rule read_binary_block_ok [OF a5]) (use m in simp_all)
  have e4: "expect (bytes_source data) (length format_line + length version_line + length recipients_line + length (?hs @ length_line ?n) +
        length metadata_marker + length (block metadata_indent metadata)) messages_header = Inr ()"
    using a6 unfolding expect_iff by blast
  have start: "length format_line + length version_line + length recipients_line + length (?hs @ length_line ?n) +
        length metadata_marker + length (block metadata_indent metadata) = messages_start hints metadata"
    by (simp add: messages_start_def header_bytes_split)
  have room: "\<not> length data \<le> messages_start hints metadata + length messages_header"
    using assms(2) by (simp add: data messages_start_def)
  have c: "check_public_header_size limits
     (((format_line @ version_line @ recipients_line) @ ?hs @ length_line ?n) @ metadata_marker) = Inr ()"
    using pub by (simp add: check_public_header_size_def header_bytes_split)
  show ?thesis
    unfolding read_metadata_def e v vn rh b e4 rbind.simps prod.case c rs_size_bytes append_Nil start
    using h m room e4 [unfolded start] by (simp add: e hints_ok_def header_bytes_split)
qed

lemma read_line_back:
  "read_line (bytes_source data) pos mx = Inr (line, p) \<Longrightarrow>
     \<exists>l r. ahead data pos (l @ 10 # r) \<and> line = l @ [10] \<and> p = pos + length l + 1"
  using read_line_from_back [of data mx pos "[]" line p] by (simp add: read_line_def read_line_with_prefix_def)

text \<open>Only the canonical serialization of its own contents is accepted as a header.\<close>

lemma read_metadata_back:
  assumes "read_metadata limits (bytes_source data) = Inr h"
  shows "\<exists>rest. data = header_bytes (recipient_hints h) (length (encrypted_metadata h)) @
        block metadata_indent (encrypted_metadata h) @ messages_header @ rest \<and> rest \<noteq> [] \<and>
     recipient_hints h \<noteq> [] \<and> list_all fingerprint_ok (recipient_hints h) \<and>
     recipient_hints h = sort (remdups (recipient_hints h)) \<and>
     length (recipient_hints h) \<le> max_recipient_hints limits \<and>
     encrypted_metadata h \<noteq> [] \<and> byte_list (encrypted_metadata h) \<and>
     length (encrypted_metadata h) \<le> max_metadata_bytes limits \<and>
     messages_offset h = messages_start (recipient_hints h) (encrypted_metadata h) \<and>
     canonical_public_header h = header_bytes (recipient_hints h) (length (encrypted_metadata h)) \<and>
     length (canonical_public_header h) \<le> max_public_header_bytes limits"
proof -
  from assms obtain line p1 hints n p2 pub meta p3 where
    x0: "expect (bytes_source data) 0 format_line = Inr ()"
    and x1: "read_line (bytes_source data) (length format_line) (max_line_bytes limits) = Inr (line, p1)"
    and x2: "numbered_line version_prefix line = Inr container_version"
    and x3: "expect (bytes_source data) p1 recipients_line = Inr ()"
    and x4: "read_hints limits (bytes_source data) (p1 + length recipients_line) [] (format_line @ line @ recipients_line) =
       Inr (hints, n, p2, pub)"
    and x5: "hints \<noteq> []" "hints = sort (remdups hints)" "0 < n" "n \<le> max_metadata_bytes limits"
    and x6: "expect (bytes_source data) p2 metadata_marker = Inr ()"
    and x7: "check_public_header_size limits (pub @ metadata_marker) = Inr ()"
    and x8: "read_binary_block limits (bytes_source data) (p2 + length metadata_marker) n metadata_indent (max_metadata_bytes limits) =
       Inr (meta, p3)"
    and x9: "expect (bytes_source data) p3 messages_header = Inr ()"
    and x10: "\<not> length data \<le> p3 + length messages_header"
    and h: "h = \<lparr>recipient_hints = hints, encrypted_metadata = meta, messages_offset = p3,
               canonical_public_header = pub @ metadata_marker\<rparr>"
    unfolding read_metadata_def by (auto simp: result_simps split: if_splits)
  from x0 obtain r0 where a0: "ahead data 0 (format_line @ r0)" unfolding expect_iff ..
  from read_line_back [OF x1] obtain l r1 where
    l: "ahead data (length format_line) (l @ 10 # r1)" "line = l @ [10]" "p1 = length format_line + length l + 1" by blast
  have line: "line = version_line" using numbered_line_back [OF x2] by (simp add: version_line_def newline_def)
  have r0: "r0 = line @ r1" using ahead_unique [OF _ l(1)] ahead_step [OF a0] l(2) by simp
  have p1: "p1 = length format_line + length line" using l by simp
  have a1: "ahead data p1 r1" using ahead_step [of data "length format_line" line r1] l p1 by simp
  from x3 obtain r2 where a2: "ahead data p1 (recipients_line @ r2)" unfolding expect_iff ..
  have r1: "r1 = recipients_line @ r2" by (rule ahead_unique [OF a1 a2])
  from read_hints_back [OF x4] obtain hs r3 where
    hs: "hints = [] @ hs" "list_all fingerprint_ok hs"
      "ahead data (p1 + length recipients_line) (concat (map hint_line hs) @ length_line n @ r3)"
      "p2 = p1 + length recipients_line + length (concat (map hint_line hs) @ length_line n)"
      "pub = (format_line @ line @ recipients_line) @ concat (map hint_line hs) @ length_line n"
      "length hints \<le> max (length ([] :: pytext list)) (max_recipient_hints limits)" by blast
  have r2: "r2 = (concat (map hint_line hints) @ length_line n) @ r3"
    using ahead_unique [OF ahead_step [OF a2] hs(3)] hs(1) by simp
  have a3: "ahead data p2 r3" using ahead_step [of data _ "concat (map hint_line hs) @ length_line n" r3] hs(3,4) by simp
  from x6 obtain r4 where a4: "ahead data p2 (metadata_marker @ r4)" unfolding expect_iff ..
  have r3: "r3 = metadata_marker @ r4" by (rule ahead_unique [OF a3 a4])
  from x8 obtain r5 where b: "length meta = n" "byte_list meta"
    "ahead data (p2 + length metadata_marker) (block metadata_indent meta @ r5)"
    "p3 = p2 + length metadata_marker + length (block metadata_indent meta)" by (rule read_binary_block_back)
  have r4: "r4 = block metadata_indent meta @ r5" by (rule ahead_unique [OF ahead_step [OF a4] b(3)])
  from x9 obtain r6 where a6: "ahead data p3 (messages_header @ r6)" unfolding expect_iff ..
  have r5: "r5 = messages_header @ r6" using ahead_unique [OF ahead_step [OF b(3)]] a6 b(4) by simp
  have "data = format_line @ r0" using ahead_unique [OF ahead_0 a0] .
  then have data: "data = header_bytes hints n @ block metadata_indent meta @ messages_header @ r6"
    by (simp add: r0 r1 r2 r3 r4 r5 line header_bytes_split)
  have "r6 \<noteq> []" using ahead_length [OF a6] x10 by auto
  moreover have "p3 = messages_start hints meta"
    using b(1,4) hs(1,4) p1 line by (simp add: messages_start_def header_bytes_split)
  moreover have "pub @ metadata_marker = header_bytes hints n"
    using hs(1,5) line by (simp add: header_bytes_split)
  moreover have "meta \<noteq> []" using x5(3) b(1) by auto
  ultimately show ?thesis
    using data b x5 hs(1,2,6) x7 by (intro exI [of _ r6]) (simp add: h check_public_header_size_def require_Inr_iff)
qed

section \<open>Messages read back\<close>

lemma descriptors_from_length [simp]: "length (descriptors_from sha k off ms) = length ms"
  by (induction ms arbitrary: k off) simp_all

lemma descriptors_from_nth:
  "i < length ms \<Longrightarrow> descriptors_from sha k off ms ! i =
     \<lparr>message_index = k + i, offset = off + length (concat (map message_bytes (take i ms))),
      serialized_length = length (message_bytes (ms ! i)), ciphertext_length = length (ms ! i), sha256 = sha (ms ! i)\<rparr>"
proof (induction ms arbitrary: i k off)
  case (Cons m ms)
  then show ?case by (cases i) simp_all
qed simp

lemma copy_message_ok:
  assumes data: "data = container_bytes hints metadata msgs"
    and hdr: "read_metadata limits (bytes_source data) = Inr header"
      "messages_offset header = messages_start hints metadata"
    and i: "i < length msgs" and m: "byte_list (msgs ! i)" "msgs ! i \<noteq> []" "length (msgs ! i) \<le> max_message_bytes limits"
    and lim: "length msgs \<le> max_messages limits"
  shows "copy_message sha limits (bytes_source data) header
     (descriptors_from sha 0 (length messages_header) msgs ! i) (Some i) = Inr (msgs ! i)"
proof -
  let ?d = "descriptors_from sha 0 (length messages_header) msgs ! i"
  let ?m = "msgs ! i"
  let ?before = "concat (map message_bytes (take i msgs))" and ?after = "concat (map message_bytes (drop (Suc i) msgs))"
  have d: "?d = \<lparr>message_index = i, offset = length messages_header + length ?before,
      serialized_length = length (message_bytes ?m), ciphertext_length = length ?m, sha256 = sha ?m\<rparr>"
    using descriptors_from_nth [OF i, of sha 0 "length messages_header"] by simp
  have "msgs = take i msgs @ ?m # drop (Suc i) msgs" by (rule id_take_nth_drop [OF i])
  then have "concat (map message_bytes msgs) = ?before @ message_bytes ?m @ ?after"
    by (metis concat.simps(2) concat_append list.simps(9) map_append)
  then have dt: "data = (header_bytes hints (length metadata) @ block metadata_indent metadata @ messages_header @ ?before) @
      message_marker @ block message_indent ?m @ ?after"
    by (simp add: data container_bytes_def messages_bytes_def message_bytes_def)
  let ?start = "messages_offset header + offset ?d"
  have a: "ahead data ?start (message_marker @ block message_indent ?m @ ?after)"
    unfolding ahead_def using hdr(2) by (simp add: d dt messages_start_def)
  have rm: "read_exact (bytes_source data) ?start (length message_marker) = Inr message_marker"
    by (rule read_exact_ahead [OF a refl])
  have cp: "copy_binary_block_to limits (bytes_source data) (?start + length message_marker) (length ?m) message_indent = Inr ?m"
    by (rule copy_binary_block_ok [OF ahead_step [OF a] m(1)])
  have "?start + length (message_bytes ?m) \<le> length data"
    using ahead_length [OF a] by (simp add: message_bytes_def)
  then show ?thesis
    unfolding copy_message_def hdr(1) rbind.simps Let_def
    using i m lim rm cp by (simp add: d same_header_def message_bytes_length block_length)
qed

section \<open>Streamed lines\<close>

lemma takeWhile_newline: "10 \<notin> set l \<Longrightarrow> takeWhile (\<lambda>b. b \<noteq> 10) (l @ 10 # t) = l"
  by (induction l) auto

lemma read_stream_line_from_ahead:
  "ahead data pos (l @ 10 # r) \<Longrightarrow> 10 \<notin> set l \<Longrightarrow> length col + length l < max_line_bytes limits \<Longrightarrow>
   0 < io_chunk_bytes limits \<Longrightarrow>
     read_stream_line_from limits (bytes_source data) pos col = Inr (col @ l @ [10], pos + length l + 1)"
proof (induction "length l" arbitrary: l pos col rule: less_induct)
  case less
  let ?k = "request_size limits (bytes_source data) pos col"
  have len: "pos + (length l + 1 + length r) = length data" using ahead_length [OF less.prems(1)] by simp
  have k: "0 < ?k" "?k \<le> length (l @ 10 # r)"
    using less.prems(3,4) len by (auto simp: request_size_def)
  have rd: "read_exact (bytes_source data) pos ?k = Inr (take ?k (l @ 10 # r))"
    using less.prems(1) k(2) len unfolding read_exact_iff by (simp add: ahead_def)
  show ?case
  proof (cases "length l < ?k")
    case True
    then have c: "take ?k (l @ 10 # r) = l @ 10 # take (?k - length l - 1) r"
      by (cases "?k - length l") auto
    note tw = takeWhile_newline [OF less.prems(2)]
    show ?thesis
      using rd k len less.prems(3) unfolding c
      by (subst read_stream_line_from.simps) (simp add: tw Let_def)
  next
    case False
    let ?l = "drop ?k l"
    have c: "take ?k (l @ 10 # r) = take ?k l" using False by simp
    have no: "10 \<notin> set (take ?k l)" using less.prems(2) by (auto dest: in_set_takeD)
    have lk: "length (take ?k l) = ?k" using False by simp
    have "ahead data pos (take ?k l @ ?l @ 10 # r)" using less.prems(1) by (metis append_assoc append_take_drop_id)
    from ahead_step [OF this] have a: "ahead data (pos + ?k) (?l @ 10 # r)" by (simp only: lk)
    have IH: "read_stream_line_from limits (bytes_source data) (pos + ?k) (col @ take ?k l) =
        Inr ((col @ take ?k l) @ ?l @ [10], pos + ?k + length ?l + 1)"
      by (rule less.hyps [OF _ a]) (use k False less.prems lk in \<open>auto dest: in_set_dropD\<close>)
    have small: "\<not> max_line_bytes limits \<le> length (col @ take ?k l)" using less.prems(3) lk False by simp
    show ?thesis
      using rd k len no IH lk small unfolding c
      by (subst read_stream_line_from.simps) (simp add: Let_def)
  qed
qed

lemma read_stream_line_from_back:
  "read_stream_line_from limits (bytes_source data) pos col = Inr (line, p) \<Longrightarrow>
     \<exists>l r. ahead data pos (l @ 10 # r) \<and> 10 \<notin> set l \<and> line = col @ l @ [10] \<and> p = pos + length l + 1"
proof (induction limits "bytes_source data" pos col rule: read_stream_line_from.induct)
  case (1 limits pos col)
  let ?k = "request_size limits (bytes_source data) pos col"
  note step = read_stream_line_from.simps [of limits "bytes_source data" pos col]
  have c1: "pos < rs_size (bytes_source data)"
  proof (rule ccontr)
    assume "\<not> pos < rs_size (bytes_source data)"
    with 1(2) show False unfolding step by simp
  qed
  have c2: "?k \<noteq> 0"
  proof
    assume "?k = 0"
    with 1(2) c1 show False unfolding step by simp
  qed
  note c = c1 c2
  obtain chunk where rd: "read_exact (bytes_source data) pos ?k = Inr chunk"
    using 1(2) c unfolding step by (cases "read_exact (bytes_source data) pos ?k") simp_all
  then obtain r where a: "ahead data pos (chunk @ r)" "ahead data (pos + ?k) r" "length chunk = ?k" by (rule read_exact_back)
  show ?case
  proof (cases "10 \<in> set chunk")
    case True
    let ?h = "takeWhile (\<lambda>b. b \<noteq> 10) chunk"
    from split_list_first [OF True] obtain ys t where ys: "chunk = ys @ 10 # t" "10 \<notin> set ys" by blast
    have "?h = ys" unfolding ys(1) by (rule takeWhile_newline [OF ys(2)])
    with ys have ch: "chunk = ?h @ 10 # t" and "10 \<notin> set ?h" by simp_all
    moreover have "read_stream_line_from limits (bytes_source data) pos col =
        (if max_line_bytes limits < length (col @ ?h @ [10]) then Inl Limit_error
         else Inr (col @ ?h @ [10], pos + length (?h @ [10])))"
      using c rd True by (subst read_stream_line_from.simps) (simp only: if_True if_False rbind.simps Let_def rs_size_bytes)
    with 1(2) have "line = col @ ?h @ [10]" "p = pos + length ?h + 1" by (simp_all split: if_splits)
    moreover have "ahead data pos (?h @ 10 # (t @ r))" using a(1) ch by (metis append_Cons append_assoc)
    ultimately show ?thesis by blast
  next
    case False
    have "read_stream_line_from limits (bytes_source data) pos col =
        (if max_line_bytes limits \<le> length (col @ chunk) then Inl Limit_error
         else read_stream_line_from limits (bytes_source data) (pos + length chunk) (col @ chunk))"
      using c rd False by (subst read_stream_line_from.simps) (simp only: if_True if_False rbind.simps Let_def rs_size_bytes)
    with 1(2) have s: "\<not> max_line_bytes limits \<le> length (col @ chunk)"
      and rec: "read_stream_line_from limits (bytes_source data) (pos + length chunk) (col @ chunk) = Inr (line, p)"
      by (simp_all split: if_splits)
    from 1(1) [OF c rd False s rec] obtain l r' where
      l: "ahead data (pos + length chunk) (l @ 10 # r')" "10 \<notin> set l" "line = (col @ chunk) @ l @ [10]"
        "p = pos + length chunk + length l + 1" by blast
    have "r = l @ 10 # r'" using ahead_unique [OF a(2)] l(1) a(3) by simp
    with a(1) l False show ?thesis by (intro exI [of _ "chunk @ l"] exI [of _ r']) auto
  qed
qed

lemma read_stream_line_ahead:
  "ahead data pos (l @ 10 # r) \<Longrightarrow> 10 \<notin> set l \<Longrightarrow> length l < max_line_bytes limits \<Longrightarrow> 0 < io_chunk_bytes limits \<Longrightarrow>
     read_stream_line limits (bytes_source data) pos = Inr (l @ [10], pos + length l + 1)"
  using read_stream_line_from_ahead [of data pos l r "[]" limits] ahead_length [of data pos "l @ 10 # r"]
  by (simp add: read_stream_line_def)

lemma read_stream_line_back:
  "read_stream_line limits (bytes_source data) pos = Inr (line, p) \<Longrightarrow>
     \<exists>l r. ahead data pos (l @ 10 # r) \<and> 10 \<notin> set l \<and> line = l @ [10] \<and> p = pos + length l + 1"
  using read_stream_line_from_back [of limits data pos "[]" line p] by (auto simp: read_stream_line_def split: if_splits)

lemma marker_split: "message_marker = [32, 32, 45, 32, 33, 33, 98, 105, 110, 97, 114, 121, 32, 124] @ [10]"
  by (simp add: message_marker_def newline_def u_def)

lemma read_marker:
  assumes "ahead data pos (message_marker @ r)" and "81 \<le> max_line_bytes limits" and "0 < io_chunk_bytes limits"
  shows "read_stream_line limits (bytes_source data) pos = Inr (message_marker, pos + length message_marker)"
proof -
  let ?l = "[32, 32, 45, 32, 33, 33, 98, 105, 110, 97, 114, 121, 32, 124] :: bytes"
  have "ahead data pos (?l @ 10 # r)" using assms(1) by (simp add: marker_split)
  from read_stream_line_ahead [OF this _ _ assms(3)] assms(2) show ?thesis by (simp add: marker_split)
qed

definition flagged :: "line_state \<Rightarrow> bool" where
  "flagged st \<longleftrightarrow> previous_short st \<or> previous_padded st"

lemma padded_iff: "byte_list l \<Longrightarrow> 0 < length l \<Longrightarrow> length l \<le> 57 \<Longrightarrow>
    (length (b64encode l) < 76 \<or> 61 \<in> set (b64encode l)) \<longleftrightarrow> length l < 57"
proof -
  assume l: "byte_list l" "0 < length l" "length l \<le> 57"
  have "enc (length l) < 76 \<or> length l mod 3 \<noteq> 0 \<longleftrightarrow> length l < 57"
  proof -
    consider "length l \<le> 54" | "length l = 55" | "length l = 56" | "length l = 57" using l(3) by linarith
    then show ?thesis
    proof cases
      case 1
      then have "enc (length l) < 76" unfolding enc_def by linarith
      with 1 show ?thesis by simp
    qed (simp_all add: enc_def)
  qed
  then show ?thesis using b64encode_padding [OF l(1)] by (simp add: b64encode_length enc_def)
qed

lemma parse_binary_line_back:
  assumes "parse_binary_line indent line = Inr e"
  shows "line = indent @ e @ [10]"
proof -
  from assms have l: "line \<noteq> []" "last line = 10" "take (length indent) line = indent"
    "e = drop (length indent) (butlast line)" "e \<noteq> []"
    by (auto simp: parse_binary_line_def Let_def split: if_splits)
  have b: "line = butlast line @ [10]" using l(1,2) by (metis append_butlast_last_id)
  have "length indent \<le> length (butlast line)" using l(4,5) by (metis drop_eq_Nil nat_le_linear)
  then have "take (length indent) (butlast line @ [10]) = take (length indent) (butlast line)" by simp
  then have "take (length indent) (butlast line) = indent" using l(3) b by simp
  then have "butlast line = indent @ e" using l(4) by (metis append_take_drop_id)
  with b show ?thesis by simp
qed

lemma scan_line_ok:
  assumes l: "byte_list l" "l \<noteq> []" "length l \<le> 57" and st: "\<not> flagged st"
    and room: "length (scanned st @ l) \<le> max_message_bytes limits"
  shows "scan_line limits st (block_line message_indent l) =
     Inr \<lparr>previous_short = length (b64encode l) < 76, previous_padded = 61 \<in> set (b64encode l), scanned = scanned st @ l\<rparr>"
proof -
  let ?e = "b64encode l"
  have pe: "parse_binary_line message_indent (block_line message_indent l) = Inr ?e"
    using decode_canonical_ok [OF l] block_line_parts [of message_indent l]
    unfolding parse_binary_line_def decode_canonical_base64_def Let_def by (auto split: if_splits)
  have t3: "take 3 (block_line message_indent l) \<noteq> [32, 32, 45]" by (simp add: block_line_def)
  have full: "\<not> (length ?e = 76 \<and> 61 \<notin> set ?e \<and> length l \<noteq> 57)"
    using padded_iff [OF l(1) _ l(3)] l(2,3) by fastforce
  have pad: "\<not> (length ?e = 76 \<and> 61 \<in> set ?e \<and> length l \<notin> {55, 56})"
  proof -
    have "length l \<in> {55, 56}" if a: "length ?e = 76" "61 \<in> set ?e"
    proof -
    have "length l < 57" using a padded_iff [OF l(1) _ l(3)] l(2) by simp
    moreover have "55 \<le> length l" using a(1) by (simp add: b64encode_length)
    ultimately show ?thesis by auto
    qed
    then show ?thesis by blast
  qed
  show ?thesis
    using t3 st room decode_canonical_ok [OF l]
    unfolding scan_line_def pe rbind.simps using pad by (simp add: flagged_def require_def full del: de_Morgan_conj)
qed

lemma scan_line_back:
  assumes "scan_line limits st line = Inr st'"
  shows "\<exists>l. line = block_line message_indent l \<and> byte_list l \<and> l \<noteq> [] \<and> length l \<le> 57 \<and> \<not> flagged st \<and>
     (flagged st' \<longleftrightarrow> length l < 57) \<and> scanned st' = scanned st @ l \<and> length (scanned st') \<le> max_message_bytes limits"
proof -
  from assms obtain e d where st: "\<not> previous_padded st" "\<not> previous_short st"
    and e: "parse_binary_line message_indent line = Inr e" and d: "decode_canonical_base64 e = Inr d"
    and room: "length (scanned st @ d) \<le> max_message_bytes limits"
    and st': "st' = \<lparr>previous_short = length e < 76, previous_padded = 61 \<in> set e, scanned = scanned st @ d\<rparr>"
    by (auto simp: scan_line_def result_simps)
  from decode_canonical_back [OF d] have dd: "e = b64encode d" "byte_list d" "d \<noteq> []" "length d \<le> 57" by auto
  have "line = block_line message_indent d" using parse_binary_line_back [OF e] dd(1) by (simp add: block_line_def)
  moreover have "flagged st' \<longleftrightarrow> length d < 57"
    using padded_iff [OF dd(2) _ dd(4)] dd(3) by (simp add: st' flagged_def dd(1))
  ultimately show ?thesis using st room dd st' by (intro exI [of _ d]) (auto simp: flagged_def)
qed

text \<open>The end of a message: the container ends, or another marker follows.\<close>

definition message_end :: "bytes \<Rightarrow> bool" where
  "message_end r \<longleftrightarrow> r = [] \<or> (\<exists>r'. r = message_marker @ r')"

lemma block_line_no_marker: "block_line message_indent l \<noteq> message_marker"
  by (simp add: block_line_def marker_split)

lemma block_line_split:
  "byte_list l \<Longrightarrow> 10 \<notin> set (message_indent @ b64encode l)" "block_line message_indent l = (message_indent @ b64encode l) @ [10]"
  using b64encode_no_newline by (auto simp: block_line_def)

lemma scan_lines_end:
  assumes "ahead data pos r" and "message_end r" and "81 \<le> max_line_bytes limits" and "0 < io_chunk_bytes limits"
  shows "scan_lines limits (bytes_source data) pos st = Inr (pos, st)"
proof (cases "r = []")
  case True
  then have "\<not> pos < length data" using assms(1) by (simp add: ahead_def)
  then show ?thesis by (subst scan_lines.simps) simp
next
  case False
  with assms(2) obtain r' where r: "r = message_marker @ r'" by (auto simp: message_end_def)
  then have "pos < length data" using ahead_length [OF assms(1)] by (simp add: marker_split)
  with read_marker [OF assms(1) [unfolded r] assms(3,4)] show ?thesis
    by (subst scan_lines.simps) simp
qed

lemma scan_lines_ok:
  assumes "ahead data pos (block message_indent m @ r)" and "message_end r" and "byte_list m"
    and "\<not> flagged st" and "length (scanned st @ m) \<le> max_message_bytes limits"
    and lim: "81 \<le> max_line_bytes limits" "0 < io_chunk_bytes limits"
  shows "\<exists>st'. scan_lines limits (bytes_source data) pos st = Inr (pos + length (block message_indent m), st') \<and>
     scanned st' = scanned st @ m"
  using assms(1,3-5)
proof (induction "length m" arbitrary: m pos st rule: less_induct)
  case less
  show ?case
  proof (cases "m = []")
    case True
    with less.prems(1) scan_lines_end [OF _ assms(2) lim] show ?thesis by simp
  next
    case False
    let ?l = "take 57 m" and ?m = "drop 57 m"
    let ?line = "block_line message_indent ?l"
    have l: "byte_list ?l" "?l \<noteq> []" "length ?l \<le> 57" "byte_list ?m" using False less.prems(2) byte_list_take by auto
    have b: "block message_indent m = ?line @ block message_indent ?m" by (rule block_step [OF False])
    have a: "ahead data pos (?line @ block message_indent ?m @ r)" using less.prems(1) b by simp
    have "length (message_indent @ b64encode ?l) < max_line_bytes limits"
      using enc_small(1) [OF l(3)] lim(1) by (simp add: b64encode_length enc_def)
    with a block_line_split(1) [OF l(1)] lim(2)
    have rd: "read_stream_line limits (bytes_source data) pos = Inr (?line, pos + length ?line)"
      using read_stream_line_ahead [of data pos "message_indent @ b64encode ?l" "block message_indent ?m @ r" limits]
      by (simp add: block_line_def)
    let ?st = "\<lparr>previous_short = length (b64encode ?l) < 76, previous_padded = 61 \<in> set (b64encode ?l), scanned = scanned st @ ?l\<rparr>"
    have sl: "scan_line limits st ?line = Inr ?st"
      by (rule scan_line_ok [OF l(1-3) less.prems(3)]) (use less.prems(4) in auto)
    have pos: "pos < length data" using ahead_length [OF a] by (simp add: block_line_def)
    have step: "scan_lines limits (bytes_source data) pos st = scan_lines limits (bytes_source data) (pos + length ?line) ?st"
      using pos rd sl block_line_no_marker by (subst scan_lines.simps) simp
    show ?thesis
    proof (cases "?m = []")
      case True
      then have "m = ?l" by simp
      have "scan_lines limits (bytes_source data) (pos + length ?line) ?st = Inr (pos + length ?line, ?st)"
        by (rule scan_lines_end [OF _ assms(2) lim]) (use ahead_step [OF a] True in simp)
      with step b True \<open>m = ?l\<close> show ?thesis by simp
    next
      case m: False
      then have "length ?l = 57" by simp
      then have "\<not> flagged ?st" using padded_iff [OF l(1) _ l(3)] l(2) by (simp add: flagged_def)
      moreover have "length (scanned ?st @ ?m) \<le> max_message_bytes limits" using less.prems(4) by simp
      ultimately obtain st' where "scan_lines limits (bytes_source data) (pos + length ?line) ?st =
          Inr (pos + length ?line + length (block message_indent ?m), st')" "scanned st' = scanned ?st @ ?m"
        using less.hyps [OF _ ahead_step [OF a] l(4), of ?st] False by auto
      with step b show ?thesis by (intro exI [of _ st']) simp
    qed
  qed
qed

lemma scan_lines_back:
  "scan_lines limits (bytes_source data) pos st = Inr (p, st') \<Longrightarrow> pos \<le> length data \<Longrightarrow>
     length (scanned st) \<le> max_message_bytes limits \<Longrightarrow>
     \<exists>m r. scanned st' = scanned st @ m \<and> byte_list m \<and> (flagged st \<longrightarrow> m = []) \<and>
       ahead data pos (block message_indent m @ r) \<and> p = pos + length (block message_indent m) \<and> message_end r \<and>
       length (scanned st') \<le> max_message_bytes limits"
proof (induction limits "bytes_source data" pos st rule: scan_lines.induct)
  case (1 limits pos st)
  have stop: ?case if "Inr (pos, st) = (Inr (p, st') :: (format_error, nat \<times> line_state) result)"
      "message_end (drop pos data)"
    using that 1(3,4) by (intro exI [of _ "[]"] exI [of _ "drop pos data"]) (simp add: ahead_def byte_list_def)
  note step = scan_lines.simps [of limits "bytes_source data" pos st]
  show ?case
  proof (cases "pos < length data")
    case False
    show ?thesis
    proof (rule stop)
      show "Inr (pos, st) = (Inr (p, st') :: (format_error, nat \<times> line_state) result)"
        using 1(2) False unfolding step by simp
    qed (use False in \<open>simp add: message_end_def\<close>)
  next
    case True
    then have lt: "pos < rs_size (bytes_source data)" by simp
    obtain line nxt where rd: "read_stream_line limits (bytes_source data) pos = Inr (line, nxt)"
      using 1(2) lt unfolding step by (cases "read_stream_line limits (bytes_source data) pos") auto
    from read_stream_line_back [OF rd] obtain l r where
      l: "ahead data pos (l @ 10 # r)" "line = l @ [10]" "nxt = pos + length l + 1" by blast
    have a: "ahead data pos (line @ r)" "nxt = pos + length line" using l by simp_all
    show ?thesis
    proof (cases "line = message_marker")
      case True
      show ?thesis
      proof (rule stop)
        show "Inr (pos, st) = (Inr (p, st') :: (format_error, nat \<times> line_state) result)"
          using 1(2) lt rd True unfolding step by simp
        show "message_end (drop pos data)" using a(1) True by (auto simp: message_end_def ahead_def)
      qed
    next
      case False
      obtain st1 where sl: "scan_line limits st line = Inr st1"
        using 1(2) lt rd False unfolding step by (cases "scan_line limits st line") auto
      have rec: "scan_lines limits (bytes_source data) nxt st1 = Inr (p, st')"
        using 1(2) lt rd False sl unfolding step by simp
      from scan_line_back [OF sl] obtain d where d: "line = block_line message_indent d" "byte_list d" "d \<noteq> []"
        "length d \<le> 57" "\<not> flagged st" "flagged st1 \<longleftrightarrow> length d < 57" "scanned st1 = scanned st @ d"
        "length (scanned st1) \<le> max_message_bytes limits" by blast
      have "nxt \<le> length data" using ahead_length [OF a(1)] a(2) by simp
      from 1(1) [OF lt rd refl False sl rec this d(8)] obtain m r' where
        m: "scanned st' = scanned st1 @ m" "byte_list m" "flagged st1 \<longrightarrow> m = []"
          "ahead data nxt (block message_indent m @ r')" "p = nxt + length (block message_indent m)" "message_end r'"
          "length (scanned st') \<le> max_message_bytes limits" by blast
      have r: "r = block message_indent m @ r'" using ahead_unique [OF ahead_step [OF a(1)]] m(4) a(2) by simp
      have blk: "block message_indent (d @ m) = block_line message_indent d @ block message_indent m"
      proof (cases "length d = 57")
        case True
        then show ?thesis using block_append [of d message_indent m] block_short [OF d(3,4), of message_indent] by simp
      next
        case False
        then have "m = []" using m(3) d(4,6) by auto
        then show ?thesis using block_short [OF d(3,4), of message_indent] by simp
      qed
      show ?thesis
        using a m d r blk by (intro exI [of _ "d @ m"] exI [of _ r']) auto
    qed
  qed
qed

lemma message_end_concat: "message_end (concat (map message_bytes ms))"
  by (cases ms) (auto simp: message_end_def message_bytes_def)

lemma scan_messages_ok:
  assumes "ahead data pos (concat (map message_bytes ms))" and "length ds + length ms \<le> max_messages limits"
    and "\<forall>m \<in> set ms. byte_list m \<and> m \<noteq> [] \<and> length m \<le> max_message_bytes limits" and "base \<le> pos"
    and lim: "81 \<le> max_line_bytes limits" "0 < io_chunk_bytes limits" and sha: "\<forall>b. hex64 (sha b)"
  shows "scan_messages sha limits (bytes_source data) base pos ds = Inr (ds @ descriptors_from sha (length ds) (pos - base) ms)"
  using assms(1-4)
proof (induction ms arbitrary: pos ds)
  case Nil
  then have "\<not> pos < length data" by (simp add: ahead_def)
  then show ?case by (subst scan_messages.simps) simp
next
  case (Cons m ms)
  let ?r = "concat (map message_bytes ms)"
  let ?st0 = "\<lparr>previous_short = False, previous_padded = False, scanned = []\<rparr>"
  have m: "byte_list m" "m \<noteq> []" "length m \<le> max_message_bytes limits" using Cons.prems(3) by auto
  have a: "ahead data pos (message_marker @ block message_indent m @ ?r)"
    using Cons.prems(1) by (simp add: message_bytes_def [of m])
  have pos: "pos < length data" using ahead_length [OF a] by (simp add: marker_split)
  note rm = read_marker [OF a lim]
  note a1 = ahead_step [OF a]
  have "\<not> flagged ?st0" by (simp add: flagged_def)
  moreover have "length (scanned ?st0 @ m) \<le> max_message_bytes limits" using m(3) by simp
  ultimately obtain st' where sl: "scan_lines limits (bytes_source data) (pos + length message_marker) ?st0 =
      Inr (pos + length message_marker + length (block message_indent m), st')" "scanned st' = m"
    using scan_lines_ok [OF a1 message_end_concat m(1) _ _ lim, of ?st0] by auto
  let ?stop = "pos + length message_marker + length (block message_indent m)"
  let ?d = "\<lparr>message_index = length ds, offset = pos - base, serialized_length = length (message_bytes m),
      ciphertext_length = length m, sha256 = sha m\<rparr>"
  have ser: "?stop - pos = length (message_bytes m)" by (simp add: message_bytes_length)
  have bl: "length message_marker + block_length message_indent (length m) = length (message_bytes m)"
    by (simp add: message_bytes_length block_length)
  have dn: "message_descriptor_new (length ds) (pos - base) (length (message_bytes m)) (length m) (sha m) = Inr ?d"
    using sha by (simp add: message_descriptor_new_def)
  have IH: "scan_messages sha limits (bytes_source data) base ?stop (ds @ [?d]) =
      Inr ((ds @ [?d]) @ descriptors_from sha (length (ds @ [?d])) (?stop - base) ms)"
    by (rule Cons.IH [OF ahead_step [OF a1]]) (use Cons.prems in auto)
  have few: "length ds < max_messages limits" using Cons.prems(2) by simp
  have "scan_messages sha limits (bytes_source data) base pos ds = scan_messages sha limits (bytes_source data) base ?stop (ds @ [?d])"
    using pos few m(2) unfolding scan_messages.simps [of sha limits "bytes_source data" base pos ds] rm rbind.simps prod.case sl ser bl dn
    by simp
  moreover have "?stop - base = pos - base + length (message_bytes m)" using Cons.prems(4) by (simp add: message_bytes_length)
  ultimately show ?case using IH by simp
qed

lemma scan_messages_back:
  "scan_messages sha limits (bytes_source data) base pos ds = Inr ds' \<Longrightarrow> pos \<le> length data \<Longrightarrow> base \<le> pos \<Longrightarrow>
   length ds \<le> max_messages limits \<Longrightarrow>
     \<exists>ms. ahead data pos (concat (map message_bytes ms)) \<and> ds' = ds @ descriptors_from sha (length ds) (pos - base) ms \<and>
       list_all (\<lambda>m. byte_list m \<and> m \<noteq> [] \<and> length m \<le> max_message_bytes limits) ms \<and> length ds' \<le> max_messages limits"
proof (induction sha limits "bytes_source data" base pos ds rule: scan_messages.induct)
  case (1 sha limits base pos ds)
  note step = scan_messages.simps [of sha limits "bytes_source data" base pos ds]
  show ?case
  proof (cases "pos < length data")
    case False
    then have "ds' = ds" using 1(2) unfolding step by simp
    then show ?thesis using False 1(3,5) by (intro exI [of _ "[]"]) (simp add: ahead_def)
  next
    case True
    then have lt: "pos < rs_size (bytes_source data)" by simp
    let ?st0 = "\<lparr>previous_short = False, previous_padded = False, scanned = []\<rparr>"
    from 1(2) lt obtain nxt stop st d where
      few: "length ds < max_messages limits"
      and rd: "read_stream_line limits (bytes_source data) pos = Inr (message_marker, nxt)"
      and sl: "scan_lines limits (bytes_source data) nxt ?st0 = Inr (stop, st)"
      and ne: "scanned st \<noteq> []"
      and len: "stop - pos = length message_marker + block_length message_indent (length (scanned st))"
      and dn: "message_descriptor_new (length ds) (pos - base) (stop - pos) (length (scanned st)) (sha (scanned st)) = Inr d"
      and rec: "scan_messages sha limits (bytes_source data) base stop (ds @ [d]) = Inr ds'"
      unfolding step by (auto simp: result_simps)
    from read_stream_line_back [OF rd] obtain l r where
      l: "ahead data pos (l @ 10 # r)" "message_marker = l @ [10]" "nxt = pos + length l + 1" by blast
    have a: "ahead data pos (message_marker @ r)" "nxt = pos + length message_marker"
      using l(1) unfolding l(2) by (simp_all add: l(3))
    have "nxt \<le> length data" using ahead_length [OF a(1)] a(2) by simp
    from scan_lines_back [OF sl this] obtain m r' where
      m: "scanned st = m" "byte_list m" "ahead data nxt (block message_indent m @ r')"
        "stop = nxt + length (block message_indent m)" "length m \<le> max_message_bytes limits" by auto
    have r: "r = block message_indent m @ r'" using ahead_unique [OF ahead_step [OF a(1)]] m(3) a(2) by simp
    have a2: "ahead data stop r'" using ahead_step [OF m(3)] m(4) by simp
    have stop: "stop \<le> length data" "base \<le> stop" using a2 1(4) a(2) m(4) by (simp_all add: ahead_def)
    have de: "d = \<lparr>message_index = length ds, offset = pos - base, serialized_length = length (message_bytes m),
        ciphertext_length = length m, sha256 = sha m\<rparr>"
      using dn len m(1) by (auto simp: message_descriptor_new_def message_bytes_length block_length split: if_splits)
    have "length (ds @ [d]) \<le> max_messages limits" using few by simp
    from 1(1) [OF lt _ rd refl _ sl refl _ _ dn rec stop this] few ne len obtain ms where
      ms: "ahead data stop (concat (map message_bytes ms))"
        "ds' = (ds @ [d]) @ descriptors_from sha (length (ds @ [d])) (stop - base) ms"
        "list_all (\<lambda>m. byte_list m \<and> m \<noteq> [] \<and> length m \<le> max_message_bytes limits) ms"
        "length ds' \<le> max_messages limits" by auto
    have r': "r' = concat (map message_bytes ms)" by (rule ahead_unique [OF a2 ms(1)])
    have "ahead data pos (concat (map message_bytes (m # ms)))"
      using a(1) by (simp add: r r' message_bytes_def)
    moreover have "stop - base = pos - base + length (message_bytes m)"
      using 1(4) a(2) m(4) by (simp add: message_bytes_length)
    ultimately show ?thesis
      using ms m ne de by (intro exI [of _ "m # ms"]) simp
  qed
qed

section \<open>Normalized hints\<close>

lemma normalize_fingerprint_ok: "normalize_fingerprint v = Some h \<Longrightarrow> fingerprint_ok h"
proof -
  assume "normalize_fingerprint v = Some h"
  then have u: "length (filter (\<lambda>c. c \<noteq> 32) v) = 40" "list_all any_hex (filter (\<lambda>c. c \<noteq> 32) v)"
    "h = map upper (filter (\<lambda>c. c \<noteq> 32) v)"
    by (simp_all add: normalize_fingerprint_def Let_def split: if_splits)
  have "any_hex c \<Longrightarrow> upper_hex (upper c)" for c by (auto simp: any_hex_def upper_hex_def upper_def)
  with u show ?thesis by (simp add: fingerprint_ok_def list_all_iff)
qed

lemma normalize_fingerprint_same: "fingerprint_ok h \<Longrightarrow> normalize_fingerprint h = Some h"
proof -
  assume f: "fingerprint_ok h"
  then have "\<forall>c \<in> set h. c \<noteq> 32 \<and> any_hex c \<and> upper c = c"
    by (auto simp: fingerprint_ok_def list_all_iff upper_hex_def any_hex_def upper_def)
  then have "filter (\<lambda>c. c \<noteq> 32) h = h" "list_all any_hex h" "map upper h = h"
    by (simp_all add: filter_id_conv list_all_iff map_idI)
  with f show ?thesis by (simp add: normalize_fingerprint_def fingerprint_ok_def)
qed

lemma add_hints_ok:
  "rfold (add_hint limits) acc raw = Inr hs \<Longrightarrow> list_all fingerprint_ok acc \<Longrightarrow> length acc \<le> max_recipient_hints limits \<Longrightarrow>
     list_all fingerprint_ok hs \<and> length hs \<le> max_recipient_hints limits"
proof (induction raw arbitrary: acc)
  case (Cons v raw)
  then obtain t where t: "add_hint limits acc v = Inr t" "rfold (add_hint limits) t raw = Inr hs"
    by (auto simp: result_simps)
  from t(1) obtain h where "normalize_fingerprint v = Some h" "\<not> max_recipient_hints limits \<le> length acc" "t = acc @ [h]"
    by (auto simp: add_hint_def split: if_splits option.splits)
  with t(2) Cons.IH [of "acc @ [h]"] Cons.prems normalize_fingerprint_ok show ?case by auto
qed auto

lemma add_hints_same:
  "list_all fingerprint_ok hs \<Longrightarrow> length acc + length hs \<le> max_recipient_hints limits \<Longrightarrow>
     rfold (add_hint limits) acc hs = Inr (acc @ hs)"
  by (induction hs arbitrary: acc) (simp_all add: add_hint_def normalize_fingerprint_same)

lemma normalize_hints_ok: "normalize_hints limits raw = Inr hints \<Longrightarrow> hints_ok limits hints"
proof -
  assume "normalize_hints limits raw = Inr hints"
  then obtain hs where hs: "rfold (add_hint limits) [] raw = Inr hs" "hs \<noteq> []" "distinct hs" "hints = sort hs"
    by (auto simp: normalize_hints_def result_simps)
  from add_hints_ok [OF hs(1)] have "list_all fingerprint_ok hs" "length hs \<le> max_recipient_hints limits" by simp_all
  moreover have "remdups (sort hs) = sort hs" using hs(3) by (simp add: distinct_remdups_id)
  then have "sort (remdups (sort hs)) = sort hs" by (simp add: sorted_sort_id)
  moreover have "sort hs \<noteq> []" using hs(2) by (metis length_0_conv length_sort)
  ultimately show ?thesis using hs(2,4) by (simp add: hints_ok_def list_all_iff)
qed

lemma normalize_hints_same: "hints_ok limits hints \<Longrightarrow> normalize_hints limits hints = Inr hints"
proof -
  assume h: "hints_ok limits hints"
  then have "distinct hints" by (metis distinct_remdups distinct_sort hints_ok_def)
  moreover have "sort hints = hints" using h by (metis hints_ok_def sorted_sort sorted_sort_id)
  ultimately show ?thesis using h add_hints_same [of hints "[]" limits] by (simp add: normalize_hints_def hints_ok_def)
qed

section \<open>Reading what was written\<close>

definition header_of :: "pytext list \<Rightarrow> bytes \<Rightarrow> container_header" where
  "header_of hints metadata =
     \<lparr>recipient_hints = hints, encrypted_metadata = metadata, messages_offset = messages_start hints metadata,
      canonical_public_header = header_bytes hints (length metadata)\<rparr>"

lemma read_container:
  assumes "limits_ok limits" and "hints_ok limits hints" and "writable limits hints metadata msgs"
    and "readable_lines limits (length metadata)" and "byte_list metadata"
  shows "read_metadata limits (bytes_source (container_bytes hints metadata (map message_content msgs))) =
    Inr (header_of hints metadata)"
proof -
  let ?ms = "map message_content msgs"
  have w: "metadata \<noteq> []" "length metadata \<le> max_metadata_bytes limits" "msgs \<noteq> []"
    "length (header_bytes hints (length metadata)) \<le> max_public_header_bytes limits"
    using assms(3) by (simp_all add: writable_def)
  have "concat (map message_bytes ?ms) \<noteq> []" using w(3) by (cases msgs) (simp_all add: message_bytes_def marker_split)
  then show ?thesis unfolding header_of_def
    by (rule read_metadata_ok [OF _ _ assms(2) w(1) assms(5) w(2) assms(4) w(4), rotated])
      (simp add: container_bytes_def messages_bytes_def)
qed

lemma scan_container:
  assumes "limits_ok limits" and "hints_ok limits hints" and "writable limits hints metadata msgs"
    and "readable_lines limits (length metadata)" and "byte_list metadata"
    and "list_all (\<lambda>m. byte_list (message_content m)) msgs" and "\<forall>b. hex64 (sha b)"
    and "h = None \<or> h = Some (header_of hints metadata)"
  shows "scan_message_descriptors sha limits (bytes_source (container_bytes hints metadata (map message_content msgs))) h =
    Inr (descriptors_from sha 0 (length messages_header) (map message_content msgs))"
proof -
  let ?ms = "map message_content msgs"
  let ?data = "container_bytes hints metadata ?ms"
  have w: "msgs \<noteq> []" "length msgs \<le> max_messages limits"
    "list_all (\<lambda>m. message_content m \<noteq> [] \<and> length (message_content m) \<le> max_message_bytes limits) msgs"
    "length ?data \<le> max_container_bytes limits"
    using assms(3) by (simp_all add: writable_def)
  have a: "ahead ?data (messages_start hints metadata + length messages_header) (concat (map message_bytes ?ms))"
    by (simp add: ahead_def container_bytes_def messages_bytes_def messages_start_def)
  have "scan_messages sha limits (bytes_source ?data) (messages_start hints metadata)
      (messages_start hints metadata + length messages_header) [] =
    Inr ([] @ descriptors_from sha 0 (length messages_header) ?ms)"
    using scan_messages_ok [OF a, of "[]" limits "messages_start hints metadata" sha] w(2,3) assms(1,4,6,7)
    by (simp add: list_all_iff readable_lines_def limits_ok_def)
  moreover have "?ms = [] \<longleftrightarrow> False" using w(1) by simp
  then have "descriptors_from sha 0 (length messages_header) ?ms \<noteq> []" by (cases ?ms) simp_all
  ultimately show ?thesis
    using w(4) assms(8) by (auto simp: scan_message_descriptors_def read_container [OF assms(1-5)] header_of_def same_header_def)
qed

section \<open>Properties\<close>

text \<open>C10. Whatever may be written is written, and reads back: the header comes back with the
  normalized recipients and the encrypted metadata, every message copied through its descriptor is
  the message that was written, whether it was given as bytes or as a stream of blocks, and a full
  scan of the container finds the writer's descriptors.\<close>

theorem container_round_trip:
  assumes "limits_ok limits" and "\<forall>b. hex64 (sha b)"
    and "normalize_hints limits raw = Inr hints" and "writable limits hints metadata msgs"
    and "readable_lines limits (length metadata)"
    and "byte_list metadata" and "list_all (\<lambda>m. byte_list (message_content m)) msgs"
  shows "\<exists>data res header. write_container sha limits raw metadata msgs = Inr (data, res) \<and>
    read_metadata limits (bytes_source data) = Inr header \<and>
    recipient_hints header = hints \<and> encrypted_metadata header = metadata \<and>
    public_header_sha256 res = sha (canonical_public_header header) \<and>
    length (message_descriptors res) = length msgs \<and>
    (\<forall>i < length msgs. copy_message sha limits (bytes_source data) header (message_descriptors res ! i) (Some i) =
       Inr (message_content (msgs ! i))) \<and>
    scan_message_descriptors sha limits (bytes_source data) (Some header) = Inr (message_descriptors res)"
proof -
  let ?ms = "map message_content msgs"
  let ?data = "container_bytes hints metadata ?ms"
  let ?ds = "descriptors_from sha 0 (length messages_header) ?ms"
  let ?header = "header_of hints metadata"
  have io: "0 < io_chunk_bytes limits" using assms(1) by (simp add: limits_ok_def)
  have w: "length msgs \<le> max_messages limits"
    "list_all (\<lambda>m. message_content m \<noteq> [] \<and> length (message_content m) \<le> max_message_bytes limits) msgs"
    using assms(4) by (simp_all add: writable_def)
  note ok = assms(1) normalize_hints_ok [OF assms(3)] assms(4-6)
  note rm = read_container [OF ok]
  note sc = scan_container [OF ok assms(7,2), of "Some ?header"]
  have cm: "copy_message sha limits (bytes_source ?data) ?header (?ds ! i) (Some i) = Inr (message_content (msgs ! i))"
    if i: "i < length msgs" for i
    using copy_message_ok [OF refl rm [unfolded header_of_def], of i sha] i w assms(7)
    by (simp add: list_all_length header_of_def)
  show ?thesis
    unfolding write_container_ok [OF io assms(3,4,2)]
    by (rule exI [of _ ?data], rule exI [of _ "\<lparr>message_descriptors = ?ds, written_length = length ?data,
        public_header_sha256 = sha (header_bytes hints (length metadata))\<rparr>"], rule exI [of _ ?header])
      (use rm cm sc in \<open>simp add: header_of_def\<close>)
qed

lemma scanned_container:
  assumes "read_metadata limits (bytes_source data) = Inr header"
    and "scan_message_descriptors sha limits (bytes_source data) None = Inr ds"
  shows "\<exists>ms. data = container_bytes (recipient_hints header) (encrypted_metadata header) ms \<and>
    ds = descriptors_from sha 0 (length messages_header) ms \<and> hints_ok limits (recipient_hints header) \<and>
    writable limits (recipient_hints header) (encrypted_metadata header) (map Whole ms)"
proof -
  let ?h = "recipient_hints header" and ?m = "encrypted_metadata header"
  from read_metadata_back [OF assms(1)] obtain rest where
    d: "data = header_bytes ?h (length ?m) @ block metadata_indent ?m @ messages_header @ rest"
    and h: "?h \<noteq> []" "list_all fingerprint_ok ?h" "?h = sort (remdups ?h)" "length ?h \<le> max_recipient_hints limits"
      "?m \<noteq> []" "length ?m \<le> max_metadata_bytes limits" "messages_offset header = messages_start ?h ?m"
      "canonical_public_header header = header_bytes ?h (length ?m)"
      "length (canonical_public_header header) \<le> max_public_header_bytes limits" by blast
  from assms have size: "length data \<le> max_container_bytes limits" and ne: "ds \<noteq> []"
    and sm: "scan_messages sha limits (bytes_source data) (messages_start ?h ?m) (messages_start ?h ?m + length messages_header) [] = Inr ds"
    by (auto simp: scan_message_descriptors_def h(7) result_simps)
  have a: "ahead data (messages_start ?h ?m + length messages_header) rest"
    by (simp add: ahead_def d messages_start_def)
  from scan_messages_back [OF sm] a obtain ms where
    ms: "ahead data (messages_start ?h ?m + length messages_header) (concat (map message_bytes ms))"
      "ds = descriptors_from sha 0 (length messages_header) ms"
      "list_all (\<lambda>m. byte_list m \<and> m \<noteq> [] \<and> length m \<le> max_message_bytes limits) ms" "length ds \<le> max_messages limits"
    by (auto simp: ahead_def)
  have "rest = concat (map message_bytes ms)" by (rule ahead_unique [OF a ms(1)])
  then have data: "data = container_bytes ?h ?m ms" by (simp add: d container_bytes_def messages_bytes_def)
  have mc: "map message_content (map Whole ms) = ms" by (simp add: message_content_def comp_def)
  have "ms \<noteq> []" using ne ms(2) by auto
  then have "writable limits ?h ?m (map Whole ms)"
    using h ms(2-4) size ne data mc unfolding writable_def mc by (simp add: list_all_iff message_content_def)
  with data ms(2) h show ?thesis by (intro exI [of _ ms]) (simp add: hints_ok_def)
qed

text \<open>C11. There is one spelling of a container: bytes the full scan accepts are exactly what the
  writer produces from the recipients, the metadata and the messages read out of them, with the
  scan's descriptors; so two accepted byte sequences with the same contents are the same bytes.\<close>

theorem container_canonical:
  assumes "limits_ok limits" and "\<forall>b. hex64 (sha b)"
    and "read_metadata limits (bytes_source data) = Inr header"
    and "scan_message_descriptors sha limits (bytes_source data) None = Inr ds"
  shows "\<exists>msgs res. write_container sha limits (recipient_hints header) (encrypted_metadata header) (map Whole msgs) =
      Inr (data, res) \<and> message_descriptors res = ds \<and> length msgs = length ds"
proof -
  from scanned_container [OF assms(3,4)] obtain ms where
    ms: "data = container_bytes (recipient_hints header) (encrypted_metadata header) ms"
      "ds = descriptors_from sha 0 (length messages_header) ms" "hints_ok limits (recipient_hints header)"
      "writable limits (recipient_hints header) (encrypted_metadata header) (map Whole ms)" by blast
  have mc: "map message_content (map Whole ms) = ms" by (simp add: message_content_def comp_def)
  from write_container_ok [OF _ normalize_hints_same [OF ms(3)] ms(4) assms(2)] assms(1) ms(1,2) show ?thesis
    unfolding mc by (intro exI [of _ ms]) (simp add: limits_ok_def)
qed

definition toy_sha :: "bytes \<Rightarrow> string" where
  "toy_sha b = replicate 64 (if length b mod 2 = 0 then CHR ''a'' else CHR ''7'')"

lemma toy_sha_hex: "\<forall>b. hex64 (toy_sha b)"
  by (simp add: toy_sha_def hex64_def list_all_iff)

definition sample_key :: pytext where
  "sample_key = replicate 20 97 @ [32, 32] @ replicate 20 57"

definition sample_messages :: "message list" where
  "sample_messages = [Whole [0, 255, 7], Stream [[1, 2], replicate 60 9, [3], [], [4]]]"

lemma sample_hints: "normalize_hints default_limits [sample_key] = Inr [replicate 20 65 @ replicate 20 57]"
  by code_simp

lemma sample_limits: "limits_ok default_limits" "readable_lines default_limits (length [42, 128 :: nat])"
  by code_simp+

lemma sample_writable: "writable default_limits [replicate 20 65 @ replicate 20 57] [42, 128] sample_messages"
  by code_simp

lemma sample_bytes: "list_all (\<lambda>m. byte_list (message_content m)) sample_messages" "byte_list [42, 128]"
  by code_simp+

theorem container_round_trip_witness:
  "\<exists>data res header. write_container toy_sha default_limits [sample_key] [42, 128] sample_messages = Inr (data, res) \<and>
    read_metadata default_limits (bytes_source data) = Inr header \<and>
    encrypted_metadata header = [42, 128] \<and>
    copy_message toy_sha default_limits (bytes_source data) header (message_descriptors res ! 1) (Some 1) =
      Inr ([1, 2] @ replicate 60 9 @ [3])"
proof -
  have i: "1 < length sample_messages" "message_content (sample_messages ! 1) = [1, 2] @ replicate 60 9 @ [3]"
    by code_simp+
  from container_round_trip [OF sample_limits(1) toy_sha_hex sample_hints sample_writable sample_limits(2) sample_bytes(2,1)]
  show ?thesis unfolding i(2) [symmetric] using i(1) by blast
qed

lemma sample_hints_ok: "hints_ok default_limits [replicate 20 65 @ replicate 20 57]"
  by (rule normalize_hints_ok [OF sample_hints])

theorem container_canonical_witness:
  "\<exists>msgs res.
    write_container toy_sha default_limits [replicate 20 65 @ replicate 20 57] [42, 128] (map Whole msgs) =
      Inr (container_bytes [replicate 20 65 @ replicate 20 57] [42, 128] (map message_content sample_messages), res) \<and>
    message_descriptors res = descriptors_from toy_sha 0 (length messages_header) (map message_content sample_messages)"
proof -
  note ok = sample_limits(1) sample_hints_ok sample_writable sample_limits(2) sample_bytes(2)
  from container_canonical [OF sample_limits(1) toy_sha_hex read_container [OF ok]
      scan_container [OF ok sample_bytes(1) toy_sha_hex, of None]]
  show ?thesis by (auto simp: header_of_def)
qed

end
