(* ===== verification/Inventories.thy ===== *)
theory Inventories
  imports Artifact_Records Container_Reading "HOL-Library.Code_Target_Int"
begin

text \<open>
  What the validated records of a container promise: the inventory covers every stored byte once,
  storage keys and provenance read back, which errors leave the validators, and that an accepted
  inventory agrees with the framing of \<open>container_format.py\<close>.
\<close>

section \<open>Coverage\<close>

fun tiled :: "nat \<Rightarrow> segment_item list \<Rightarrow> bool" where
  "tiled pos [] \<longleftrightarrow> True"
| "tiled pos (p # ps) \<longleftrightarrow> si_offset p = pos \<and> tiled (pos + si_length p) ps"

definition carries :: "nat \<Rightarrow> segment_item \<Rightarrow> bool" where
  "carries b p \<longleftrightarrow> si_offset p \<le> b \<and> b < si_offset p + si_length p"

lemma tiled_count:
  "tiled pos ps \<Longrightarrow> length (filter (carries b) ps) = (if pos \<le> b \<and> b < pos + sum_list (map si_length ps) then 1 else 0)"
proof (induction ps arbitrary: pos)
  case (Cons p ps)
  then have "length (filter (carries b) ps) =
      (if pos + si_length p \<le> b \<and> b < pos + si_length p + sum_list (map si_length ps) then 1 else 0)" "si_offset p = pos"
    by simp_all
  then show ?case by (simp add: carries_def [of b p] del: length_0_conv)
qed simp

lemma tiled_within: "tiled pos ps \<Longrightarrow> p \<in> set ps \<Longrightarrow> si_offset p + si_length p \<le> pos + sum_list (map si_length ps)"
  by (induction ps arbitrary: pos) fastforce+

lemma check_parts:
  "rfold (check_part n stored) (i, pos) ps = Inr (i', pos') \<Longrightarrow>
     tiled pos ps \<and> map si_index ps = [i..<i + length ps] \<and> (\<forall>p \<in> set ps. si_count p = n) \<and>
     pos' = pos + sum_list (map si_length ps)"
proof (induction ps arbitrary: i pos)
  case (Cons p ps)
  then obtain t where t: "check_part n stored (i, pos) p = Inr t" "rfold (check_part n stored) t ps = Inr (i', pos')"
    by (auto simp: result_simps)
  from t(1) have p: "si_offset p = pos" "si_index p = i" "si_count p = n" "t = (i + 1, pos + si_length p)"
    by (auto simp: check_part_def split: if_splits)
  note r = t(2) [unfolded p(4)]
  from Cons.IH [OF r] p upt_conv_Cons [of i "i + length (p # ps)"] show ?case by auto
qed simp

lemma count_index: "map si_index ps = [0..<length ps] \<Longrightarrow> i < length ps \<Longrightarrow> length (filter (\<lambda>p. si_index p = i) ps) = 1"
proof -
  assume m: "map si_index ps = [0..<length ps]" and i: "i < length ps"
  have "length (filter (\<lambda>p. si_index p = i) ps) = length (filter (\<lambda>k. k = i) (map si_index ps))"
    by (simp add: filter_map comp_def)
  also have "\<dots> = 1" unfolding m using i by (simp add: distinct_length_filter) 
  finally show ?thesis .
qed

lemma filter_mset_length: "mset xs = mset ys \<Longrightarrow> length (filter P xs) = length (filter P ys)"
  by (metis mset_filter size_mset)

lemma coverage:
  assumes "check_coverage items f = Inr ()"
  shows "\<exists>stored. stored_evidence (file_entry f) = Inr stored \<and>
    (let mine = filter (\<lambda>p. si_file p = file_id_of f) items in
       mine \<noteq> [] \<and>
       (\<forall>p \<in> set mine. si_count p = length mine \<and> si_offset p + si_length p \<le> evidence_length stored) \<and>
       (\<forall>b < evidence_length stored. length (filter (carries b) mine) = 1) \<and>
       (\<forall>i < length mine. length (filter (\<lambda>p. si_index p = i) mine) = 1))"
proof -
  let ?mine = "filter (\<lambda>p. si_file p = file_id_of f) items"
  let ?parts = "sort_key si_offset ?mine"
  from assms obtain stored i where
    st: "stored_evidence (file_entry f) = Inr stored" and ne: "?parts \<noteq> []"
    and r: "rfold (check_part (length ?parts) (evidence_length stored)) (0, 0) ?parts = Inr (i, evidence_length stored)"
    by (auto simp: check_coverage_def Let_def result_simps file_id_of_def)
  note c = check_parts [OF r]
  have m: "mset ?parts = mset ?mine" by simp
  have "set ?parts = set ?mine" by simp
  moreover have "length ?parts = length ?mine" by simp
  ultimately show ?thesis
    using st ne c tiled_within [of 0 ?parts] tiled_count [of 0 ?parts] count_index [of ?parts]
      filter_mset_length [OF m]
    by (intro exI [of _ stored]) (auto simp: Let_def simp flip: filter_mset_length [OF m])
qed

lemma check_item_file: "check_item ids (i, off, items) v = Inr (i', off', items') \<Longrightarrow>
    \<exists>p. items' = items @ [p] \<and> si_file p \<in> set ids"
  by (auto simp: check_item_def known_file_def result_simps split: if_splits json.splits)

lemma check_items_files:
  "rfold (check_item ids) (i, off, items) vs = Inr (i', off', items') \<Longrightarrow>
     \<exists>ps. items' = items @ ps \<and> length ps = length vs \<and> si_file ` set ps \<subseteq> set ids"
proof (induction vs arbitrary: i off items)
  case (Cons v vs)
  then obtain t where t: "check_item ids (i, off, items) v = Inr t" "rfold (check_item ids) t vs = Inr (i', off', items')"
    by (auto simp: result_simps)
  obtain a b c where "t = (a, b, c)" by (cases t) auto
  with t check_item_file [of ids i off items v] obtain p where
    p: "rfold (check_item ids) (a, b, items @ [p]) vs = Inr (i', off', items')" "si_file p \<in> set ids" by auto
  from Cons.IH [OF p(1)] obtain ps where "items' = (items @ [p]) @ ps" "length ps = length vs" "si_file ` set ps \<subseteq> set ids"
    by blast
  with p(2) show ?case by (intro exI [of _ "p # ps"]) simp
qed simp

definition inventory_ok :: "container_limits \<Rightarrow> pytext list \<Rightarrow> inventory_state \<Rightarrow> bool" where
  "inventory_ok limits ids st \<longleftrightarrow>
     distinct (volume_ids st) \<and> distinct (volume_keys st) \<and> length (by_file st) = total_segments st \<and>
     total_segments st \<le> max_total_segments limits \<and> si_file ` set (by_file st) \<subseteq> set ids"

lemma check_volume_ok:
  assumes "check_volume limits a w ids st v = Inr st'" and "inventory_ok limits ids st"
  shows "inventory_ok limits ids st'"
proof -
  from assms(1) obtain vid key ns msgs i off items where
    fresh: "vid \<notin> set (volume_ids st)" "key \<notin> set (volume_keys st)"
    and tot: "total_segments st + length msgs \<le> max_total_segments limits"
    and r: "rfold (check_item ids) (0, length messages_header, by_file st) msgs = Inr (i, off, items)"
    and st': "st' = \<lparr>volume_ids = volume_ids st @ [vid], volume_keys = volume_keys st @ [key], namespace = Some ns,
            by_file = items, total_segments = total_segments st + length msgs\<rparr>"
    by (auto simp: check_volume_def Let_def result_simps split: prod.splits)
  from check_items_files [OF r] obtain ps where
    "items = by_file st @ ps" "length ps = length msgs" "si_file ` set ps \<subseteq> set ids" by blast
  with assms(2) fresh tot show ?thesis by (simp add: inventory_ok_def st' image_Un)
qed

lemma inventory_parts:
  assumes "validate_inventory nfc limits inventory logical = Inr st"
  shows "inventory_ok limits (map file_id_of (logical_files logical)) st"
    and "f \<in> set (logical_files logical) \<Longrightarrow> check_coverage (by_file st) f = Inr ()"
proof -
  from assms obtain volumes us where
    r: "rfold (check_volume limits (str_of (entry (file_entry logical) ''artifact_id''))
                 (str_of (entry (file_entry logical) ''version_id'')) (map file_id_of (logical_files logical)))
         \<lparr>volume_ids = [], volume_keys = [], namespace = None, by_file = [], total_segments = 0\<rparr> volumes = Inr st"
    and c: "rmap (check_coverage (by_file st)) (logical_files logical) = Inr us"
    by (auto simp: validate_inventory_def Let_def result_simps)
  show "inventory_ok limits (map file_id_of (logical_files logical)) st"
    by (rule rfold_preserves [OF r]) (simp add: inventory_ok_def, erule (1) check_volume_ok)
  show "f \<in> set (logical_files logical) \<Longrightarrow> check_coverage (by_file st) f = Inr ()"
    using rmap_Inr [OF c, of f] by force
qed


lemma expect_some_Some [simp]: "expect_some e (Some x) = Inr x"
  by (simp add: expect_some_def)

section \<open>Keys\<close>

lemma split_slash_free: "47 \<notin> set s \<Longrightarrow> split_slash s = [s]"
  by (induction s) auto

lemma split_slash_append: "47 \<notin> set s \<Longrightarrow> split_slash (s @ 47 # t) = s # split_slash t"
  by (induction s) auto

lemma public_namespace_no_slash: "public_namespace s \<Longrightarrow> 47 \<notin> set s"
  unfolding public_namespace_def by (auto dest: led_text_chars simp: lower_code_def digit_code_def)

lemma public_namespace_length: "public_namespace s \<Longrightarrow> length s \<le> 64"
  unfolding public_namespace_def by (auto dest: led_text_length)

definition key_text :: "pytext \<Rightarrow> pytext \<Rightarrow> pytext \<Rightarrow> pytext \<Rightarrow> pytext \<Rightarrow> pytext \<Rightarrow> pytext" where
  "key_text t p b a v w = u ''lssc/v1/'' @ t @ [47] @ p @ [47] @ b @ [47] @ a @ [47] @ v @ [47] @ w @ u ''.lssc''"

lemma canonical_key_iff:
  "canonical_container_key t p b a v w = Inr k \<longleftrightarrow>
     public_namespace t \<and> public_namespace p \<and> opaque_text b \<and> opaque_text a \<and> opaque_text v \<and> opaque_text w \<and>
     k = key_text t p b a v w"
  by (auto simp: canonical_container_key_def result_simps validate_opaque_id_def text_where_def key_text_def)

lemma key_text_split:
  assumes "public_namespace t" "public_namespace p" "opaque_text b" "opaque_text a" "opaque_text v" "opaque_text w"
  shows "split_slash (key_text t p b a v w) = [u ''lssc'', u ''v1'', t, p, b, a, v, w @ u ''.lssc'']"
proof -
  have e: "u ''lssc/v1/'' @ x = u ''lssc'' @ 47 # u ''v1'' @ 47 # x" for x by (simp add: u_def)
  have f: "47 \<notin> set (u ''lssc'')" "47 \<notin> set (u ''v1'')" "47 \<notin> set (w @ u ''.lssc'')"
    using opaque_text_no_slash [OF assms(6)] by (simp_all add: u_def)
  show ?thesis
    unfolding key_text_def e
    using f public_namespace_no_slash [OF assms(1)] public_namespace_no_slash [OF assms(2)]
      opaque_text_no_slash [OF assms(3)] opaque_text_no_slash [OF assms(4)] opaque_text_no_slash [OF assms(5)]
    by (simp add: split_slash_append split_slash_free)
qed

lemma key_text_length:
  assumes "public_namespace t" "public_namespace p" "opaque_text b" "opaque_text a" "opaque_text v" "opaque_text w"
  shows "length (key_text t p b a v w) \<le> 512"
  using assms public_namespace_length [OF assms(1)] public_namespace_length [OF assms(2)]
  by (simp add: key_text_def opaque_text_length u_def)

text \<open>A volume's storage key parses, for an artifact, version and volume, to a namespace exactly
  when it is the canonical key made of that namespace and those identifiers.\<close>

theorem container_key_round_trip:
  "canonical_container_key tenant project publisher artifact version volume = Inr k \<longleftrightarrow>
   parse_container_key (JStr k) artifact version volume = Inr (tenant, project, publisher)"
  (is "?l \<longleftrightarrow> ?r")
proof
  assume c: ?l
  then have ok: "public_namespace tenant" "public_namespace project" "opaque_text publisher" "opaque_text artifact"
    "opaque_text version" "opaque_text volume" "k = key_text tenant project publisher artifact version volume"
    by (simp_all add: canonical_key_iff)
  show ?r
    using c key_text_length [OF ok(1-6)] key_text_split [OF ok(1-6)]
    by (simp add: parse_container_key_def Let_def ok(7))
next
  assume ?r
  then show ?l by (auto simp: parse_container_key_def Let_def result_simps split: if_splits)
qed

lemma key_split:
  "canonical_container_key t p b a v w = Inr k \<Longrightarrow> split_slash k = [u ''lssc'', u ''v1'', t, p, b, a, v, w @ u ''.lssc'']"
  by (simp add: canonical_key_iff key_text_split)

lemma container_key_unique:
  assumes "canonical_container_key t p b a v w = Inr k" and "canonical_container_key t' p' b' a' v' w' = Inr k"
  shows "(t, p, b, a, v, w) = (t', p', b', a', v', w')"
  using key_split [OF assms(1)] key_split [OF assms(2)] by simp

section \<open>Records read back\<close>

lemma entry_simps [simp]: "member ((k, v) # obj) n = (if k = u n then Some v else member obj n)"
  by (simp add: member_def)

lemma member_Nil [simp]: "member [] n = None"
  by (simp add: member_def)

lemma map_char_of_u [simp]: "map char_of (u s) = s"
  by (simp add: u_def comp_def)

lemma digest_text_hex64: "digest_text (u s) \<longleftrightarrow> hex64 s"
  by (auto simp: digest_text_def hex_text_def hex64_def u_def list_all_iff hex_code_def less_eq_char_def)

lemma parse_descriptor_object:
  "hex64 (sha256 d) \<Longrightarrow> parse_descriptor (descriptor_object d) = Inr d"
  by (simp add: parse_descriptor_def descriptor_object_def expect_some_def keys_are_def entry_def member_or_def
      int_from_def text_where_def digest_text_hex64 insert_commute)

definition private_ok :: "(pytext \<Rightarrow> pytext) \<Rightarrow> nat \<Rightarrow> pytext \<Rightarrow> bool" where
  "private_ok nfc maximum s \<longleftrightarrow> private_text nfc maximum (JStr s) = Inr s"

lemma private_text_same: "private_text nfc maximum v = Inr s \<Longrightarrow> v = JStr s"
  by (auto simp: private_text_def split: json.splits if_splits option.splits)

lemma optional_text_same: "optional_text nfc maximum v = Inr s \<Longrightarrow> v = or_null s"
  by (auto simp: optional_text_def or_null_def result_simps dest: private_text_same split: if_splits)

lemma digests_same: "rmap validate_digest vs = Inr hs \<Longrightarrow> vs = map JStr hs"
  by (induction vs arbitrary: hs)
    (auto simp: result_simps validate_digest_def text_where_def split: json.splits if_splits)

lemma metadata_same:
  "rfold (add_metadata nfc) (n, acc) kvs = Inr (m, out) \<Longrightarrow> \<exists>new. out = acc @ new \<and> kvs = map (\<lambda>(k, v). (k, JStr v)) new"
proof (induction kvs arbitrary: n acc)
  case (Cons kv kvs)
  obtain k v where kv: "kv = (k, v)" by (cases kv)
  from Cons.prems obtain t where t: "add_metadata nfc (n, acc) kv = Inr t" "rfold (add_metadata nfc) t kvs = Inr (m, out)"
    by (auto simp: result_simps)
  from t(1) kv obtain s n' where s: "private_text nfc 512 v = Inr s" "t = (n', acc @ [(k, s)])"
    by (auto simp: add_metadata_def result_simps split: if_splits option.splits dest!: spec)
  from Cons.IH [OF t(2) [unfolded s(2)]] obtain new where
    "out = (acc @ [(k, s)]) @ new" "kvs = map (\<lambda>(k, v). (k, JStr v)) new" by blast
  with private_text_same [OF s(1)] kv show ?case by (intro exI [of _ "(k, s) # new"]) simp
qed simp

lemma provenance_round_trip:
  assumes "parse_provenance nfc v = Inr p"
  shows "parse_provenance nfc (provenance_object p) = Inr p"
proof -
  from assms obtain name path rev hashes md where
    n: "provenance_new nfc name path rev hashes md = Inr p" by (auto simp: parse_provenance_def result_simps)
  then obtain entries where p:
    "name = or_null (original_name p)" "path = or_null (original_path p)" "rev = or_null (source_revision p)"
    "hashes = map JStr (source_hashes p)" "md = JObj entries"
    "entries = map (\<lambda>(k, v). (k, JStr v)) (operational_metadata p)"
    by (auto simp: provenance_new_def result_simps expect_some_def dest!: optional_text_same digests_same metadata_same
        split: option.splits elim!: as_obj.elims)
  with n show ?thesis
    by (simp add: parse_provenance_def provenance_object_def expect_some_def keys_are_def provenance_keys_def entry_def
        member_or_def insert_commute)
qed

lemma worker_record_round_trip:
  assumes "byte_list request" and "0 < length request" and "length request \<le> max_worker_proof_bytes"
  shows "worker_snapshot_proof (worker_record request) = Inr request"
proof -
  have "length (b64encode request) \<le> 4 * ((max_worker_proof_bytes + 2) div 3)"
    using assms(3) by (simp add: b64encode_length max_worker_proof_bytes_def)
  then show ?thesis
    using assms by (simp add: worker_snapshot_proof_def worker_record_def keys_are_def entry_def member_or_def b64_round_trip)
qed

lemma delta_text_same: "delta_text good v = Inr s \<Longrightarrow> v = JStr s \<and> good s"
  by (auto simp: delta_text_def split: json.splits if_splits)

lemma evidence_same: "file_evidence_new a b = Inr e \<Longrightarrow> a = JInt (int (evidence_length e)) \<and> b = JStr (evidence_sha256 e)"
  by (auto simp: file_evidence_new_def split: json.splits if_splits)

lemma evidence_of_same: "file_evidence_of v = Inr e \<Longrightarrow> file_evidence_of (evidence_object e) = Inr e"
proof -
  assume "file_evidence_of v = Inr e"
  then obtain a b where e: "file_evidence_new a b = Inr e" by (auto simp: file_evidence_of_def result_simps)
  with evidence_same [OF e] show ?thesis
    by (simp add: file_evidence_of_def evidence_object_def keys_are_def entry_def member_or_def)
qed

lemma delta_round_trip:
  assumes "file_delta_of file = Inr d" and "entry file' ''length'' = entry file ''length''"
    and "entry file' ''sha256'' = entry file ''sha256''" and "entry file' ''delta'' = delta_record d"
  shows "file_delta_of file' = Inr d"
proof -
  from assms(1) obtain b p r v c f x k where
    d: "file_evidence_of b = Inr (base_evidence d)" "file_evidence_of p = Inr (patch_evidence d)"
      "file_evidence_new (entry file ''length'') (entry file ''sha256'') = Inr (result_evidence d)"
      "file_delta_new v c f (base_evidence d) (patch_evidence d) (result_evidence d) x k = Inr d"
    by (auto simp: file_delta_of_def file_delta_new_def result_simps)
  then have e: "v = JStr (base_version d)" "c = JStr (base_commitment d)" "f = JStr (base_file_id d)"
    "x = JStr (change_id d)" "k = JStr delta_codec"
    by (cases d; auto simp: file_delta_new_def result_simps dest: delta_text_same)+
  show ?thesis
    using d(3,4) evidence_of_same [OF d(1)] evidence_of_same [OF d(2)] assms(2-4)
    by (simp add: file_delta_of_def delta_record_def keys_are_def delta_keys_def entry_def member_or_def e)
qed

section \<open>Errors\<close>

text \<open>Texts the strict UTF-8 encoder takes, anywhere inside a value.\<close>

fun encodable :: "json \<Rightarrow> bool" where
  "encodable (JStr s) = list_all scalar_value s"
| "encodable (JList xs) = list_all encodable xs"
| "encodable (JObj kvs) = list_all (\<lambda>kv. encodable (snd kv)) kvs"
| "encodable _ = True"

definition plain_texts :: "json \<Rightarrow> bool" where
  "plain_texts v = (case v of JList xs \<Rightarrow> list_all (\<lambda>x. \<exists>s. x = JStr s) xs | _ \<Rightarrow> True)"

text \<open>The errors a check may raise.\<close>

definition raises :: "record_error set \<Rightarrow> (record_error, 'a) result \<Rightarrow> bool" where
  "raises E r \<longleftrightarrow> (\<forall>e. r = Inl e \<longrightarrow> e \<in> E)"

named_theorems record_errors \<open>the errors each check may raise\<close>

lemma raises_rbind [record_errors]:
  "raises E r \<Longrightarrow> (\<And>x. r = Inr x \<Longrightarrow> raises E (f x)) \<Longrightarrow> raises E (rbind r f)"
  by (cases r) (auto simp: raises_def)

lemma raises_Inr [record_errors]: "raises E (Inr x)"
  by (simp add: raises_def)

lemma raises_basic [record_errors]:
  assumes "Record_error \<in> E"
  shows "raises E (require b Record_error)" "raises E (expect_some Record_error v)"
    "raises E (int_from low w)" "raises E (text_where g w)" "raises E (recast r)"
  using assms
  by (auto simp: raises_def require_def expect_some_def int_from_def text_where_def recast_def
      split: option.splits json.splits if_splits sum.splits)

lemma raises_ids [record_errors]:
  "Record_error \<in> E \<Longrightarrow> raises E (validate_opaque_id w)" "Record_error \<in> E \<Longrightarrow> raises E (validate_digest w)"
  by (simp_all add: validate_opaque_id_def validate_digest_def raises_basic)

lemma raises_rmap [record_errors]: "(\<And>x. raises E (f x)) \<Longrightarrow> raises E (rmap f xs)"
  by (induction xs) (auto intro!: raises_rbind raises_Inr)

lemma raises_rfold: "(\<And>s x. x \<in> set xs \<Longrightarrow> raises E (f s x)) \<Longrightarrow> raises E (rfold f s xs)"
  by (induction xs arbitrary: s) (auto intro!: raises_rbind raises_Inr)

lemma raises_parents [record_errors]: "Record_error \<in> E \<Longrightarrow> raises E (validate_parents w)"
  unfolding validate_parents_def by (intro record_errors)

lemma raises_origin [record_errors]: "Record_error \<in> E \<Longrightarrow> raises E (validate_origin w)"
  unfolding validate_origin_def by (intro record_errors)

lemma raises_times [record_errors]: "Record_error \<in> E \<Longrightarrow> raises E (validate_times w)"
  unfolding validate_times_def by (intro record_errors)

lemma raises_delta [record_errors]: "Record_error \<in> E \<Longrightarrow> raises E (validate_delta ps v f)"
  unfolding validate_delta_def by (auto intro: record_errors)

lemma raises_sorted_texts [record_errors]:
  "Record_error \<in> E \<Longrightarrow> plain_texts w \<or> Type_error \<in> E \<Longrightarrow> raises E (sorted_texts n w)"
proof -
  assume E: "Record_error \<in> E" "plain_texts w \<or> Type_error \<in> E"
  have "all_some (map as_str xs) \<noteq> None" if "w = JList xs" "plain_texts w" for xs
    using that by (induction xs arbitrary: w) (auto simp: plain_texts_def all_some_def)
  with E show ?thesis
    by (cases w) (auto simp: raises_def sorted_texts_def result_simps expect_some_def require_def split: option.splits if_splits)
qed

lemma field_name_encodes: "field_name k \<Longrightarrow> utf8_encode k \<noteq> None"
proof -
  assume f: "field_name k"
  have "scalar_value c" if "c \<in> set k" for c
    using led_text_chars [OF f [unfolded field_name_def] that]
    by (auto simp: alnum_code_def lower_code_def digit_code_def scalar_value_def code_point_def surrogate_def)
  then show ?thesis by (simp add: utf8_encode_def list_all_iff)
qed

lemma raises_private [record_errors]:
  "Record_error \<in> E \<Longrightarrow> encodable w \<or> Text_error \<in> E \<Longrightarrow> raises E (private_text nfc n w)"
  by (auto simp: raises_def private_text_def utf8_encode_def split: json.splits if_splits)

lemma raises_optional [record_errors]:
  "Record_error \<in> E \<Longrightarrow> encodable w \<or> Text_error \<in> E \<Longrightarrow> raises E (optional_text nfc n w)"
  by (auto simp: optional_text_def intro!: record_errors)

lemma raises_metadata [record_errors]:
  assumes "Record_error \<in> E" and "encodable (snd kv) \<or> Text_error \<in> E"
  shows "raises E (add_metadata nfc st kv)"
proof -
  obtain n acc k v where st: "st = (n, acc)" "kv = (k, v)" by (cases st; cases kv) auto
  have "utf8_encode s \<noteq> None" if "private_text nfc 512 v = Inr s" for s
    using that by (auto simp: private_text_def split: json.splits if_splits option.splits)
  with raises_private [OF assms(1), of v nfc 512] assms field_name_encodes [of k] show ?thesis
    by (auto simp: add_metadata_def st raises_def result_simps split: option.splits if_splits)
qed

lemma encodable_entry: "encodable (JObj obj) \<Longrightarrow> encodable (entry obj n)"
proof -
  assume e: "encodable (JObj obj)"
  show ?thesis
  proof (cases "member obj n")
    case (Some v)
    then have "(u n, v) \<in> set obj" by (simp add: member_def map_of_SomeD)
    with e Some show ?thesis by (auto simp: entry_def member_or_def list_all_iff)
  qed (simp add: entry_def member_or_def)
qed

lemma raises_provenance [record_errors]:
  assumes "Record_error \<in> E" and "encodable v \<or> Text_error \<in> E"
  shows "raises E (parse_provenance nfc v)"
proof (cases v)
  case (JObj obj)
  have e: "encodable (entry obj n) \<or> Text_error \<in> E" for n using assms(2) encodable_entry JObj by auto
  have m: "encodable (snd kv) \<or> Text_error \<in> E" if "entry obj n = JObj kvs" "kv \<in> set kvs" for n kvs kv
    using e [of n] that by (auto simp: list_all_iff)
  have "raises E (rfold (add_metadata nfc) (0, []) kvs)" if "expect_some Record_error (as_obj (entry obj n)) = Inr kvs" for n kvs
    using that m by (intro raises_rfold raises_metadata assms)
      (auto simp: expect_some_def split: option.splits elim!: as_obj.elims)
  then show ?thesis
    unfolding parse_provenance_def provenance_new_def JObj
    by (auto split: prod.splits intro!: record_errors assms e)
qed (simp_all add: parse_provenance_def expect_some_def raises_def assms)

lemma raises_file [record_errors]:
  assumes "Record_error \<in> E" and "encodable v \<or> Text_error \<in> E"
  shows "raises E (validate_file nfc ps w seen v)"
proof (cases v)
  case (JObj obj)
  have "encodable (entry obj n) \<or> Text_error \<in> E" for n using assms(2) encodable_entry JObj by auto
  then show ?thesis
    unfolding validate_file_def JObj by (auto intro!: record_errors assms)
qed (simp_all add: validate_file_def expect_some_def raises_def assms)

lemma raises_logical:
  assumes E: "Record_error \<in> E" and t: "encodable v \<or> Text_error \<in> E"
    and p: "plain_texts (entry (file_entry v) ''audience'') \<or> Type_error \<in> E"
      "plain_texts (entry (file_entry v) ''scope'') \<or> Type_error \<in> E"
  shows "raises E (validate_logical nfc limits v)"
proof (cases v)
  case (JObj obj)
  have p': "plain_texts (entry obj ''audience'') \<or> Type_error \<in> E" "plain_texts (entry obj ''scope'') \<or> Type_error \<in> E"
    using p by (simp_all add: file_entry_def JObj)
  have f: "encodable x \<or> Text_error \<in> E" if "entry obj n = JList xs" "x \<in> set xs" for n xs x
    using encodable_entry [of obj n] that t by (auto simp: list_all_iff JObj)
  have "raises E (rfold (validate_file nfc ps w) [] xs)"
    if "expect_some Record_error (as_list (entry obj n)) = Inr xs" for ps w n xs
    using that f by (intro raises_rfold raises_file E)
      (auto simp: expect_some_def split: option.splits elim!: as_list.elims)
  then show ?thesis
    unfolding validate_logical_def JObj by (auto intro!: record_errors E p')
qed (simp_all add: validate_logical_def expect_some_def raises_def E)

text \<open>C14. Validating a logical record raises ArtifactRecordError, with two exceptions that escape the
  code's handlers: a UnicodeEncodeError, only when some text in the record holds a surrogate, and a
  TypeError, only when the audience or the scope holds something else than texts. Delta and
  snapshot records never leak their own errors.\<close>

theorem validate_logical_errors:
  assumes "validate_logical nfc limits v = Inl e"
  shows "e = Record_error \<or> e = Text_error \<and> \<not> encodable v \<or>
    e = Type_error \<and> \<not> (plain_texts (entry (file_entry v) ''audience'') \<and> plain_texts (entry (file_entry v) ''scope''))"
proof -
  let ?E = "{Record_error} \<union> (if encodable v then {} else {Text_error}) \<union>
    (if plain_texts (entry (file_entry v) ''audience'') \<and> plain_texts (entry (file_entry v) ''scope'') then {} else {Type_error})"
  have "raises ?E (validate_logical nfc limits v)" by (rule raises_logical) auto
  with assms show ?thesis by (auto simp: raises_def split: if_splits)
qed

section \<open>A sample inventory\<close>

definition sample_id :: "nat \<Rightarrow> pytext" where
  "sample_id n = replicate 31 48 @ [48 + n]"

definition sample_digest :: pytext where
  "sample_digest = replicate 64 97"

definition sample_provenance :: json where
  "sample_provenance = provenance_object \<lparr>original_name = Some [97, 233], original_path = None, source_revision = None,
     source_hashes = [sample_digest], operational_metadata = [([75], [118])]\<rparr>"

definition sample_file :: "nat \<Rightarrow> int \<Rightarrow> json" where
  "sample_file n len = JObj [(u ''file_id'', JStr (sample_id n)), (u ''length'', JInt len),
     (u ''sha256'', JStr sample_digest), (u ''provenance'', sample_provenance)]"

definition sample_logical :: json where
  "sample_logical = JObj [(u ''artifact_id'', JStr (sample_id 1)), (u ''version_id'', JStr (sample_id 2)),
     (u ''parent_versions'', JList []),
     (u ''origin'', JObj [(u ''store_id'', JStr sample_digest), (u ''revision'', JInt 0), (u ''epoch'', JInt 1),
                         (u ''fingerprint'', JStr (replicate 40 65))]),
     (u ''audience'', JList [JStr (replicate 40 65)]), (u ''scope'', JList [JStr (u ''docs'')]),
     (u ''purpose'', JStr (u ''review'')), (u ''content_revision'', JStr (u ''r1'')),
     (u ''created_at'', JInt 5), (u ''expires_at'', JInt 9),
     (u ''files'', JList [sample_file 3 7, sample_file 4 0])]"

definition sample_item :: "nat \<Rightarrow> int \<Rightarrow> int \<Rightarrow> int \<Rightarrow> int \<Rightarrow> nat \<Rightarrow> nat \<Rightarrow> json" where
  "sample_item f off len si sc i pos = JObj [(u ''file_id'', JStr (sample_id f)), (u ''offset'', JInt off), (u ''length'', JInt len),
     (u ''segment_index'', JInt si), (u ''segment_count'', JInt sc), (u ''plaintext_sha256'', JStr sample_digest),
     (u ''descriptor'', descriptor_object \<lparr>message_index = i, offset = pos,
        serialized_length = length message_marker + block_length message_indent 3, ciphertext_length = 3,
        sha256 = replicate 64 (CHR ''7'')\<rparr>)]"

definition sample_volume :: "nat \<Rightarrow> json list \<Rightarrow> json" where
  "sample_volume n messages = JObj [(u ''volume_id'', JStr (sample_id n)),
     (u ''key'', JStr (key_text (u ''t'') (u ''p'') (sample_id 8) (sample_id 1) (sample_id 2) (sample_id n))),
     (u ''messages'', JList messages)]"

definition sample_inventory :: json where
  "sample_inventory = JObj [(u ''volumes'', JList
     [sample_volume 5 [sample_item 3 0 4 0 2 0 10, sample_item 4 0 0 0 1 1 34],
      sample_volume 6 [sample_item 3 4 3 1 2 0 10]])]"

definition sample_state :: inventory_state where
  "sample_state = \<lparr>volume_ids = [sample_id 5, sample_id 6],
     volume_keys = map (\<lambda>n. key_text (u ''t'') (u ''p'') (sample_id 8) (sample_id 1) (sample_id 2) (sample_id n)) [5, 6],
     namespace = Some (u ''t'', u ''p'', sample_id 8),
     by_file = [\<lparr>si_file = sample_id 3, si_offset = 0, si_length = 4, si_index = 0, si_count = 2\<rparr>,
                \<lparr>si_file = sample_id 4, si_offset = 0, si_length = 0, si_index = 0, si_count = 1\<rparr>,
                \<lparr>si_file = sample_id 3, si_offset = 4, si_length = 3, si_index = 1, si_count = 2\<rparr>],
     total_segments = 3\<rparr>"

lemma sample_logical_valid: "validate_logical id default_limits sample_logical = Inr ()"
  by code_simp

lemma sample_inventory_valid: "validate_inventory id default_limits sample_inventory sample_logical = Inr sample_state"
  by code_simp


text \<open>An audience that holds a list makes Python build a set of it.\<close>

definition unhashable_logical :: json where
  "unhashable_logical = JObj (map (\<lambda>(k, v). if k = u ''audience'' then (k, JList [JList []]) else (k, v)) (file_entry sample_logical))"

lemma unhashable_audience: "validate_logical id default_limits unhashable_logical = Inl Type_error"
  by code_simp

theorem validate_logical_errors_witness:
  "\<not> (plain_texts (entry (file_entry unhashable_logical) ''audience'') \<and>
      plain_texts (entry (file_entry unhashable_logical) ''scope''))"
  using validate_logical_errors [OF unhashable_audience] by simp

section \<open>Inventories and containers\<close>

text \<open>The message claims of a volume record, as its descriptors.\<close>

definition item_descriptor :: "json \<Rightarrow> (record_error, message_descriptor) result" where
  "item_descriptor item = parse_descriptor (entry (file_entry item) ''descriptor'')"

definition volume_messages :: "json \<Rightarrow> json list" where
  "volume_messages volume = list_of (entry (file_entry volume) ''messages'')"

definition inventory_volumes :: "json \<Rightarrow> json list" where
  "inventory_volumes inventory = list_of (entry (file_entry inventory) ''volumes'')"

fun framed_from :: "nat \<Rightarrow> nat \<Rightarrow> message_descriptor list \<Rightarrow> bool" where
  "framed_from i off [] \<longleftrightarrow> True"
| "framed_from i off (d # ds) \<longleftrightarrow> framed_at i off d \<and> framed_from (i + 1) (off + serialized_length d) ds"

lemma check_items_framed:
  "rfold (check_item ids) (i, off, items) vs = Inr st \<Longrightarrow> \<exists>ds. rmap item_descriptor vs = Inr ds \<and> framed_from i off ds"
proof (induction vs arbitrary: i off items)
  case (Cons v vs)
  then obtain t where t: "check_item ids (i, off, items) v = Inr t" "rfold (check_item ids) t vs = Inr st"
    by (auto simp: result_simps)
  from t(1) obtain d items' where d: "item_descriptor v = Inr d" "framed_at i off d" "t = (i + 1, off + serialized_length d, items')"
    by (auto simp: check_item_def result_simps item_descriptor_def file_entry_def expect_some_def
        split: option.splits elim!: as_obj.elims)
  from Cons.IH [OF t(2) [unfolded d(3)]] obtain ds where
    "rmap item_descriptor vs = Inr ds" "framed_from (i + 1) (off + serialized_length d) ds" by blast
  with d show ?case by (intro exI [of _ "d # ds"]) simp
qed simp

lemma framed_unique:
  "framed_from i off ds \<Longrightarrow>
   map (\<lambda>d. (ciphertext_length d, sha256 d)) ds =
     map (\<lambda>d. (ciphertext_length d, sha256 d)) (descriptors_from sha i off ms) \<Longrightarrow>
   ds = descriptors_from sha i off ms"
proof (induction ds arbitrary: i off ms)
  case Nil
  then show ?case by (cases ms) auto
next
  case (Cons d ds)
  then obtain m ms' where ms: "ms = m # ms'" by (cases ms) auto
  from Cons.prems ms have d: "d = \<lparr>message_index = i, offset = off, serialized_length = length (message_bytes m),
      ciphertext_length = length m, sha256 = sha m\<rparr>"
    by (simp add: framed_at_def message_bytes_length block_length)
  from Cons.IH [of "i + 1" "off + length (message_bytes m)" ms'] Cons.prems show ?case by (simp add: ms d)
qed

lemma inventory_volume_framed:
  assumes "validate_inventory nfc limits inventory logical = Inr st" and "volume \<in> set (inventory_volumes inventory)"
  shows "\<exists>ds. rmap item_descriptor (volume_messages volume) = Inr ds \<and> framed_from 0 (length messages_header) ds"
proof -
  let ?l = "file_entry logical"
  let ?f = "check_volume limits (str_of (entry ?l ''artifact_id'')) (str_of (entry ?l ''version_id''))
                 (map file_id_of (logical_files logical))"
  from assms obtain s0 where
    "rfold ?f s0 (inventory_volumes inventory) = Inr st"
    by (auto simp: validate_inventory_def Let_def result_simps inventory_volumes_def file_entry_def list_of_def expect_some_def
        split: option.splits elim!: as_obj.elims as_list.elims)
  moreover have "rfold ?f s vs = Inr st \<Longrightarrow> volume \<in> set vs \<Longrightarrow> \<exists>s' s''. ?f s' volume = Inr s''" for s vs
    by (induction vs arbitrary: s) (auto simp: result_simps)
  ultimately obtain s' s'' where "?f s' volume = Inr s''" using assms(2) by blast
  then obtain obj items i t where "volume = JObj obj" "entry obj ''messages'' = JList items"
    "rfold (check_item (map file_id_of (logical_files logical))) (0, length messages_header, by_file s') items = Inr t"
    by (auto simp: check_volume_def Let_def result_simps expect_some_def split: option.splits elim!: as_obj.elims as_list.elims)
  with check_items_framed show ?thesis by (fastforce simp: volume_messages_def file_entry_def list_of_def)
qed

text \<open>C13. An accepted inventory describes exactly one framing of a volume: when the ciphertext lengths
  and digests it claims for a volume are those a full scan of the volume's container finds, its
  descriptors are the scan's, index, offset and serialized length included, so each of them
  selects its own message.\<close>

theorem inventory_matches_container:
  assumes "validate_inventory nfc limits inventory logical = Inr st" and "volume \<in> set (inventory_volumes inventory)"
    and "read_metadata lims (bytes_source data) = Inr header"
    and "scan_message_descriptors sha lims (bytes_source data) None = Inr found"
  shows "\<exists>ds. rmap item_descriptor (volume_messages volume) = Inr ds \<and>
    (map (\<lambda>d. (ciphertext_length d, sha256 d)) ds = map (\<lambda>d. (ciphertext_length d, sha256 d)) found \<longleftrightarrow> ds = found)"
proof -
  from inventory_volume_framed [OF assms(1,2)] obtain ds where
    ds: "rmap item_descriptor (volume_messages volume) = Inr ds" "framed_from 0 (length messages_header) ds" by blast
  from scanned_container [OF assms(3,4)] obtain ms where "found = descriptors_from sha 0 (length messages_header) ms" by blast
  with framed_unique [OF ds(2), of sha ms] ds(1) show ?thesis by (intro exI [of _ ds]) auto
qed

definition sample_container :: bytes where
  "sample_container = container_bytes [replicate 20 65 @ replicate 20 57] [42, 128] (map message_content [Whole [0, 255, 7]])"

lemma sample_container_read:
  "read_metadata default_limits (bytes_source sample_container) = Inr (header_of [replicate 20 65 @ replicate 20 57] [42, 128])"
  "scan_message_descriptors toy_sha default_limits (bytes_source sample_container) None =
     Inr (descriptors_from toy_sha 0 (length messages_header) [[0, 255, 7]])"
proof -
  have w: "writable default_limits [replicate 20 65 @ replicate 20 57] [42, 128] [Whole [0, 255, 7]]" by code_simp
  have b: "list_all (\<lambda>m. byte_list (message_content m)) [Whole [0, 255, 7]]" by code_simp
  note ok = sample_limits(1) sample_hints_ok w sample_limits(2) sample_bytes(2)
  show "read_metadata default_limits (bytes_source sample_container) = Inr (header_of [replicate 20 65 @ replicate 20 57] [42, 128])"
    unfolding sample_container_def by (rule read_container [OF ok])
  have "map message_content [Whole [0, 255, 7]] = [[0, 255, 7]]" by code_simp
  with scan_container [OF ok b toy_sha_hex, of None]
  show "scan_message_descriptors toy_sha default_limits (bytes_source sample_container) None =
     Inr (descriptors_from toy_sha 0 (length messages_header) [[0, 255, 7]])"
    unfolding sample_container_def by (simp del: list.map)
qed

theorem inventory_matches_container_witness:
  "rmap item_descriptor (volume_messages (sample_volume 6 [sample_item 3 4 3 1 2 0 10])) =
     Inr (descriptors_from toy_sha 0 (length messages_header) [[0, 255, 7]])"
proof -
  let ?v = "sample_volume 6 [sample_item 3 4 3 1 2 0 10]"
  have "inventory_volumes sample_inventory = [sample_volume 5 [sample_item 3 0 4 0 2 0 10, sample_item 4 0 0 0 1 1 34], ?v]"
    by code_simp
  then have v: "?v \<in> set (inventory_volumes sample_inventory)" by simp
  from inventory_matches_container [OF sample_inventory_valid v sample_container_read] obtain ds where
    ds: "rmap item_descriptor (volume_messages ?v) = Inr ds"
    "map (\<lambda>d. (ciphertext_length d, sha256 d)) ds =
       map (\<lambda>d. (ciphertext_length d, sha256 d)) (descriptors_from toy_sha 0 (length messages_header) [[0, 255, 7]]) \<longleftrightarrow>
     ds = descriptors_from toy_sha 0 (length messages_header) [[0, 255, 7]]" by blast
  have "rmap (\<lambda>v. rbind (item_descriptor v) (\<lambda>d. Inr (ciphertext_length d, sha256 d))) (volume_messages ?v) =
      Inr [(3, replicate 64 (CHR ''7''))]" by code_simp
  with ds show ?thesis
    by (auto simp: volume_messages_def sample_volume_def entry_def member_or_def file_entry_def list_of_def toy_sha_def result_simps)
qed

end
