(* ===== verification/Heartbeat.thy ===== *)
theory Heartbeat
  imports Python Text_Grammars "HOL-Library.Code_Target_Nat" "HOL-Library.Code_Target_Int"
begin

text \<open>
  The heartbeat ledger of a supervised task (\<open>src/ls/core/agent/heartbeat_budget.py\<close>): a replay of
  reservations, results and controller reviews against a budget. Records are parsed JSON objects,
  and every error is the \<open>ValueError\<close> of one check.
\<close>

datatype heartbeat_error =
    Invalid_fields | Invalid_integer | Invalid_identity | Unsupported_schema | Record_limit | Invalid_record |
    Task_stopped | Operation_replayed | Budget_exhausted | Unmatched_result | Unbound_review |
    Invalid_decision | Invalid_rationale | Unsupported_event

type_synonym obj = "(pytext \<times> json) list"

text \<open>What a task may use, in the dimensions of the ledger.\<close>

record usage =
  attempts :: int
  requests :: int
  tools :: int
  tokens :: int
  seconds :: int
  compactions :: int

definition no_usage :: usage where
  "no_usage = \<lparr>attempts = 0, requests = 0, tools = 0, tokens = 0, seconds = 0, compactions = 0\<rparr>"

definition usage_plus :: "usage \<Rightarrow> usage \<Rightarrow> usage" where
  "usage_plus a b = \<lparr>attempts = attempts a + attempts b, requests = requests a + requests b, tools = tools a + tools b,
     tokens = tokens a + tokens b, seconds = seconds a + seconds b, compactions = compactions a + compactions b\<rparr>"

definition usage_minus :: "usage \<Rightarrow> usage \<Rightarrow> usage" where
  "usage_minus a b = \<lparr>attempts = attempts a - attempts b, requests = requests a - requests b, tools = tools a - tools b,
     tokens = tokens a - tokens b, seconds = seconds a - seconds b, compactions = compactions a - compactions b\<rparr>"

definition usage_within :: "usage \<Rightarrow> usage \<Rightarrow> bool" where
  "usage_within a b \<longleftrightarrow> attempts a \<le> attempts b \<and> requests a \<le> requests b \<and> tools a \<le> tools b \<and>
     tokens a \<le> tokens b \<and> seconds a \<le> seconds b \<and> compactions a \<le> compactions b"

definition caps :: usage where
  "caps = \<lparr>attempts = 1024, requests = 65536, tools = 262144, tokens = 1073741824, seconds = 31536000, compactions = 1024\<rparr>"

section \<open>Checks\<close>

definition keys_of :: "json \<Rightarrow> string list \<Rightarrow> (heartbeat_error, obj) result" where
  "keys_of v names =
     (case v of JObj kvs \<Rightarrow> if set (map fst kvs) = set (map u names) then Inr kvs else Inl Invalid_fields
      | _ \<Rightarrow> Inl Invalid_fields)"

definition integer_in :: "json \<Rightarrow> int \<Rightarrow> int \<Rightarrow> (heartbeat_error, int) result" where
  "integer_in v low high = (case v of JInt i \<Rightarrow> if low \<le> i \<and> i \<le> high then Inr i else Inl Invalid_integer | _ \<Rightarrow> Inl Invalid_integer)"

definition identity :: "json \<Rightarrow> (pytext \<Rightarrow> bool) \<Rightarrow> (heartbeat_error, pytext) result" where
  "identity v pattern = (case v of JStr s \<Rightarrow> if pattern s then Inr s else Inl Invalid_identity | _ \<Rightarrow> Inl Invalid_identity)"

definition item_at :: "obj \<Rightarrow> string \<Rightarrow> json" where
  "item_at kvs name = member_or kvs name JNull"

section \<open>Policies\<close>

record policy =
  budget :: usage
  no_progress_limit :: int

definition validate_policy :: "json \<Rightarrow> (heartbeat_error, policy) result" where
  "validate_policy v =
     rbind (keys_of v [''schema_version'', ''task'', ''revision'', ''criterion'', ''budget'', ''no_progress_limit'']) (\<lambda>p.
     rbind (require (item_at p ''schema_version'' = JInt 1) Unsupported_schema) (\<lambda>_.
     rbind (identity (item_at p ''task'') journal_id) (\<lambda>_.
     rbind (identity (item_at p ''revision'') digest_text) (\<lambda>_.
     rbind (identity (item_at p ''criterion'') digest_text) (\<lambda>_.
     rbind (keys_of (item_at p ''budget'') [''attempts'', ''requests'', ''tools'', ''tokens'', ''seconds'', ''compactions'']) (\<lambda>b.
     rbind (integer_in (item_at b ''attempts'') 1 (attempts caps)) (\<lambda>a.
     rbind (integer_in (item_at b ''requests'') 1 (requests caps)) (\<lambda>r.
     rbind (integer_in (item_at b ''tools'') 0 (tools caps)) (\<lambda>t.
     rbind (integer_in (item_at b ''tokens'') 1 (tokens caps)) (\<lambda>k.
     rbind (integer_in (item_at b ''seconds'') 1 (seconds caps)) (\<lambda>s.
     rbind (integer_in (item_at b ''compactions'') 0 (compactions caps)) (\<lambda>c.
     rbind (integer_in (item_at p ''no_progress_limit'') 1 a) (\<lambda>n.
       Inr \<lparr>budget = \<lparr>attempts = a, requests = r, tools = t, tokens = k, seconds = s, compactions = c\<rparr>,
            no_progress_limit = n\<rparr>)))))))))))))"

section \<open>Reservations\<close>

definition envelope :: "json \<Rightarrow> json \<Rightarrow> (heartbeat_error, usage) result" where
  "envelope run compaction =
     rbind (keys_of run [''requests'', ''tools'', ''tokens'', ''seconds'']) (\<lambda>fs.
     rbind (integer_in (item_at fs ''requests'') 1 64) (\<lambda>r.
     rbind (integer_in (item_at fs ''tools'') 0 256) (\<lambda>t.
     rbind (integer_in (item_at fs ''tokens'') 1 1048576) (\<lambda>k.
     rbind (integer_in (item_at fs ''seconds'') 1 86400) (\<lambda>s.
     let res = \<lparr>attempts = 1, requests = r, tools = t, tokens = k, seconds = s, compactions = 0\<rparr> in
     if compaction = JNull then Inr res
     else
       rbind (keys_of compaction [''tokens'', ''seconds'']) (\<lambda>c.
       rbind (integer_in (item_at c ''tokens'') 1 1048576) (\<lambda>ck.
       rbind (integer_in (item_at c ''seconds'') 1 86400) (\<lambda>cs.
         Inr (res\<lparr>requests := r + 1, tokens := k + ck, seconds := s + cs, compactions := 1\<rparr>)))))))))"

section \<open>The replay\<close>

record reservation =
  operation :: pytext
  outcome :: "pytext option"

record ledger =
  charged :: usage
  operations :: "pytext list"
  pending :: "reservation option"
  consecutive :: int
  accepted :: bool

definition empty_ledger :: ledger where
  "empty_ledger = \<lparr>charged = no_usage, operations = [], pending = None, consecutive = 0, accepted = False\<rparr>"

definition reserve :: "policy \<Rightarrow> ledger \<Rightarrow> json \<Rightarrow> (heartbeat_error, ledger) result" where
  "reserve p s v =
     rbind (keys_of v [''type'', ''operation'', ''run'', ''compact'']) (\<lambda>r.
     rbind (identity (item_at r ''operation'') journal_id) (\<lambda>op.
     rbind (require (pending s = None \<and> \<not> accepted s \<and> consecutive s < no_progress_limit p) Task_stopped) (\<lambda>_.
     rbind (require (op \<notin> set (operations s)) Operation_replayed) (\<lambda>_.
     rbind (envelope (item_at r ''run'') (item_at r ''compact'')) (\<lambda>allocation.
     rbind (require (usage_within (usage_plus (charged s) allocation) (budget p)) Budget_exhausted) (\<lambda>_.
       Inr (s\<lparr>charged := usage_plus (charged s) allocation, operations := operations s @ [op],
              pending := Some \<lparr>operation = op, outcome = None\<rparr>\<rparr>)))))))"

definition record_result :: "ledger \<Rightarrow> json \<Rightarrow> (heartbeat_error, ledger) result" where
  "record_result s v =
     rbind (keys_of v [''type'', ''operation'', ''result'']) (\<lambda>r.
     rbind (identity (item_at r ''result'') digest_text) (\<lambda>d.
     case pending s of
       None \<Rightarrow> Inl Unmatched_result
     | Some q \<Rightarrow>
         if item_at r ''operation'' \<noteq> JStr (operation q) \<or> outcome q \<noteq> None then Inl Unmatched_result
         else Inr (s\<lparr>pending := Some (q\<lparr>outcome := Some d\<rparr>)\<rparr>)))"

definition review :: "ledger \<Rightarrow> json \<Rightarrow> (heartbeat_error, ledger) result" where
  "review s v =
     rbind (keys_of v [''type'', ''operation'', ''result'', ''decision'', ''evidence'', ''rationale'']) (\<lambda>r.
     case pending s of
       None \<Rightarrow> Inl Unbound_review
     | Some q \<Rightarrow>
        (case outcome q of
           None \<Rightarrow> Inl Unbound_review
         | Some d \<Rightarrow>
            rbind (require (item_at r ''operation'' = JStr (operation q) \<and> item_at r ''result'' = JStr d) Unbound_review) (\<lambda>_.
            let decision = item_at r ''decision'' in
            rbind (require (decision \<in> set (map (\<lambda>t. JStr (u t)) [''progress'', ''no_progress'', ''accepted''])) Invalid_decision) (\<lambda>_.
            rbind (identity (item_at r ''evidence'') digest_text) (\<lambda>_.
            rbind (require (case item_at r ''rationale'' of JStr t \<Rightarrow> strip t \<noteq> [] \<and> length t \<le> 2048 | _ \<Rightarrow> False)
                    Invalid_rationale) (\<lambda>_.
              Inr (s\<lparr>pending := None,
                     consecutive := if decision = JStr (u ''no_progress'') then consecutive s + 1 else 0,
                     accepted := decision = JStr (u ''accepted'')\<rparr>)))))))"

definition apply_record :: "policy \<Rightarrow> ledger \<Rightarrow> json \<Rightarrow> (heartbeat_error, ledger) result" where
  "apply_record p s v =
     (case v of JObj kvs \<Rightarrow>
        (let kind = member kvs ''type'' in
         if kind = Some (JStr (u ''reserve'')) then reserve p s v
         else if kind = Some (JStr (u ''result'')) then record_result s v
         else if kind = Some (JStr (u ''review'')) then review s v
         else Inl Unsupported_event)
      | _ \<Rightarrow> Inl Invalid_record)"

datatype status = Accepted | No_progress_stop | Reconciliation_required | Awaiting_controller_review | Ready

definition status_of :: "policy \<Rightarrow> ledger \<Rightarrow> status" where
  "status_of p s =
     (if accepted s then Accepted
      else if no_progress_limit p \<le> consecutive s then No_progress_stop
      else case pending s of
          Some q \<Rightarrow> if outcome q = None then Reconciliation_required else Awaiting_controller_review
        | None \<Rightarrow> Ready)"

record summary =
  task_status :: status
  total_charged :: usage
  remaining :: usage
  consecutive_no_progress :: int
  unresolved :: "reservation option"

definition replay :: "policy \<Rightarrow> json list \<Rightarrow> (heartbeat_error, ledger) result" where
  "replay p records =
     rbind (require (length records \<le> 3072) Record_limit) (\<lambda>_. rfold (apply_record p) empty_ledger records)"

definition summarize :: "json \<Rightarrow> json list \<Rightarrow> (heartbeat_error, summary) result" where
  "summarize pol records =
     rbind (validate_policy pol) (\<lambda>p.
     rbind (replay p records) (\<lambda>s.
       Inr \<lparr>task_status = status_of p s, total_charged = charged s, remaining = usage_minus (budget p) (charged s),
            consecutive_no_progress = consecutive s, unresolved = pending s\<rparr>))"

definition append_event :: "json \<Rightarrow> json list \<Rightarrow> json \<Rightarrow> (heartbeat_error, json list \<times> summary) result" where
  "append_event pol records event =
     (let candidate = records @ [event] in rbind (summarize pol candidate) (\<lambda>s. Inr (candidate, s)))"


section \<open>The replay as a run\<close>

definition is_reserve :: "json \<Rightarrow> bool" where
  "is_reserve v \<longleftrightarrow> (case v of JObj kvs \<Rightarrow> member kvs ''type'' = Some (JStr (u ''reserve'')) | _ \<Rightarrow> False)"

definition reserved :: "json \<Rightarrow> usage option" where
  "reserved v = (case v of JObj kvs \<Rightarrow>
     (case envelope (item_at kvs ''run'') (item_at kvs ''compact'') of Inr a \<Rightarrow> Some a | Inl e \<Rightarrow> None) | _ \<Rightarrow> None)"

text \<open>What is left of the current attempt: a reservation, its result and its review.\<close>

definition phase :: "ledger \<Rightarrow> nat" where
  "phase s = (case pending s of None \<Rightarrow> 0 | Some q \<Rightarrow> if outcome q = None then 2 else 1)"

definition ledger_ok :: "policy \<Rightarrow> ledger \<Rightarrow> bool" where
  "ledger_ok p s \<longleftrightarrow> usage_within no_usage (charged s) \<and> usage_within (charged s) (budget p) \<and>
     distinct (operations s) \<and> attempts (charged s) = int (length (operations s)) \<and>
     0 \<le> consecutive s \<and> consecutive s \<le> no_progress_limit p \<and>
     (pending s \<noteq> None \<longrightarrow> \<not> accepted s \<and> consecutive s < no_progress_limit p) \<and> (accepted s \<longrightarrow> consecutive s = 0)"

lemma integer_in_Inr [result_simps]: "integer_in v low high = Inr i \<longleftrightarrow> v = JInt i \<and> low \<le> i \<and> i \<le> high"
  by (auto simp: integer_in_def split: json.splits)

lemma envelope_bounds:
  assumes "envelope r c = Inr a"
  shows "attempts a = 1" "usage_within no_usage a"
  using assms
  by (auto simp: envelope_def Let_def result_simps usage_within_def no_usage_def split: if_splits)

lemma apply_record_cases:
  assumes "apply_record p s v = Inr s'"
  obtains (reserve) op a where "is_reserve v" "reserved v = Some a" "pending s = None" "\<not> accepted s"
      "consecutive s < no_progress_limit p" "op \<notin> set (operations s)" "attempts a = 1" "usage_within no_usage a"
      "usage_within (usage_plus (charged s) a) (budget p)"
      "s' = s\<lparr>charged := usage_plus (charged s) a, operations := operations s @ [op],
              pending := Some \<lparr>operation = op, outcome = None\<rparr>\<rparr>"
  | (result) q d where "\<not> is_reserve v" "pending s = Some q" "outcome q = None" "s' = s\<lparr>pending := Some (q\<lparr>outcome := Some d\<rparr>)\<rparr>"
  | (review) q d n acc where "\<not> is_reserve v" "pending s = Some q" "outcome q = Some d"
      "n = consecutive s + 1 \<and> \<not> acc \<or> n = 0"
      "s' = s\<lparr>pending := None, consecutive := n, accepted := acc\<rparr>"
proof -
  from assms obtain kvs where v: "v = JObj kvs" by (auto simp: apply_record_def split: json.splits)
  let ?kind = "member kvs ''type''"
  have ne: "u ''reserve'' \<noteq> u ''result''" "u ''reserve'' \<noteq> u ''review''" "u ''no_progress'' \<noteq> u ''accepted''"
    by (simp_all add: u_def)
  consider (a) "?kind = Some (JStr (u ''reserve''))" "reserve p s v = Inr s'"
    | (b) "\<not> is_reserve v" "record_result s v = Inr s'" | (c) "\<not> is_reserve v" "review s v = Inr s'"
    using assms ne by (auto simp: apply_record_def v Let_def is_reserve_def split: if_splits)
  then show thesis
  proof cases
    case a
    then obtain op al where r: "envelope (item_at kvs ''run'') (item_at kvs ''compact'') = Inr al"
      "pending s = None" "\<not> accepted s" "consecutive s < no_progress_limit p" "op \<notin> set (operations s)"
      "usage_within (usage_plus (charged s) al) (budget p)"
      "s' = s\<lparr>charged := usage_plus (charged s) al, operations := operations s @ [op],
              pending := Some \<lparr>operation = op, outcome = None\<rparr>\<rparr>"
      by (auto simp: reserve_def v keys_of_def result_simps split: if_splits)
    moreover have "is_reserve v" "reserved v = Some al" using a r(1) by (simp_all add: is_reserve_def reserved_def v)
    ultimately show thesis using reserve envelope_bounds [OF r(1)] by blast
  next
    case b
    then show thesis using result by (auto simp: record_result_def result_simps split: option.splits if_splits)
  next
    case c
    then obtain q d dec where q: "pending s = Some q" "outcome q = Some d"
      "s' = s\<lparr>pending := None, consecutive := if dec = JStr (u ''no_progress'') then consecutive s + 1 else 0,
              accepted := dec = JStr (u ''accepted'')\<rparr>"
      by (cases "pending s"; cases "outcome (the (pending s))") (auto simp: review_def Let_def result_simps)
    show thesis by (rule review [OF c(1) q(1,2) _ q(3)]) (use ne(3) in auto)
  qed
qed

lemma usage_plus_simps [simp]: "attempts (usage_plus a b) = attempts a + attempts b"
  by (simp add: usage_plus_def)

lemma usage_within_plus: "usage_within no_usage a \<Longrightarrow> usage_within no_usage b \<Longrightarrow> usage_within no_usage (usage_plus a b)"
  by (simp add: usage_within_def usage_plus_def no_usage_def)

lemma apply_record_ok: "ledger_ok p s \<Longrightarrow> apply_record p s v = Inr s' \<Longrightarrow> ledger_ok p s'"
proof -
  assume ok: "ledger_ok p s" and "apply_record p s v = Inr s'"
  from this(2) show ?thesis
    by (cases rule: apply_record_cases) (use ok in \<open>auto simp: ledger_ok_def usage_within_plus\<close>)
qed

interpretation heartbeat: stepped "apply_record p" "ledger_ok p"
  by unfold_locales (rule apply_record_ok)

lemma validate_policy_bounds:
  assumes "validate_policy v = Inr p"
  shows "ledger_ok p empty_ledger" "attempts (budget p) \<le> 1024" "usage_within (budget p) caps"
  using assms
  by (auto simp: validate_policy_def result_simps ledger_ok_def empty_ledger_def no_usage_def usage_within_def caps_def)

lemma replay_run: "replay p records = Inr s \<Longrightarrow> rfold (apply_record p) empty_ledger records = Inr s"
  by (simp add: replay_def result_simps)

text \<open>Three records an attempt: each accepted record uses up one step of the current attempt.\<close>

lemma run_length:
  "rfold (apply_record p) s records = Inr s' \<Longrightarrow>
     length records + 3 * length (operations s) + phase s' = 3 * length (operations s') + phase s"
proof (induction records arbitrary: s)
  case (Cons v records)
  then obtain t where t: "apply_record p s v = Inr t" "rfold (apply_record p) t records = Inr s'"
    by (auto simp: result_simps)
  from t(1) have "Suc (3 * length (operations s) + phase t) = 3 * length (operations t) + phase s"
    by (cases rule: apply_record_cases) (auto simp: phase_def)
  with Cons.IH [OF t(2)] show ?case by simp
qed simp

lemma run_charges:
  "rfold (apply_record p) s records = Inr s' \<Longrightarrow>
     charged s' = fold (\<lambda>a c. usage_plus c a) (List.map_filter (\<lambda>v. if is_reserve v then reserved v else None) records) (charged s)"
proof (induction records arbitrary: s)
  case (Cons v records)
  then obtain t where t: "apply_record p s v = Inr t" "rfold (apply_record p) t records = Inr s'"
    by (auto simp: result_simps)
  from t(1) Cons.IH [OF t(2)] show ?case
    by (cases rule: apply_record_cases) (auto simp: List.map_filter_simps)
qed (simp add: List.map_filter_simps)



section \<open>Properties\<close>

definition reservations :: "json list \<Rightarrow> usage list" where
  "reservations records = List.map_filter (\<lambda>v. if is_reserve v then reserved v else None) records"

lemma summarize_run:
  assumes "summarize pol records = Inr s"
  obtains p l where "validate_policy pol = Inr p" "rfold (apply_record p) empty_ledger records = Inr l" "ledger_ok p l"
    "length records \<le> 3072"
    "s = \<lparr>task_status = status_of p l, total_charged = charged l, remaining = usage_minus (budget p) (charged l),
          consecutive_no_progress = consecutive l, unresolved = pending l\<rparr>"
proof -
  from assms obtain p l where pl: "validate_policy pol = Inr p" "replay p records = Inr l"
    "s = \<lparr>task_status = status_of p l, total_charged = charged l, remaining = usage_minus (budget p) (charged l),
          consecutive_no_progress = consecutive l, unresolved = pending l\<rparr>"
    by (auto simp: summarize_def result_simps)
  have "ledger_ok p l" by (rule heartbeat.run_inv [OF validate_policy_bounds(1) [OF pl(1)] replay_run [OF pl(2)]])
  with that pl replay_run [OF pl(2)] show thesis by (auto simp: replay_def result_simps)
qed

text \<open>C21. Whatever history is accepted, the task has been charged exactly the sum of its reservations,
  in full and in every dimension; that sum never exceeds the budget, what remains is never
  negative, and the attempts charged are the number of reservations.\<close>

theorem heartbeat_within_budget:
  assumes "summarize pol records = Inr s"
  shows "total_charged s = fold (\<lambda>a c. usage_plus c a) (reservations records) no_usage \<and>
    usage_within no_usage (remaining s) \<and> usage_within (total_charged s) caps \<and>
    (\<exists>p. validate_policy pol = Inr p \<and> remaining s = usage_minus (budget p) (total_charged s))"
proof -
  from assms obtain p l where pl: "validate_policy pol = Inr p" "rfold (apply_record p) empty_ledger records = Inr l"
    "ledger_ok p l" "s = \<lparr>task_status = status_of p l, total_charged = charged l, remaining = usage_minus (budget p) (charged l),
          consecutive_no_progress = consecutive l, unresolved = pending l\<rparr>"
    by (elim summarize_run)
  have "charged l = fold (\<lambda>a c. usage_plus c a) (reservations records) no_usage"
    using run_charges [OF pl(2)] by (simp add: reservations_def empty_ledger_def)
  moreover have "usage_within no_usage (usage_minus (budget p) (charged l))" "usage_within (charged l) caps"
    using pl(3) validate_policy_bounds(3) [OF pl(1)]
    by (auto simp: ledger_ok_def usage_within_def usage_minus_def no_usage_def)
  ultimately show ?thesis using pl(1) by (simp add: pl(4))
qed

text \<open>C22. A task ends: an accepted history is at most three records for each attempt its policy
  allows, so it is never the record limit of the replay that refuses the next event, and a history
  of that length takes no further event.\<close>

theorem heartbeat_terminates:
  assumes "summarize pol records = Inr s"
  shows "\<exists>p. validate_policy pol = Inr p \<and> int (length records) \<le> 3 * attempts (budget p) \<and> length records \<le> 3072 \<and>
    (int (length records) = 3 * attempts (budget p) \<longrightarrow> (\<forall>event. \<exists>e. append_event pol records event = Inl e))"
proof -
  have bound: "\<exists>p. validate_policy pol = Inr p \<and> int (length rs) \<le> 3 * attempts (budget p)" if "summarize pol rs = Inr t" for rs t
  proof -
    from that obtain p l where pl: "validate_policy pol = Inr p" "rfold (apply_record p) empty_ledger rs = Inr l" "ledger_ok p l"
      by (elim summarize_run)
    have "length rs \<le> 3 * length (operations l)"
      using run_length [OF pl(2)] by (simp add: empty_ledger_def phase_def)
    moreover have "int (length (operations l)) \<le> attempts (budget p)" using pl(3) by (simp add: ledger_ok_def usage_within_def)
    ultimately show ?thesis using pl(1) by (intro exI [of _ p]) linarith
  qed
  from bound [OF assms] obtain p where p: "validate_policy pol = Inr p" "int (length records) \<le> 3 * attempts (budget p)" by blast
  have "\<exists>e. append_event pol records event = Inl e" if "int (length records) = 3 * attempts (budget p)" for event
  proof (cases "summarize pol (records @ [event])")
    case (Inr t)
    with bound [OF Inr] that p(1) show ?thesis by simp
  qed (simp add: append_event_def)
  moreover have "length records \<le> 3072" using p(2) validate_policy_bounds(2) [OF p(1)] by linarith
  ultimately show ?thesis using p by blast
qed

definition record_type :: "json \<Rightarrow> json option" where
  "record_type v = (case v of JObj kvs \<Rightarrow> member kvs ''type'' | _ \<Rightarrow> None)"

definition due :: "status \<Rightarrow> json option" where
  "due st = (case st of Accepted \<Rightarrow> None | No_progress_stop \<Rightarrow> None | Ready \<Rightarrow> Some (JStr (u ''reserve''))
     | Reconciliation_required \<Rightarrow> Some (JStr (u ''result'')) | Awaiting_controller_review \<Rightarrow> Some (JStr (u ''review'')))"

lemma apply_record_due:
  assumes "ledger_ok p s" and "apply_record p s v = Inr s'"
  shows "due (status_of p s) \<noteq> None \<and> record_type v = due (status_of p s)"
proof -
  have ne: "u ''reserve'' \<noteq> u ''result''" "u ''reserve'' \<noteq> u ''review''" "u ''result'' \<noteq> u ''review''" by (simp_all add: u_def)
  from assms(2) obtain kvs where v: "v = JObj kvs" by (auto simp: apply_record_def split: json.splits)
  consider (a) "member kvs ''type'' = Some (JStr (u ''reserve''))" "reserve p s v = Inr s'"
    | (b) "member kvs ''type'' = Some (JStr (u ''result''))" "record_result s v = Inr s'"
    | (c) "member kvs ''type'' = Some (JStr (u ''review''))" "review s v = Inr s'"
    using assms(2) by (auto simp: apply_record_def v Let_def split: if_splits)
  then show ?thesis
  proof cases
    case a
    then show ?thesis by (auto simp: reserve_def result_simps due_def status_of_def record_type_def v)
  next
    case b
    then obtain q where "pending s = Some q" "outcome q = None"
      by (cases "pending s") (auto simp: record_result_def result_simps split: if_splits)
    with b assms(1) show ?thesis by (auto simp: due_def status_of_def record_type_def v ledger_ok_def)
  next
    case c
    then obtain q d where "pending s = Some q" "outcome q = Some d"
      by (cases "pending s"; cases "outcome (the (pending s))") (auto simp: review_def result_simps)
    with c assms(1) show ?thesis by (auto simp: due_def status_of_def record_type_def v ledger_ok_def)
  qed
qed

text \<open>C23. Acceptance and the no-progress stop are final: no event whatever can be appended to such a
  history. Otherwise the status says which record is due, and no other kind is taken: a
  reservation when ready, a result when one is outstanding, then its review.\<close>

theorem heartbeat_protocol:
  assumes "summarize pol records = Inr s" and "append_event pol records event = Inr (records', s')"
  shows "task_status s \<notin> {Accepted, No_progress_stop} \<and> record_type event = due (task_status s) \<and> records' = records @ [event]"
proof -
  from assms(1) obtain p l where pl: "validate_policy pol = Inr p" "rfold (apply_record p) empty_ledger records = Inr l" "ledger_ok p l"
    "s = \<lparr>task_status = status_of p l, total_charged = charged l, remaining = usage_minus (budget p) (charged l),
          consecutive_no_progress = consecutive l, unresolved = pending l\<rparr>"
    by (elim summarize_run)
  from assms(2) have r: "summarize pol (records @ [event]) = Inr s'" "records' = records @ [event]"
    by (auto simp: append_event_def Let_def result_simps)
  from r(1) obtain p' l' where "validate_policy pol = Inr p'" "rfold (apply_record p') empty_ledger (records @ [event]) = Inr l'"
    by (elim summarize_run)
  with pl(1,2) have "apply_record p l event = Inr l'" by (simp add: rfold_append result_simps)
  with apply_record_due [OF pl(3)] r(2) show ?thesis by (auto simp: pl(4) due_def)
qed

section \<open>A sample task\<close>

definition sample_policy :: json where
  "sample_policy = JObj [(u ''schema_version'', JInt 1), (u ''task'', JStr (u ''t-1'')), (u ''revision'', JStr (replicate 64 97)),
     (u ''criterion'', JStr (replicate 64 98)),
     (u ''budget'', JObj [(u ''attempts'', JInt 2), (u ''requests'', JInt 9), (u ''tools'', JInt 0), (u ''tokens'', JInt 100),
                         (u ''seconds'', JInt 60), (u ''compactions'', JInt 1)]),
     (u ''no_progress_limit'', JInt 1)]"

definition sample_reserve :: "string \<Rightarrow> json" where
  "sample_reserve op = JObj [(u ''type'', JStr (u ''reserve'')), (u ''operation'', JStr (u op)),
     (u ''run'', JObj [(u ''requests'', JInt 3), (u ''tools'', JInt 0), (u ''tokens'', JInt 40), (u ''seconds'', JInt 20)]),
     (u ''compact'', JObj [(u ''tokens'', JInt 5), (u ''seconds'', JInt 1)])]"

definition sample_result :: "string \<Rightarrow> json" where
  "sample_result op = JObj [(u ''type'', JStr (u ''result'')), (u ''operation'', JStr (u op)), (u ''result'', JStr (replicate 64 99))]"

definition sample_records :: "json list" where
  "sample_records = [sample_reserve ''a'']"

definition sample_summary :: "status \<Rightarrow> reservation \<Rightarrow> summary" where
  "sample_summary st r = \<lparr>task_status = st,
     total_charged = \<lparr>attempts = 1, requests = 4, tools = 0, tokens = 45, seconds = 21, compactions = 1\<rparr>,
     remaining = \<lparr>attempts = 1, requests = 5, tools = 0, tokens = 55, seconds = 39, compactions = 0\<rparr>,
     consecutive_no_progress = 0, unresolved = Some r\<rparr>"

lemma sample_summarize:
  "summarize sample_policy sample_records = Inr (sample_summary Reconciliation_required \<lparr>operation = u ''a'', outcome = None\<rparr>)"
  by code_simp

lemma sample_append:
  "append_event sample_policy sample_records (sample_result ''a'') =
     Inr (sample_records @ [sample_result ''a''],
          sample_summary Awaiting_controller_review \<lparr>operation = u ''a'', outcome = Some (replicate 64 99)\<rparr>)"
  by code_simp

theorem heartbeat_within_budget_witness:
  "\<lparr>attempts = 1, requests = 4, tools = 0, tokens = 45, seconds = 21, compactions = 1\<rparr> =
     fold (\<lambda>a c. usage_plus c a) (reservations sample_records) no_usage"
  using heartbeat_within_budget [OF sample_summarize] by (simp add: sample_summary_def)

theorem heartbeat_terminates_witness:
  "\<exists>p. validate_policy sample_policy = Inr p \<and> int (length sample_records) \<le> 3 * attempts (budget p)"
  using heartbeat_terminates [OF sample_summarize] by blast

theorem heartbeat_protocol_witness:
  "record_type (sample_result ''a'') = due Reconciliation_required"
  using heartbeat_protocol [OF sample_summarize sample_append] by (simp add: sample_summary_def)

end
