(* ===== verification/Contracts.thy ===== *)
theory Contracts
  imports Container_Format Python
begin

text \<open>
  The OpenPGP contracts (\<open>src/ls/core/openpgp/contracts.py\<close>): fingerprint sets, envelope participants, key
  profiles with calendar expiry, capabilities and local signer trust, with the key facts of
  \<open>key_records.py\<close> they are applied to. The checks of Python types are discharged by the types;
  Unicode's upper casing is a parameter \<open>to_upper\<close>.
\<close>

datatype contract_code =
    INVALID_FINGERPRINT | DUPLICATE_FINGERPRINT | EMPTY_SIGNER_SET | EMPTY_RECIPIENT_SET | SIGNER_SET_MISMATCH |
    RECIPIENT_SET_MISMATCH | INVALID_PROFILE | INVALID_KEY_DATES | KEY_EXPIRY_MISMATCH | INVALID_HEADER |
    UNTRUSTED_SIGNER | INVALID_CAPABILITY | MISSING_CAPABILITY | INVALID_POLICY

section \<open>Participants\<close>

definition fingerprint_of :: "pytext \<Rightarrow> (contract_code, pytext) result" where
  "fingerprint_of v = (case normalize_fingerprint v of None \<Rightarrow> Inl INVALID_FINGERPRINT | Some f \<Rightarrow> Inr f)"

definition fingerprint_set :: "pytext list \<Rightarrow> contract_code option \<Rightarrow> (contract_code, pytext set) result" where
  "fingerprint_set items empty_code =
     (case (items, empty_code) of
        ([], Some code) \<Rightarrow> Inl code
      | _ \<Rightarrow> rbind (rmap fingerprint_of items) (\<lambda>normalized.
               if distinct normalized then Inr (set normalized) else Inl DUPLICATE_FINGERPRINT))"

definition optional_fingerprint :: "pytext option \<Rightarrow> (contract_code, pytext option) result" where
  "optional_fingerprint v = (case v of None \<Rightarrow> Inr None | Some s \<Rightarrow> rbind (fingerprint_of s) (\<lambda>f. Inr (Some f)))"

record envelope_policy =
  expected_signers :: "pytext set"
  expected_recipients :: "pytext set"
  owner_fingerprint :: "pytext option"
  publisher_fingerprint :: "pytext option"

definition envelope_policy_new ::
    "pytext list \<Rightarrow> pytext list \<Rightarrow> pytext option \<Rightarrow> pytext option \<Rightarrow> (contract_code, envelope_policy) result" where
  "envelope_policy_new signers recipients owner publisher =
     rbind (fingerprint_set signers (Some EMPTY_SIGNER_SET)) (\<lambda>s.
     rbind (fingerprint_set recipients (Some EMPTY_RECIPIENT_SET)) (\<lambda>r.
     rbind (optional_fingerprint owner) (\<lambda>w.
     rbind (optional_fingerprint publisher) (\<lambda>p.
       Inr \<lparr>expected_signers = s, expected_recipients = r, owner_fingerprint = w, publisher_fingerprint = p\<rparr>))))"

definition validate_envelope_participants ::
    "pytext list \<Rightarrow> pytext list \<Rightarrow> envelope_policy \<Rightarrow> (contract_code, unit) result" where
  "validate_envelope_participants signers recipients pol =
     rbind (fingerprint_set signers None) (\<lambda>s.
     rbind (fingerprint_set recipients None) (\<lambda>r.
     rbind (require (s = expected_signers pol) SIGNER_SET_MISMATCH) (\<lambda>_.
       require (r = expected_recipients pol) RECIPIENT_SET_MISMATCH)))"

section \<open>Dates\<close>

record pydate =
  year :: nat
  month :: nat
  day :: nat

definition leap_year :: "nat \<Rightarrow> bool" where
  "leap_year y \<longleftrightarrow> y mod 4 = 0 \<and> (y mod 100 \<noteq> 0 \<or> y mod 400 = 0)"

definition month_days :: "nat \<Rightarrow> nat \<Rightarrow> nat" where
  "month_days y m = (if m = 2 then (if leap_year y then 29 else 28) else if m \<in> {4, 6, 9, 11} then 30 else 31)"

definition valid_date :: "pydate \<Rightarrow> bool" where
  "valid_date d \<longleftrightarrow> 1 \<le> year d \<and> year d \<le> 9999 \<and> 1 \<le> month d \<and> month d \<le> 12 \<and> 1 \<le> day d \<and>
     day d \<le> month_days (year d) (month d)"

definition date_less :: "pydate \<Rightarrow> pydate \<Rightarrow> bool" where
  "date_less a b \<longleftrightarrow> year a < year b \<or> year a = year b \<and> (month a < month b \<or> month a = month b \<and> day a < day b)"

definition date_le :: "pydate \<Rightarrow> pydate \<Rightarrow> bool" where
  "date_le a b \<longleftrightarrow> date_less a b \<or> a = b"

definition expected_expiry_date :: "pydate \<Rightarrow> nat \<Rightarrow> (contract_code, pydate) result" where
  "expected_expiry_date created years =
     (if years < 1 then Inl INVALID_KEY_DATES
      else
        (let target_year = year created + years in
         if 9999 < target_year then Inl INVALID_KEY_DATES
         else Inr \<lparr>year = target_year, month = month created, day = min (day created) (month_days target_year (month created))\<rparr>))"

section \<open>Key profiles\<close>

record key_profile =
  profile_algorithm :: pytext
  profile_bits :: nat
  validity_years :: nat

definition key_profile_new ::
    "(pytext \<Rightarrow> pytext) \<Rightarrow> pytext \<Rightarrow> nat \<Rightarrow> nat \<Rightarrow> (contract_code, key_profile) result" where
  "key_profile_new to_upper algorithm bits years =
     (if strip algorithm = [] \<or> bits < 1 \<or> years < 1 then Inl INVALID_PROFILE
      else Inr \<lparr>profile_algorithm = to_upper (strip algorithm), profile_bits = bits, validity_years = years\<rparr>)"

definition rsa_4096_two_year_profile :: key_profile where
  "rsa_4096_two_year_profile = \<lparr>profile_algorithm = u ''RSA'', profile_bits = 4096, validity_years = 2\<rparr>"

definition validate_key_profile ::
    "(pytext \<Rightarrow> pytext) \<Rightarrow> pytext \<Rightarrow> nat \<Rightarrow> pydate \<Rightarrow> pydate \<Rightarrow> key_profile \<Rightarrow> (contract_code, unit) result" where
  "validate_key_profile to_upper algorithm bits created expires p =
     rbind (require (to_upper (strip algorithm) = profile_algorithm p \<and> bits = profile_bits p) INVALID_PROFILE) (\<lambda>_.
     rbind (require (\<not> date_le expires created) INVALID_KEY_DATES) (\<lambda>_.
     rbind (expected_expiry_date created (validity_years p)) (\<lambda>d.
       require (expires = d) KEY_EXPIRY_MISMATCH)))"

section \<open>Capabilities\<close>

datatype key_capability = SIGN | ENCRYPT | CERTIFY | AUTHENTICATE

text \<open>A reported capability is a member of the enumeration or its value.\<close>

definition capability_of :: "pytext \<Rightarrow> key_capability option" where
  "capability_of s = map_of [(u ''sign'', SIGN), (u ''encrypt'', ENCRYPT), (u ''certify'', CERTIFY), (u ''authenticate'', AUTHENTICATE)] s"

definition capability_set :: "pytext list \<Rightarrow> (contract_code, key_capability set) result" where
  "capability_set values =
     (case all_some (map capability_of values) of None \<Rightarrow> Inl INVALID_CAPABILITY | Some cs \<Rightarrow> Inr (set cs))"

definition require_capabilities :: "pytext list \<Rightarrow> pytext list \<Rightarrow> (contract_code, key_capability set) result" where
  "require_capabilities actual needed =
     rbind (capability_set actual) (\<lambda>a.
     rbind (capability_set needed) (\<lambda>n.
       if n \<subseteq> a then Inr a else Inl MISSING_CAPABILITY))"

section \<open>Local trust\<close>

record trust_assessment =
  trusted :: bool
  discovery_mismatch :: bool

record local_trust =
  fingerprints :: "pytext set"

definition local_trust_new :: "pytext list \<Rightarrow> (contract_code, local_trust) result" where
  "local_trust_new values = rbind (fingerprint_set values None) (\<lambda>f. Inr \<lparr>fingerprints = f\<rparr>)"

definition assess_signer :: "local_trust \<Rightarrow> pytext \<Rightarrow> pytext option \<Rightarrow> (contract_code, trust_assessment) result" where
  "assess_signer trust signer discovered =
     rbind (fingerprint_of signer) (\<lambda>f.
       Inr \<lparr>trusted = f \<in> fingerprints trust,
            discovery_mismatch = (case discovered of None \<Rightarrow> False | Some v \<Rightarrow> fingerprint_of v \<noteq> Inr f)\<rparr>)"

definition require_signer :: "local_trust \<Rightarrow> pytext \<Rightarrow> pytext option \<Rightarrow> (contract_code, trust_assessment) result" where
  "require_signer trust signer discovered =
     rbind (assess_signer trust signer discovered) (\<lambda>a. if trusted a then Inr a else Inl UNTRUSTED_SIGNER)"

section \<open>Inspected keys\<close>

record key_record =
  fingerprint :: pytext
  algorithm :: pytext
  key_bits :: nat
  created_on :: pydate
  expires_on :: "pydate option"
  is_primary :: bool
  expires_epoch :: "int option"
  revoked :: bool
  expired :: bool
  disabled :: bool
  direct_capabilities :: "key_capability list"

record key_inspection =
  primary :: key_record
  subkeys :: "key_record list"

definition key_records :: "key_inspection \<Rightarrow> key_record list" where
  "key_records i = primary i # subkeys i"

definition key_live :: "key_record \<Rightarrow> bool" where
  "key_live r \<longleftrightarrow> \<not> revoked r \<and> \<not> expired r \<and> \<not> disabled r"

definition inspected_capabilities :: "key_inspection \<Rightarrow> key_capability set" where
  "inspected_capabilities i = (\<Union>r \<in> set (filter key_live (key_records i)). set (direct_capabilities r))"

definition signing_fingerprints :: "key_inspection \<Rightarrow> pytext list" where
  "signing_fingerprints i = map fingerprint (filter (\<lambda>r. SIGN \<in> set (direct_capabilities r) \<and> key_live r) (key_records i))"

definition encryption_fingerprints :: "key_inspection \<Rightarrow> pytext list" where
  "encryption_fingerprints i = map fingerprint (filter (\<lambda>r. ENCRYPT \<in> set (direct_capabilities r) \<and> key_live r) (key_records i))"

end
