(* ===== verification/Transition.thy ===== *)
theory Transition
  imports Contracts Text_Grammars Json_Fields "HOL-Library.Code_Target_Nat" "HOL-Library.Code_Target_Int"
begin

text \<open>
  The validation rules of owner transitions (\<open>src/ls/core/openpgp/transition_contracts.py\<close>). Records are
  parsed JSON; Unicode's NFC and upper casing are parameters.
\<close>

datatype transition_code =
    INVALID_INPUT | INVALID_CERTIFICATE | UNTRUSTED_OLD_OWNER | INVALID_SIGNATURE | INVALID_AUTHORIZATION | RECORD_MISMATCH |
    REPLAY | UNSAFE_TIME | UNSAFE_CAPABILITY | UNSAFE_EXPIRY | PASSPHRASE_UNAVAILABLE | DELIVERY_FAILED | APPROVAL_FAILED

text \<open>A \<open>TransitionError\<close>, or a contract error that is not converted.\<close>

datatype transition_error = Transition_error transition_code | Contract_error contract_code

definition invalid_unless :: "bool \<Rightarrow> (transition_error, unit) result" where
  "invalid_unless b = require b (Transition_error INVALID_INPUT)"

section \<open>Fields\<close>

definition dash_free :: "pytext \<Rightarrow> pytext" where
  "dash_free s = filter (\<lambda>c. c \<noteq> 45) s"

text \<open>
  \<open>uuid.UUID(value)\<close> followed by \<open>str(parsed) != value\<close>: 32 hexadecimal digits, printed in lower
  case as 8-4-4-4-12. The variant is the top bits of the ninth byte, the version a digit.
\<close>

definition uuid_text :: "pytext \<Rightarrow> pytext" where
  "uuid_text h = take 8 h @ [45] @ take 4 (drop 8 h) @ [45] @ take 4 (drop 12 h) @ [45] @ take 4 (drop 16 h) @ [45] @ drop 20 h"

definition transition_id :: "json \<Rightarrow> (transition_error, pytext) result" where
  "transition_id v =
     (case v of JStr s \<Rightarrow>
        let h = dash_free s in
        if length s = 36 \<and> hex_text 32 h \<and> uuid_text h = s \<and> h ! 16 \<in> {56, 57, 97, 98} \<and> h ! 12 \<in> {52, 55}
        then Inr s else Inl (Transition_error INVALID_INPUT)
      | _ \<Rightarrow> Inl (Transition_error INVALID_INPUT))"

definition url_char :: "nat \<Rightarrow> bool" where
  "url_char c \<longleftrightarrow> alnum_code c \<or> c = 95 \<or> c = 45"

definition from_url :: "nat \<Rightarrow> nat" where
  "from_url c = (if c = 45 then 43 else if c = 95 then 47 else c)"

definition nonce :: "json \<Rightarrow> (transition_error, pytext) result" where
  "nonce v =
     (case v of JStr s \<Rightarrow>
        if length s = 43 \<and> list_all url_char s then
          (case b64decode (map from_url s @ [61]) of
             Some decoded \<Rightarrow>
               if length decoded = 32 \<and> b64encode decoded = map from_url s @ [61] then Inr s
               else Inl (Transition_error INVALID_INPUT)
           | None \<Rightarrow> Inl (Transition_error INVALID_INPUT))
        else Inl (Transition_error INVALID_INPUT)
      | _ \<Rightarrow> Inl (Transition_error INVALID_INPUT))"

definition int_between :: "int \<Rightarrow> int \<Rightarrow> json \<Rightarrow> bool" where
  "int_between low high v = (case v of JInt i \<Rightarrow> low \<le> i \<and> i \<le> high | _ \<Rightarrow> False)"

definition validate_epoch :: "json \<Rightarrow> (transition_error, unit) result" where
  "validate_epoch v = invalid_unless (int_between 1 (2 ^ 63 - 1) v)"

definition validated_now :: "int \<Rightarrow> json \<Rightarrow> (transition_error, int) result" where
  "validated_now clock v =
     (case v of JNull \<Rightarrow> Inr clock
      | JInt i \<Rightarrow> if 0 \<le> i \<and> i \<le> 2 ^ 63 - 1 then Inr i else Inl (Transition_error INVALID_INPUT)
      | _ \<Rightarrow> Inl (Transition_error INVALID_INPUT))"

definition max_overlap_seconds :: int where "max_overlap_seconds = 90 * 24 * 60 * 60"
definition max_schedule_ahead_seconds :: int where "max_schedule_ahead_seconds = 365 * 24 * 60 * 60"

definition validate_time_fields :: "json \<Rightarrow> json \<Rightarrow> (transition_error, int \<times> int) result" where
  "validate_time_fields effective overlap =
     (case (effective, overlap) of
        (JInt e, JInt v) \<Rightarrow>
          if 0 \<le> e \<and> e \<le> 2 ^ 63 - 1 \<and> 0 \<le> v \<and> v \<le> max_overlap_seconds then Inr (e, v)
          else Inl (Transition_error UNSAFE_TIME)
      | _ \<Rightarrow> Inl (Transition_error UNSAFE_TIME))"

definition validate_time_window :: "json \<Rightarrow> json \<Rightarrow> int \<Rightarrow> bool \<Rightarrow> bool \<Rightarrow> (transition_error, int \<times> int) result" where
  "validate_time_window effective overlap now allow_historical allow_overlap =
     rbind (validate_time_fields effective overlap) (\<lambda>(e, v).
     if allow_overlap \<and> e + v < now \<and> \<not> allow_historical then Inl (Transition_error UNSAFE_TIME)
     else if \<not> allow_overlap \<and> e < now \<and> \<not> allow_historical then Inl (Transition_error UNSAFE_TIME)
     else if now + max_schedule_ahead_seconds < e then Inl (Transition_error UNSAFE_TIME)
     else Inr (e, v))"

definition bounded_text_ok :: "(pytext \<Rightarrow> pytext) \<Rightarrow> nat \<Rightarrow> pytext \<Rightarrow> bool" where
  "bounded_text_ok nfc max_bytes s \<longleftrightarrow> s \<noteq> [] \<and> strip s \<noteq> [] \<and> nfc s = s \<and> 0 \<notin> set s \<and>
     \<not> list_ex (\<lambda>c. (c < 32 \<or> 127 \<le> c \<and> c < 160) \<and> c \<noteq> 10 \<and> c \<noteq> 9) s \<and>
     (case utf8_encode s of None \<Rightarrow> False | Some bs \<Rightarrow> length bs \<le> max_bytes)"

definition validate_text :: "(pytext \<Rightarrow> pytext) \<Rightarrow> nat \<Rightarrow> json \<Rightarrow> (transition_error, pytext) result" where
  "validate_text nfc max_bytes v =
     (case v of JStr s \<Rightarrow> if bounded_text_ok nfc max_bytes s then Inr s else Inl (Transition_error INVALID_INPUT)
      | _ \<Rightarrow> Inl (Transition_error INVALID_INPUT))"

definition add_scope :: "(pytext \<Rightarrow> pytext) \<Rightarrow> pytext list \<times> nat \<Rightarrow> json \<Rightarrow> (transition_error, pytext list \<times> nat) result" where
  "add_scope nfc st v =
     (case st of (selected, amount) \<Rightarrow>
       rbind (validate_text nfc 256 v) (\<lambda>s.
       rbind (invalid_unless (\<not> list_ex whitespace s)) (\<lambda>_.
       let selected = selected @ [s];
           amount = amount + (case utf8_encode s of Some bs \<Rightarrow> length bs | None \<Rightarrow> 0) in
       rbind (invalid_unless (length selected \<le> 64 \<and> amount \<le> 2048)) (\<lambda>_. Inr (selected, amount)))))"

definition validate_scope :: "(pytext \<Rightarrow> pytext) \<Rightarrow> json \<Rightarrow> (transition_error, pytext list) result" where
  "validate_scope nfc v =
     (case v of JList items \<Rightarrow>
        rbind (rfold (add_scope nfc) ([], 0) items) (\<lambda>(selected, _).
        rbind (invalid_unless (selected \<noteq> [] \<and> distinct selected)) (\<lambda>_. Inr (sort selected)))
      | _ \<Rightarrow> Inl (Transition_error INVALID_INPUT))"

section \<open>Records\<close>

definition transition_fields :: "string list" where
  "transition_fields = [''format'', ''schema_version'', ''transition_id'', ''nonce'', ''old_owner'', ''proposed_owner'',
     ''effective_at'', ''overlap_seconds'', ''scope'', ''predecessor_fingerprint'', ''epoch'', ''reason'',
     ''revocation_instructions'', ''rollback_instructions'']"

definition get :: "(pytext \<times> json) list \<Rightarrow> string \<Rightarrow> json" where
  "get obj name = member_or obj name JNull"

text \<open>A fingerprint that is not one raises the contract's own error.\<close>

definition canonical_fingerprint :: "json \<Rightarrow> (transition_error, unit) result" where
  "canonical_fingerprint v =
     (case v of JStr s \<Rightarrow>
        (case normalize_fingerprint s of
           None \<Rightarrow> Inl (Contract_error INVALID_FINGERPRINT)
         | Some f \<Rightarrow> invalid_unless (f = s))
      | _ \<Rightarrow> Inl (Contract_error INVALID_FINGERPRINT))"

definition owner_entry :: "json \<Rightarrow> (transition_error, unit) result" where
  "owner_entry v =
     (case v of JObj obj \<Rightarrow>
        rbind (invalid_unless (set (map fst obj) = set (map u [''fingerprint'', ''certificate'', ''inspection'']))) (\<lambda>_.
        rbind (canonical_fingerprint (get obj ''fingerprint'')) (\<lambda>_.
          invalid_unless (as_str (get obj ''certificate'') \<noteq> None \<and>
            (case get obj ''inspection'' of JObj x \<Rightarrow> True | _ \<Rightarrow> False))))
      | _ \<Rightarrow> Inl (Transition_error INVALID_INPUT))"

definition validate_record_shape :: "(pytext \<Rightarrow> pytext) \<Rightarrow> json \<Rightarrow> (transition_error, unit) result" where
  "validate_record_shape nfc v =
     (case v of JObj r \<Rightarrow>
        rbind (invalid_unless (set (map fst r) = set (map u transition_fields) \<and>
                 get r ''format'' = JStr (u ''localsetup.openpgp-owner-transition'') \<and> get r ''schema_version'' = JInt 1)) (\<lambda>_.
        rbind (transition_id (get r ''transition_id'')) (\<lambda>_.
        rbind (nonce (get r ''nonce'')) (\<lambda>_.
        rbind (validate_epoch (get r ''epoch'')) (\<lambda>_.
        rbind (validate_text nfc 4096 (get r ''reason'')) (\<lambda>_.
        rbind (validate_text nfc 4096 (get r ''revocation_instructions'')) (\<lambda>_.
        rbind (validate_text nfc 4096 (get r ''rollback_instructions'')) (\<lambda>_.
        rbind (validate_time_fields (get r ''effective_at'') (get r ''overlap_seconds'')) (\<lambda>_.
        rbind (canonical_fingerprint (get r ''predecessor_fingerprint'')) (\<lambda>_.
        rbind (validate_scope nfc (get r ''scope'')) (\<lambda>scope.
        rbind (invalid_unless (get r ''scope'' = JList (map JStr scope))) (\<lambda>_.
        rbind (owner_entry (get r ''old_owner'')) (\<lambda>_.
          owner_entry (get r ''proposed_owner'')))))))))))))
      | _ \<Rightarrow> Inl (Transition_error INVALID_INPUT))"

definition transition_window_end :: "(pytext \<times> json) list \<Rightarrow> (transition_error, int) result" where
  "transition_window_end r =
     rbind (validate_time_fields (get r ''effective_at'') (get r ''overlap_seconds'')) (\<lambda>(e, v). Inr (e + v))"

section \<open>Replays and trust\<close>

definition bounded_history ::
    "(json \<Rightarrow> (transition_error, pytext) result) \<Rightarrow> json list \<Rightarrow> (transition_error, pytext set) result" where
  "bounded_history validate values =
     rbind (rfold (\<lambda>(i, seen) v.
              rbind (invalid_unless (i < 100000)) (\<lambda>_. rbind (validate v) (\<lambda>s. Inr (i + 1, insert s seen))))
            (0 :: nat, {}) values) (\<lambda>(_, seen). Inr seen)"

definition require_unseen :: "json \<Rightarrow> json \<Rightarrow> json list \<Rightarrow> json list \<Rightarrow> (transition_error, unit) result" where
  "require_unseen tid nce known_ids known_nonces =
     rbind (transition_id tid) (\<lambda>i.
     rbind (nonce nce) (\<lambda>n.
     rbind (bounded_history transition_id known_ids) (\<lambda>ids.
     rbind (bounded_history nonce known_nonces) (\<lambda>nonces.
       require (i \<notin> ids \<and> n \<notin> nonces) (Transition_error REPLAY)))))"

definition require_old_owner_trust :: "pytext \<Rightarrow> local_trust \<Rightarrow> (transition_error, unit) result" where
  "require_old_owner_trust f trust =
     (case require_signer trust f None of Inl e \<Rightarrow> Inl (Transition_error UNTRUSTED_OLD_OWNER) | Inr a \<Rightarrow> Inr ())"

definition validated_gpg_binary :: "pytext \<Rightarrow> (transition_error, pytext) result" where
  "validated_gpg_binary executable =
     (if executable = [] \<or> 0 \<in> set executable then Inl (Transition_error INVALID_INPUT) else Inr executable)"

section \<open>Calendar days of time stamps\<close>

definition days_before_month :: "nat \<Rightarrow> nat \<Rightarrow> nat" where
  "days_before_month y m = (\<Sum>k \<leftarrow> [1..<m]. month_days y k)"

text \<open>\<open>datetime\<close>'s conversion of a proleptic ordinal, whose 400-year cycles have 146097 days.\<close>

definition date_of_ordinal :: "nat \<Rightarrow> pydate" where
  "date_of_ordinal ord =
     (let n = ord - 1;
          n400 = n div 146097; n = n mod 146097;
          n100 = n div 36524; n = n mod 36524;
          n4 = n div 1461; n = n mod 1461;
          n1 = n div 365; n = n mod 365;
          y = n400 * 400 + 1 + n100 * 100 + n4 * 4 + n1
      in if n1 = 4 \<or> n100 = 4 then \<lparr>year = y - 1, month = 12, day = 31\<rparr>
         else
           (let m = (n + 50) div 32;
                m = (if n < days_before_month y m then m - 1 else m)
            in \<lparr>year = y, month = m, day = n - days_before_month y m + 1\<rparr>))"

definition utc_date :: "int \<Rightarrow> (transition_error, pydate) result" where
  "utc_date t =
     (if t < -62135596800 \<or> 253402300799 < t then Inl (Transition_error UNSAFE_TIME)
      else Inr (date_of_ordinal (nat (t div 86400 + 719163))))"

section \<open>Owners\<close>

definition expires_after :: "key_record \<Rightarrow> int \<Rightarrow> bool" where
  "expires_after r t \<longleftrightarrow> (case expires_epoch r of None \<Rightarrow> False | Some e \<Rightarrow> t < e)"

definition check_record_profile :: "(pytext \<Rightarrow> pytext) \<Rightarrow> key_record \<Rightarrow> (transition_error, unit) result" where
  "check_record_profile to_upper r =
     (case (expires_on r, expires_epoch r) of
        (Some d, Some e) \<Rightarrow>
          (case validate_key_profile to_upper (algorithm r) (key_bits r) (created_on r) d rsa_4096_two_year_profile of
             Inl code \<Rightarrow> Inl (Transition_error UNSAFE_EXPIRY)
           | Inr ok \<Rightarrow> Inr ())
      | _ \<Rightarrow> Inl (Transition_error UNSAFE_EXPIRY))"

definition usable_for :: "pydate \<Rightarrow> int \<Rightarrow> key_capability \<Rightarrow> key_record \<Rightarrow> bool" where
  "usable_for today until c r \<longleftrightarrow> c \<in> set (direct_capabilities r) \<and> \<not> revoked r \<and> \<not> disabled r \<and> \<not> expired r \<and>
     date_le (created_on r) today \<and> expires_after r until"

definition select_usable ::
    "key_inspection \<Rightarrow> pydate \<Rightarrow> int \<Rightarrow> (pytext \<times> key_record) list \<Rightarrow> key_capability \<Rightarrow>
     (transition_error, (pytext \<times> key_record) list) result" where
  "select_usable ins today until selected c =
     (let usable = filter (usable_for today until c) (key_records ins) in
      if usable = [] then Inl (Transition_error UNSAFE_CAPABILITY)
      else Inr (fold (\<lambda>r. dict_set (fingerprint r) r) usable selected))"

definition validate_owner_usable ::
    "(pytext \<Rightarrow> pytext) \<Rightarrow> key_inspection \<Rightarrow> int \<Rightarrow> int \<Rightarrow> int \<Rightarrow> (transition_error, unit) result" where
  "validate_owner_usable to_upper ins now effective_at overlap_seconds =
     (let until = effective_at + overlap_seconds; p = primary ins in
      rbind (require (is_primary p \<and> \<not> revoked p \<and> \<not> disabled p) (Transition_error UNSAFE_CAPABILITY)) (\<lambda>_.
      rbind (utc_date now) (\<lambda>today.
      rbind (require (date_le (created_on p) today \<and> CERTIFY \<in> set (direct_capabilities p))
              (Transition_error UNSAFE_CAPABILITY)) (\<lambda>_.
      rbind (require (\<not> expired p \<and> expires_after p until) (Transition_error UNSAFE_EXPIRY)) (\<lambda>_.
      rbind (rfold (select_usable ins today until) [(fingerprint p, p)] [SIGN, ENCRYPT]) (\<lambda>selected.
      rbind (rmap (check_record_profile to_upper) (map snd selected)) (\<lambda>_. Inr ())))))))"

definition validate_signing_component ::
    "(pytext \<Rightarrow> pytext) \<Rightarrow> key_inspection \<Rightarrow> pytext \<Rightarrow> int \<Rightarrow> (transition_error, unit) result" where
  "validate_signing_component to_upper ins signer valid_until =
     (case find (\<lambda>r. fingerprint r = signer) (key_records ins) of
        None \<Rightarrow> Inl (Transition_error INVALID_SIGNATURE)
      | Some c \<Rightarrow>
          rbind (require (SIGN \<in> set (direct_capabilities c) \<and> key_live c) (Transition_error INVALID_SIGNATURE)) (\<lambda>_.
          rbind (utc_date valid_until) (\<lambda>d.
          rbind (require (date_le (created_on c) d) (Transition_error INVALID_SIGNATURE)) (\<lambda>_.
          rbind (require (expires_on c \<noteq> None \<and> expires_after c valid_until) (Transition_error UNSAFE_EXPIRY)) (\<lambda>_.
            check_record_profile to_upper c)))))"


section \<open>Fingerprint sets and trust\<close>

lemma fingerprint_set_Inr:
  "fingerprint_set items code = Inr s \<Longrightarrow> s = {f. \<exists>v \<in> set items. normalize_fingerprint v = Some f} \<and>
     card s = length items"
proof -
  assume "fingerprint_set items code = Inr s"
  then obtain fs where fs: "rmap fingerprint_of items = Inr fs" "distinct fs" "s = set fs"
    by (auto simp: fingerprint_set_def result_simps split: list.splits option.splits if_splits)
  from fs(1) have "set fs = {f. \<exists>v \<in> set items. normalize_fingerprint v = Some f} \<and> length fs = length items"
    by (induction items arbitrary: fs) (auto simp: result_simps fingerprint_of_def split: option.splits)
  with fs(2,3) distinct_card [OF fs(2)] show ?thesis by simp
qed

lemma participants_exact:
  assumes "validate_envelope_participants signers recipients pol = Inr ()"
  shows "expected_signers pol = {f. \<exists>v \<in> set signers. normalize_fingerprint v = Some f}"
    and "expected_recipients pol = {f. \<exists>v \<in> set recipients. normalize_fingerprint v = Some f}"
  using assms by (auto simp: validate_envelope_participants_def result_simps dest!: fingerprint_set_Inr)

lemma trust_is_local:
  "assess_signer trust signer d = Inr a \<Longrightarrow> assess_signer trust signer d' = Inr a' \<Longrightarrow> trusted a = trusted a'"
  by (auto simp: assess_signer_def result_simps)

lemma require_capabilities_covers: "require_capabilities actual needed = Inr cs \<Longrightarrow>
    \<exists>n. capability_set needed = Inr n \<and> n \<subseteq> cs \<and> capability_set actual = Inr cs"
  by (auto simp: require_capabilities_def result_simps split: if_splits)

section \<open>Calendar\<close>

lemma month_days_ge: "28 \<le> month_days y m"
  by (simp add: month_days_def)

lemma expiry_date:
  assumes "valid_date d" and "expected_expiry_date d n = Inr e"
  shows "valid_date e" and "date_less d e" and "year e = year d + n" and "month e = month d"
    and "day e = day d \<or> month d = 2 \<and> day d = 29 \<and> day e = 28 \<and> \<not> leap_year (year d + n)"
proof -
  from assms(2) have n: "1 \<le> n" "year d + n \<le> 9999"
    and e: "e = \<lparr>year = year d + n, month = month d, day = min (day d) (month_days (year d + n) (month d))\<rparr>"
    by (auto simp: expected_expiry_date_def Let_def split: if_splits)
  show "valid_date e" using assms(1) n month_days_ge [of "year d + n" "month d"] by (auto simp: valid_date_def e)
  show "date_less d e" "year e = year d + n" "month e = month d" using n by (simp_all add: date_less_def e)
  show "day e = day d \<or> month d = 2 \<and> day d = 29 \<and> day e = 28 \<and> \<not> leap_year (year d + n)"
    using assms(1) by (auto simp: valid_date_def e month_days_def min_def split: if_splits)
qed

lemma dates_of_ordinals:
  "date_of_ordinal 1 = \<lparr>year = 1, month = 1, day = 1\<rparr>" "date_of_ordinal 719163 = \<lparr>year = 1970, month = 1, day = 1\<rparr>"
  "date_of_ordinal 730179 = \<lparr>year = 2000, month = 2, day = 29\<rparr>" "date_of_ordinal 730485 = \<lparr>year = 2000, month = 12, day = 31\<rparr>"
  "date_of_ordinal 3652059 = \<lparr>year = 9999, month = 12, day = 31\<rparr>"
  by code_simp+

section \<open>Replays\<close>

lemma bounded_history_set:
  assumes "bounded_history validate values = Inr seen"
  shows "seen = {s. \<exists>v \<in> set values. validate v = Inr s}" and "length values \<le> 100000"
proof -
  let ?f = "\<lambda>(i, seen) v. rbind (invalid_unless (i < 100000)) (\<lambda>_. rbind (validate v) (\<lambda>s. Inr (i + 1, insert s seen)))"
  have "rfold ?f (i, S) vs = Inr (j, T) \<Longrightarrow> i \<le> 100000 \<Longrightarrow>
      T = S \<union> {s. \<exists>v \<in> set vs. validate v = Inr s} \<and> j = i + length vs \<and> j \<le> 100000" for i S vs j T
  proof (induction vs arbitrary: i S)
    case (Cons v vs)
    then obtain s where "validate v = Inr s" "i < 100000" "rfold ?f (i + 1, insert s S) vs = Inr (j, T)"
      by (auto simp: result_simps invalid_unless_def)
    with Cons.IH [of "i + 1" "insert s S"] show ?case by auto
  qed simp
  from this [of 0 "{}" "values" _ seen] assms
  show "seen = {s. \<exists>v \<in> set values. validate v = Inr s}" "length values \<le> 100000"
    by (auto simp: bounded_history_def result_simps)
qed

lemma require_unseen_fresh:
  assumes "require_unseen tid nce known_ids known_nonces = Inr ()" and "v \<in> set known_ids"
  shows "v \<noteq> tid"
  using assms bounded_history_set(1) [of transition_id known_ids]
  by (auto simp: require_unseen_def result_simps)

section \<open>Usable owners\<close>

lemma dict_sets: "set (fold (\<lambda>r. dict_set (f r) r) rs d) \<subseteq> set d \<union> {(f r, r) | r. r \<in> set rs}"
proof (induction rs arbitrary: d)
  case (Cons r rs)
  have "set (dict_set k v d) \<subseteq> insert (k, v) (set d)" for k v by (induction k v d rule: dict_set.induct) auto
  with Cons.IH [of "dict_set (f r) r d"] show ?case by fastforce
qed simp

lemma dict_keys: "fst ` set (fold (\<lambda>r. dict_set (f r) r) rs d) = fst ` set d \<union> f ` set rs"
  by (induction rs arbitrary: d) (use dict_set_keys in \<open>auto simp: dict_set_keys [simplified]\<close>)

definition profile_ok :: "(pytext \<Rightarrow> pytext) \<Rightarrow> key_record \<Rightarrow> bool" where
  "profile_ok to_upper r \<longleftrightarrow> key_bits r = 4096 \<and> to_upper (strip (algorithm r)) = u ''RSA'' \<and>
     (\<exists>d. expires_on r = Some d \<and> expected_expiry_date (created_on r) 2 = Inr d)"

lemma check_record_profile_ok: "check_record_profile to_upper r = Inr () \<Longrightarrow> profile_ok to_upper r"
  by (auto simp: check_record_profile_def validate_key_profile_def rsa_4096_two_year_profile_def profile_ok_def result_simps
      split: option.splits sum.splits)

text \<open>C20. An owner found usable for a transition stays usable until its overlap ends: the primary key
  certifies, and there are a signing and an encryption key, none of them revoked, disabled or
  expired, all created by now and all expiring only after the window, each RSA-4096 with exactly
  the two-year expiry of its creation date.\<close>

theorem owner_usable_through_window:
  assumes "validate_owner_usable to_upper ins now effective_at overlap_seconds = Inr ()"
    and "distinct (map fingerprint (key_records ins))" and "effective_at \<le> t" and "t \<le> effective_at + overlap_seconds"
  shows "CERTIFY \<in> set (direct_capabilities (primary ins)) \<and> key_live (primary ins) \<and> expires_after (primary ins) t \<and>
    profile_ok to_upper (primary ins) \<and>
    (\<forall>c \<in> {SIGN, ENCRYPT}. \<exists>r \<in> set (key_records ins). c \<in> set (direct_capabilities r) \<and> key_live r \<and>
      expires_after r t \<and> profile_ok to_upper r \<and> (\<exists>today. utc_date now = Inr today \<and> date_le (created_on r) today))"
proof -
  let ?until = "effective_at + overlap_seconds" and ?p = "primary ins"
  from assms(1) obtain today selected us where
    p: "\<not> revoked ?p" "\<not> disabled ?p" "\<not> expired ?p" "CERTIFY \<in> set (direct_capabilities ?p)" "expires_after ?p ?until"
    and today: "utc_date now = Inr today"
    and sel: "rfold (select_usable ins today ?until) [(fingerprint ?p, ?p)] [SIGN, ENCRYPT] = Inr selected"
    and prof: "rmap (check_record_profile to_upper) (map snd selected) = Inr us"
    by (auto simp: validate_owner_usable_def Let_def result_simps simp del: rfold.simps rmap.simps)
  let ?us = "\<lambda>c. filter (usable_for today ?until c) (key_records ins)"
  from sel have ne: "?us SIGN \<noteq> []" "?us ENCRYPT \<noteq> []" and
    selected: "selected = fold (\<lambda>r. dict_set (fingerprint r) r) (?us SIGN @ ?us ENCRYPT) [(fingerprint ?p, ?p)]"
    by (auto simp: select_usable_def Let_def result_simps split: if_splits)
  have pin: "?p \<in> set (key_records ins)" by (simp add: key_records_def)
  have pairs: "k = fingerprint r \<and> r \<in> set (key_records ins)" if "(k, r) \<in> set selected" for k r
    using that dict_sets [of fingerprint "?us SIGN @ ?us ENCRYPT" "[(fingerprint ?p, ?p)]"] pin unfolding selected by auto
  have "profile_ok to_upper r" if "r \<in> insert ?p (set (?us SIGN @ ?us ENCRYPT))" for r
  proof -
    have "fingerprint r \<in> fst ` set selected" unfolding selected dict_keys using that by auto
    then obtain r' where r': "(fingerprint r, r') \<in> set selected" by auto
    moreover have "r \<in> set (key_records ins)" using that pin by auto
    ultimately have "r' = r" using pairs [OF r'] assms(2) by (auto simp: distinct_map dest: inj_onD)
    then have "r \<in> set (map snd selected)" using r' by force
    from rmap_Inr [OF prof this] show ?thesis using check_record_profile_ok by auto
  qed
  moreover have "expires_after r t" if "expires_after r ?until" for r
    using that assms(4) by (auto simp: expires_after_def split: option.splits)
  moreover obtain s e where "s \<in> set (?us SIGN)" "e \<in> set (?us ENCRYPT)"
    using hd_in_set [OF ne(1)] hd_in_set [OF ne(2)] by blast
  ultimately show ?thesis using p today by (auto simp: key_live_def usable_for_def)
qed

definition sample_key_record :: "nat \<Rightarrow> key_capability list \<Rightarrow> bool \<Rightarrow> key_record" where
  "sample_key_record n caps prim = \<lparr>fingerprint = [n], algorithm = u ''RSA'', key_bits = 4096,
     created_on = \<lparr>year = 2024, month = 2, day = 29\<rparr>, expires_on = Some \<lparr>year = 2026, month = 2, day = 28\<rparr>,
     is_primary = prim, expires_epoch = Some 1772236800, revoked = False, expired = False, disabled = False,
     direct_capabilities = caps\<rparr>"

definition sample_inspection :: key_inspection where
  "sample_inspection = \<lparr>primary = sample_key_record 1 [CERTIFY, SIGN] True, subkeys = [sample_key_record 2 [ENCRYPT] False]\<rparr>"

lemma sample_usable: "validate_owner_usable id sample_inspection 1750000000 1750000000 86400 = Inr ()"
  by code_simp

theorem owner_usable_through_window_witness:
  "\<exists>r \<in> set (key_records sample_inspection). ENCRYPT \<in> set (direct_capabilities r) \<and> expires_after r 1750086400 \<and>
     profile_ok id r"
proof -
  have d: "distinct (map fingerprint (key_records sample_inspection))" by code_simp
  show ?thesis using owner_usable_through_window [OF sample_usable d, of 1750086400] by auto
qed

end
