(* ===== verification/Json_Text.thy ===== *)
theory Json_Text
  imports Json Decimal "HOL-Library.List_Lexorder"
begin

text \<open>
  The JSON text form the records are stored in: \<open>json.dumps\<close> with sorted keys and no spaces, in its ASCII and
  its Unicode spelling, and \<open>json.loads\<close> with a hook that refuses repeated keys. A float's \<open>repr\<close> is a parameter
  \<open>rp\<close> of the writer and its reading a parameter \<open>fl\<close> of the reader, None where it is not finite: the
  sources refuse those (\<open>allow_nan=False\<close>). Not modelled are Python's recursion limit and its refusal to
  write an integer of more than 4300 digits, which the reader does refuse.
\<close>

section \<open>Writing\<close>

definition int_text :: "int \<Rightarrow> pytext" where
  "int_text i = (if i < 0 then 45 # decimal (nat (- i)) else decimal (nat i))"

definition hex_char :: "nat \<Rightarrow> nat" where
  "hex_char n = (if n < 10 then 48 + n else 87 + n)"

definition u_escape :: "nat \<Rightarrow> pytext" where
  "u_escape c = [92, 117, hex_char (c div 4096), hex_char (c div 256 mod 16), hex_char (c div 16 mod 16), hex_char (c mod 16)]"

definition quote_char :: "bool \<Rightarrow> nat \<Rightarrow> pytext" where
  "quote_char ascii c =
     (if c = 34 then [92, 34] else if c = 92 then [92, 92]
      else if c = 10 then [92, 110] else if c = 13 then [92, 114] else if c = 9 then [92, 116]
      else if c = 12 then [92, 102] else if c = 8 then [92, 98]
      else if c < 32 then u_escape c
      else if \<not> ascii \<or> c < 127 then [c]
      else if c < 65536 then u_escape c
      else u_escape (55296 + (c - 65536) div 1024) @ u_escape (56320 + (c - 65536) mod 1024))"

definition quoted :: "bool \<Rightarrow> pytext \<Rightarrow> pytext" where
  "quoted ascii s = 34 # concat (map (quote_char ascii) s) @ [34]"

fun commas :: "pytext list \<Rightarrow> pytext" where
  "commas [] = []"
| "commas [t] = t"
| "commas (t # ts) = t @ 44 # commas ts"

function dumps :: "(rat \<Rightarrow> pytext) \<Rightarrow> bool \<Rightarrow> json \<Rightarrow> pytext" where
  "dumps rp ascii JNull = u ''null''"
| "dumps rp ascii (JBool b) = (if b then u ''true'' else u ''false'')"
| "dumps rp ascii (JInt i) = int_text i"
| "dumps rp ascii (JFloat r) = rp r"
| "dumps rp ascii (JStr s) = quoted ascii s"
| "dumps rp ascii (JList xs) = 91 # commas (map (dumps rp ascii) xs) @ [93]"
| "dumps rp ascii (JObj kvs) =
     123 # commas (map (\<lambda>kv. quoted ascii (fst kv) @ 58 # dumps rp ascii (snd kv)) (sort_key fst kvs)) @ [125]"
  by pat_completeness auto
termination
proof (relation "measure (\<lambda>(rp, a, v). size v)")
  show "((rp, ascii, x), rp, ascii, JList xs) \<in> measure (\<lambda>(rp, a, v). size v)" if "x \<in> set xs" for rp :: "rat \<Rightarrow> pytext" and ascii x xs
    using that by (induction xs) auto
  show "((rp, ascii, snd kv), rp, ascii, JObj kvs) \<in> measure (\<lambda>(rp, a, v). size v)" if "kv \<in> set (sort_key fst kvs)" for rp :: "rat \<Rightarrow> pytext" and ascii kv kvs
  proof -
    have "(fst kv, snd kv) \<in> set kvs" using that by simp
    then have "size (snd kv) < size (JObj kvs)" by (induction kvs) auto
    then show ?thesis by simp
  qed
qed simp

section \<open>Reading\<close>

definition json_space :: "nat \<Rightarrow> bool" where
  "json_space c \<longleftrightarrow> c = 32 \<or> c = 9 \<or> c = 10 \<or> c = 13"

definition skip :: "pytext \<Rightarrow> pytext" where
  "skip s = dropWhile json_space s"

definition hex_digit :: "nat \<Rightarrow> nat option" where
  "hex_digit c =
     (if 48 \<le> c \<and> c \<le> 57 then Some (c - 48) else if 97 \<le> c \<and> c \<le> 102 then Some (c - 87)
      else if 65 \<le> c \<and> c \<le> 70 then Some (c - 55) else None)"

definition four_hex :: "pytext \<Rightarrow> (nat \<times> pytext) option" where
  "four_hex s =
     (case s of a # b # c # d # r \<Rightarrow>
        (case (hex_digit a, hex_digit b, hex_digit c, hex_digit d) of
           (Some w, Some x, Some y, Some z) \<Rightarrow> Some (w * 4096 + x * 256 + y * 16 + z, r)
         | _ \<Rightarrow> None)
      | _ \<Rightarrow> None)"

lemma four_hex_shorter: "four_hex s = Some (c, r) \<Longrightarrow> length r < length s"
  by (auto simp: four_hex_def split: list.splits option.splits)

text \<open>A high surrogate followed by the escape of a low one is one character.\<close>

definition u_unescape :: "pytext \<Rightarrow> (nat \<times> pytext) option" where
  "u_unescape s =
     (case four_hex s of
        None \<Rightarrow> None
      | Some (c, r) \<Rightarrow>
          if 55296 \<le> c \<and> c < 56320 \<and> take 2 r = [92, 117] then
            (case four_hex (drop 2 r) of
               None \<Rightarrow> None
             | Some (c2, r2) \<Rightarrow>
                 if 56320 \<le> c2 \<and> c2 < 57344 then Some (65536 + (c - 55296) * 1024 + (c2 - 56320), r2) else Some (c, r))
          else Some (c, r))"

definition escape_char :: "nat \<Rightarrow> nat option" where
  "escape_char e = map_of [(34, 34), (92, 92), (47, 47), (98, 8), (102, 12), (110, 10), (114, 13), (116, 9)] e"

definition one_char :: "pytext \<Rightarrow> (nat \<times> pytext) option" where
  "one_char s =
     (case s of [] \<Rightarrow> None
      | c # r \<Rightarrow>
          if c = 92 then
            (case r of [] \<Rightarrow> None
             | e # r' \<Rightarrow> if e = 117 then u_unescape r' else map_option (\<lambda>c. (c, r')) (escape_char e))
          else if c < 32 then None else Some (c, r))"

lemma one_char_shorter: "one_char s = Some (c, r) \<Longrightarrow> length r < length s"
proof -
  have "length r < length s" if "u_unescape s = Some (c, r)" for s
    using that
    by (auto simp: u_unescape_def split: option.splits if_splits dest!: four_hex_shorter)
  then show "one_char s = Some (c, r) \<Longrightarrow> length r < length s"
    by (fastforce simp: one_char_def split: list.splits if_splits)
qed

text \<open>The rest of a string after its opening quote.\<close>

function string_rest :: "pytext \<Rightarrow> (pytext \<times> pytext) option" where
  "string_rest s =
     (if s \<noteq> [] \<and> hd s = 34 then Some ([], tl s)
      else case one_char s of None \<Rightarrow> None
        | Some (c, r) \<Rightarrow> map_option (\<lambda>(t, r'). (c # t, r')) (string_rest r))"
  by pat_completeness auto
termination by (relation "measure length") (auto dest: one_char_shorter)

declare string_rest.simps [simp del]

definition digit :: "nat \<Rightarrow> bool" where
  "digit c \<longleftrightarrow> 48 \<le> c \<and> c \<le> 57"

definition digits_value :: "pytext \<Rightarrow> nat" where
  "digits_value s = foldl (\<lambda>n d. 10 * n + (d - 48)) 0 s"

text \<open>The number grammar \<open>-?(0|[1-9]\d*)(\.\d+)?([eE][-+]?\d+)?\<close>: an integer of at most 4300 digits, or a float.\<close>

definition fraction :: "pytext \<Rightarrow> pytext" where
  "fraction t = (if t \<noteq> [] \<and> hd t = 46 \<and> takeWhile digit (tl t) \<noteq> [] then 46 # takeWhile digit (tl t) else [])"

definition exponent :: "pytext \<Rightarrow> pytext" where
  "exponent t =
     (let sign = (if tl t \<noteq> [] \<and> hd (tl t) \<in> {43, 45} then [hd (tl t)] else []);
          ds = takeWhile digit (drop (length sign) (tl t))
      in if t \<noteq> [] \<and> hd t \<in> {69, 101} \<and> ds \<noteq> [] then hd t # sign @ ds else [])"

definition whole_digits :: "pytext \<Rightarrow> pytext" where
  "whole_digits t = (if t \<noteq> [] \<and> hd t = 48 then [48] else takeWhile digit t)"

definition read_number :: "(pytext \<Rightarrow> rat option) \<Rightarrow> pytext \<Rightarrow> (json \<times> pytext) option" where
  "read_number fl s =
     (let sign = (if s \<noteq> [] \<and> hd s = 45 then [45] else []); t = drop (length sign) s;
          ds = whole_digits t; fr = fraction (drop (length ds) t); ex = exponent (drop (length ds + length fr) t);
          r = drop (length ds + length fr + length ex) t
      in if ds = [] then None
         else if fr = [] \<and> ex = [] then
           (if 4300 < length ds then None
            else Some (JInt (if sign = [] then int (digits_value ds) else - int (digits_value ds)), r))
         else map_option (\<lambda>x. (JFloat x, r)) (fl (sign @ ds @ fr @ ex)))"

definition keyword :: "string \<Rightarrow> pytext \<Rightarrow> pytext option" where
  "keyword w s = (if take (length w) s = u w then Some (drop (length w) s) else None)"

fun read_value :: "(pytext \<Rightarrow> rat option) \<Rightarrow> nat \<Rightarrow> pytext \<Rightarrow> (json \<times> pytext) option"
and read_items :: "(pytext \<Rightarrow> rat option) \<Rightarrow> nat \<Rightarrow> pytext \<Rightarrow> (json list \<times> pytext) option"
and read_members :: "(pytext \<Rightarrow> rat option) \<Rightarrow> nat \<Rightarrow> pytext \<Rightarrow> ((pytext \<times> json) list \<times> pytext) option" where
  "read_value fl 0 s = None"
| "read_value fl (Suc n) s =
     (case s of [] \<Rightarrow> None
      | c # r \<Rightarrow>
          if c = 34 then map_option (\<lambda>(t, r). (JStr t, r)) (string_rest r)
          else if c = 123 then
            (case skip r of [] \<Rightarrow> None
             | d # r' \<Rightarrow> if d = 125 then Some (JObj [], r')
                         else map_option (\<lambda>(kvs, r). (JObj kvs, r)) (read_members fl n (d # r')))
          else if c = 91 then
            (case skip r of [] \<Rightarrow> None
             | d # r' \<Rightarrow> if d = 93 then Some (JList [], r')
                         else map_option (\<lambda>(xs, r). (JList xs, r)) (read_items fl n (d # r')))
          else (case keyword ''null'' s of Some r \<Rightarrow> Some (JNull, r)
                | None \<Rightarrow> (case keyword ''true'' s of Some r \<Rightarrow> Some (JBool True, r)
                | None \<Rightarrow> (case keyword ''false'' s of Some r \<Rightarrow> Some (JBool False, r)
                | None \<Rightarrow> read_number fl s))))"
| "read_items fl 0 s = None"
| "read_items fl (Suc n) s =
     (case read_value fl n s of None \<Rightarrow> None
      | Some (v, r) \<Rightarrow>
          (case skip r of [] \<Rightarrow> None
           | d # r' \<Rightarrow> if d = 93 then Some ([v], r')
                       else if d = 44 then map_option (\<lambda>(vs, r). (v # vs, r)) (read_items fl n (skip r'))
                       else None))"
| "read_members fl 0 s = None"
| "read_members fl (Suc n) s =
     (case s of [] \<Rightarrow> None
      | q # r \<Rightarrow>
          if q \<noteq> 34 then None
          else (case string_rest r of None \<Rightarrow> None
            | Some (k, r) \<Rightarrow>
                (case skip r of [] \<Rightarrow> None
                 | d # r' \<Rightarrow>
                     if d \<noteq> 58 then None
                     else (case read_value fl n (skip r') of None \<Rightarrow> None
                       | Some (v, r) \<Rightarrow>
                           (case skip r of [] \<Rightarrow> None
                            | d # r' \<Rightarrow> if d = 125 then Some ([(k, v)], r')
                                        else if d = 44 then map_option (\<lambda>(kvs, r). ((k, v) # kvs, r)) (read_members fl n (skip r'))
                                        else None)))))"

text \<open>The hook sees every object once it has been read.\<close>

fun unique_keys :: "json \<Rightarrow> bool" where
  "unique_keys (JObj kvs) = (distinct (map fst kvs) \<and> list_all (\<lambda>kv. unique_keys (snd kv)) kvs)"
| "unique_keys (JList xs) = list_all unique_keys xs"
| "unique_keys _ = True"

definition loads :: "(pytext \<Rightarrow> rat option) \<Rightarrow> pytext \<Rightarrow> json option" where
  "loads fl s =
     (case read_value fl (length s + 1) (skip s) of
        Some (v, r) \<Rightarrow> if skip r = [] \<and> unique_keys v then Some v else None
      | None \<Rightarrow> None)"


section \<open>Reading what was written\<close>

text \<open>Values the writer and the reader agree on: scalar text, keys in order, integers short enough to be read.\<close>

fun json_ok :: "json \<Rightarrow> bool" where
  "json_ok (JStr s) = list_all scalar_value s"
| "json_ok (JInt i) = (length (decimal (nat \<bar>i\<bar>)) \<le> 4300)"
| "json_ok (JFloat r) = False"
| "json_ok (JList xs) = list_all json_ok xs"
| "json_ok (JObj kvs) = (sorted (map fst kvs) \<and> distinct (map fst kvs) \<and>
     list_all (\<lambda>kv. list_all scalar_value (fst kv) \<and> json_ok (snd kv)) kvs)"
| "json_ok v = True"

lemma hex_digit_char: "n < 16 \<Longrightarrow> hex_digit (hex_char n) = Some n"
  by (auto simp: hex_digit_def hex_char_def)

lemma hex_sum: "c < 65536 \<Longrightarrow> c div 4096 * 4096 + c div 256 mod 16 * 256 + c div 16 mod 16 * 16 + c mod 16 = (c :: nat)"
proof -
  have a: "c div 256 = c div 16 div 16" "c div 4096 = c div 16 div 16 div 16" by (simp_all add: div_mult2_eq [symmetric])
  have "c = c div 16 * 16 + c mod 16" "c div 16 = c div 16 div 16 * 16 + c div 16 mod 16"
    "c div 16 div 16 = c div 16 div 16 div 16 * 16 + c div 16 div 16 mod 16" by simp_all
  then show ?thesis unfolding a by linarith
qed

lemma four_hex_escape: "c < 65536 \<Longrightarrow> four_hex (drop 2 (u_escape c) @ r) = Some (c, r)"
proof -
  assume c: "c < 65536"
  then have "c div 4096 < 16" by (simp add: div_less_iff_less_mult)
  then show ?thesis using hex_sum [OF c] by (simp add: four_hex_def u_escape_def hex_digit_char)
qed

lemma u_escape_split: "u_escape c = 92 # 117 # drop 2 (u_escape c)"
  by (simp add: u_escape_def)

lemma one_char_escape:
  "c < 65536 \<Longrightarrow> \<not> (55296 \<le> c \<and> c < 56320) \<Longrightarrow> one_char (u_escape c @ r) = Some (c, r)"
  by (subst u_escape_split) (auto simp: one_char_def u_unescape_def four_hex_escape)

lemma one_char_pair:
  assumes "65536 \<le> c" "c < 1114112"
  shows "one_char (u_escape (55296 + (c - 65536) div 1024) @ u_escape (56320 + (c - 65536) mod 1024) @ r) = Some (c, r)"
proof -
  let ?h = "55296 + (c - 65536) div 1024" and ?l = "56320 + (c - 65536) mod 1024"
  have h: "?h < 56320" "?h < 65536" using assms by (simp_all add: div_less_iff_less_mult)
  have "(c - 65536) mod 1024 < 1024" by simp
  then have l: "?l < 57344" "?l < 65536" by linarith+
  have c: "65536 + (?h - 55296) * 1024 + (?l - 56320) = c"
    using assms(1) by simp
  have "four_hex (drop 2 (u_escape ?h) @ u_escape ?l @ r) = Some (?h, u_escape ?l @ r)" by (rule four_hex_escape [OF h(2)])
  moreover have "take 2 (u_escape ?l @ r) = [92, 117]" "drop 2 (u_escape ?l @ r) = drop 2 (u_escape ?l) @ r"
    by (simp_all add: u_escape_def)
  moreover have "four_hex (drop 2 (u_escape ?l) @ r) = Some (?l, r)" by (rule four_hex_escape [OF l(2)])
  ultimately have "u_unescape (drop 2 (u_escape ?h) @ u_escape ?l @ r) = Some (65536 + (?h - 55296) * 1024 + (?l - 56320), r)"
    using h l unfolding u_unescape_def by simp
  then show ?thesis unfolding c by (subst u_escape_split) (simp add: one_char_def)
qed

lemma one_char_quote: "scalar_value c \<Longrightarrow> one_char (quote_char ascii c @ r) = Some (c, r)"
proof -
  assume s: "scalar_value c"
  then have b: "c < 1114112" "\<not> (55296 \<le> c \<and> c < 57344)" by (auto simp: scalar_value_def code_point_def surrogate_def)
  consider "c \<in> {34, 92, 10, 13, 9, 12, 8}" | (e) "c \<notin> {34, 92, 10, 13, 9, 12, 8}" "c < 32 \<or> ascii \<and> 127 \<le> c" "c < 65536"
    | (p) "c \<notin> {34, 92, 10, 13, 9, 12, 8}" "\<not> c < 32" "\<not> ascii \<or> c < 127" | (w) "ascii" "65536 \<le> c"
    using b by fastforce
  then show ?thesis
  proof cases
    case 1
    then show ?thesis by (auto simp: quote_char_def one_char_def escape_char_def)
  next
    case e
    then have "quote_char ascii c = u_escape c" by (auto simp: quote_char_def)
    with one_char_escape [OF e(3)] b(2) show ?thesis by auto
  next
    case p
    then show ?thesis by (auto simp: quote_char_def one_char_def)
  next
    case w
    then show ?thesis using one_char_pair [OF w(2) b(1)] by (simp add: quote_char_def)
  qed
qed

lemma quote_char_head: "quote_char ascii c \<noteq> []" "hd (quote_char ascii c @ r) \<noteq> 34"
  by (auto simp: quote_char_def u_escape_def)

lemma string_rest_quoted:
  "list_all scalar_value s \<Longrightarrow> string_rest (concat (map (quote_char ascii) s) @ 34 # r) = Some (s, r)"
proof (induction s)
  case Nil
  then show ?case by (subst string_rest.simps) simp
next
  case (Cons c s)
  let ?t = "concat (map (quote_char ascii) s) @ 34 # r"
  have "one_char (quote_char ascii c @ ?t) = Some (c, ?t)" using Cons.prems one_char_quote by simp
  with Cons quote_char_head [of ascii c] show ?case
    by (subst string_rest.simps) simp
qed

definition follows :: "pytext \<Rightarrow> bool" where
  "follows r \<longleftrightarrow> r = [] \<or> hd r \<in> {10, 44, 93, 125}"

lemma digits_value_decimal: "digits_value (decimal n) = n"
  unfolding digits_value_def by (rule decimal_value)

lemma takeWhile_decimal: "follows r \<Longrightarrow> takeWhile digit (decimal n @ r) = decimal n"
proof -
  assume "follows r"
  then have "takeWhile digit r = []" by (cases r) (auto simp: follows_def digit_def)
  moreover have "\<forall>d \<in> set (decimal n). digit d" using decimal_digits(1) [of n] by (auto simp: list_all_iff digit_def)
  ultimately show ?thesis by (simp add: takeWhile_append2)
qed

lemma decimal_head: "48 \<le> hd (decimal n)" "hd (decimal n) \<le> 57"
  using decimal_digits [of n] by (cases "decimal n"; auto)+

lemma whole_digits_decimal: "follows r \<Longrightarrow> whole_digits (decimal n @ r) = decimal n"
proof -
  assume r: "follows r"
  have h: "hd (decimal n @ r) = hd (decimal n)" using decimal_digits(2) by simp
  have "hd (decimal n) = 48 \<Longrightarrow> decimal n = [48]" using decimal_lead [of n] by (simp add: decimal.simps [of 0])
  with takeWhile_decimal [OF r] show ?thesis by (auto simp: whole_digits_def h)
qed

lemma follows_no_float: "follows r \<Longrightarrow> fraction r = [] \<and> exponent r = []"
  by (cases r) (auto simp: follows_def fraction_def exponent_def)

lemma read_number_natural:
  assumes r: "follows r" and l: "length (decimal n) \<le> 4300"
  shows "read_number fl (decimal n @ r) = Some (JInt (int n), r)" "read_number fl (45 # decimal n @ r) = Some (JInt (- int n), r)"
proof -
  have d: "decimal n \<noteq> []" "hd (decimal n @ r) \<noteq> 45"
    using decimal_head [of n] decimal_digits(2) [of n] by auto
  have p: "drop (length (decimal n)) (decimal n @ r) = r" by simp
  have f: "fraction r = []" "exponent r = []" using follows_no_float [OF r] by simp_all
  show "read_number fl (decimal n @ r) = Some (JInt (int n), r)"
    unfolding read_number_def Let_def using d l
    by (simp add: whole_digits_decimal [OF r] f digits_value_decimal)
  show "read_number fl (45 # decimal n @ r) = Some (JInt (- int n), r)"
    unfolding read_number_def Let_def using d l
    by (simp add: whole_digits_decimal [OF r] f digits_value_decimal)
qed

lemma read_number_int:
  assumes "follows r" and "length (decimal (nat \<bar>i\<bar>)) \<le> 4300"
  shows "read_number fl (int_text i @ r) = Some (JInt i, r)"
  using read_number_natural [OF assms(1), of "nat \<bar>i\<bar>" fl] assms(2) by (cases "i < 0") (simp_all add: int_text_def)

section \<open>Values\<close>

definition starts :: "pytext \<Rightarrow> bool" where
  "starts t \<longleftrightarrow> t \<noteq> [] \<and> \<not> json_space (hd t) \<and> hd t \<notin> {44, 58, 93, 125}"

lemma skip_starts: "starts t \<Longrightarrow> skip (t @ r) = t @ r"
  by (cases t) (auto simp: starts_def skip_def)

lemma skip_mark [simp]: "c \<in> {44, 58, 93, 125, 34} \<Longrightarrow> skip (c # r) = c # r"
  by (auto simp: skip_def json_space_def)

lemma dumps_starts: "json_ok v \<Longrightarrow> starts (dumps rp a v)"
proof (cases v)
  case (JInt i)
  then show ?thesis
    using decimal_head [of "nat i"] decimal_digits(2) [of "nat i"] by (auto simp: starts_def json_space_def int_text_def)
qed (auto simp: starts_def json_space_def quoted_def u_def)

lemma commas_Cons: "ts \<noteq> [] \<Longrightarrow> commas (t # ts) = t @ 44 # commas ts"
  by (cases ts) auto

lemma commas_starts: "ts \<noteq> [] \<Longrightarrow> \<forall>t \<in> set ts. starts t \<Longrightarrow> starts (commas ts)"
  by (cases ts rule: commas.cases) (auto simp: starts_def)

definition reads_back :: "(pytext \<Rightarrow> rat option) \<Rightarrow> (rat \<Rightarrow> pytext) \<Rightarrow> bool \<Rightarrow> json \<Rightarrow> bool" where
  "reads_back fl rp a v \<longleftrightarrow> (\<forall>n r. length (dumps rp a v) \<le> n \<longrightarrow> follows r \<longrightarrow> read_value fl n (dumps rp a v @ r) = Some (v, r))"

lemma follows_mark [simp]: "follows (93 # r)" "follows (44 # r)" "follows (125 # r)" "follows (10 # r)" "follows []"
  by (simp_all add: follows_def)

lemma read_items_back:
  "xs \<noteq> [] \<Longrightarrow> \<forall>x \<in> set xs. reads_back fl rp a x \<and> starts (dumps rp a x) \<Longrightarrow> length (commas (map (dumps rp a) xs)) < n \<Longrightarrow>
     read_items fl n (commas (map (dumps rp a) xs) @ 93 # r) = Some (xs, r)"
proof (induction xs arbitrary: n)
  case (Cons x xs)
  then obtain m where n: "n = Suc m" by (cases n) auto
  show ?case
  proof (cases "xs = []")
    case True
    with Cons.prems have "read_value fl m (dumps rp a x @ 93 # r) = Some (x, 93 # r)" by (simp add: reads_back_def n)
    with True show ?thesis by (simp add: n)
  next
    case False
    let ?t = "commas (map (dumps rp a) xs)"
    have c: "commas (map (dumps rp a) (x # xs)) = dumps rp a x @ 44 # ?t" using False by (simp add: commas_Cons)
    have "starts ?t" by (rule commas_starts) (use False Cons.prems(2) in auto)
    then have s: "skip (?t @ 93 # r) = ?t @ 93 # r" by (rule skip_starts)
    have "read_value fl m (dumps rp a x @ 44 # ?t @ 93 # r) = Some (x, 44 # ?t @ 93 # r)"
      using Cons.prems(2,3) unfolding c by (simp add: reads_back_def n)
    moreover have "read_items fl m (?t @ 93 # r) = Some (xs, r)"
      using False Cons.prems(2,3) unfolding c n by (intro Cons.IH) simp_all
    ultimately show ?thesis unfolding c n by (simp add: s)
  qed
qed simp

definition entry_text :: "(rat \<Rightarrow> pytext) \<Rightarrow> bool \<Rightarrow> pytext \<times> json \<Rightarrow> pytext" where
  "entry_text rp a kv = quoted a (fst kv) @ 58 # dumps rp a (snd kv)"

lemma read_members_back:
  "kvs \<noteq> [] \<Longrightarrow> \<forall>kv \<in> set kvs. list_all scalar_value (fst kv) \<and> reads_back fl rp a (snd kv) \<and> starts (dumps rp a (snd kv)) \<Longrightarrow>
     length (commas (map (entry_text rp a) kvs)) < n \<Longrightarrow>
     read_members fl n (commas (map (entry_text rp a) kvs) @ 125 # r) = Some (kvs, r)"
proof (induction kvs arbitrary: n)
  case (Cons kv kvs)
  then obtain m where n: "n = Suc m" by (cases n) auto
  obtain k v where kv: "kv = (k, v)" by (cases kv)
  let ?body = "concat (map (quote_char a) k)"
  have k: "list_all scalar_value k" and v: "reads_back fl rp a v" "starts (dumps rp a v)" using Cons.prems(2) kv by simp_all
  have key: "string_rest (?body @ 34 # t) = Some (k, t)" for t by (rule string_rest_quoted [OF k])
  have val: "read_value fl m (dumps rp a v @ t) = Some (v, t)" if "follows t" "length (dumps rp a v) \<le> m" for t
    using v(1) that by (simp add: reads_back_def)
  have sv: "skip (dumps rp a v @ t) = dumps rp a v @ t" for t by (rule skip_starts [OF v(2)])
  have e: "entry_text rp a kv = 34 # ?body @ 34 # 58 # dumps rp a v" by (simp add: entry_text_def kv quoted_def)
  show ?case
  proof (cases "kvs = []")
    case True
    then have "length (dumps rp a v) \<le> m" using Cons.prems(3) by (simp add: e n)
    with True show ?thesis by (simp add: e [unfolded kv] n key sv val kv)
  next
    case False
    let ?t = "commas (map (entry_text rp a) kvs)"
    have c: "commas (map (entry_text rp a) (kv # kvs)) = entry_text rp a kv @ 44 # ?t" using False by (simp add: commas_Cons)
    have "starts ?t" by (rule commas_starts) (use False in \<open>auto simp: entry_text_def quoted_def starts_def json_space_def\<close>)
    then have s: "skip (?t @ 125 # r) = ?t @ 125 # r" by (rule skip_starts)
    have m: "length (dumps rp a v) \<le> m" "length ?t < m" using Cons.prems(3) unfolding c by (simp_all add: e n)
    have "read_members fl m (?t @ 125 # r) = Some (kvs, r)"
      by (rule Cons.IH) (use False Cons.prems(2) m in simp_all)
    then show ?thesis unfolding c n by (simp add: e [unfolded kv] key sv val m s kv)
  qed
qed simp

lemma dumps_JObj: "sorted (map fst kvs) \<Longrightarrow> dumps rp a (JObj kvs) = 123 # commas (map (entry_text rp a) kvs) @ [125]"
  by (simp add: entry_text_def [abs_def] sorted_sort_id sort_key_id_if_sorted)

lemma reads_back_ok: "json_ok v \<Longrightarrow> reads_back fl rp a v"
proof (induction v rule: measure_induct_rule [of size])
  case (less v)
  have pos: "0 < n" if "length (dumps rp a v) \<le> n" for n using dumps_starts [OF less.prems, of rp a] that by (cases n) (auto simp: starts_def)
  have "read_value fl n (dumps rp a v @ r) = Some (v, r)" if n: "length (dumps rp a v) \<le> n" and r: "follows r" for n r
  proof -
    from pos [OF n] obtain m where m: "n = Suc m" by (cases n) auto
    show ?thesis
    proof (cases v)
      case JNull
      then show ?thesis by (simp add: m u_def keyword_def)
    next
      case (JBool b)
      then show ?thesis by (simp add: m u_def keyword_def)
    next
      case (JInt i)
      have "\<exists>c t. int_text i @ r = c # t \<and> (c = 45 \<or> 48 \<le> c \<and> c \<le> 57)"
        using decimal_head [of "nat i"] decimal_digits(2) [of "nat i"]
        by (cases "decimal (nat i)") (auto simp: int_text_def)
      then obtain c t where c: "int_text i @ r = c # t" "c \<notin> {34, 123, 91, 110, 116, 102}" by force
      moreover have "read_number fl (c # t) = Some (JInt i, r)"
        using read_number_int [OF r, of i] less.prems JInt c(1) by simp
      ultimately show ?thesis by (simp add: JInt m keyword_def u_def)
    next
      case (JStr s)
      then show ?thesis using string_rest_quoted [of s a r] less.prems by (simp add: m quoted_def)
    next
      case (JList xs)
      show ?thesis
      proof (cases "xs = []")
        case True
        then show ?thesis by (simp add: JList m)
      next
        case False
        let ?t = "commas (map (dumps rp a) xs)"
        have ok: "reads_back fl rp a x \<and> starts (dumps rp a x)" if "x \<in> set xs" for x
        proof -
          have "size x < size v" using that unfolding JList by (induction xs) auto
          moreover have "json_ok x" using less.prems that by (simp add: JList list_all_iff)
          ultimately show ?thesis using less.IH dumps_starts by blast
        qed
        have st: "starts ?t" by (rule commas_starts) (use False ok in auto)
        then obtain d t where d: "?t = d # t" "d \<noteq> 93" by (cases ?t) (auto simp: starts_def)
        have "read_items fl m (?t @ 93 # r) = Some (xs, r)"
          by (rule read_items_back) (use False ok n in \<open>simp_all add: JList m\<close>)
        with skip_starts [OF st, of "93 # r"] d show ?thesis by (simp add: JList m)
      qed
    next
      case (JObj kvs)
      have srt: "sorted (map fst kvs)" using less.prems by (simp add: JObj)
      note dj = dumps_JObj [OF srt, of rp a]
      show ?thesis
      proof (cases "kvs = []")
        case True
        then show ?thesis by (simp add: JObj m)
      next
        case False
        let ?t = "commas (map (entry_text rp a) kvs)"
        have ok: "list_all scalar_value (fst kv) \<and> reads_back fl rp a (snd kv) \<and> starts (dumps rp a (snd kv))" if "kv \<in> set kvs" for kv
        proof -
          have "(fst kv, snd kv) \<in> set kvs" using that by simp
          then have "size (snd kv) < size v" unfolding JObj by (induction kvs) auto
          moreover have "list_all scalar_value (fst kv)" "json_ok (snd kv)" using less.prems that by (auto simp: JObj list_all_iff)
          ultimately show ?thesis using less.IH dumps_starts by blast
        qed
        have st: "starts ?t" by (rule commas_starts) (use False in \<open>auto simp: entry_text_def quoted_def starts_def json_space_def\<close>)
        then obtain d t where d: "?t = d # t" "d \<noteq> 125" by (cases ?t) (auto simp: starts_def)
        have "read_members fl m (?t @ 125 # r) = Some (kvs, r)"
          by (rule read_members_back) (use False ok n in \<open>simp_all add: JObj dj m del: dumps.simps\<close>)
        with skip_starts [OF st, of "125 # r"] d show ?thesis by (simp add: JObj dj m del: dumps.simps)
      qed
    qed (use less.prems in simp)
  qed
  then show ?case by (simp add: reads_back_def)
qed

lemma json_ok_unique: "json_ok v \<Longrightarrow> unique_keys v"
  by (induction v rule: unique_keys.induct) (auto simp: list_all_iff)

lemma loads_line: "json_ok v \<Longrightarrow> r \<in> {[], [10]} \<Longrightarrow> loads fl (dumps rp a v @ r) = Some v"
proof -
  assume ok: "json_ok v" and r: "r \<in> {[], [10]}"
  have "read_value fl (length (dumps rp a v @ r) + 1) (dumps rp a v @ r) = Some (v, r)"
    by (rule reads_back_ok [OF ok, of fl rp a, unfolded reads_back_def, rule_format]) (use r in auto)
  moreover have "skip r = []" using r by (auto simp: skip_def json_space_def)
  ultimately show ?thesis using json_ok_unique [OF ok] skip_starts [OF dumps_starts [OF ok], of rp a r]
    unfolding loads_def by (simp del: read_value.simps)
qed

lemma loads_dumps: "json_ok v \<Longrightarrow> loads fl (dumps rp a v) = Some v"
  using loads_line [of v "[]" fl rp a] by simp

text \<open>The text of an object depends on its keys and the texts of their values only.\<close>

lemma entries_by_key:
  assumes "distinct (map fst kvs)"
  shows "map f (sort_key fst kvs) = map (\<lambda>k. f (k, the (map_of kvs k))) (sorted_list_of_set (set (map fst kvs)))"
proof -
  have "mset (map fst (sort_key fst kvs)) = mset (map fst kvs)" by simp
  then have "distinct (map fst (sort_key fst kvs))" using assms by (metis mset_eq_imp_distinct_iff)
  then have "map fst (sort_key fst kvs) = sorted_list_of_set (set (map fst kvs))"
    by (intro sorted_distinct_set_unique) simp_all
  moreover have "map f (sort_key fst kvs) = map (\<lambda>k. f (k, the (map_of kvs k))) (map fst (sort_key fst kvs))"
    unfolding map_map
  proof (rule map_cong [OF refl])
    fix kv assume "kv \<in> set (sort_key fst kvs)"
    then have "map_of kvs (fst kv) = Some (snd kv)" using map_of_is_SomeI [OF assms, of "fst kv" "snd kv"] by simp
    then show "f kv = ((\<lambda>k. f (k, the (map_of kvs k))) \<circ> fst) kv" by simp
  qed
  ultimately show ?thesis by simp
qed

lemma dumps_objects:
  assumes "distinct (map fst a)" "distinct (map fst b)" "keys_are a names" "keys_are b names"
    and "\<And>n. n \<in> set names \<Longrightarrow> dumps rp c (entry a n) = dumps rp c (entry b n)"
  shows "dumps rp c (JObj a) = dumps rp c (JObj b)"
proof -
  have k: "set (map fst a) = u ` set names" "set (map fst b) = u ` set names" using assms(3,4) by (simp_all add: keys_are_def)
  have e: "the (map_of kvs (u n)) = entry kvs n" if "set (map fst kvs) = u ` set names" "n \<in> set names" for kvs n
  proof -
    have "u n \<in> fst ` set kvs" using that by auto
    then obtain v where "map_of kvs (u n) = Some v" by (metis map_of_eq_None_iff not_None_eq)
    then show ?thesis by (simp add: entry_def member_or_def member_def)
  qed
  have "entry_text rp c (k, the (map_of a k)) = entry_text rp c (k, the (map_of b k))" if "k \<in> u ` set names" for k
    using that e [OF k(1)] e [OF k(2)] assms(5) by (auto simp: entry_text_def)
  then have "map (entry_text rp c) (sort_key fst a) = map (entry_text rp c) (sort_key fst b)"
    unfolding entries_by_key [OF assms(1)] entries_by_key [OF assms(2)] k by (intro map_cong) simp_all
  then show ?thesis by (simp add: entry_text_def [abs_def])
qed

end
