(* ===== verification/Message_Prefix.thy ===== *)
theory Message_Prefix
  imports Inventories Json_Text
begin

text \<open>
  The JSON text form of the records (\<open>canonical_bytes\<close>, \<open>parse_canonical\<close> and what is bound by digests of it) and
  the binary prefix in front of each decrypted message of a container, from
  \<open>src/ls/core/openpgp/artifact_records.py\<close>. SHA-256 is a parameter.
\<close>

definition canonical_bytes :: "(rat \<Rightarrow> pytext) \<Rightarrow> json \<Rightarrow> (record_error, bytes) result" where
  "canonical_bytes rp v = expect_some Record_error (utf8_encode (dumps rp False v))"

definition parse_canonical :: "(pytext \<Rightarrow> rat option) \<Rightarrow> (rat \<Rightarrow> pytext) \<Rightarrow> bytes \<Rightarrow> nat \<Rightarrow> (record_error, (pytext \<times> json) list) result" where
  "parse_canonical fl rp data maximum =
     rbind (require (data \<noteq> [] \<and> length data \<le> maximum) Record_error) (\<lambda>_.
     rbind (expect_some Record_error (utf8_decode data)) (\<lambda>t.
     rbind (expect_some Record_error (loads fl t)) (\<lambda>v.
     rbind (expect_some Record_error (as_obj v)) (\<lambda>obj.
     rbind (canonical_bytes rp v) (\<lambda>bs.
     rbind (require (bs = data) Record_error) (\<lambda>_. Inr obj))))))"

definition digest_of :: "(bytes \<Rightarrow> pytext) \<Rightarrow> (rat \<Rightarrow> pytext) \<Rightarrow> json \<Rightarrow> (record_error, pytext) result" where
  "digest_of sha rp v = rbind (canonical_bytes rp v) (\<lambda>bs. Inr (sha bs))"

definition logical_commitment ::
    "(bytes \<Rightarrow> pytext) \<Rightarrow> (rat \<Rightarrow> pytext) \<Rightarrow> (pytext \<Rightarrow> pytext) \<Rightarrow> container_limits \<Rightarrow> json \<Rightarrow> (record_error, pytext) result" where
  "logical_commitment sha rp nfc limits logical =
     rbind (validate_logical nfc limits logical) (\<lambda>_. digest_of sha rp logical)"

section \<open>Schema envelopes\<close>

definition required_features :: "bool \<Rightarrow> bool \<Rightarrow> bool \<Rightarrow> pytext list" where
  "required_features deltas snapshot worker_snapshot =
     sort ([u ''segmented-messages-v1'', u ''global-inventory-v1''] @ (if deltas then [u ''per-file-delta-v1''] else [])
           @ (if snapshot then [u ''consolidated-snapshot-v1''] else [])
           @ (if worker_snapshot then [u ''worker-snapshot-admission-v1''] else []))"

definition schema_envelope :: "bool \<Rightarrow> bool \<Rightarrow> bool \<Rightarrow> json" where
  "schema_envelope deltas snapshot worker_snapshot =
     JObj [(u ''schema'', JStr (u ''localsetup.secure-container.protected-metadata'')), (u ''major'', JInt 1),
           (u ''minor'', JInt (if worker_snapshot then 3 else if snapshot then 2 else if deltas then 1 else 0)),
           (u ''required_features'', JList (map JStr (required_features deltas snapshot worker_snapshot))),
           (u ''extensions'', JObj [])]"

section \<open>Message prefixes\<close>

definition message_magic :: bytes where "message_magic = u ''LSSCM'' @ [0, 1]"
definition max_prefix :: nat where "max_prefix = 4096"

text \<open>\<open>struct.pack(">I", n)\<close> and its inverse on four bytes.\<close>

definition pack_u32 :: "nat \<Rightarrow> bytes" where
  "pack_u32 n = [n div 16777216 mod 256, n div 65536 mod 256, n div 256 mod 256, n mod 256]"

definition unpack_u32 :: "bytes \<Rightarrow> nat" where
  "unpack_u32 bs = foldl (\<lambda>n b. n * 256 + b) 0 bs"

record message_prefix =
  logical_sha256 :: pytext
  prefix_file :: pytext
  prefix_offset :: int
  prefix_length :: int
  prefix_index :: int
  prefix_count :: int
  plaintext_sha256 :: pytext

definition prefix_object :: "message_prefix \<Rightarrow> (pytext \<times> json) list" where
  "prefix_object p =
     [(u ''logical_sha256'', JStr (logical_sha256 p)), (u ''file_id'', JStr (prefix_file p)),
      (u ''offset'', JInt (prefix_offset p)), (u ''length'', JInt (prefix_length p)),
      (u ''segment_index'', JInt (prefix_index p)), (u ''segment_count'', JInt (prefix_count p)),
      (u ''plaintext_sha256'', JStr (plaintext_sha256 p))]"

definition prefix_keys :: "string list" where
  "prefix_keys = [''logical_sha256'', ''file_id'', ''offset'', ''length'', ''segment_index'', ''segment_count'', ''plaintext_sha256'']"

definition encode_message_prefix :: "(rat \<Rightarrow> pytext) \<Rightarrow> message_prefix \<Rightarrow> (record_error, bytes) result" where
  "encode_message_prefix rp p =
     rbind (validate_digest (JStr (logical_sha256 p))) (\<lambda>_.
     rbind (validate_digest (JStr (plaintext_sha256 p))) (\<lambda>_.
     rbind (validate_opaque_id (JStr (prefix_file p))) (\<lambda>_.
     rbind (require (0 \<le> prefix_offset p \<and> 0 \<le> prefix_index p \<and> 0 \<le> prefix_count p \<and> 0 \<le> prefix_length p \<and>
                     1 \<le> prefix_count p \<and> prefix_index p < prefix_count p) Record_error) (\<lambda>_.
     rbind (canonical_bytes rp (JObj (prefix_object p))) (\<lambda>prefix.
     rbind (require (length prefix \<le> max_prefix) Record_error) (\<lambda>_.
       Inr (message_magic @ pack_u32 (length prefix) @ prefix)))))))"

definition decode_message_prefix :: "(pytext \<Rightarrow> rat option) \<Rightarrow> (rat \<Rightarrow> pytext) \<Rightarrow> bytes \<Rightarrow> (record_error, message_prefix) result" where
  "decode_message_prefix fl rp v =
     rbind (require (take 7 v = message_magic \<and> 11 \<le> length v) Record_error) (\<lambda>_.
     let n = unpack_u32 (take 4 (drop 7 v)) in
     rbind (require (1 \<le> n \<and> n \<le> max_prefix \<and> length v = 11 + n) Record_error) (\<lambda>_.
     rbind (parse_canonical fl rp (drop 11 v) max_prefix) (\<lambda>obj.
     rbind (require (keys_are obj prefix_keys) Record_error) (\<lambda>_.
     rbind (validate_digest (entry obj ''logical_sha256'')) (\<lambda>ls.
     rbind (validate_opaque_id (entry obj ''file_id'')) (\<lambda>fid.
     rbind (int_from 0 (entry obj ''offset'')) (\<lambda>off.
     rbind (int_from 0 (entry obj ''length'')) (\<lambda>len.
     rbind (int_from 0 (entry obj ''segment_index'')) (\<lambda>si.
     rbind (int_from 0 (entry obj ''segment_count'')) (\<lambda>sc.
     rbind (require (1 \<le> sc \<and> si < sc) Record_error) (\<lambda>_.
     rbind (validate_digest (entry obj ''plaintext_sha256'')) (\<lambda>ps.
       Inr \<lparr>logical_sha256 = ls, prefix_file = fid, prefix_offset = int off, prefix_length = int len,
            prefix_index = int si, prefix_count = int sc, plaintext_sha256 = ps\<rparr>))))))))))))"


section \<open>Prefixes read back\<close>

lemma magic_length: "length message_magic = 7"
  by (simp add: message_magic_def u_def)

lemma unpack_pack: "n < 4294967296 \<Longrightarrow> unpack_u32 (pack_u32 n) = n"
proof -
  assume n: "n < 4294967296"
  have a: "n div 16777216 = n div 256 div 256 div 256" "n div 65536 = n div 256 div 256" by (simp_all add: div_mult2_eq [symmetric])
  have "n div 256 div 256 div 256 < 256" using n by (simp add: div_mult2_eq [symmetric] div_less_iff_less_mult)
  moreover have "n = n div 256 * 256 + n mod 256" "n div 256 = n div 256 div 256 * 256 + n div 256 mod 256"
    "n div 256 div 256 = n div 256 div 256 div 256 * 256 + n div 256 div 256 mod 256" by simp_all
  ultimately show ?thesis unfolding unpack_u32_def pack_u32_def a by simp
qed

lemma pack_unpack: "byte_list [a, b, c, d] \<Longrightarrow> pack_u32 (unpack_u32 [a, b, c, d]) = [a, b, c, d]"
proof -
  assume "byte_list [a, b, c, d]"
  then have l: "a < 256" "b < 256" "c < 256" "d < 256" by (simp_all add: byte_list_def)
  have q: "(x * 256 + y) div 256 = x" "(x * 256 + y) mod 256 = y" if "y < 256" for x y :: nat using that by simp_all
  let ?n = "((a * 256 + b) * 256 + c) * 256 + d"
  have n: "unpack_u32 [a, b, c, d] = ?n" by (simp add: unpack_u32_def)
  have "?n div 16777216 = ?n div 256 div 256 div 256" "?n div 65536 = ?n div 256 div 256" by (simp_all add: div_mult2_eq [symmetric])
  moreover have "a mod 256 = a" using l(1) by simp
  ultimately show ?thesis unfolding n pack_u32_def by (simp only: q l)
qed

lemma sort_key_fst_set:
  "distinct (map fst xs) \<Longrightarrow> distinct (map fst ys) \<Longrightarrow> set xs = set ys \<Longrightarrow> sort_key fst xs = sort_key fst ys"
  for xs ys :: "(pytext \<times> json) list"
proof -
  assume d: "distinct (map fst xs)" "distinct (map fst ys)" and s: "set xs = set ys"
  have dk: "distinct (map fst (sort_key fst zs))" if "distinct (map fst zs)" for zs :: "(pytext \<times> json) list"
  proof -
    have "mset (map fst (sort_key fst zs)) = mset (map fst zs)" by simp
    with that show ?thesis by (metis mset_eq_imp_distinct_iff)
  qed
  show ?thesis
  proof (rule map_sorted_distinct_set_unique [of fst])
    show "inj_on fst (set (sort_key fst xs) \<union> set (sort_key fst ys))" using d(1) s by (simp add: distinct_map)
  qed (use d s dk in auto)
qed

lemma text_where_Inr: "text_where g v = Inr s \<longleftrightarrow> v = JStr s \<and> g s"
  by (auto simp: text_where_def split: json.splits)

lemma int_from_Inr: "int_from low v = Inr n \<longleftrightarrow> (\<exists>i. v = JInt i \<and> low \<le> i \<and> n = nat i)"
  by (auto simp: int_from_def split: json.splits)

lemmas field_Inr = text_where_Inr int_from_Inr validate_digest_def validate_opaque_id_def

definition prefix_ok :: "message_prefix \<Rightarrow> bool" where
  "prefix_ok p \<longleftrightarrow> digest_text (logical_sha256 p) \<and> digest_text (plaintext_sha256 p) \<and> opaque_text (prefix_file p) \<and>
     0 \<le> prefix_offset p \<and> 0 \<le> prefix_index p \<and> 0 \<le> prefix_length p \<and> 1 \<le> prefix_count p \<and> prefix_index p < prefix_count p"

lemma encode_prefix_iff:
  "encode_message_prefix rp p = Inr v \<longleftrightarrow> prefix_ok p \<and>
     (\<exists>bs. utf8_encode (dumps rp False (JObj (prefix_object p))) = Some bs \<and> length bs \<le> max_prefix \<and>
           v = message_magic @ pack_u32 (length bs) @ bs)"
  by (auto simp: encode_message_prefix_def result_simps validate_digest_def validate_opaque_id_def text_where_def
      prefix_ok_def canonical_bytes_def expect_some_def split: option.splits)

lemma prefix_object_keys: "distinct (map fst (prefix_object p))" "set (map fst (prefix_object p)) = set (map u prefix_keys)"
  by (simp_all add: prefix_object_def prefix_keys_def)

lemma prefix_entries:
  assumes "distinct (map fst obj)" and "set obj = set (prefix_object p)"
  shows "entry obj ''logical_sha256'' = JStr (logical_sha256 p)" "entry obj ''file_id'' = JStr (prefix_file p)"
    "entry obj ''offset'' = JInt (prefix_offset p)" "entry obj ''length'' = JInt (prefix_length p)"
    "entry obj ''segment_index'' = JInt (prefix_index p)" "entry obj ''segment_count'' = JInt (prefix_count p)"
    "entry obj ''plaintext_sha256'' = JStr (plaintext_sha256 p)"
proof -
  have "map_of obj = map_of (prefix_object p)"
    using map_of_inject_set [OF assms(1) prefix_object_keys(1), of p] assms(2) by simp
  then have "entry obj n = entry (prefix_object p) n" for n by (simp add: entry_def member_or_def member_def)
  then show "entry obj ''logical_sha256'' = JStr (logical_sha256 p)" "entry obj ''file_id'' = JStr (prefix_file p)"
    "entry obj ''offset'' = JInt (prefix_offset p)" "entry obj ''length'' = JInt (prefix_length p)"
    "entry obj ''segment_index'' = JInt (prefix_index p)" "entry obj ''segment_count'' = JInt (prefix_count p)"
    "entry obj ''plaintext_sha256'' = JStr (plaintext_sha256 p)"
    by (simp_all add: prefix_object_def entry_def member_or_def)
qed

lemma commas_part: "t \<in> set ts \<Longrightarrow> length t \<le> length (commas ts)"
  by (induction ts rule: commas.induct) auto

lemma entry_part: "kv \<in> set kvs \<Longrightarrow> length (dumps rp a (snd kv)) \<le> length (dumps rp a (JObj kvs))"
proof -
  assume "kv \<in> set kvs"
  then have "entry_text rp a kv \<in> set (map (entry_text rp a) (sort_key fst kvs))" by simp
  from commas_part [OF this] show ?thesis by (simp add: entry_text_def [abs_def])
qed

lemma prefix_json_ok:
  assumes "prefix_ok p" and "length (dumps rp False (JObj (prefix_object p))) \<le> 4096"
  shows "json_ok (JObj (sort_key fst (prefix_object p)))"
proof -
  have s: "list_all scalar_value (logical_sha256 p)" "list_all scalar_value (plaintext_sha256 p)" "list_all scalar_value (prefix_file p)"
    using assms(1) hex_scalar by (auto simp: prefix_ok_def digest_text_def opaque_text_def)
  have i: "length (decimal (nat \<bar>j\<bar>)) \<le> 4300" if "(k, JInt j) \<in> set (prefix_object p)" for k j
  proof -
    have "length (int_text j) \<le> 4096" using entry_part [OF that, of rp False] assms(2) by simp
    moreover have "length (decimal (nat \<bar>j\<bar>)) \<le> length (int_text j)" by (cases "j < 0") (auto simp: int_text_def abs_if)
    ultimately show ?thesis by linarith
  qed
  have "distinct (map fst (sort_key fst (prefix_object p)))"
    using prefix_object_keys(1) [of p] by (simp add: distinct_map)
  moreover have "list_all scalar_value (fst kv) \<and> json_ok (snd kv)" if "kv \<in> set (prefix_object p)" for kv
  proof -
    have "fst kv \<in> set (map u prefix_keys)" using that prefix_object_keys(2) [of p] by auto
    then have "list_all scalar_value (fst kv)" using u_scalar by auto
    moreover have "json_ok (JInt (prefix_offset p))" "json_ok (JInt (prefix_length p))" "json_ok (JInt (prefix_index p))"
      "json_ok (JInt (prefix_count p))" 
      using i [of "u ''offset''" "prefix_offset p"] i [of "u ''length''" "prefix_length p"]
        i [of "u ''segment_index''" "prefix_index p"] i [of "u ''segment_count''" "prefix_count p"]
      by (simp_all add: prefix_object_def)
    with that s have "json_ok (snd kv)" by (auto simp: prefix_object_def simp del: json_ok.simps(2))
    ultimately show ?thesis by blast
  qed
  ultimately show ?thesis by (simp add: list_all_iff)
qed

lemma dumps_sort: "dumps rp a (JObj (sort_key fst kvs)) = dumps rp a (JObj kvs)"
  by (simp add: sort_key_id_if_sorted)

lemma encode_decode_prefix:
  assumes "encode_message_prefix rp p = Inr v"
  shows "decode_message_prefix fl rp v = Inr p"
proof -
  let ?t = "dumps rp False (JObj (prefix_object p))" and ?s = "sort_key fst (prefix_object p)"
  from assms obtain bs where p: "prefix_ok p" and bs: "utf8_encode ?t = Some bs" "length bs \<le> max_prefix"
    and v: "v = message_magic @ pack_u32 (length bs) @ bs" by (auto simp: encode_prefix_iff)
  have tl: "length ?t \<le> 4096" using utf8_encode_length [OF bs(1)] bs(2) by (simp add: max_prefix_def)
  have ok: "json_ok (JObj ?s)" by (rule prefix_json_ok [OF p tl])
  have l: "loads fl ?t = Some (JObj ?s)" using loads_dumps [OF ok, of fl rp False] by (simp only: dumps_sort)
  have "?t \<noteq> []" by simp
  then have ne: "bs \<noteq> []" using utf8_encode_length [OF bs(1)] by auto
  have pc: "parse_canonical fl rp bs max_prefix = Inr ?s"
    using ne bs utf8_round_trip [OF bs(1)] l
    by (simp add: parse_canonical_def canonical_bytes_def dumps_sort del: dumps.simps)
  have n: "unpack_u32 (pack_u32 (length bs)) = length bs" using bs(2) by (intro unpack_pack) (simp add: max_prefix_def)
  have pl: "length (pack_u32 k) = 4" for k by (simp add: pack_u32_def)
  have parts: "take 7 v = message_magic" "take 4 (drop 7 v) = pack_u32 (length bs)" "drop 11 v = bs" "length v = 11 + length bs"
    by (simp_all add: v magic_length pl)
  have "distinct (map fst ?s)" using prefix_object_keys(1) [of p] by (simp add: distinct_map)
  note e = prefix_entries [OF this, of p, simplified]
  have "keys_are ?s prefix_keys" using prefix_object_keys(2) [of p] by (simp add: keys_are_def)
  with p bs(2) ne show ?thesis
    unfolding decode_message_prefix_def parts n Let_def pc
    by (simp add: pc e validate_digest_def validate_opaque_id_def text_where_def int_from_def prefix_ok_def Suc_le_eq)
qed

definition prefix_fields :: "(pytext \<times> json) list \<Rightarrow> message_prefix \<Rightarrow> bool" where
  "prefix_fields obj p \<longleftrightarrow>
     (\<exists>ls fid off len si sc ps. entry obj ''logical_sha256'' = JStr ls \<and> digest_text ls \<and> entry obj ''file_id'' = JStr fid \<and>
        opaque_text fid \<and> int_from 0 (entry obj ''offset'') = Inr off \<and> int_from 0 (entry obj ''length'') = Inr len \<and>
        int_from 0 (entry obj ''segment_index'') = Inr si \<and> int_from 0 (entry obj ''segment_count'') = Inr sc \<and>
        1 \<le> sc \<and> si < sc \<and> entry obj ''plaintext_sha256'' = JStr ps \<and> digest_text ps \<and>
        p = \<lparr>logical_sha256 = ls, prefix_file = fid, prefix_offset = int off, prefix_length = int len,
             prefix_index = int si, prefix_count = int sc, plaintext_sha256 = ps\<rparr>)"

lemma decode_message_prefix_cases:
  "decode_message_prefix fl rp v = Inr p \<longleftrightarrow>
     (let n = unpack_u32 (take 4 (drop 7 v)) in
      take 7 v = message_magic \<and> 11 \<le> length v \<and> 1 \<le> n \<and> n \<le> max_prefix \<and> length v = 11 + n \<and>
      (\<exists>obj. parse_canonical fl rp (drop 11 v) max_prefix = Inr obj \<and> keys_are obj prefix_keys \<and> prefix_fields obj p))"
  unfolding decode_message_prefix_def Let_def rbind_Inr_iff require_Inr_iff sum.inject(2) prefix_fields_def validate_digest_def validate_opaque_id_def
    text_where_Inr
  by blast

lemma int_from_entry: "int_from 0 v = Inr n \<Longrightarrow> v = JInt (int n)"
  by (auto simp: int_from_Inr)

lemma prefix_fields_entries:
  assumes "prefix_fields obj p"
  shows "entry obj ''logical_sha256'' = JStr (logical_sha256 p)" "entry obj ''file_id'' = JStr (prefix_file p)"
    "entry obj ''offset'' = JInt (prefix_offset p)" "entry obj ''length'' = JInt (prefix_length p)"
    "entry obj ''segment_index'' = JInt (prefix_index p)" "entry obj ''segment_count'' = JInt (prefix_count p)"
    "entry obj ''plaintext_sha256'' = JStr (plaintext_sha256 p)"
  using assms unfolding prefix_fields_def by (auto dest: int_from_entry)

lemma prefix_fields_ok: "prefix_fields obj p \<Longrightarrow> prefix_ok p"
  by (auto simp: prefix_fields_def prefix_ok_def)

lemma parse_canonical_Inr:
  assumes "parse_canonical fl rp bs m = Inr obj"
  shows "\<exists>t. loads fl t = Some (JObj obj) \<and> utf8_encode (dumps rp False (JObj obj)) = Some bs"
proof -
  from assms obtain t v where "loads fl t = Some v" "as_obj v = Some obj" "canonical_bytes rp v = Inr bs"
    unfolding parse_canonical_def by (auto simp: result_simps expect_some_def split: option.splits simp del: dumps.simps)
  moreover from this have "v = JObj obj" by (cases v) auto
  ultimately show ?thesis by (auto simp: canonical_bytes_def expect_some_def simp del: dumps.simps split: option.splits)
qed

lemma four_elements: "length xs = 4 \<Longrightarrow> \<exists>a b c d. xs = [a, b, c, d]"
  by (auto simp: numeral_eq_Suc length_Suc_conv)

lemma decode_encode_prefix:
  assumes "decode_message_prefix fl rp v = Inr p" and "byte_list v"
  shows "encode_message_prefix rp p = Inr v"
proof -
  let ?n = "unpack_u32 (take 4 (drop 7 v))"
  from assms(1) obtain obj where v: "take 7 v = message_magic" "11 \<le> length v" "1 \<le> ?n" "?n \<le> max_prefix" "length v = 11 + ?n"
    and pc: "parse_canonical fl rp (drop 11 v) max_prefix = Inr obj" and k: "keys_are obj prefix_keys"
    and f: "prefix_fields obj p"
    using decode_message_prefix_cases [of fl rp v p] unfolding Let_def by blast
  note e = prefix_fields_entries [OF f] and ok = prefix_fields_ok [OF f]
  from parse_canonical_Inr [OF pc] obtain t where t: "loads fl t = Some (JObj obj)"
    "utf8_encode (dumps rp False (JObj obj)) = Some (drop 11 v)" by blast
  have d: "distinct (map fst obj)" using t(1) by (auto simp: loads_def split: option.splits if_splits)
  have all: "member obj n = Some (entry obj n)" if "n \<in> set prefix_keys" for n
  proof -
    have "u n \<in> set (map fst obj)" using k that by (auto simp: keys_are_def)
    then obtain x where "map_of obj (u n) = Some x" by (metis map_of_eq_None_iff not_None_eq list.set_map)
    then show ?thesis by (simp add: entry_def member_or_def member_def)
  qed
  have "set obj = (\<lambda>n. (u n, entry obj n)) ` set prefix_keys"
  proof
    show "(\<lambda>n. (u n, entry obj n)) ` set prefix_keys \<subseteq> set obj" using all by (auto simp: member_def dest: map_of_SomeD)
    show "set obj \<subseteq> (\<lambda>n. (u n, entry obj n)) ` set prefix_keys"
    proof
      fix kv assume kv: "kv \<in> set obj"
      then obtain n where n: "n \<in> set prefix_keys" "fst kv = u n" using k unfolding keys_are_def by force
      have "map_of obj (fst kv) = Some (snd kv)" using kv d by simp
      with all [OF n(1)] n(2) have "snd kv = entry obj n" by (simp add: member_def)
      with n(2) have "kv = (\<lambda>n. (u n, entry obj n)) n" by (simp add: prod_eq_iff)
      then show "kv \<in> (\<lambda>n. (u n, entry obj n)) ` set prefix_keys" using n(1) by (rule image_eqI)
    qed
  qed
  then have "set obj = set (prefix_object p)" by (simp add: prefix_keys_def prefix_object_def e)
  then have "dumps rp False (JObj obj) = dumps rp False (JObj (prefix_object p))"
    using sort_key_fst_set [OF d prefix_object_keys(1)] by simp
  with t(2) have enc: "utf8_encode (dumps rp False (JObj (prefix_object p))) = Some (drop 11 v)" by (simp del: dumps.simps)
  have "length (take 4 (drop 7 v)) = 4" using v(2) by simp
  then obtain a b c d where four: "take 4 (drop 7 v) = [a, b, c, d]" using four_elements by blast
  have "byte_list [a, b, c, d]"
    using assms(2) set_take_subset [of 4 "drop 7 v"] set_drop_subset [of 7 v] unfolding four byte_list_def list_all_iff by blast
  then have pk: "pack_u32 ?n = take 4 (drop 7 v)" unfolding four by (rule pack_unpack)
  have "v = take 7 v @ take 4 (drop 7 v) @ drop 11 v" 
    using append_take_drop_id [of 7 v] append_take_drop_id [of 4 "drop 7 v"] by simp
  then have e: "v = message_magic @ pack_u32 ?n @ drop 11 v" unfolding v(1) pk .
  have len: "length (drop 11 v) = ?n" by (simp only: length_drop v(5) diff_add_inverse)
  have "v = message_magic @ pack_u32 (length (drop 11 v)) @ drop 11 v" unfolding len by (fact e)
  moreover have "length (drop 11 v) \<le> max_prefix" unfolding len by (fact v(4))
  ultimately show ?thesis unfolding encode_prefix_iff using enc ok by blast
qed

text \<open>C15. The binary prefix of a decrypted message and its claims determine each other: what is encoded
  decodes to the same claims, and a byte string that decodes is the encoding of its claims, so no
  two prefixes claim the same and there is no other spelling.\<close>

theorem message_prefix_round_trip:
  assumes "byte_list v"
  shows "encode_message_prefix rp p = Inr v \<longleftrightarrow> decode_message_prefix fl rp v = Inr p"
  using encode_decode_prefix decode_encode_prefix assms by blast

theorem message_prefix_round_trip_witness:
  "let p = \<lparr>logical_sha256 = replicate 64 48, prefix_file = replicate 32 97, prefix_offset = 5, prefix_length = 3,
            prefix_index = 1, prefix_count = 2, plaintext_sha256 = replicate 64 102\<rparr>;
       v = projr (encode_message_prefix (\<lambda>_. []) p)
   in byte_list v \<and> decode_message_prefix (\<lambda>_. None) (\<lambda>_. []) v = Inr p"
proof -
  let ?p = "\<lparr>logical_sha256 = replicate 64 48, prefix_file = replicate 32 97, prefix_offset = 5, prefix_length = 3,
            prefix_index = 1, prefix_count = 2, plaintext_sha256 = replicate 64 102\<rparr>"
  let ?e = "encode_message_prefix (\<lambda>_. []) ?p"
  have e: "?e = Inr (projr ?e)" by code_simp
  have b: "byte_list (projr ?e)" by code_simp
  show ?thesis unfolding Let_def using b message_prefix_round_trip [OF b] e by blast
qed

end
