(* ===== verification/Readers.thy ===== *)
theory Readers
  imports Python Text_Grammars Json_Text "HOL-Library.Code_Target_Nat" "HOL-Library.Code_Target_Int"
begin

text \<open>
  Reading a parsed JSON object into a record, and the ASCII JSON text that records of a fixed schema are stored in:
  the field readers several modules share, and the lemmas that carry such a text back to its record.
\<close>

section \<open>Field readers\<close>

definition text_in :: "string list \<Rightarrow> json \<Rightarrow> pytext option" where
  "text_in names v = (case as_str v of Some s \<Rightarrow> if s \<in> set (map u names) then Some s else None | None \<Rightarrow> None)"

definition int_in :: "int \<Rightarrow> int \<Rightarrow> json \<Rightarrow> int option" where
  "int_in low high v = (case as_int v of Some i \<Rightarrow> if low \<le> i \<and> i \<le> high then Some i else None | None \<Rightarrow> None)"

definition digest_in :: "json \<Rightarrow> pytext option" where
  "digest_in v = (case as_str v of Some s \<Rightarrow> if digest_text s then Some s else None | None \<Rightarrow> None)"

text \<open>\<open>value is None or ...\<close>\<close>

definition none_or :: "(json \<Rightarrow> 'a option) \<Rightarrow> json \<Rightarrow> 'a option option" where
  "none_or f v = (if v = JNull then Some None else map_option Some (f v))"

lemma as_simps: "as_str v = Some s \<longleftrightarrow> v = JStr s" "as_int v = Some i \<longleftrightarrow> v = JInt i" "as_list v = Some xs \<longleftrightarrow> v = JList xs"
  "as_obj v = Some kvs \<longleftrightarrow> v = JObj kvs"
  by (cases v; simp)+

lemma reader_simps:
  "text_in names v = Some s \<longleftrightarrow> v = JStr s \<and> s \<in> set (map u names)"
  "int_in low high v = Some i \<longleftrightarrow> v = JInt i \<and> low \<le> i \<and> i \<le> high"
  "digest_in v = Some s \<longleftrightarrow> v = JStr s \<and> digest_text s"
  "none_or f v = Some w \<longleftrightarrow> (v = JNull \<and> w = None \<or> v \<noteq> JNull \<and> (\<exists>x. f v = Some x \<and> w = Some x))"
  "expect_some err t = Inr x \<longleftrightarrow> t = Some x"
  by (auto simp: text_in_def int_in_def digest_in_def none_or_def expect_some_def as_simps split: option.splits if_splits)

lemma map_JInt [simp]: "map JInt ns = map JInt ms \<longleftrightarrow> ns = ms"
  by (simp add: inj_map_eq_map inj_def)

lemma int_list: "all_some (map (int_in low high) xs) = Some ns \<longleftrightarrow> xs = map JInt ns \<and> (\<forall>n \<in> set ns. low \<le> n \<and> n \<le> high)"
  unfolding all_some_Some by (induction xs arbitrary: ns) (auto simp: reader_simps Cons_eq_map_conv)

section \<open>Stored text\<close>

definition opt_text :: "pytext option \<Rightarrow> json" where
  "opt_text t = (case t of None \<Rightarrow> JNull | Some s \<Rightarrow> JStr s)"

text \<open>The ASCII text of a record without floats.\<close>

definition ascii_json :: "json \<Rightarrow> bytes" where
  "ascii_json v = dumps (\<lambda>_. []) True v"

lemma decimal_short: "n < 10 ^ Suc k \<Longrightarrow> length (decimal n) \<le> Suc k"
proof (induction k arbitrary: n)
  case (Suc k)
  show ?case
  proof (cases "n < 10")
    case False
    have "n div 10 < 10 ^ Suc k" using Suc.prems by (simp add: div_less_iff_less_mult mult.commute)
    from Suc.IH [OF this] False show ?thesis by (subst decimal.simps) simp
  qed (simp add: decimal.simps)
qed (simp add: decimal.simps)

lemma int_digits: "\<bar>i\<bar> < 10000000000 \<Longrightarrow> length (decimal (nat \<bar>i\<bar>)) \<le> 4300"
proof -
  assume "\<bar>i\<bar> < 10000000000"
  then have "nat \<bar>i\<bar> < 10 ^ Suc 9" by (simp add: nat_less_iff)
  from decimal_short [OF this] show ?thesis by simp
qed

definition ascii_text :: "pytext \<Rightarrow> bool" where
  "ascii_text t \<longleftrightarrow> list_all (\<lambda>c. c < 128) t"

lemma ascii_text_simps [simp]:
  "ascii_text []" "ascii_text (c # t) \<longleftrightarrow> c < 128 \<and> ascii_text t" "ascii_text (s @ t) \<longleftrightarrow> ascii_text s \<and> ascii_text t"
  by (simp_all add: ascii_text_def)

lemma ascii_hex: "n < 16 \<Longrightarrow> hex_char n < 128"
  by (simp add: hex_char_def)

lemma ascii_escape: "c < 65536 \<Longrightarrow> ascii_text (u_escape c)"
  by (simp add: u_escape_def ascii_hex div_less_iff_less_mult)

lemma ascii_quote: "scalar_value c \<Longrightarrow> ascii_text (quote_char True c)"
proof -
  assume "scalar_value c"
  then have c: "c < 1114112" by (simp add: scalar_value_def code_point_def)
  show ?thesis
  proof (cases "c < 65536")
    case True
    then show ?thesis by (auto simp: quote_char_def ascii_escape)
  next
    case False
    then have "(c - 65536) div 1024 < 1024" using c by (simp add: div_less_iff_less_mult)
    moreover have "(c - 65536) mod 1024 < 1024" by simp
    ultimately have "55296 + (c - 65536) div 1024 < 65536" "56320 + (c - 65536) mod 1024 < 65536" by linarith+
    with False show ?thesis by (auto simp: quote_char_def ascii_escape)
  qed
qed

lemma ascii_quoted: "list_all scalar_value s \<Longrightarrow> ascii_text (quoted True s)"
  unfolding quoted_def by (induction s) (auto simp: ascii_quote)

lemma ascii_decimal: "ascii_text (decimal n)"
  using decimal_digits(1) [of n] by (auto simp: ascii_text_def list_all_iff)

lemma ascii_commas: "\<forall>t \<in> set ts. ascii_text t \<Longrightarrow> ascii_text (commas ts)"
  by (induction ts rule: commas.induct) auto

lemma ascii_dumps: "json_ok v \<Longrightarrow> ascii_text (dumps rp True v)"
proof (induction rp "True" v rule: dumps.induct)
  case (3 rp i)
  then show ?case by (simp add: int_text_def ascii_decimal)
next
  case (6 rp xs)
  then show ?case by (auto intro!: ascii_commas simp: list_all_iff)
next
  case (7 rp kvs)
  then show ?case by (auto intro!: ascii_commas simp: list_all_iff ascii_quoted)
qed (auto simp: u_def ascii_quoted)

lemma ascii_bytes: "ascii_text t \<Longrightarrow> utf8_decode t = Some t"
proof -
  assume t: "ascii_text t"
  then have "list_all scalar_value t"
    by (auto simp: ascii_text_def list_all_iff scalar_value_def code_point_def surrogate_def)
  moreover have "concat (map encode_char t) = t" using t by (induction t) (auto simp: encode_char_def)
  ultimately show ?thesis using utf8_decode_concat by metis
qed

lemma loads_ascii_json: "json_ok v \<Longrightarrow> Option.bind (utf8_decode (ascii_json v)) (loads fl) = Some v"
  by (simp add: ascii_json_def ascii_bytes ascii_dumps loads_dumps)

lemma entries [simp]:
  "entry ((u m, v) # kvs) n = (if u m = u n then v else entry kvs n)"
  by (simp add: entry_def member_or_def member_def)

lemma opt_text_scalar: "(\<And>s. t = Some s \<Longrightarrow> list_all scalar_value s) \<Longrightarrow> json_ok (opt_text t)"
  by (simp add: opt_text_def split: option.split)

lemma name_scalar: "s \<in> set (map u names) \<Longrightarrow> list_all scalar_value s"
  using u_scalar by auto

lemma digest_scalar: "digest_text s \<Longrightarrow> list_all scalar_value s"
  using hex_scalar by (auto simp: digest_text_def)

lemma int_ok: "\<bar>i\<bar> < 10000000000 \<Longrightarrow> json_ok (JInt i)"
  using int_digits by simp

declare json_ok.simps(2) [simp del]

lemma object_ok:
  "sorted (map u names) \<Longrightarrow> distinct names \<Longrightarrow> length vs = length names \<Longrightarrow> \<forall>v \<in> set vs. json_ok v \<Longrightarrow>
     json_ok (JObj (zip (map u names) vs))"
proof -
  assume a: "sorted (map u names)" "distinct names" "length vs = length names" "\<forall>v \<in> set vs. json_ok v"
  have "list_all scalar_value (fst kv) \<and> json_ok (snd kv)" if "kv \<in> set (zip (map u names) vs)" for kv
  proof -
    have "(fst kv, snd kv) \<in> set (zip (map u names) vs)" using that by simp
    then have "fst kv \<in> set (map u names)" "snd kv \<in> set vs" by (blast dest: set_zip_leftD set_zip_rightD)+
    with a(4) u_scalar show ?thesis by auto
  qed
  with a show ?thesis by (simp add: list_all_iff distinct_map inj_on_def)
qed

end
