(* ===== verification/Event_Buffer.thy ===== *)
theory Event_Buffer
  imports Readers
begin

text \<open>
  The bounded event views of a supervised run (\<open>src/ls/core/agent/event_buffer.py\<close>): the canonical snapshot a
  run keeps of its latest events, the pages an owner reads from it, and the writer that appends to it and drops
  the oldest events. SHA-256 and the reading of floats are parameters; the file system, the lock and the
  caller's check are the environment's answers to each call. The dictionaries with a fixed set of keys are
  records, whose JSON has its keys in the order \<open>sort_keys\<close> gives; of the encodings \<open>json.loads\<close> guesses for
  bytes, strict UTF-8 is modelled (the canonical form the code asks for is ASCII).
\<close>

definition max_bytes :: int where "max_bytes = 2097152"
definition max_events :: int where "max_events = 256"
definition max_lines :: int where "max_lines = 20000"
definition max_event :: int where "max_event = 1048576"
definition max_total :: int where "max_total = 16777216"

section \<open>Records\<close>

record event_filter =
  ef_action :: pytext
  ef_matches :: int
  ef_orders :: "int list"
  ef_policy :: pytext

record event =
  ev_sequence :: int
  ev_type :: pytext
  ev_text :: "pytext option"
  ev_filter :: event_filter
  ev_status :: "pytext option"
  ev_checkpoint :: "pytext option"

record event_snapshot =
  sn_task :: pytext
  sn_session :: pytext
  sn_run :: pytext
  sn_last :: int
  sn_total :: int
  sn_events :: "event list"

definition filter_json :: "event_filter \<Rightarrow> json" where
  "filter_json f =
     JObj [(u ''action'', JStr (ef_action f)), (u ''matches'', JInt (ef_matches f)),
           (u ''orders'', JList (map JInt (ef_orders f))), (u ''policy_sha256'', JStr (ef_policy f)),
           (u ''schema_version'', JInt 1)]"

definition event_json :: "event \<Rightarrow> json" where
  "event_json e =
     JObj [(u ''checkpoint'', opt_text (ev_checkpoint e)), (u ''filter'', filter_json (ev_filter e)),
           (u ''sequence'', JInt (ev_sequence e)), (u ''status'', opt_text (ev_status e)),
           (u ''text'', opt_text (ev_text e)), (u ''type'', JStr (ev_type e))]"

definition snapshot_json :: "event_snapshot \<Rightarrow> json" where
  "snapshot_json s =
     JObj [(u ''events'', JList (map event_json (sn_events s))), (u ''last'', JInt (sn_last s)),
           (u ''run'', JStr (sn_run s)), (u ''schema_version'', JInt 1), (u ''session'', JStr (sn_session s)),
           (u ''task'', JStr (sn_task s)), (u ''total_bytes'', JInt (sn_total s))]"

definition event_size :: "event \<Rightarrow> int" where
  "event_size e = int (length (ascii_json (event_json e)))"

definition event_lines :: "event \<Rightarrow> int" where
  "event_lines e = (case ev_text e of None \<Rightarrow> 0 | Some t \<Rightarrow> int (length (filter (\<lambda>c. c = 10) t)) + 1)"

section \<open>Reading\<close>

definition identity_ok :: "pytext \<Rightarrow> pytext \<Rightarrow> pytext \<Rightarrow> bool" where
  "identity_ok task session run \<longleftrightarrow> journal_id task \<and> journal_id session \<and> hex_text 32 run"

definition check_identity :: "pytext \<Rightarrow> pytext \<Rightarrow> pytext \<Rightarrow> (py_error, unit) result" where
  "check_identity task session run = require (identity_ok task session run) (ValueError ''Invalid event buffer identity'')"

definition status_names :: "string list" where
  "status_names = [''completed'', ''cancelled'', ''timed_out'', ''output_limit'', ''failed'']"

definition action_names :: "string list" where
  "action_names = [''allow'', ''transform'', ''block'', ''quarantine'']"

definition filter_keys :: "string list" where
  "filter_keys = [''schema_version'', ''action'', ''orders'', ''matches'', ''policy_sha256'']"

definition event_keys :: "string list" where
  "event_keys = [''sequence'', ''type'', ''text'', ''filter'', ''status'', ''checkpoint'']"

definition snapshot_keys :: "string list" where
  "snapshot_keys = [''schema_version'', ''task'', ''session'', ''run'', ''last'', ''total_bytes'', ''events'']"

text \<open>\<open>status not in STATUSES\<close> hashes the status: a list or an object raises TypeError.\<close>

definition read_status :: "json \<Rightarrow> (py_error, pytext option) result" where
  "read_status v =
     (case v of JList _ \<Rightarrow> Inl TypeError | JObj _ \<Rightarrow> Inl TypeError
      | _ \<Rightarrow> expect_some (ValueError ''Invalid retained event'') (none_or (text_in status_names) v))"

definition read_orders :: "json \<Rightarrow> int list option" where
  "read_orders v =
     (case as_list v of None \<Rightarrow> None
      | Some xs \<Rightarrow>
          (case all_some (map (int_in 1 2147483647) xs) of None \<Rightarrow> None
           | Some ns \<Rightarrow> if length xs \<le> 64 \<and> ns = sorted_list_of_set (set ns) then Some ns else None))"

definition read_filter :: "json \<Rightarrow> (py_error, event_filter) result" where
  "read_filter v =
     (let bad = ValueError ''Invalid retained filter metadata'' in
      rbind (expect_some bad (as_obj v)) (\<lambda>obj.
      rbind (require (keys_are obj filter_keys) bad) (\<lambda>_.
      rbind (expect_some bad (int_in 1 1 (entry obj ''schema_version''))) (\<lambda>_.
      rbind (expect_some bad (text_in action_names (entry obj ''action''))) (\<lambda>a.
      rbind (expect_some bad (read_orders (entry obj ''orders''))) (\<lambda>ns.
      rbind (expect_some bad (int_in 0 4096 (entry obj ''matches''))) (\<lambda>m.
      rbind (expect_some bad (digest_in (entry obj ''policy_sha256''))) (\<lambda>p.
        Inr \<lparr>ef_action = a, ef_matches = m, ef_orders = ns, ef_policy = p\<rparr>))))))))"

definition hidden_action :: "pytext \<Rightarrow> bool" where
  "hidden_action a \<longleftrightarrow> a = u ''block'' \<or> a = u ''quarantine''"

definition read_record :: "json \<Rightarrow> (py_error, event) result" where
  "read_record v =
     (let bad = ValueError ''Invalid retained event''; meta = ValueError ''Invalid retained filter metadata'' in
      rbind (expect_some bad (as_obj v)) (\<lambda>obj.
      rbind (require (keys_are obj event_keys) bad) (\<lambda>_.
      rbind (expect_some bad (int_in 1 10001 (entry obj ''sequence''))) (\<lambda>n.
      rbind (expect_some bad (text_in [''text'', ''result''] (entry obj ''type''))) (\<lambda>ty.
      rbind (expect_some bad (none_or as_str (entry obj ''text''))) (\<lambda>t.
      rbind (read_status (entry obj ''status'')) (\<lambda>st.
      rbind (expect_some bad (none_or digest_in (entry obj ''checkpoint''))) (\<lambda>cp.
      rbind (read_filter (entry obj ''filter'')) (\<lambda>f.
      rbind (require ((t = None) = hidden_action (ef_action f)) meta) (\<lambda>_.
      let e = \<lparr>ev_sequence = n, ev_type = ty, ev_text = t, ev_filter = f, ev_status = st, ev_checkpoint = cp\<rparr> in
      rbind (require (event_size e \<le> max_event) (ValueError ''Retained event exceeds byte limit'')) (\<lambda>_.
        Inr e)))))))))))"

definition read_event_at :: "event list \<times> int \<Rightarrow> json \<Rightarrow> (py_error, event list \<times> int) result" where
  "read_event_at s v =
     (case s of (es, index) \<Rightarrow>
        rbind (read_record v) (\<lambda>e.
        rbind (require (ev_sequence e = index) (ValueError ''Event sequence gap inside retained range'')) (\<lambda>_.
          Inr (es @ [e], index + 1))))"

definition snapshot_bounds :: "event_snapshot \<Rightarrow> bool" where
  "snapshot_bounds s \<longleftrightarrow>
     \<not> (sn_events s = [] \<and> (sn_last s \<noteq> 0 \<or> sn_total s \<noteq> 0)) \<and>
     sum_list (map event_size (sn_events s)) \<le> sn_total s \<and> sum_list (map event_lines (sn_events s)) \<le> max_lines"

definition read_snapshot ::
    "(pytext \<Rightarrow> rat option) \<Rightarrow> bytes \<Rightarrow> pytext \<Rightarrow> pytext \<Rightarrow> pytext \<Rightarrow> (py_error, event_snapshot) result" where
  "read_snapshot fl raw task session run =
     (let bad = ValueError ''Invalid event snapshot'' in
      rbind (check_identity task session run) (\<lambda>_.
      rbind (require (int (length raw) \<le> max_bytes) (ValueError ''Event buffer exceeds byte limit'')) (\<lambda>_.
      rbind (expect_some (ValueError ''JSON'') (Option.bind (utf8_decode raw) (loads fl))) (\<lambda>v.
      rbind (expect_some bad (as_obj v)) (\<lambda>obj.
      rbind (require (keys_are obj snapshot_keys) bad) (\<lambda>_.
      rbind (expect_some bad (int_in 1 1 (entry obj ''schema_version''))) (\<lambda>_.
      rbind (require (entry obj ''task'' = JStr task \<and> entry obj ''session'' = JStr session \<and> entry obj ''run'' = JStr run) bad) (\<lambda>_.
      rbind (expect_some bad (int_in 0 10001 (entry obj ''last''))) (\<lambda>last_n.
      rbind (expect_some bad (int_in 0 max_total (entry obj ''total_bytes''))) (\<lambda>total_n.
      rbind (expect_some bad (as_list (entry obj ''events''))) (\<lambda>vs.
      rbind (require (int (length vs) \<le> max_events) bad) (\<lambda>_.
      rbind (rfold read_event_at ([], last_n - int (length vs) + 1) vs) (\<lambda>(es, _).
      let s = \<lparr>sn_task = task, sn_session = session, sn_run = run, sn_last = last_n, sn_total = total_n, sn_events = es\<rparr> in
      rbind (require (snapshot_bounds s \<and> ascii_json (snapshot_json s) = raw)
               (ValueError ''Invalid event snapshot bounds or encoding'')) (\<lambda>_.
        Inr s))))))))))))))"

section \<open>Pages\<close>

record event_page =
  pg_checkpoint :: pytext
  pg_first :: int
  pg_last :: int
  pg_gap :: "(int \<times> int) option"
  pg_events :: "event list"
  pg_after :: int
  pg_more :: bool
  pg_required :: "int option"

definition page_json :: "pytext \<Rightarrow> pytext \<Rightarrow> pytext \<Rightarrow> event_page \<Rightarrow> json" where
  "page_json task session run p =
     JObj [(u ''schema_version'', JInt 1), (u ''task'', JStr task), (u ''session'', JStr session),
           (u ''run'', JStr run), (u ''checkpoint'', JStr (pg_checkpoint p)), (u ''first'', JInt (pg_first p)),
           (u ''last'', JInt (pg_last p)),
           (u ''gap'', case pg_gap p of None \<Rightarrow> JNull | Some (a, b) \<Rightarrow> JObj [(u ''from'', JInt a), (u ''through'', JInt b)]),
           (u ''events'', JList (map event_json (pg_events p))),
           (u ''next_cursor'', JObj [(u ''run'', JStr run), (u ''after'', JInt (pg_after p))]),
           (u ''more'', JBool (pg_more p)), (u ''required_bytes'', case pg_required p of None \<Rightarrow> JNull | Some n \<Rightarrow> JInt n)]"

definition page_size :: "pytext \<Rightarrow> pytext \<Rightarrow> pytext \<Rightarrow> event_page \<Rightarrow> int" where
  "page_size task session run p = int (length (ascii_json (page_json task session run p)))"

fun page_loop :: "event_snapshot \<Rightarrow> int \<Rightarrow> int \<Rightarrow> int \<Rightarrow> event list \<Rightarrow> event_page \<Rightarrow> event_page" where
  "page_loop s cursor limit maximum [] r = r"
| "page_loop s cursor limit maximum (e # es) r =
     (if ev_sequence e \<le> cursor then page_loop s cursor limit maximum es r
      else
        let c = r\<lparr>pg_events := pg_events r @ [e], pg_after := ev_sequence e, pg_more := ev_sequence e < sn_last s\<rparr>;
            required = page_size (sn_task s) (sn_session s) (sn_run s) c
        in if maximum < required then (if pg_events r = [] then r\<lparr>pg_required := Some required\<rparr> else r)
           else if int (length (pg_events c)) = limit then c
           else page_loop s cursor limit maximum es c)"

definition first_sequence :: "event_snapshot \<Rightarrow> int" where
  "first_sequence s = (case sn_events s of [] \<Rightarrow> 1 | e # _ \<Rightarrow> ev_sequence e)"

definition page_start :: "(bytes \<Rightarrow> pytext) \<Rightarrow> bytes \<Rightarrow> event_snapshot \<Rightarrow> int \<Rightarrow> event_page" where
  "page_start sha raw s after =
     (let first = first_sequence s; cursor = max after (first - 1) in
      \<lparr>pg_checkpoint = sha raw, pg_first = first, pg_last = sn_last s,
       pg_gap = (if first - 1 \<le> after then None else Some (after + 1, first - 1)), pg_events = [],
       pg_after = cursor, pg_more = cursor < sn_last s, pg_required = None\<rparr>)"

definition page ::
    "(bytes \<Rightarrow> pytext) \<Rightarrow> (pytext \<Rightarrow> rat option) \<Rightarrow> bytes \<Rightarrow> pytext \<Rightarrow> pytext \<Rightarrow> pytext \<Rightarrow> int \<Rightarrow> int \<Rightarrow> int \<Rightarrow> (py_error, event_page) result" where
  "page sha fl raw task session run after limit maximum =
     rbind (require (0 \<le> after \<and> after \<le> 10001 \<and> 1 \<le> limit \<and> limit \<le> max_events \<and> 1024 \<le> maximum \<and> maximum \<le> max_bytes)
              (ValueError ''Invalid event page limits'')) (\<lambda>_.
     rbind (read_snapshot fl raw task session run) (\<lambda>s.
     rbind (require (after \<le> sn_last s) (ValueError ''Event cursor is ahead of this buffer'')) (\<lambda>_.
       Inr (page_loop s (max after (first_sequence s - 1)) limit maximum (sn_events s) (page_start sha raw s after)))))"

section \<open>The writer\<close>

record event_buffer =
  eb_task :: pytext
  eb_session :: pytext
  eb_run :: pytext
  eb_maximum :: int
  eb_count :: int
  eb_lines :: int
  eb_raw :: bytes
  eb_failed :: bool

text \<open>
  What a call meets outside: the caller's check at its three places, whether another call holds the lock, what
  the file holds when it is read back, and whether writing it succeeds.
\<close>

record surroundings =
  sr_checks :: "py_error option \<times> py_error option \<times> py_error option"
  sr_busy :: bool
  sr_file :: "(py_error, bytes) result"
  sr_write :: "py_error option"

definition proceed :: "py_error option \<Rightarrow> (py_error, unit) result" where
  "proceed e = (case e of None \<Rightarrow> Inr () | Some x \<Rightarrow> Inl x)"

definition empty_snapshot :: "pytext \<Rightarrow> pytext \<Rightarrow> pytext \<Rightarrow> event_snapshot" where
  "empty_snapshot task session run =
     \<lparr>sn_task = task, sn_session = session, sn_run = run, sn_last = 0, sn_total = 0, sn_events = []\<rparr>"

text \<open>\<open>setup\<close> is the outcome of preparing the root directory, \<open>runs\<close> the number of its entries.\<close>

definition buffer_new ::
    "surroundings \<Rightarrow> py_error option \<Rightarrow> nat \<Rightarrow> pytext \<Rightarrow> pytext \<Rightarrow> pytext \<Rightarrow> int \<Rightarrow> int \<Rightarrow> int \<Rightarrow> (py_error, event_buffer) result" where
  "buffer_new sr setup runs task session run maximum cnt lns =
     rbind (check_identity task session run) (\<lambda>_.
     rbind (require (1 \<le> maximum \<and> maximum \<le> max_bytes \<and> 1 \<le> cnt \<and> cnt \<le> max_events \<and> 1 \<le> lns \<and> lns \<le> max_lines)
              (ValueError ''Invalid event retention limit'')) (\<lambda>_.
     let raw = ascii_json (snapshot_json (empty_snapshot task session run)) in
     rbind (require (int (length raw) \<le> maximum) (ValueError ''Event retention limit is too small'')) (\<lambda>_.
     rbind (proceed (fst (sr_checks sr))) (\<lambda>_.
     rbind (proceed setup) (\<lambda>_.
     rbind (require (runs < 1000) (ValueError ''Event run inventory is full'')) (\<lambda>_.
     rbind (proceed (sr_write sr)) (\<lambda>_.
     rbind (proceed (snd (snd (sr_checks sr)))) (\<lambda>_.
       Inr \<lparr>eb_task = task, eb_session = session, eb_run = run, eb_maximum = maximum, eb_count = cnt, eb_lines = lns,
            eb_raw = raw, eb_failed = False\<rparr>))))))))"

definition retained :: "event_buffer \<Rightarrow> event_snapshot \<Rightarrow> bool" where
  "retained b s \<longleftrightarrow> int (length (sn_events s)) \<le> eb_count b \<and> sum_list (map event_lines (sn_events s)) \<le> eb_lines b \<and>
     int (length (ascii_json (snapshot_json s))) \<le> eb_maximum b"

text \<open>The loop that drops the oldest events.\<close>

fun trim :: "event_buffer \<Rightarrow> event_snapshot \<Rightarrow> event list \<Rightarrow> (py_error, event_snapshot) result" where
  "trim b s [] = (if retained b (s\<lparr>sn_events := []\<rparr>) then Inr (s\<lparr>sn_events := []\<rparr>) else Inl IndexError)"
| "trim b s (e # es) =
     (if retained b (s\<lparr>sn_events := e # es\<rparr>) then Inr (s\<lparr>sn_events := e # es\<rparr>)
      else if es = [] then Inl (ValueError ''Retained event exceeds buffer capacity'')
      else trim b s es)"

text \<open>The arguments of one append.\<close>

record event_call =
  ec_view :: json
  ec_kind :: json
  ec_status :: json
  ec_checkpoint :: json

definition call_event :: "int \<Rightarrow> event_call \<Rightarrow> (py_error, event) result" where
  "call_event n c =
     rbind (expect_some (ValueError ''Invalid filtered event view'') (as_obj (ec_view c))) (\<lambda>obj.
     rbind (require (keys_are obj [''text'', ''filter'']) (ValueError ''Invalid filtered event view'')) (\<lambda>_.
       read_record (JObj [(u ''sequence'', JInt n), (u ''type'', ec_kind c), (u ''text'', entry obj ''text''),
         (u ''filter'', entry obj ''filter''), (u ''status'', ec_status c), (u ''checkpoint'', ec_checkpoint c)])))"

definition grow :: "event_buffer \<Rightarrow> event_snapshot \<Rightarrow> event \<Rightarrow> (py_error, event_snapshot) result" where
  "grow b s e =
     rbind (require (sn_total s + event_size e \<le> max_total) (ValueError ''Retained event work budget exceeded'')) (\<lambda>_.
     rbind (require (event_lines e \<le> eb_lines b) (ValueError ''Retained event exceeds line limit'')) (\<lambda>_.
       trim b (s\<lparr>sn_last := sn_last s + 1, sn_total := sn_total s + event_size e\<rparr>) (sn_events s @ [e])))"

definition prepare :: "(pytext \<Rightarrow> rat option) \<Rightarrow> event_buffer \<Rightarrow> event_call \<Rightarrow> (py_error, event \<times> bytes) result" where
  "prepare fl b c =
     rbind (read_snapshot fl (eb_raw b) (eb_task b) (eb_session b) (eb_run b)) (\<lambda>s.
     rbind (call_event (sn_last s + 1) c) (\<lambda>e.
     rbind (grow b s e) (\<lambda>s'. Inr (e, ascii_json (snapshot_json s')))))"

definition publish :: "surroundings \<Rightarrow> bytes \<Rightarrow> event_buffer \<Rightarrow> py_error option \<times> event_buffer" where
  "publish sr raw b =
     (let closed = b\<lparr>eb_failed := True\<rparr> in
      case sr_file sr of Inl e \<Rightarrow> (Some e, closed)
      | Inr file \<Rightarrow>
          if file \<noteq> eb_raw b then (Some (ValueError ''Event buffer changed outside its writer''), closed)
          else (case sr_write sr of Some e \<Rightarrow> (Some e, closed)
                | None \<Rightarrow> (snd (snd (sr_checks sr)), b\<lparr>eb_raw := raw, eb_failed := False\<rparr>)))"

definition buffer_append ::
    "(pytext \<Rightarrow> rat option) \<Rightarrow> surroundings \<Rightarrow> event_call \<Rightarrow> event_buffer \<Rightarrow> py_error option \<times> event_buffer" where
  "buffer_append fl sr c b =
     (if sr_busy sr then (Some (ValueError ''Event writer is busy''), b)
      else case fst (sr_checks sr) of Some e \<Rightarrow> (Some e, b)
      | None \<Rightarrow>
          if eb_failed b then (Some (ValueError ''Event publication requires reconciliation''), b)
          else (case prepare fl b c of Inl e \<Rightarrow> (Some e, b)
                | Inr (_, raw) \<Rightarrow>
                    (case fst (snd (sr_checks sr)) of Some e \<Rightarrow> (Some e, b)
                     | None \<Rightarrow> publish sr raw b)))"

definition buffer_read ::
    "(bytes \<Rightarrow> pytext) \<Rightarrow> (pytext \<Rightarrow> rat option) \<Rightarrow> event_buffer \<Rightarrow> int \<Rightarrow> int \<Rightarrow> int \<Rightarrow> (py_error, event_page) result" where
  "buffer_read sha fl b after limit maximum =
     page sha fl (eb_raw b) (eb_task b) (eb_session b) (eb_run b) after limit maximum"


section \<open>Snapshots read back\<close>

text \<open>What the reader guarantees of an event; \<open>plain_event\<close> adds that its text holds no surrogate.\<close>

definition filter_ok :: "event_filter \<Rightarrow> bool" where
  "filter_ok f \<longleftrightarrow> ef_action f \<in> set (map u action_names) \<and> 0 \<le> ef_matches f \<and> ef_matches f \<le> 4096 \<and>
     (\<forall>n \<in> set (ef_orders f). 1 \<le> n \<and> n \<le> 2147483647) \<and> length (ef_orders f) \<le> 64 \<and>
     ef_orders f = sorted_list_of_set (set (ef_orders f)) \<and> digest_text (ef_policy f)"

definition event_ok :: "event \<Rightarrow> bool" where
  "event_ok e \<longleftrightarrow> 1 \<le> ev_sequence e \<and> ev_sequence e \<le> 10001 \<and> ev_type e \<in> {u ''text'', u ''result''} \<and>
     (\<forall>s. ev_status e = Some s \<longrightarrow> s \<in> set (map u status_names)) \<and>
     (\<forall>d. ev_checkpoint e = Some d \<longrightarrow> digest_text d) \<and> filter_ok (ev_filter e) \<and>
     (ev_text e = None) = hidden_action (ef_action (ev_filter e)) \<and> event_size e \<le> max_event"

definition plain_event :: "event \<Rightarrow> bool" where
  "plain_event e \<longleftrightarrow> (\<forall>t. ev_text e = Some t \<longrightarrow> list_all scalar_value t)"

lemma read_status_Inr:
  "read_status v = Inr w \<longleftrightarrow> (v = JNull \<and> w = None \<or> (\<exists>s. v = JStr s \<and> s \<in> set (map u status_names) \<and> w = Some s))"
  by (cases v) (auto simp: read_status_def reader_simps)

lemma read_orders_Some:
  "read_orders v = Some ns \<longleftrightarrow> v = JList (map JInt ns) \<and> (\<forall>n \<in> set ns. 1 \<le> n \<and> n \<le> 2147483647) \<and>
     length ns \<le> 64 \<and> ns = sorted_list_of_set (set ns)"
proof (cases v)
  case (JList xs)
  show ?thesis
  proof (cases "all_some (map (int_in 1 2147483647) xs)")
    case None
    with int_list [of 1 2147483647 xs ns] show ?thesis by (auto simp: read_orders_def JList)
  next
    case (Some ms)
    with int_list [of 1 2147483647 xs ms] show ?thesis by (auto simp: read_orders_def JList)
  qed
qed (simp_all add: read_orders_def)

lemma read_filter_Inr:
  "read_filter v = Inr f \<longleftrightarrow> (\<exists>obj. v = JObj obj \<and> keys_are obj filter_keys \<and> entry obj ''schema_version'' = JInt 1 \<and>
     entry obj ''action'' = JStr (ef_action f) \<and> entry obj ''orders'' = JList (map JInt (ef_orders f)) \<and>
     entry obj ''matches'' = JInt (ef_matches f) \<and> entry obj ''policy_sha256'' = JStr (ef_policy f) \<and> filter_ok f)"
  unfolding read_filter_def Let_def rbind_Inr_iff require_Inr_iff sum.inject(2) reader_simps as_simps read_orders_Some filter_ok_def
  by (cases f) auto

lemma read_record_Inr:
  "read_record v = Inr e \<longleftrightarrow> (\<exists>obj. v = JObj obj \<and> keys_are obj event_keys \<and> entry obj ''sequence'' = JInt (ev_sequence e) \<and>
     entry obj ''type'' = JStr (ev_type e) \<and> entry obj ''text'' = opt_text (ev_text e) \<and>
     entry obj ''status'' = opt_text (ev_status e) \<and> entry obj ''checkpoint'' = opt_text (ev_checkpoint e) \<and>
     read_filter (entry obj ''filter'') = Inr (ev_filter e) \<and> event_ok e)"
  (is "?L \<longleftrightarrow> ?R")
proof
  assume ?L
  then obtain obj ty t st cp f n where o: "v = JObj obj" "keys_are obj event_keys" "entry obj ''sequence'' = JInt n"
      "1 \<le> n" "n \<le> 10001" "text_in [''text'', ''result''] (entry obj ''type'') = Some ty"
      "none_or as_str (entry obj ''text'') = Some t" "read_status (entry obj ''status'') = Inr st"
      "none_or digest_in (entry obj ''checkpoint'') = Some cp" "read_filter (entry obj ''filter'') = Inr f"
      "(t = None) = hidden_action (ef_action f)"
      "e = \<lparr>ev_sequence = n, ev_type = ty, ev_text = t, ev_filter = f, ev_status = st, ev_checkpoint = cp\<rparr>" "event_size e \<le> max_event"
    unfolding read_record_def Let_def rbind_Inr_iff require_Inr_iff sum.inject(2) reader_simps(2,5) as_simps by blast
  moreover have "filter_ok f" using o(10) unfolding read_filter_Inr by blast
  ultimately show ?R unfolding event_ok_def opt_text_def
    by (auto simp: reader_simps as_simps read_status_Inr)
next
  assume ?R
  then show ?L
    unfolding read_record_def Let_def rbind_Inr_iff require_Inr_iff sum.inject(2) reader_simps as_simps read_status_Inr event_ok_def
    by (cases e) (auto simp: opt_text_def split: option.splits)
qed



lemma filter_json_ok:
  assumes "filter_ok f"
  shows "json_ok (filter_json f)"
proof -
  have "json_ok (JList (map JInt (ef_orders f)))" using assms by (auto simp: filter_ok_def list_all_iff intro!: int_ok)
  moreover have "json_ok (JInt (ef_matches f))" using assms by (intro int_ok) (simp add: filter_ok_def)
  ultimately have "json_ok (JObj (zip (map u [''action'', ''matches'', ''orders'', ''policy_sha256'', ''schema_version''])
      [JStr (ef_action f), JInt (ef_matches f), JList (map JInt (ef_orders f)), JStr (ef_policy f), JInt 1]))"
    using assms name_scalar [of "ef_action f" action_names] digest_scalar [of "ef_policy f"]
    by (intro object_ok) (simp_all add: filter_ok_def int_ok, simp add: u_def)
  then show ?thesis by (simp add: filter_json_def)
qed

lemma event_json_ok:
  assumes "event_ok e" and "plain_event e"
  shows "json_ok (event_json e)"
proof -
  have "json_ok (opt_text (ev_checkpoint e))" using assms digest_scalar by (intro opt_text_scalar) (auto simp: event_ok_def)
  moreover have "json_ok (opt_text (ev_status e))" using assms name_scalar by (intro opt_text_scalar) (auto simp: event_ok_def)
  moreover have "json_ok (opt_text (ev_text e))" using assms by (intro opt_text_scalar) (auto simp: plain_event_def)
  moreover have "json_ok (JInt (ev_sequence e))" using assms by (intro int_ok) (simp add: event_ok_def)
  moreover have "json_ok (JStr (ev_type e))" using assms u_scalar by (auto simp: event_ok_def)
  moreover have "json_ok (filter_json (ev_filter e))" using assms by (intro filter_json_ok) (simp add: event_ok_def)
  ultimately have "json_ok (JObj (zip (map u [''checkpoint'', ''filter'', ''sequence'', ''status'', ''text'', ''type''])
      [opt_text (ev_checkpoint e), filter_json (ev_filter e), JInt (ev_sequence e), opt_text (ev_status e),
       opt_text (ev_text e), JStr (ev_type e)]))"
    by (intro object_ok) (simp_all, simp add: u_def)
  then show ?thesis by (simp add: event_json_def)
qed

lemma read_event_json: "event_ok e \<Longrightarrow> read_record (event_json e) = Inr e"
  unfolding read_record_Inr read_filter_Inr
  by (auto simp: event_json_def filter_json_def keys_are_def event_keys_def filter_keys_def event_ok_def)

text \<open>A snapshot the reader accepts.\<close>

definition numbered :: "int \<Rightarrow> event list \<Rightarrow> bool" where
  "numbered n es \<longleftrightarrow> map ev_sequence es = [n + 1..n + int (length es)]"

definition snapshot_ok :: "event_snapshot \<Rightarrow> bool" where
  "snapshot_ok s \<longleftrightarrow> identity_ok (sn_task s) (sn_session s) (sn_run s) \<and> 0 \<le> sn_last s \<and> sn_last s \<le> 10001 \<and>
     0 \<le> sn_total s \<and> sn_total s \<le> max_total \<and> int (length (sn_events s)) \<le> max_events \<and>
     list_all event_ok (sn_events s) \<and> numbered (sn_last s - int (length (sn_events s))) (sn_events s) \<and>
     snapshot_bounds s \<and> int (length (ascii_json (snapshot_json s))) \<le> max_bytes"

lemma numbered_simps [simp]: "numbered n []" "numbered n (e # es) \<longleftrightarrow> ev_sequence e = n + 1 \<and> numbered (n + 1) es"
  by (simp_all add: numbered_def upto_rec1 ac_simps)

lemma read_events_back:
  "list_all event_ok es \<Longrightarrow> numbered n es \<Longrightarrow>
     rfold read_event_at (ds, n + 1) (map event_json es) = Inr (ds @ es, n + 1 + int (length es))"
proof (induction es arbitrary: ds n)
  case (Cons e es)
  from Cons.IH [of "n + 1" "ds @ [e]"] Cons.prems show ?case
    by (simp add: read_event_at_def read_event_json ac_simps)
qed simp

lemma snapshot_json_ok:
  assumes "snapshot_ok s" and "list_all plain_event (sn_events s)"
  shows "json_ok (snapshot_json s)"
proof -
  have "json_ok (JList (map event_json (sn_events s)))"
    using assms event_json_ok by (auto simp: snapshot_ok_def list_all_iff)
  moreover have "json_ok (JInt (sn_last s))" "json_ok (JInt (sn_total s))"
    using assms by (auto intro!: int_ok simp: snapshot_ok_def max_total_def)
  moreover have "json_ok (JStr (sn_task s))" "json_ok (JStr (sn_session s))" "json_ok (JStr (sn_run s))"
    using assms journal_scalar hex_scalar by (auto simp: snapshot_ok_def identity_ok_def)
  ultimately have "json_ok (JObj (zip (map u [''events'', ''last'', ''run'', ''schema_version'', ''session'', ''task'', ''total_bytes''])
      [JList (map event_json (sn_events s)), JInt (sn_last s), JStr (sn_run s), JInt 1, JStr (sn_session s), JStr (sn_task s), JInt (sn_total s)]))"
    by (intro object_ok) (simp_all add: int_ok, simp add: u_def)
  then show ?thesis by (simp add: snapshot_json_def)
qed

lemma snapshot_read_back:
  assumes ok: "snapshot_ok s" and plain: "list_all plain_event (sn_events s)"
  shows "read_snapshot fl (ascii_json (snapshot_json s)) (sn_task s) (sn_session s) (sn_run s) = Inr s"
proof -
  have l: "Option.bind (utf8_decode (ascii_json (snapshot_json s))) (loads fl) = Some (snapshot_json s)"
    by (rule loads_ascii_json [OF snapshot_json_ok [OF assms]])
  obtain obj where obj: "snapshot_json s = JObj obj" "keys_are obj snapshot_keys" "entry obj ''schema_version'' = JInt 1"
      "entry obj ''task'' = JStr (sn_task s)" "entry obj ''session'' = JStr (sn_session s)" "entry obj ''run'' = JStr (sn_run s)"
      "entry obj ''last'' = JInt (sn_last s)" "entry obj ''total_bytes'' = JInt (sn_total s)"
      "entry obj ''events'' = JList (map event_json (sn_events s))"
    by (auto simp: snapshot_json_def keys_are_def snapshot_keys_def)
  have "rfold read_event_at ([], sn_last s - int (length (sn_events s)) + 1) (map event_json (sn_events s))
          = Inr (sn_events s, sn_last s + 1)"
    using read_events_back [of "sn_events s" "sn_last s - int (length (sn_events s))" "[]"] ok by (simp add: snapshot_ok_def)
  moreover have "as_obj (snapshot_json s) = Some obj" by (simp add: obj(1))
  ultimately show ?thesis using ok l obj(2-)
    by (cases s) (simp add: read_snapshot_def Let_def check_identity_def snapshot_ok_def expect_some_def int_in_def)
qed

lemma numbered_append: "numbered n (es @ [e]) \<longleftrightarrow> numbered n es \<and> ev_sequence e = n + int (length es) + 1"
  by (induction es arbitrary: n) (auto simp: ac_simps)

lemma numbered_drop: "numbered n es \<Longrightarrow> k \<le> length es \<Longrightarrow> numbered (n + int k) (drop k es)"
proof (induction k arbitrary: n es)
  case (Suc k)
  then show ?case using Suc.IH [of "n + 1" "tl es"] by (cases es) (auto simp: ac_simps)
qed simp

end
