(* ===== verification/Event_Retention.thy ===== *)
theory Event_Retention
  imports Event_Buffer
begin

text \<open>
  What \<open>event_buffer.py\<close> guarantees over runs: the writer keeps the latest of all published events, and the pages an
  owner reads show the next of them in order, reporting what was dropped.
\<close>

section \<open>The writer keeps the latest events\<close>

lemma trim_latest:
  "trim b s es = Inr s' \<Longrightarrow> es \<noteq> [] \<Longrightarrow> \<exists>k < length es. s' = s\<lparr>sn_events := drop k es\<rparr> \<and> retained b s'"
proof (induction b s es rule: trim.induct)
  case (2 b s e es)
  show ?case
  proof (cases "retained b (s\<lparr>sn_events := e # es\<rparr>)")
    case True
    with 2 show ?thesis by (intro exI [of _ 0]) auto
  next
    case False
    with 2 obtain k where "k < length es" "s' = s\<lparr>sn_events := drop k es\<rparr> \<and> retained b s'" by (auto split: if_splits)
    then show ?thesis by (intro exI [of _ "Suc k"]) auto
  qed
qed simp

text \<open>A call whose text could be written as UTF-8.\<close>

definition plain_call :: "event_call \<Rightarrow> bool" where
  "plain_call c =
     (case as_obj (ec_view c) of None \<Rightarrow> True
      | Some obj \<Rightarrow> (case as_str (entry obj ''text'') of None \<Rightarrow> True | Some t \<Rightarrow> list_all scalar_value t))"

lemma call_event_ok:
  assumes "call_event n c = Inr e"
  shows "event_ok e" "ev_sequence e = n" "plain_call c \<Longrightarrow> plain_event e"
proof -
  from assms obtain obj where o: "ec_view c = JObj obj"
      "read_record (JObj [(u ''sequence'', JInt n), (u ''type'', ec_kind c), (u ''text'', entry obj ''text''),
         (u ''filter'', entry obj ''filter''), (u ''status'', ec_status c), (u ''checkpoint'', ec_checkpoint c)]) = Inr e"
    unfolding call_event_def rbind_Inr_iff require_Inr_iff reader_simps as_simps by blast
  from o(2) show "event_ok e" "ev_sequence e = n" unfolding read_record_Inr by auto
  have "entry obj ''text'' = opt_text (ev_text e)" using o(2) unfolding read_record_Inr by auto
  then show "plain_call c \<Longrightarrow> plain_event e"
    by (auto simp: plain_call_def plain_event_def o(1) opt_text_def split: option.splits)
qed

lemma sum_list_drop_le:
  fixes f :: "'a \<Rightarrow> int"
  assumes "\<And>x. 0 \<le> f x"
  shows "sum_list (map f (drop k xs)) \<le> sum_list (map f xs)"
proof -
  have "sum_list (map f xs) = sum_list (map f (take k xs)) + sum_list (map f (drop k xs))"
    by (metis append_take_drop_id map_append sum_list_append)
  moreover have "0 \<le> sum_list (map f (take k xs))" by (rule sum_list_nonneg_int) (rule assms)
  ultimately show ?thesis by simp
qed

text \<open>The snapshot of a buffer that has published the events \<open>past\<close>: its latest ones, with the totals of all.\<close>

definition keeps :: "event_buffer \<Rightarrow> event_snapshot \<Rightarrow> event list \<Rightarrow> bool" where
  "keeps b s past \<longleftrightarrow> snapshot_ok s \<and> list_all plain_event (sn_events s) \<and>
     sn_task s = eb_task b \<and> sn_session s = eb_session b \<and> sn_run s = eb_run b \<and> retained b s \<and>
     sn_last s = int (length past) \<and> sn_total s = sum_list (map event_size past) \<and>
     (\<exists>k \<le> length past. sn_events s = drop k past) \<and> (past \<noteq> [] \<longrightarrow> sn_events s \<noteq> [])"

definition retention_ok :: "event_buffer \<Rightarrow> bool" where
  "retention_ok b \<longleftrightarrow> eb_maximum b \<le> max_bytes \<and> eb_count b \<le> max_events \<and> eb_lines b \<le> max_lines"

definition holds :: "event_buffer \<Rightarrow> event list \<Rightarrow> bool" where
  "holds b past \<longleftrightarrow> retention_ok b \<and> (\<exists>s. keeps b s past \<and> eb_raw b = ascii_json (snapshot_json s))"

lemma keeps_read:
  "keeps b s past \<Longrightarrow> read_snapshot fl (ascii_json (snapshot_json s)) (eb_task b) (eb_session b) (eb_run b) = Inr s"
  using snapshot_read_back [of s fl] by (simp add: keeps_def)

lemma grow_keeps:
  assumes k: "keeps b s past" and l: "retention_ok b" and e: "event_ok e" "plain_event e" "ev_sequence e = sn_last s + 1"
    and g: "grow b s e = Inr s'"
  shows "keeps b s' (past @ [e])"
proof -
  let ?es = "sn_events s @ [e]" and ?t = "s\<lparr>sn_last := sn_last s + 1, sn_total := sn_total s + event_size e\<rparr>"
  from g have total: "sn_total s + event_size e \<le> max_total" and "trim b ?t ?es = Inr s'"
    by (auto simp: grow_def result_simps)
  then obtain j where j: "j < length ?es" "s' = ?t\<lparr>sn_events := drop j ?es\<rparr>" "retained b s'"
    using trim_latest [of b ?t ?es s'] by auto
  have s: "snapshot_ok s" "list_all plain_event (sn_events s)" "sn_last s = int (length past)"
      "sn_total s = sum_list (map event_size past)" using k by (auto simp: keeps_def)
  have ev: "sn_events s' = drop j ?es" by (simp add: j(2))
  from k obtain i where i: "i \<le> length past" "sn_events s = drop i past" by (auto simp: keeps_def)
  have pos: "0 \<le> event_size x" for x by (simp add: event_size_def)
  let ?n = "sn_last s - int (length (sn_events s))"
  have "numbered ?n ?es" using s(1) e(3) by (simp add: numbered_append snapshot_ok_def)
  from numbered_drop [OF this, of j] j(1)
  have num: "numbered (sn_last s' - int (length (sn_events s'))) (sn_events s')" by (simp add: j(2) of_nat_diff algebra_simps)
  have "sum_list (map event_size (sn_events s')) \<le> sum_list (map event_size ?es)"
    unfolding ev by (rule sum_list_drop_le [OF pos])
  moreover have "sum_list (map event_size (sn_events s)) \<le> sn_total s" using s(1) by (simp add: snapshot_ok_def snapshot_bounds_def)
  ultimately have sizes: "sum_list (map event_size (sn_events s')) \<le> sn_total s'" by (simp add: j(2))
  have ne: "sn_events s' \<noteq> []" using j(1,2) by simp
  have "list_all event_ok ?es" "list_all plain_event ?es" using s e by (auto simp: snapshot_ok_def)
  then have all: "list_all event_ok (sn_events s')" "list_all plain_event (sn_events s')"
    unfolding ev by (auto simp: list_all_iff dest: in_set_dropD)
  have last_n: "sn_last s' = int (length (past @ [e]))" "sn_last s' \<le> 10001" "0 \<le> sn_last s'"
    using e s(3) by (simp_all add: j(2) event_ok_def)
  have tot: "sn_total s' = sum_list (map event_size (past @ [e]))" "0 \<le> sn_total s'" "sn_total s' \<le> max_total"
    using s(1) total pos [of e] by (simp_all add: j(2) s(4) snapshot_ok_def)
  have ids: "sn_task s' = eb_task b" "sn_session s' = eb_session b" "sn_run s' = eb_run b"
    using k by (simp_all add: j(2) keeps_def)
  have "identity_ok (sn_task s') (sn_session s') (sn_run s')" using s(1) by (simp add: j(2) snapshot_ok_def)
  moreover have "int (length (sn_events s')) \<le> max_events" "sum_list (map event_lines (sn_events s')) \<le> max_lines"
      "int (length (ascii_json (snapshot_json s'))) \<le> max_bytes"
    using l j(3) unfolding retention_ok_def retained_def by linarith+
  ultimately have "snapshot_ok s'"
    using num sizes ne all(1) last_n tot(2,3) unfolding snapshot_ok_def snapshot_bounds_def by blast
  moreover have "\<exists>k \<le> length (past @ [e]). sn_events s' = drop k (past @ [e])"
  proof (intro exI conjI)
    have "j + i - length past = j - (length past - i)" using i(1) by linarith
    then show "sn_events s' = drop (j + i) (past @ [e])" unfolding ev i(2) by (simp only: drop_append drop_drop length_drop)
    have "length (sn_events s) = length past - i" unfolding i(2) by (rule length_drop)
    then show "j + i \<le> length (past @ [e])" using i(1) j(1) unfolding length_append list.size by linarith
  qed
  ultimately show ?thesis using j(3) all(2) last_n(1) tot(1) ids ne unfolding keeps_def by blast
qed


lemma buffer_new_holds:
  assumes "buffer_new sr setup runs task session run maximum cnt lns = Inr b"
  shows "holds b []" "keeps b (empty_snapshot task session run) []" "eb_task b = task" "eb_session b = session" "eb_run b = run"
    "eb_maximum b = maximum" "eb_count b = cnt" "eb_lines b = lns"
proof -
  let ?s = "empty_snapshot task session run"
  from assms have i: "identity_ok task session run" and m: "1 \<le> maximum" "maximum \<le> max_bytes" "1 \<le> cnt" "cnt \<le> max_events"
      "1 \<le> lns" "lns \<le> max_lines" "int (length (ascii_json (snapshot_json ?s))) \<le> maximum"
    and b: "b = \<lparr>eb_task = task, eb_session = session, eb_run = run, eb_maximum = maximum, eb_count = cnt, eb_lines = lns,
            eb_raw = ascii_json (snapshot_json ?s), eb_failed = False\<rparr>"
    by (auto simp: buffer_new_def check_identity_def result_simps Let_def)
  have "snapshot_ok ?s"
    using i m by (simp add: snapshot_ok_def snapshot_bounds_def empty_snapshot_def max_total_def max_events_def max_lines_def)
  then show "keeps b ?s []"
    using m by (simp add: keeps_def b empty_snapshot_def retained_def)
  then show "holds b []" using m by (auto simp: holds_def retention_ok_def b)
  show "eb_task b = task" "eb_session b = session" "eb_run b = run" "eb_maximum b = maximum" "eb_count b = cnt" "eb_lines b = lns"
    by (simp_all add: b)
qed

text \<open>Runs of calls, with the events they have published.\<close>

definition log_step ::
    "(pytext \<Rightarrow> rat option) \<Rightarrow> event_buffer \<times> event list \<Rightarrow> surroundings \<times> event_call \<Rightarrow> (unit, event_buffer \<times> event list) result" where
  "log_step fl st call =
     (case (st, call) of ((b, past), (sr, c)) \<Rightarrow>
        let b' = snd (buffer_append fl sr c b)
        in rbind (require (plain_call c) ()) (\<lambda>_.
           Inr (b', if eb_raw b' = eb_raw b then past
                    else case call_event (int (length past) + 1) c of Inr e \<Rightarrow> past @ [e] | Inl _ \<Rightarrow> past)))"

definition same_settings :: "event_buffer \<Rightarrow> event_buffer \<Rightarrow> bool" where
  "same_settings b b' \<longleftrightarrow> eb_task b' = eb_task b \<and> eb_session b' = eb_session b \<and> eb_run b' = eb_run b \<and>
     eb_maximum b' = eb_maximum b \<and> eb_count b' = eb_count b \<and> eb_lines b' = eb_lines b"

lemma same_settings_refl [simp]: "same_settings b b"
  by (simp add: same_settings_def)

lemma keeps_settings: "same_settings b b' \<Longrightarrow> keeps b' s past = keeps b s past"
  by (simp add: same_settings_def keeps_def retained_def)

lemma holds_settings: "same_settings b b' \<Longrightarrow> eb_raw b' = eb_raw b \<Longrightarrow> holds b' past = holds b past"
  using keeps_settings [of b b'] by (simp add: holds_def retention_ok_def same_settings_def)

lemma append_cases:
  assumes "buffer_append fl sr c b = (err, b')"
  obtains (quiet) "eb_raw b' = eb_raw b" "same_settings b b'"
    | (published) e raw where "prepare fl b c = Inr (e, raw)" "eb_raw b' = raw" "same_settings b b'" "\<not> eb_failed b'"
  using assms that by (auto simp: buffer_append_def publish_def Let_def same_settings_def split: if_splits option.splits sum.splits prod.splits)

lemma append_log:
  assumes h: "holds b past" and c: "plain_call c" and a: "buffer_append fl sr c b = (err, b')"
  shows "same_settings b b' \<and> holds b' (if eb_raw b' = eb_raw b then past
           else case call_event (int (length past) + 1) c of Inr e \<Rightarrow> past @ [e] | Inl _ \<Rightarrow> past)"
  using a
proof (cases rule: append_cases)
  case quiet
  with h holds_settings show ?thesis by simp
next
  case (published e raw)
  from h obtain s where s: "keeps b s past" "eb_raw b = ascii_json (snapshot_json s)" and l: "retention_ok b" by (auto simp: holds_def)
  from published(1) obtain s' where e: "call_event (sn_last s + 1) c = Inr e" "grow b s e = Inr s'" "raw = ascii_json (snapshot_json s')"
    unfolding prepare_def s(2) by (auto simp: result_simps keeps_read [OF s(1)])
  have n: "sn_last s = int (length past)" using s(1) by (simp add: keeps_def)
  have k: "keeps b s' (past @ [e])"
    using grow_keeps [OF s(1) l _ _ _ e(2)] call_event_ok [OF e(1)] c by simp
  have "raw \<noteq> eb_raw b"
  proof
    assume "raw = eb_raw b"
    then have "ascii_json (snapshot_json s') = ascii_json (snapshot_json s)" unfolding e(3) s(2) .
    then have "s' = s" using keeps_read [OF k, of fl] keeps_read [OF s(1), of fl] by (metis sum.inject(2))
    then show False using k n by (simp add: keeps_def)
  qed
  moreover have "holds b' (past @ [e])"
    using k published l e(3) keeps_settings [of b b'] by (auto simp: holds_def retention_ok_def same_settings_def)
  ultimately show ?thesis using published(2,3) e(1) n by simp
qed

lemma log_step_holds:
  assumes "log_step fl (b, past) (sr, c) = Inr (b', past')" and "holds b past"
  shows "same_settings b b' \<and> holds b' past'"
proof -
  obtain err where a: "buffer_append fl sr c b = (err, b')" and "plain_call c"
    and p: "past' = (if eb_raw b' = eb_raw b then past else case call_event (int (length past) + 1) c of Inr e \<Rightarrow> past @ [e] | Inl _ \<Rightarrow> past)"
    using assms(1) unfolding log_step_def Let_def prod.case rbind_Inr_iff require_Inr_iff sum.inject(2) prod.inject
    by (metis surjective_pairing)
  from append_log [OF assms(2) this(2) a] show ?thesis unfolding p .
qed

interpretation buffer: stepped "log_step fl" "\<lambda>(b, past). same_settings b0 b \<and> holds b past" for fl b0
proof
  fix st a st'
  assume "case st of (b, past) \<Rightarrow> same_settings b0 b \<and> holds b past" and "log_step fl st a = Inr st'"
  then show "case st' of (b, past) \<Rightarrow> same_settings b0 b \<and> holds b past"
    using log_step_holds [of fl "fst st" "snd st" "fst a" "snd a" "fst st'" "snd st'"]
    by (simp add: split_beta same_settings_def)
qed



section \<open>Pages of the latest events\<close>

lemma page_loop_skip:
  "numbered n ds \<Longrightarrow> n + int (length ds) \<le> cursor \<Longrightarrow>
     page_loop s cursor limit maximum (ds @ es) r = page_loop s cursor limit maximum es r"
  by (induction ds arbitrary: n) auto

text \<open>A page under construction whose last event, or cursor, has number \<open>n\<close>.\<close>

definition page_at :: "event_snapshot \<Rightarrow> int \<Rightarrow> int \<Rightarrow> int \<Rightarrow> event_page \<Rightarrow> bool" where
  "page_at s limit maximum n p \<longleftrightarrow> pg_after p = n \<and> pg_more p = (n < sn_last s) \<and> int (length (pg_events p)) \<le> limit \<and>
     (pg_events p \<noteq> [] \<longrightarrow> pg_required p = None \<and> page_size (sn_task s) (sn_session s) (sn_run s) p \<le> maximum)"

lemma page_loop_reads:
  assumes "numbered n es" and "cursor \<le> n" and "page_at s limit maximum n r" and "pg_required r = None"
    and "int (length (pg_events r)) < limit"
  shows "\<exists>k \<le> length es. let p = page_loop s cursor limit maximum es r in
           page_at s limit maximum (n + int k) p \<and> pg_events p = pg_events r @ take k es \<and>
           pg_checkpoint p = pg_checkpoint r \<and> pg_first p = pg_first r \<and> pg_last p = pg_last r \<and> pg_gap p = pg_gap r \<and>
           (es \<noteq> [] \<and> pg_events p = [] \<longrightarrow> pg_required p \<noteq> None)"
  using assms
proof (induction es arbitrary: n r)
  case Nil
  then show ?case by (simp add: Let_def)
next
  case (Cons e es)
  let ?c = "r\<lparr>pg_events := pg_events r @ [e], pg_after := ev_sequence e, pg_more := ev_sequence e < sn_last s\<rparr>"
  let ?size = "page_size (sn_task s) (sn_session s) (sn_run s) ?c"
  have e: "ev_sequence e = n + 1" "numbered (n + 1) es" "\<not> ev_sequence e \<le> cursor" using Cons.prems(1,2) by auto
  consider (big) "maximum < ?size" | (full) "?size \<le> maximum" "int (length (pg_events ?c)) = limit"
    | (more) "?size \<le> maximum" "int (length (pg_events ?c)) \<noteq> limit" by linarith
  then show ?case
  proof cases
    case big
    with e(3) Cons.prems(3) show ?thesis
      by (intro exI [of _ 0]) (auto simp: Let_def page_at_def)
  next
    case full
    with e Cons.prems(3,4) show ?thesis
      by (intro exI [of _ 1]) (auto simp: Let_def page_at_def)
  next
    case more
    have "page_at s limit maximum (n + 1) ?c" "int (length (pg_events ?c)) < limit"
      using more e(1) Cons.prems(4,5) by (simp_all add: page_at_def)
    from Cons.IH [OF e(2) _ this(1) _ this(2)] Cons.prems(2,4) obtain k where
      k: "k \<le> length es" "let p = page_loop s cursor limit maximum es ?c in
           page_at s limit maximum (n + 1 + int k) p \<and> pg_events p = pg_events ?c @ take k es \<and>
           pg_checkpoint p = pg_checkpoint ?c \<and> pg_first p = pg_first ?c \<and> pg_last p = pg_last ?c \<and> pg_gap p = pg_gap ?c \<and>
           (es \<noteq> [] \<and> pg_events p = [] \<longrightarrow> pg_required p \<noteq> None)" by auto
    have "page_loop s cursor limit maximum (e # es) r = page_loop s cursor limit maximum es ?c"
      using e(3) more by (simp add: Let_def)
    with k show ?thesis by (intro exI [of _ "Suc k"]) (simp add: Let_def ac_simps)
  qed
qed

lemma first_sequence_kept:
  "snapshot_ok s \<Longrightarrow> first_sequence s = sn_last s - int (length (sn_events s)) + 1"
  by (cases "sn_events s") (auto simp: first_sequence_def snapshot_ok_def snapshot_bounds_def)

lemma page_start_fields:
  "pg_events (page_start sha raw s after) = []" "pg_required (page_start sha raw s after) = None"
  "pg_checkpoint (page_start sha raw s after) = sha raw" "pg_first (page_start sha raw s after) = first_sequence s"
  "pg_last (page_start sha raw s after) = sn_last s"
  "pg_gap (page_start sha raw s after) = (if first_sequence s - 1 \<le> after then None else Some (after + 1, first_sequence s - 1))"
  by (simp_all add: page_start_def Let_def)

lemma page_reads:
  assumes s: "read_snapshot fl raw task session run = Inr s" "snapshot_ok s"
    and p: "page sha fl raw task session run after limit maximum = Inr p"
  shows "let start = max after (first_sequence s - 1); m = int (length (pg_events p)) in
    page_at s limit maximum (start + m) p \<and>
    pg_events p = take (length (pg_events p)) (drop (nat (start - (first_sequence s - 1))) (sn_events s)) \<and>
    pg_checkpoint p = sha raw \<and> pg_first p = first_sequence s \<and> pg_last p = sn_last s \<and>
    pg_gap p = (if first_sequence s - 1 \<le> after then None else Some (after + 1, first_sequence s - 1)) \<and>
    (pg_more p \<and> pg_events p = [] \<longrightarrow> pg_required p \<noteq> None)"
proof -
  let ?f = "first_sequence s - 1" and ?es = "sn_events s"
  let ?start = "max after ?f"
  let ?d = "nat (?start - ?f)"
  from p s(1) have a: "0 \<le> after" "1 \<le> limit" "after \<le> sn_last s"
    and p_eq: "p = page_loop s ?start limit maximum ?es (page_start sha raw s after)"
    by (auto simp: page_def result_simps)
  have f: "?f = sn_last s - int (length ?es)" using first_sequence_kept [OF s(2)] by simp
  have num: "numbered ?f ?es" using s(2) unfolding f by (simp add: snapshot_ok_def)
  have d: "?d \<le> length ?es" "?f + int ?d = ?start" using a f by (auto simp: max_def)
  have "numbered ?f (take ?d ?es @ drop ?d ?es)" using num by simp
  moreover have split: "numbered n (xs @ ys) \<Longrightarrow> numbered n xs" for n xs and ys :: "event list"
    by (induction xs arbitrary: n) auto
  ultimately have "numbered ?f (take ?d ?es)" by blast
  then have p_drop: "p = page_loop s ?start limit maximum (drop ?d ?es) (page_start sha raw s after)"
    unfolding p_eq using page_loop_skip [of ?f "take ?d ?es" ?start s limit maximum "drop ?d ?es"] d by simp
  have "numbered ?start (drop ?d ?es)" using numbered_drop [OF num d(1)] unfolding d(2) .
  moreover have "page_at s limit maximum ?start (page_start sha raw s after)"
    using a by (simp add: page_at_def page_start_def Let_def)
  moreover note start = page_start_fields [of sha raw s after]
  ultimately have "\<exists>k \<le> length (drop ?d ?es). page_at s limit maximum (?start + int k) p \<and> pg_events p = [] @ take k (drop ?d ?es) \<and>
      pg_checkpoint p = sha raw \<and> pg_first p = first_sequence s \<and> pg_last p = sn_last s \<and>
      pg_gap p = (if ?f \<le> after then None else Some (after + 1, ?f)) \<and> (drop ?d ?es \<noteq> [] \<and> pg_events p = [] \<longrightarrow> pg_required p \<noteq> None)"
    using page_loop_reads [of ?start "drop ?d ?es" ?start s limit maximum "page_start sha raw s after"] a(2)
    unfolding p_drop [symmetric] Let_def start by simp
  then obtain k where k: "k \<le> length (drop ?d ?es)" "page_at s limit maximum (?start + int k) p"
      "pg_events p = take k (drop ?d ?es)" "pg_checkpoint p = sha raw" "pg_first p = first_sequence s" "pg_last p = sn_last s"
      "pg_gap p = (if ?f \<le> after then None else Some (after + 1, ?f))"
      "drop ?d ?es \<noteq> [] \<and> pg_events p = [] \<longrightarrow> pg_required p \<noteq> None" unfolding append.simps by blast
  have m: "length (pg_events p) = k" using k(1,3) by simp
  have "drop ?d ?es \<noteq> []" if "pg_more p" "pg_events p = []"
  proof
    assume "drop ?d ?es = []"
    then have "length ?es = ?d" using d(1) by simp
    then have "?start = sn_last s" using d(2) f by linarith
    moreover have "pg_more p = (?start + int k < sn_last s)" "k = 0" using k(2) m that(2) by (simp_all add: page_at_def)
    ultimately show False using that(1) by simp
  qed
  with k show ?thesis unfolding Let_def m by blast
qed

section \<open>What the writer and its readers guarantee\<close>

lemma run_holds:
  assumes "buffer_new sr setup runs task session run maximum cnt lns = Inr b0"
    and "rfold (log_step fl) (b0, []) calls = Inr (b, past)"
  obtains s where "keeps b s past" "eb_raw b = ascii_json (snapshot_json s)" "eb_task b = task" "eb_session b = session"
    "eb_run b = run" "eb_maximum b = maximum" "eb_count b = cnt" "eb_lines b = lns"
    "read_snapshot fl (eb_raw b) task session run = Inr s"
proof -
  note new = buffer_new_holds [OF assms(1)]
  have "same_settings b0 b \<and> holds b past" using buffer.run_inv [of b0 "(b0, [])" fl calls "(b, past)"] new(1) assms(2) by simp
  with new obtain s where s: "keeps b s past" "eb_raw b = ascii_json (snapshot_json s)" "eb_task b = task" "eb_session b = session"
    "eb_run b = run" "eb_maximum b = maximum" "eb_count b = cnt" "eb_lines b = lns"
    by (auto simp: holds_def same_settings_def)
  with keeps_read [OF s(1), of fl] that show ?thesis by simp
qed


text \<open>C34. A page shows an owner who has read up to a cursor the next events of everything ever published, in order and
  unaltered; what has been dropped in between is reported as the gap. The cursor it returns is the
  number of the last event shown, a flag says whether there are later ones, a page that shows events
  fits the byte limit, and one that could not show the next event says how many bytes it needs.\<close>

theorem page_shows_next:
  assumes "buffer_new sr setup runs task session run maximum cnt lns = Inr b0"
    and "rfold (log_step fl) (b0, []) calls = Inr (b, past)"
    and "buffer_read sha fl b after limit bound = Inr p"
  shows "let start = max after (pg_first p - 1); m = length (pg_events p) in
    pg_events p = take m (drop (nat start) past) \<and> pg_after p = start + int m \<and> pg_last p = int (length past) \<and>
    pg_more p = (pg_after p < int (length past)) \<and>
    pg_gap p = (if pg_first p - 1 \<le> after then None else Some (after + 1, pg_first p - 1)) \<and>
    int m \<le> limit \<and> (0 < m \<longrightarrow> page_size task session run p \<le> bound) \<and> (pg_more p \<and> m = 0 \<longrightarrow> pg_required p \<noteq> None)"
proof -
  from run_holds [OF assms(1,2)] obtain s where s: "keeps b s past" "eb_task b = task" "eb_session b = session" "eb_run b = run"
    "read_snapshot fl (eb_raw b) task session run = Inr s" by metis
  have ok: "snapshot_ok s" and n: "sn_last s = int (length past)" using s(1) by (simp_all add: keeps_def)
  have ids: "sn_task s = task" "sn_session s = session" "sn_run s = run" using s(1-4) by (simp_all add: keeps_def)
  from assms(3) have "page sha fl (eb_raw b) task session run after limit bound = Inr p" by (simp add: buffer_read_def s)
  from page_reads [OF s(5) ok this]
  have p: "page_at s limit bound (max after (pg_first p - 1) + int (length (pg_events p))) p"
    "pg_events p = take (length (pg_events p)) (drop (nat (max after (pg_first p - 1) - (pg_first p - 1))) (sn_events s))"
    "pg_first p = first_sequence s" "pg_last p = sn_last s"
    "pg_gap p = (if pg_first p - 1 \<le> after then None else Some (after + 1, pg_first p - 1))"
    "pg_more p \<and> pg_events p = [] \<longrightarrow> pg_required p \<noteq> None" unfolding Let_def by metis+
  from s(1) obtain k where k: "k \<le> length past" "sn_events s = drop k past" by (auto simp: keeps_def)
  have f: "pg_first p - 1 = int k" using first_sequence_kept [OF ok] k n by (simp add: p(3) of_nat_diff)
  have "drop (nat (max after (pg_first p - 1) - (pg_first p - 1))) (sn_events s) = drop (nat (max after (pg_first p - 1))) past"
    unfolding k(2) f drop_drop by (rule arg_cong [of _ _ "\<lambda>i. drop i past"]) (simp add: nat_diff_distrib' max_def)
  with p n show ?thesis by (auto simp: Let_def page_at_def ids)
qed



text \<open>A concrete run: two events through a buffer that retains one.\<close>

definition calm :: "bytes \<Rightarrow> surroundings" where
  "calm raw = \<lparr>sr_checks = (None, None, None), sr_busy = False, sr_file = Inr raw, sr_write = None\<rparr>"

definition sample_call :: "string \<Rightarrow> event_call" where
  "sample_call t =
     \<lparr>ec_view = JObj [(u ''text'', JStr (u t)), (u ''filter'', JObj [(u ''schema_version'', JInt 1), (u ''action'', JStr (u ''allow'')),
        (u ''orders'', JList []), (u ''matches'', JInt 0), (u ''policy_sha256'', JStr (replicate 64 48))])],
      ec_kind = JStr (u ''text''), ec_status = JNull, ec_checkpoint = JNull\<rparr>"

definition sample_event :: "int \<Rightarrow> string \<Rightarrow> event" where
  "sample_event n t =
     \<lparr>ev_sequence = n, ev_type = u ''text'', ev_text = Some (u t),
      ev_filter = \<lparr>ef_action = u ''allow'', ef_matches = 0, ef_orders = [], ef_policy = replicate 64 48\<rparr>,
      ev_status = None, ev_checkpoint = None\<rparr>"

definition sample_snapshot :: "event list \<Rightarrow> event list \<Rightarrow> event_snapshot" where
  "sample_snapshot past kept =
     \<lparr>sn_task = u ''t'', sn_session = u ''s'', sn_run = replicate 32 97, sn_last = int (length past),
      sn_total = sum_list (map event_size past), sn_events = kept\<rparr>"

definition sample_buffer :: "event_snapshot \<Rightarrow> event_buffer" where
  "sample_buffer s =
     \<lparr>eb_task = u ''t'', eb_session = u ''s'', eb_run = replicate 32 97, eb_maximum = 4096, eb_count = 1, eb_lines = 10,
      eb_raw = ascii_json (snapshot_json s), eb_failed = False\<rparr>"

abbreviation "first_event \<equiv> sample_event 1 ''a''"
abbreviation "second_event \<equiv> sample_event 2 ''b''"
abbreviation "sample_new \<equiv> sample_buffer (sample_snapshot [] [])"
abbreviation "sample_one \<equiv> sample_buffer (sample_snapshot [first_event] [first_event])"
abbreviation "sample_two \<equiv> sample_buffer (sample_snapshot [first_event, second_event] [second_event])"

lemma sample_starts: "buffer_new (calm []) None 0 (u ''t'') (u ''s'') (replicate 32 97) 4096 1 10 = Inr sample_new"
  by code_simp

lemma sample_events:
  "call_event 1 (sample_call ''a'') = Inr first_event" "call_event 2 (sample_call ''b'') = Inr second_event" by code_simp+

lemma sample_grow_1: "grow sample_new (sample_snapshot [] []) first_event = Inr (sample_snapshot [first_event] [first_event])"
  by code_simp

lemma sample_grow_2:
  "grow sample_one (sample_snapshot [first_event] [first_event]) second_event = Inr (sample_snapshot [first_event, second_event] [second_event])"
  by code_simp

lemma calm_append:
  assumes k: "keeps (sample_buffer s) s past" and e: "call_event (int (length past) + 1) c = Inr e" "grow (sample_buffer s) s e = Inr s'"
    and c: "plain_call c"
  shows "log_step fl (sample_buffer s, past) (calm (eb_raw (sample_buffer s)), c) = Inr (sample_buffer s', past @ [e])" (is ?step)
    and "keeps (sample_buffer s') s' (past @ [e])" (is ?keeps)
proof -
  have l: "retention_ok (sample_buffer s)" by (simp add: sample_buffer_def retention_ok_def max_bytes_def max_events_def max_lines_def)
  have n: "sn_last s = int (length past)" using k by (simp add: keeps_def)
  have kept: "keeps (sample_buffer s) s' (past @ [e])"
    using grow_keeps [OF k l _ _ _ e(2)] call_event_ok [OF e(1)] c n by simp
  then show ?keeps using keeps_settings [of "sample_buffer s" "sample_buffer s'"] by (simp add: same_settings_def sample_buffer_def)
  have raw: "eb_raw (sample_buffer s) = ascii_json (snapshot_json s)" for s by (simp add: sample_buffer_def)
  have "prepare fl (sample_buffer s) c = Inr (e, ascii_json (snapshot_json s'))"
    unfolding prepare_def raw using keeps_read [OF k, of fl] e n by simp
  then have a: "buffer_append fl (calm (eb_raw (sample_buffer s))) c (sample_buffer s) = (None, sample_buffer s')"
    by (simp add: buffer_append_def calm_def publish_def) (simp add: sample_buffer_def)
  have "holds (sample_buffer s) past" using k l raw by (auto simp: holds_def)
  from append_log [OF this c a] have h: "holds (sample_buffer s') (if eb_raw (sample_buffer s') = eb_raw (sample_buffer s) then past else past @ [e])"
    by (simp add: e(1) split: if_splits)
  have "ascii_json (snapshot_json s') \<noteq> ascii_json (snapshot_json s)"
  proof
    assume "ascii_json (snapshot_json s') = ascii_json (snapshot_json s)"
    then have "s' = s" using keeps_read [OF kept, of fl] keeps_read [OF k, of fl] by (metis sum.inject(2))
    then show False using kept n by (simp add: keeps_def)
  qed
  then show ?step using a c e(1) by (simp add: log_step_def Let_def raw)
qed

lemma two_appends:
  "rfold (log_step fl) (sample_new, [])
     [(calm (eb_raw sample_new), sample_call ''a''), (calm (eb_raw sample_one), sample_call ''b'')] = Inr (sample_two, [first_event, second_event])"
  "keeps sample_two (sample_snapshot [first_event, second_event] [second_event]) [first_event, second_event]"
proof -
  have p: "plain_call (sample_call ''a'')" "plain_call (sample_call ''b'')" by code_simp+
  have "sample_snapshot [] [] = empty_snapshot (u ''t'') (u ''s'') (replicate 32 97)" by (simp add: sample_snapshot_def empty_snapshot_def)
  then have k: "keeps sample_new (sample_snapshot [] []) []" using buffer_new_holds(2) [OF sample_starts] by simp
  have e: "call_event (int (length []) + 1) (sample_call ''a'') = Inr first_event"
    "call_event (int (length [first_event]) + 1) (sample_call ''b'') = Inr second_event" using sample_events by simp_all
  note one = calm_append [OF k e(1) sample_grow_1 p(1), unfolded append.simps]
  note two = calm_append [OF one(2) e(2) sample_grow_2 p(2), unfolded append.simps]
  show "rfold (log_step fl) (sample_new, [])
     [(calm (eb_raw sample_new), sample_call ''a''), (calm (eb_raw sample_one), sample_call ''b'')] = Inr (sample_two, [first_event, second_event])"
    by (simp add: one(1) two(1))
  show "keeps sample_two (sample_snapshot [first_event, second_event] [second_event]) [first_event, second_event]" by (rule two(2))
qed

lemma sample_page:
  "\<exists>p. buffer_read (\<lambda>_. []) (\<lambda>_. None) sample_two 0 5 4096 = Inr p \<and> pg_gap p = Some (1, 1) \<and> length (pg_events p) = 1"
proof -
  let ?s = "sample_snapshot [first_event, second_event] [second_event]"
  let ?p = "page_loop ?s (max 0 (first_sequence ?s - 1)) 5 4096 (sn_events ?s) (page_start (\<lambda>_. []) [] ?s 0)"
  have "page_start (\<lambda>_. []) (eb_raw sample_two) ?s 0 = page_start (\<lambda>_. []) [] ?s 0" by (simp only: page_start_def)
  moreover have "0 \<le> sn_last ?s" by (simp add: sample_snapshot_def)
  moreover have "read_snapshot (\<lambda>_. None) (eb_raw sample_two) (eb_task sample_two) (eb_session sample_two) (eb_run sample_two) = Inr ?s"
    using keeps_read [OF two_appends(2), of "\<lambda>_. None"] by (simp add: sample_buffer_def)
  ultimately have "buffer_read (\<lambda>_. []) (\<lambda>_. None) sample_two 0 5 4096 = Inr ?p"
    by (simp add: buffer_read_def page_def max_events_def max_bytes_def del: page_loop.simps)
  moreover have "pg_gap ?p = Some (1, 1) \<and> length (pg_events ?p) = 1" by code_simp
  ultimately show ?thesis by blast
qed


theorem page_shows_next_witness:
  "\<exists>b0 calls b past p. buffer_new (calm []) None 0 (u ''t'') (u ''s'') (replicate 32 97) 4096 1 10 = Inr b0 \<and>
     rfold (log_step (\<lambda>_. None)) (b0, []) calls = Inr (b, past) \<and> buffer_read (\<lambda>_. []) (\<lambda>_. None) b 0 5 4096 = Inr p \<and>
     pg_gap p = Some (1, 1) \<and> pg_events p = drop 1 past \<and> pg_after p = 2 \<and> \<not> pg_more p"
proof -
  let ?b = sample_two and ?past = "[first_event, second_event]"
  note f = sample_starts two_appends(1) [of "\<lambda>_. None"]
  from sample_page obtain p where p: "buffer_read (\<lambda>_. []) (\<lambda>_. None) ?b 0 5 4096 = Inr p" "pg_gap p = Some (1, 1)" "length (pg_events p) = 1"
    by blast
  note n = page_shows_next [OF f p(1), unfolded Let_def]
  have first: "pg_first p - 1 = 1" using n p(2) by (auto split: if_splits)
  then have "pg_events p = drop 1 ?past" "pg_after p = 2" "\<not> pg_more p"
    using n p(3) by simp_all
  with f p show ?thesis by (intro exI conjI)
qed

end
