(* ===== verification/Operation_Journal.thy ===== *)
theory Operation_Journal
  imports Readers "HOL-Library.AList"
begin

text \<open>
  The operation journal of a supervised session (\<open>src/ls/core/agent/operation_journal.py\<close>): numbered records in
  canonical JSON, each naming the digest of the one before, that tell which operations were begun and how they
  ended. SHA-256, the text of floats, the random identifiers and the file system are parameters: a directory is
  its files with what reading each of them gives, and an append is told how its write ends. The lease on the
  directory and its permission checks are one answer of the environment.
\<close>

definition max_record :: int where "max_record = 16384"
definition max_records :: nat where "max_records = 10000"
definition max_journal :: int where "max_journal = 67108864"

definition outcome_names :: "string list" where
  "outcome_names = [''applied'', ''not_applied'', ''completed'', ''failed'', ''cancelled'', ''timed_out'', ''output_limit'', ''uncertain'']"

definition control_methods :: "string list" where
  "control_methods = [''status'', ''cancel'', ''steer'', ''approve'', ''events.status'', ''events.pause'', ''events.resume'', ''events.read'']"

definition encode_record :: "(rat \<Rightarrow> pytext) \<Rightarrow> json \<Rightarrow> (py_error, bytes) result" where
  "encode_record rp v =
     (let data = dumps rp True v @ [10]
      in rbind (require (int (length data) \<le> max_record) (ValueError ''Operation record exceeds 16 KiB'')) (\<lambda>_. Inr data))"

section \<open>Requests\<close>

record control_request =
  cr_binding :: pytext
  cr_request :: pytext
  cr_id :: pytext
  cr_sequence :: int
  cr_method :: pytext
  cr_bytes :: int

text \<open>
  A file replacement has a path, the digests before and after, and optionally the root's digest with, again
  optionally, the digests of the properties before and after.
\<close>

datatype request =
    File_replace pytext "pytext option" pytext "(pytext \<times> (pytext option \<times> pytext) option) option"
  | Process pytext pytext
  | Owner_control control_request

text \<open>\<open>file_grants.relative\<close>: a canonical relative path.\<close>

definition check_relative :: "json \<Rightarrow> (py_error, pytext) result" where
  "check_relative v =
     rbind (expect_some (PermissionError ''Invalid broker path'') (as_str v)) (\<lambda>s.
     rbind (require (s \<noteq> [] \<and> 92 \<notin> set s \<and> 0 \<notin> set s) (PermissionError ''Invalid broker path'')) (\<lambda>_.
     rbind (require (list_all (\<lambda>p. p \<noteq> [] \<and> p \<noteq> u ''.'' \<and> p \<noteq> u ''..'') (split_slash s))
              (PermissionError ''Broker paths must be canonical and relative'')) (\<lambda>_. Inr s)))"

definition has :: "(pytext \<times> json) list \<Rightarrow> string \<Rightarrow> bool" where
  "has obj name \<longleftrightarrow> member obj name \<noteq> None"

definition hex_in :: "nat \<Rightarrow> json \<Rightarrow> pytext option" where
  "hex_in n v = (case as_str v of Some s \<Rightarrow> if hex_text n s then Some s else None | None \<Rightarrow> None)"

definition id_in :: "json \<Rightarrow> pytext option" where
  "id_in v = (case as_str v of Some s \<Rightarrow> if journal_id s then Some s else None | None \<Rightarrow> None)"

definition file_keys :: "string list" where
  "file_keys = [''path'', ''before'', ''after'']"

definition read_props :: "(pytext \<times> json) list \<Rightarrow> (pytext option \<times> pytext) option option" where
  "read_props obj =
     (if has obj ''after_properties''
      then (case (none_or digest_in (entry obj ''before_properties''), digest_in (entry obj ''after_properties'')) of
              (Some b, Some a) \<Rightarrow> Some (Some (b, a)) | _ \<Rightarrow> None)
      else Some None)"

definition read_extra :: "(pytext \<times> json) list \<Rightarrow> (pytext \<times> (pytext option \<times> pytext) option) option option" where
  "read_extra obj =
     (if has obj ''root_sha256''
      then (case (digest_in (entry obj ''root_sha256''), read_props obj) of
              (Some r, Some p) \<Rightarrow> Some (Some (r, p)) | _ \<Rightarrow> None)
      else Some None)"

definition no_evidence :: py_error where
  "no_evidence = ValueError ''Operation request requires SHA-256 evidence''"

definition read_file_replace :: "(pytext \<times> json) list \<Rightarrow> (py_error, request) result" where
  "read_file_replace obj =
     rbind (check_relative (entry obj ''path'')) (\<lambda>path.
     rbind (expect_some (ValueError ''surrogates not allowed'') (utf8_encode path)) (\<lambda>bs.
     rbind (require (length bs \<le> 4096) (ValueError ''Operation path is oversized'')) (\<lambda>_.
     rbind (require (has obj ''after_properties'' \<longrightarrow> (entry obj ''before'' = JNull) = (entry obj ''before_properties'' = JNull))
              (ValueError ''Inconsistent file property precondition'')) (\<lambda>_.
     rbind (expect_some no_evidence (digest_in (entry obj ''after''))) (\<lambda>after.
     rbind (expect_some no_evidence (none_or digest_in (entry obj ''before''))) (\<lambda>before.
     rbind (expect_some no_evidence (read_extra obj)) (\<lambda>extra.
       Inr (File_replace path before after extra))))))))"

definition control_keys :: "string list" where
  "control_keys = [''binding_sha256'', ''request_sha256'', ''request_id'', ''sequence'', ''method'', ''request_bytes'']"

definition read_control :: "(pytext \<times> json) list \<Rightarrow> (py_error, request) result" where
  "read_control obj =
     (let bad = ValueError ''Invalid owner control identity'' in
      rbind (expect_some bad (hex_in 32 (entry obj ''request_id''))) (\<lambda>i.
      rbind (expect_some bad (int_in 1 1024 (entry obj ''sequence''))) (\<lambda>n.
      rbind (expect_some bad (int_in 1 16384 (entry obj ''request_bytes''))) (\<lambda>size.
      rbind (expect_some bad (text_in control_methods (entry obj ''method''))) (\<lambda>m.
      rbind (expect_some no_evidence (digest_in (entry obj ''binding_sha256''))) (\<lambda>b.
      rbind (expect_some no_evidence (digest_in (entry obj ''request_sha256''))) (\<lambda>r.
        Inr (Owner_control \<lparr>cr_binding = b, cr_request = r, cr_id = i, cr_sequence = n, cr_method = m, cr_bytes = size\<rparr>))))))))"

definition read_process :: "(pytext \<times> json) list \<Rightarrow> (py_error, request) result" where
  "read_process obj =
     rbind (expect_some no_evidence (digest_in (entry obj ''argv_sha256''))) (\<lambda>a.
     rbind (expect_some no_evidence (digest_in (entry obj ''snapshot_sha256''))) (\<lambda>s. Inr (Process a s)))"

definition read_request :: "json \<Rightarrow> json \<Rightarrow> (py_error, request) result" where
  "read_request kind value =
     rbind (expect_some (ValueError ''Invalid operation request'') (as_obj value)) (\<lambda>obj.
       if kind = JStr (u ''file_replace'') \<and>
          (keys_are obj file_keys \<or> keys_are obj (file_keys @ [''root_sha256'']) \<or>
           keys_are obj (file_keys @ [''root_sha256'', ''before_properties'', ''after_properties'']))
       then read_file_replace obj
       else if kind = JStr (u ''process'') \<and> keys_are obj [''argv_sha256'', ''snapshot_sha256''] then read_process obj
       else if kind = JStr (u ''owner_control'') \<and> keys_are obj control_keys then read_control obj
       else Inl (ValueError ''Unsupported operation request schema''))"

section \<open>Histories\<close>

record tool_call =
  tc_run :: pytext
  tc_call :: pytext
  tc_name :: pytext
  tc_arguments :: pytext

record intent =
  in_request :: request
  in_checkpoint :: "pytext option"
  in_call :: "tool_call option"

record outcome =
  oc_outcome :: pytext
  oc_evidence :: pytext
  oc_reconciled :: bool

record operation_state =
  op_intent :: intent
  op_sequence :: json
  op_outcome :: pytext
  op_result :: "outcome option"

record history =
  hi_operations :: "(pytext \<times> operation_state) list"
  hi_calls :: "(pytext \<times> pytext) list"
  hi_ids :: "pytext list"
  hi_binding :: "pytext option"
  hi_sequence :: int
  hi_bytes :: int

definition empty_history :: history where
  "empty_history = \<lparr>hi_operations = [], hi_calls = [], hi_ids = [], hi_binding = None, hi_sequence = 0, hi_bytes = 0\<rparr>"

fun is_control :: "request \<Rightarrow> bool" where
  "is_control (Owner_control c) = True"
| "is_control _ = False"

fun bypasses :: "request \<Rightarrow> bool" where
  "bypasses (Owner_control c) = (cr_method c \<in> {u ''status'', u ''cancel''})"
| "bypasses _ = False"

definition uncertain :: "operation_state \<Rightarrow> bool" where
  "uncertain x \<longleftrightarrow> op_outcome x = u ''uncertain''"

fun admit_control :: "(pytext \<times> json) list \<Rightarrow> request \<Rightarrow> history \<Rightarrow> (py_error, history) result" where
  "admit_control obj (Owner_control c) h =
     rbind (require (\<not> has obj ''tool_call'' \<and> entry obj ''checkpoint'' = JNull \<and> cr_id c \<notin> set (hi_ids h) \<and>
              cr_sequence c = hi_sequence h + 1 \<and> (hi_binding h = None \<or> hi_binding h = Some (cr_binding c)))
              (ValueError ''Owner control identity changed or was already accepted; reconcile without replay'')) (\<lambda>_.
     rbind (require (hi_bytes h + (cr_bytes c + 1) \<le> 1048576) (ValueError ''Owner control byte budget exceeded'')) (\<lambda>_.
       Inr (h\<lparr>hi_ids := hi_ids h @ [cr_id c], hi_binding := Some (cr_binding c), hi_sequence := cr_sequence c,
             hi_bytes := hi_bytes h + (cr_bytes c + 1)\<rparr>)))"
| "admit_control obj _ h = Inr h"

definition read_call :: "pytext option \<Rightarrow> json \<Rightarrow> (py_error, tool_call) result" where
  "read_call checkpoint v =
     (let e = ValueError ''Tool operation requires a checkpoint and explicit call identity'';
          bad = ValueError ''Invalid tool call identity or argument digest'' in
      rbind (expect_some e (as_obj v)) (\<lambda>call.
      rbind (require (keys_are call [''run_id'', ''call_id'', ''name'', ''arguments_sha256''] \<and> checkpoint \<noteq> None) e) (\<lambda>_.
      rbind (expect_some bad (id_in (entry call ''run_id''))) (\<lambda>r.
      rbind (expect_some bad (id_in (entry call ''call_id''))) (\<lambda>c.
      rbind (expect_some bad (id_in (entry call ''name''))) (\<lambda>n.
      rbind (expect_some bad (digest_in (entry call ''arguments_sha256''))) (\<lambda>a.
        Inr \<lparr>tc_run = r, tc_call = c, tc_name = n, tc_arguments = a\<rparr>)))))))"

definition admit_call :: "(pytext \<times> json) list \<Rightarrow> pytext option \<Rightarrow> history \<Rightarrow> (py_error, history \<times> tool_call option) result" where
  "admit_call obj checkpoint h =
     (if has obj ''tool_call'' then
        rbind (read_call checkpoint (entry obj ''tool_call'')) (\<lambda>c.
        rbind (require ((tc_run c, tc_call c) \<notin> set (hi_calls h))
                 (ValueError ''Tool call already has an operation; reconcile without replay'')) (\<lambda>_.
          Inr (h\<lparr>hi_calls := hi_calls h @ [(tc_run c, tc_call c)]\<rparr>, Some c)))
      else Inr (h, None))"

definition begin_operation :: "(pytext \<times> json) list \<Rightarrow> pytext \<Rightarrow> history \<Rightarrow> (py_error, history) result" where
  "begin_operation obj op h =
     rbind (read_request (entry obj ''kind'') (entry obj ''request'')) (\<lambda>req.
     rbind (require (list_all (\<lambda>x. is_control (in_request (op_intent (snd x))) = is_control req) (hi_operations h))
              (ValueError ''Owner control requires a separate journal'')) (\<lambda>_.
     rbind (require (map_of (hi_operations h) op = None \<and> (bypasses req \<or> list_all (\<lambda>x. \<not> uncertain (snd x)) (hi_operations h)))
              (ValueError ''Unreconciled or duplicate operation intent'')) (\<lambda>_.
     rbind (admit_control obj req h) (\<lambda>h1.
     rbind (expect_some (ValueError ''Invalid checkpoint evidence digest'') (none_or digest_in (entry obj ''checkpoint''))) (\<lambda>cp.
     rbind (admit_call obj cp h1) (\<lambda>(h2, call).
       Inr (h2\<lparr>hi_operations := hi_operations h2 @
              [(op, \<lparr>op_intent = \<lparr>in_request = req, in_checkpoint = cp, in_call = call\<rparr>, op_sequence = entry obj ''sequence'',
                    op_outcome = u ''uncertain'', op_result = None\<rparr>)]\<rparr>)))))))"

text \<open>\<open>outcome not in OUTCOMES\<close> hashes the outcome.\<close>

definition read_outcome :: "json \<Rightarrow> (py_error, pytext) result" where
  "read_outcome v =
     (case v of JList _ \<Rightarrow> Inl TypeError | JObj _ \<Rightarrow> Inl TypeError
      | _ \<Rightarrow> expect_some (ValueError ''Invalid operation outcome transition'') (text_in outcome_names v))"

fun outcome_fits :: "request \<Rightarrow> pytext \<Rightarrow> (py_error, unit) result" where
  "outcome_fits (File_replace p b a x) oc =
     require (oc \<in> set (map u [''applied'', ''not_applied'', ''uncertain''])) (ValueError ''Invalid file replacement outcome'')"
| "outcome_fits (Process a s) oc = require (oc \<noteq> u ''applied'') (ValueError ''Invalid process outcome'')"
| "outcome_fits (Owner_control c) oc =
     require (oc \<in> set (map u [''completed'', ''uncertain''])) (ValueError ''Invalid owner control outcome'')"

definition settle_operation :: "(pytext \<times> json) list \<Rightarrow> pytext \<Rightarrow> history \<Rightarrow> (py_error, history) result" where
  "settle_operation obj op h =
     (let bad = ValueError ''Invalid operation outcome transition'' in
      rbind (expect_some bad (map_of (hi_operations h) op)) (\<lambda>x.
      rbind (require (uncertain x) bad) (\<lambda>_.
      rbind (read_outcome (entry obj ''outcome'')) (\<lambda>oc.
      rbind (expect_some bad (as_bool (entry obj ''reconciled''))) (\<lambda>rec.
      rbind (expect_some bad (digest_in (entry obj ''evidence_sha256''))) (\<lambda>ev.
      rbind (outcome_fits (in_request (op_intent x)) oc) (\<lambda>_.
      rbind (require (op_result x = None \<or> rec) (ValueError ''Uncertain outcome requires reconciliation'')) (\<lambda>_.
        Inr (h\<lparr>hi_operations := AList.update op
                 (x\<lparr>op_outcome := oc, op_result := Some \<lparr>oc_outcome = oc, oc_evidence = ev, oc_reconciled = rec\<rparr>\<rparr>)
                 (hi_operations h)\<rparr>)))))))))"

definition common_keys :: "string list" where
  "common_keys = [''schema_version'', ''sequence'', ''previous'', ''task'', ''session'', ''operation'', ''type'']"

definition check_record :: "history \<Rightarrow> (pytext \<times> json) list \<Rightarrow> (py_error, history) result" where
  "check_record h obj =
     rbind (expect_some (ValueError ''Invalid operation identity'') (hex_in 32 (entry obj ''operation''))) (\<lambda>op.
       if entry obj ''type'' = JStr (u ''intent'') \<and>
          (keys_are obj (common_keys @ [''kind'', ''request'', ''checkpoint'']) \<or>
           keys_are obj (common_keys @ [''kind'', ''request'', ''checkpoint'', ''tool_call'']))
       then begin_operation obj op h
       else if entry obj ''type'' = JStr (u ''outcome'') \<and> keys_are obj (common_keys @ [''outcome'', ''evidence_sha256'', ''reconciled''])
       then settle_operation obj op h
       else Inl (ValueError ''Unsupported operation record schema''))"

definition states_of :: "(pytext \<times> json) list list \<Rightarrow> (py_error, history) result" where
  "states_of records = rfold check_record empty_history records"

section \<open>The directory\<close>

type_synonym files = "(pytext \<times> (py_error, bytes) result) list"

definition lock_name :: pytext where "lock_name = u ''.runtime-use.lock''"

definition pending_name :: "pytext \<Rightarrow> pytext" where
  "pending_name i = u ''.pending-'' @ i"

definition ignored_name :: "pytext \<Rightarrow> bool" where
  "ignored_name name \<longleftrightarrow> name = lock_name \<or> (take 9 name = u ''.pending-'' \<and> hex_text 32 (drop 9 name))"

text \<open>The last \<open>k\<close> decimal digits of a number; a record's name has eight.\<close>

fun digits :: "nat \<Rightarrow> nat \<Rightarrow> pytext" where
  "digits 0 n = []"
| "digits (Suc k) n = digits k (n div 10) @ [48 + n mod 10]"

definition record_name :: "nat \<Rightarrow> pytext" where
  "record_name n = digits 8 n @ u ''.json''"

record loaded =
  ld_records :: "(pytext \<times> json) list list"
  ld_previous :: "pytext option"
  ld_total :: int

text \<open>
  Bytes that are not the UTF-8 text of a value with distinct keys cannot be canonical either; the texts of the errors
  \<open>json.loads\<close> and the comparison raise for them are not told apart.
\<close>

definition load_file ::
    "(rat \<Rightarrow> pytext) \<Rightarrow> (pytext \<Rightarrow> rat option) \<Rightarrow> (bytes \<Rightarrow> pytext) \<Rightarrow> pytext \<Rightarrow> pytext \<Rightarrow> loaded \<Rightarrow>
     pytext \<times> (py_error, bytes) result \<Rightarrow> (py_error, loaded) result" where
  "load_file rp fl sha task session st file =
     (let canonical = ValueError ''Operation record must use canonical JSON''; n = length (ld_records st) in
      if ignored_name (fst file) then Inr st
      else
        rbind (require (fst file = record_name n \<and> n < max_records)
                 (ValueError ''Operation journal inventory is invalid or exceeds its limit'')) (\<lambda>_.
        rbind (snd file) (\<lambda>raw.
        rbind (require (int (length raw) \<le> max_record \<and> ld_total st + int (length raw) \<le> max_journal)
                 (ValueError ''Operation journal exceeds byte limits'')) (\<lambda>_.
        rbind (expect_some (ValueError ''JSON'') (Option.bind (utf8_decode raw) (loads fl))) (\<lambda>v.
        rbind (expect_some canonical (as_obj v)) (\<lambda>obj.
        rbind (encode_record rp v) (\<lambda>bs.
        rbind (require (bs = raw) canonical) (\<lambda>_.
        rbind (require (entry obj ''schema_version'' = JInt 1 \<and> entry obj ''sequence'' = JInt (int n) \<and>
                        entry obj ''previous'' = opt_text (ld_previous st) \<and>
                        entry obj ''task'' = JStr task \<and> entry obj ''session'' = JStr session)
                 (ValueError ''Operation journal identity or hash chain mismatch'')) (\<lambda>_.
          Inr \<lparr>ld_records = ld_records st @ [obj], ld_previous = Some (sha raw), ld_total = ld_total st + int (length raw)\<rparr>)))))))))"

definition nothing_loaded :: loaded where
  "nothing_loaded = \<lparr>ld_records = [], ld_previous = None, ld_total = 0\<rparr>"

definition load_journal ::
    "(rat \<Rightarrow> pytext) \<Rightarrow> (pytext \<Rightarrow> rat option) \<Rightarrow> (bytes \<Rightarrow> pytext) \<Rightarrow> pytext \<Rightarrow> pytext \<Rightarrow> files \<Rightarrow> (py_error, loaded) result" where
  "load_journal rp fl sha task session files =
     rbind (rfold (load_file rp fl sha task session) nothing_loaded (sort_key fst files)) (\<lambda>st.
     rbind (states_of (ld_records st)) (\<lambda>_. Inr st))"

section \<open>Appending\<close>

text \<open>
  How a write ends: done, failed with the temporary file left behind, or failed after the record has got its
  name. Files cannot be read differently from how they were written.
\<close>

datatype write_end = Written | Left_pending py_error pytext bytes | Landed py_error

fun written :: "pytext \<Rightarrow> bytes \<Rightarrow> write_end \<Rightarrow> files \<Rightarrow> py_error option \<times> files" where
  "written name raw Written files = (None, files @ [(name, Inr raw)])"
| "written name raw (Left_pending e i part) files =
     (Some e, if hex_text 32 i \<and> pending_name i \<notin> set (map fst files) then files @ [(pending_name i, Inr part)] else files)"
| "written name raw (Landed e) files = (Some e, files @ [(name, Inr raw)])"

definition uncertain_count :: "history \<Rightarrow> nat" where
  "uncertain_count h = length (filter (\<lambda>x. uncertain (snd x)) (hi_operations h))"

definition reserve_of :: "history \<Rightarrow> (pytext \<times> json) list \<Rightarrow> nat" where
  "reserve_of h obj =
     (if hi_operations h \<noteq> [] \<and> is_control (in_request (op_intent (snd (hd (hi_operations h))))) then uncertain_count h
      else if entry obj ''type'' = JStr (u ''intent'') \<or> entry obj ''outcome'' = JStr (u ''uncertain'') then 1 else 0)"

record journal =
  jn_task :: pytext
  jn_session :: pytext
  jn_issued :: "pytext list"

definition journal_new :: "pytext \<Rightarrow> pytext \<Rightarrow> (py_error, journal) result" where
  "journal_new task session =
     rbind (require (journal_id task \<and> journal_id session) (ValueError ''Journal requires bounded task and session identifiers'')) (\<lambda>_.
       Inr \<lparr>jn_task = task, jn_session = session, jn_issued = []\<rparr>)"

text \<open>\<open>{**value, ...}\<close>\<close>

definition overridden :: "(pytext \<times> json) list \<Rightarrow> (pytext \<times> json) list \<Rightarrow> (pytext \<times> json) list" where
  "overridden given kvs = filter (\<lambda>kv. fst kv \<notin> set (map fst kvs)) given @ kvs"

text \<open>What an append would write: the name and the bytes of the next record.\<close>

definition next_record ::
    "(rat \<Rightarrow> pytext) \<Rightarrow> (pytext \<Rightarrow> rat option) \<Rightarrow> (bytes \<Rightarrow> pytext) \<Rightarrow> journal \<Rightarrow> json \<Rightarrow> files \<Rightarrow> (py_error, pytext \<times> bytes) result" where
  "next_record rp fl sha j value files =
     rbind (load_journal rp fl sha (jn_task j) (jn_session j) files) (\<lambda>st.
     rbind (expect_some TypeError (as_obj value)) (\<lambda>given.
     let n = length (ld_records st);
         obj = overridden given [(u ''schema_version'', JInt 1), (u ''sequence'', JInt (int n)), (u ''previous'', opt_text (ld_previous st)),
                                 (u ''task'', JStr (jn_task j)), (u ''session'', JStr (jn_session j))] in
     rbind (states_of (ld_records st @ [obj])) (\<lambda>h.
     rbind (encode_record rp (JObj obj)) (\<lambda>raw.
     let reserve = reserve_of h obj in
     rbind (require (n + 1 + reserve \<le> max_records \<and> ld_total st + int (length raw) + int reserve * max_record \<le> max_journal)
              (ValueError ''Operation journal is full'')) (\<lambda>_. Inr (record_name n, raw))))))"

definition journal_append ::
    "(rat \<Rightarrow> pytext) \<Rightarrow> (pytext \<Rightarrow> rat option) \<Rightarrow> (bytes \<Rightarrow> pytext) \<Rightarrow> py_error option \<Rightarrow> write_end \<Rightarrow> journal \<Rightarrow> json \<Rightarrow>
     files \<Rightarrow> py_error option \<times> files" where
  "journal_append rp fl sha lease w j value files =
     (case rbind (encode_record rp value) (\<lambda>bs. expect_some (ValueError ''JSON'') (Option.bind (utf8_decode bs) (loads fl))) of
        Inl e \<Rightarrow> (Some e, files)
      | Inr v \<Rightarrow>
          (case lease of Some e \<Rightarrow> (Some e, files)
           | None \<Rightarrow>
               (case next_record rp fl sha j v files of Inl e \<Rightarrow> (Some e, files)
                | Inr (name, raw) \<Rightarrow> written name raw w files)))"

definition begin_value :: "pytext \<Rightarrow> json \<Rightarrow> json \<Rightarrow> json \<Rightarrow> json option \<Rightarrow> json" where
  "begin_value op kind req checkpoint call =
     JObj ([(u ''type'', JStr (u ''intent'')), (u ''operation'', JStr op), (u ''kind'', kind), (u ''request'', req),
            (u ''checkpoint'', checkpoint)] @ (case call of None \<Rightarrow> [] | Some c \<Rightarrow> [(u ''tool_call'', c)]))"

text \<open>\<open>begin\<close>, told the random identifier it draws.\<close>

definition journal_begin ::
    "(rat \<Rightarrow> pytext) \<Rightarrow> (pytext \<Rightarrow> rat option) \<Rightarrow> (bytes \<Rightarrow> pytext) \<Rightarrow> py_error option \<Rightarrow> write_end \<Rightarrow> pytext \<Rightarrow>
     json \<Rightarrow> json \<Rightarrow> json \<Rightarrow> json option \<Rightarrow> journal \<times> files \<Rightarrow> (py_error, pytext) result \<times> journal \<times> files" where
  "journal_begin rp fl sha lease w op kind req checkpoint call s =
     (case s of (j, files) \<Rightarrow>
        (case journal_append rp fl sha lease w j (begin_value op kind req checkpoint call) files of
           (Some e, files') \<Rightarrow> (Inl e, j, files')
         | (None, files') \<Rightarrow> (Inr op, j\<lparr>jn_issued := List.insert op (jn_issued j)\<rparr>, files')))"

definition finish_value :: "pytext \<Rightarrow> json \<Rightarrow> json \<Rightarrow> bool \<Rightarrow> json" where
  "finish_value op oc evidence reconciled =
     JObj [(u ''type'', JStr (u ''outcome'')), (u ''operation'', JStr op), (u ''outcome'', oc),
           (u ''evidence_sha256'', evidence), (u ''reconciled'', JBool reconciled)]"

definition journal_finish ::
    "(rat \<Rightarrow> pytext) \<Rightarrow> (pytext \<Rightarrow> rat option) \<Rightarrow> (bytes \<Rightarrow> pytext) \<Rightarrow> py_error option \<Rightarrow> write_end \<Rightarrow> pytext \<Rightarrow>
     json \<Rightarrow> json \<Rightarrow> bool \<Rightarrow> journal \<times> files \<Rightarrow> (py_error, unit) result \<times> journal \<times> files" where
  "journal_finish rp fl sha lease w op oc evidence reconciled s =
     (case s of (j, files) \<Rightarrow>
        if op \<notin> set (jn_issued j) \<and> \<not> reconciled then (Inl (PermissionError ''Recovered operations require explicit reconciliation''), j, files)
        else
          (case journal_append rp fl sha lease w j (finish_value op oc evidence reconciled) files of
             (Some e, files') \<Rightarrow> (Inl e, j, files')
           | (None, files') \<Rightarrow> (Inr (), j\<lparr>jn_issued := remove1 op (jn_issued j)\<rparr>, files')))"

section \<open>Reading the journal\<close>

definition journal_inspect ::
    "(rat \<Rightarrow> pytext) \<Rightarrow> (pytext \<Rightarrow> rat option) \<Rightarrow> (bytes \<Rightarrow> pytext) \<Rightarrow> journal \<Rightarrow> files \<Rightarrow> (py_error, history) result" where
  "journal_inspect rp fl sha j files =
     rbind (load_journal rp fl sha (jn_task j) (jn_session j) files) (\<lambda>st. states_of (ld_records st))"

definition fingerprint ::
    "(rat \<Rightarrow> pytext) \<Rightarrow> (bytes \<Rightarrow> pytext) \<Rightarrow> journal \<Rightarrow> nat \<Rightarrow> pytext option \<Rightarrow> (py_error, pytext) result" where
  "fingerprint rp sha j n head =
     rbind (encode_record rp (JObj [(u ''task'', JStr (jn_task j)), (u ''session'', JStr (jn_session j)),
              (u ''count'', JInt (int n)), (u ''head'', opt_text head)])) (\<lambda>bs. Inr (sha bs))"

definition journal_frontier ::
    "(rat \<Rightarrow> pytext) \<Rightarrow> (pytext \<Rightarrow> rat option) \<Rightarrow> (bytes \<Rightarrow> pytext) \<Rightarrow> journal \<Rightarrow> files \<Rightarrow> (py_error, pytext) result" where
  "journal_frontier rp fl sha j files =
     rbind (load_journal rp fl sha (jn_task j) (jn_session j) files) (\<lambda>st.
       fingerprint rp sha j (length (ld_records st)) (ld_previous st))"

record observation =
  ob_state :: pytext
  ob_operation :: "pytext option"
  ob_result :: "pytext option"
  ob_frontier :: pytext

definition observe_operation ::
    "pytext \<Rightarrow> pytext \<Rightarrow> pytext \<Rightarrow> observation \<Rightarrow> pytext \<times> operation_state \<Rightarrow> (py_error, observation) result" where
  "observe_operation binding request_id request_sha ob x =
     (case in_request (op_intent (snd x)) of
        Owner_control c \<Rightarrow>
          if cr_binding c \<noteq> binding then Inl (PermissionError ''Journal does not belong to the admitted control binding'')
          else if cr_id c = request_id then
            (if cr_request c \<noteq> request_sha then Inl (PermissionError ''Control request digest differs from accepted intent'')
             else Inr (ob\<lparr>ob_state := op_outcome (snd x), ob_operation := Some (fst x),
                          ob_result := (if op_outcome (snd x) = u ''completed'' then map_option oc_evidence (op_result (snd x)) else None)\<rparr>))
          else Inr ob
      | _ \<Rightarrow> Inl (PermissionError ''Journal does not belong to the admitted control binding''))"

definition control_observation ::
    "(rat \<Rightarrow> pytext) \<Rightarrow> (pytext \<Rightarrow> rat option) \<Rightarrow> (bytes \<Rightarrow> pytext) \<Rightarrow> journal \<Rightarrow> json \<Rightarrow> json \<Rightarrow> json \<Rightarrow> files \<Rightarrow>
     (py_error, observation) result" where
  "control_observation rp fl sha j binding request_id request_sha files =
     (let bad = ValueError ''Invalid control observation identity'' in
      rbind (expect_some bad (digest_in binding)) (\<lambda>b.
      rbind (expect_some bad (digest_in request_sha)) (\<lambda>r.
      rbind (expect_some bad (hex_in 32 request_id)) (\<lambda>i.
      rbind (load_journal rp fl sha (jn_task j) (jn_session j) files) (\<lambda>st.
      rbind (fingerprint rp sha j (length (ld_records st)) (ld_previous st)) (\<lambda>current.
      rbind (states_of (ld_records st)) (\<lambda>h.
        rfold (observe_operation b i r)
          \<lparr>ob_state = u ''not_observed'', ob_operation = None, ob_result = None, ob_frontier = current\<rparr> (hi_operations h))))))))"

text \<open>The search of \<open>after\<close> for the prefix a frontier stands for.\<close>

fun find_prefix ::
    "(rat \<Rightarrow> pytext) \<Rightarrow> (bytes \<Rightarrow> pytext) \<Rightarrow> journal \<Rightarrow> pytext \<Rightarrow> nat \<Rightarrow> pytext option \<Rightarrow> (pytext \<times> json) list list \<Rightarrow>
     (py_error, nat option) result" where
  "find_prefix rp sha j frontier n head [] =
     rbind (fingerprint rp sha j n head) (\<lambda>f. Inr (if f = frontier then Some n else None))"
| "find_prefix rp sha j frontier n head (r # rs) =
     rbind (fingerprint rp sha j n head) (\<lambda>f.
       if f = frontier then Inr (Some n)
       else rbind (encode_record rp (JObj r)) (\<lambda>raw. find_prefix rp sha j frontier (n + 1) (Some (sha raw)) rs))"

definition journal_after ::
    "(rat \<Rightarrow> pytext) \<Rightarrow> (pytext \<Rightarrow> rat option) \<Rightarrow> (bytes \<Rightarrow> pytext) \<Rightarrow> journal \<Rightarrow> json \<Rightarrow> files \<Rightarrow>
     (py_error, pytext \<times> (pytext \<times> operation_state) list) result" where
  "journal_after rp fl sha j frontier files =
     rbind (expect_some (ValueError ''Invalid journal frontier'') (digest_in frontier)) (\<lambda>f.
     rbind (load_journal rp fl sha (jn_task j) (jn_session j) files) (\<lambda>st.
     rbind (find_prefix rp sha j f 0 None (ld_records st)) (\<lambda>found.
     rbind (expect_some (PermissionError ''Checkpoint frontier is not in this journal'') found) (\<lambda>position.
     rbind (states_of (take position (ld_records st))) (\<lambda>h.
     rbind (require (uncertain_count h = 0) (PermissionError ''Recovery checkpoint prefix contains uncertain operations'')) (\<lambda>_.
     rbind (states_of (ld_records st)) (\<lambda>h'.
     rbind (fingerprint rp sha j (length (ld_records st)) (ld_previous st)) (\<lambda>current.
       Inr (current, filter (\<lambda>x. case as_int (op_sequence (snd x)) of Some i \<Rightarrow> int position \<le> i | None \<Rightarrow> False)
                        (hi_operations h'))))))))))"

end
