(* ===== verification/Json_Canon.thy ===== *)
theory Json_Canon
  imports Readers
begin

text \<open>
  The canonical form of JSON values, the keys of every object in order: what reading back the sorted text of a value
  gives, and what the readers of fields see of it.
\<close>

section \<open>Canonical values\<close>

text \<open>What reading the text of a value gives: the keys of every object in order.\<close>

fun canon :: "json \<Rightarrow> json" where
  "canon (JList xs) = JList (map canon xs)"
| "canon (JObj kvs) = JObj (sort_key fst (map (\<lambda>kv. (fst kv, canon (snd kv))) kvs))"
| "canon v = v"

abbreviation canon_obj :: "(pytext \<times> json) list \<Rightarrow> (pytext \<times> json) list" where
  "canon_obj kvs \<equiv> sort_key fst (map (\<lambda>kv. (fst kv, canon (snd kv))) kvs)"

fun readable :: "json \<Rightarrow> bool" where
  "readable (JStr s) = list_all scalar_value s"
| "readable (JInt i) = json_ok (JInt i)"
| "readable (JFloat r) = False"
| "readable (JList xs) = list_all readable xs"
| "readable (JObj kvs) = list_all (\<lambda>kv. list_all scalar_value (fst kv) \<and> readable (snd kv)) kvs"
| "readable v = True"

lemma sort_key_map: "sort_key f (map g xs) = map g (sort_key (f \<circ> g) xs)"
proof (induction xs)
  case (Cons x xs)
  have "insort_key f (g x) (map g ys) = map g (insort_key (f \<circ> g) x ys)" for ys by (induction ys) auto
  with Cons show ?case by (simp add: comp_def)
qed simp

lemma distinct_sort_key: "distinct (map f xs) \<Longrightarrow> distinct (map f (sort_key f xs))"
proof -
  have "mset (map f (sort_key f xs)) = mset (map f xs)" by simp
  then show "distinct (map f xs) \<Longrightarrow> distinct (map f (sort_key f xs))" by (metis mset_eq_imp_distinct_iff)
qed

lemma dumps_canon: "dumps rp a (canon v) = dumps rp a v"
proof (induction v rule: canon.induct)
  case (1 xs)
  then show ?case by (simp cong: map_cong)
next
  case (2 kvs)
  have "map (\<lambda>x. quoted a (fst x) @ 58 # dumps rp a (canon (snd x))) (sort_key fst kvs)
      = map (\<lambda>x. quoted a (fst x) @ 58 # dumps rp a (snd x)) (sort_key fst kvs)"
    using 2 by (intro map_cong) simp_all
  moreover have "sort_key fst (canon_obj kvs) = canon_obj kvs" by (simp add: sort_key_id_if_sorted)
  moreover have "canon_obj kvs = map (\<lambda>kv. (fst kv, canon (snd kv))) (sort_key fst kvs)" by (simp add: sort_key_map comp_def)
  ultimately show ?case by (simp add: comp_def del: map_eq_conv)
qed simp_all

lemma json_ok_canon: "unique_keys v \<Longrightarrow> readable v \<Longrightarrow> json_ok (canon v)"
proof (induction v rule: canon.induct)
  case (1 xs)
  then show ?case by (auto simp: list_all_iff)
next
  case (2 kvs)
  have "distinct (map fst (map (\<lambda>kv. (fst kv, canon (snd kv))) kvs))" using 2 by (simp add: comp_def)
  then have "distinct (map fst (canon_obj kvs))" by (rule distinct_sort_key)
  with 2 show ?case by (auto simp: list_all_iff)
qed simp_all

lemma loads_canon: "unique_keys v \<Longrightarrow> readable v \<Longrightarrow> r \<in> {[], [10]} \<Longrightarrow> loads fl (dumps rp a v @ r) = Some (canon v)"
  using loads_line [OF json_ok_canon, of v r fl rp a] by (simp add: dumps_canon)

lemma unique_canon: "unique_keys v \<Longrightarrow> readable v \<Longrightarrow> unique_keys (canon v)"
  using json_ok_unique [OF json_ok_canon] .

lemma map_of_canon: "distinct (map fst kvs) \<Longrightarrow> map_of (canon_obj kvs) k = map_option canon (map_of kvs k)"
proof -
  assume d: "distinct (map fst kvs)"
  let ?ys = "map (\<lambda>kv. (fst kv, canon (snd kv))) kvs"
  have dy: "distinct (map fst ?ys)" using d by (simp add: comp_def)
  then have ds: "distinct (map fst (sort_key fst ?ys))" by (rule distinct_sort_key)
  have "map_of (sort_key fst ?ys) = map_of ?ys" using map_of_inject_set [OF ds dy] by simp
  moreover have "map_of ?ys k = map_option canon (map_of kvs k)" by (induction kvs) auto
  ultimately show ?thesis by simp
qed

lemma entry_canon: "distinct (map fst kvs) \<Longrightarrow> entry (canon_obj kvs) n = canon (entry kvs n)"
  by (simp add: entry_def member_or_def member_def map_of_canon split: option.split)

lemma keys_canon: "keys_are (canon_obj kvs) names = keys_are kvs names"
  by (simp add: keys_are_def image_image)

lemma as_canon [simp]: "as_str (canon v) = as_str v" "as_int (canon v) = as_int v" "as_bool (canon v) = as_bool v"
  "as_obj (canon v) = map_option canon_obj (as_obj v)"
  by (cases v; simp)+

lemma canon_atom [simp]: "canon v = JNull \<longleftrightarrow> v = JNull" "canon v = JStr s \<longleftrightarrow> v = JStr s" "canon v = JInt i \<longleftrightarrow> v = JInt i"
  by (cases v; simp)+

end
