(* ===== verification/Journal_Reading.thy ===== *)
theory Journal_Reading
  imports Operation_Journal Json_Canon
begin

text \<open>
  The records of the operation journal as text: canonical JSON reads back, its reading does not depend on the order
  of keys, and every record that passes the checks can be written and read.
\<close>

lemma has_canon: "distinct (map fst kvs) \<Longrightarrow> has (canon_obj kvs) n = has kvs n"
  by (simp add: has_def member_def map_of_canon)

lemma readers_canon [simp]:
  "digest_in (canon v) = digest_in v" "hex_in n (canon v) = hex_in n v" "id_in (canon v) = id_in v"
  "text_in names (canon v) = text_in names v" "int_in low high (canon v) = int_in low high v"
  "none_or digest_in (canon v) = none_or digest_in v" "read_outcome (canon v) = read_outcome v"
  "check_relative (canon v) = check_relative v"
  by (simp_all add: digest_in_def hex_in_def id_in_def text_in_def int_in_def none_or_def check_relative_def)
    (cases v; simp add: read_outcome_def text_in_def)

section \<open>Reading does not depend on the order of keys\<close>

lemma unique_entry: "distinct (map fst kvs) \<Longrightarrow> list_all (\<lambda>kv. P (snd kv)) kvs \<Longrightarrow> P JNull \<Longrightarrow> P (entry kvs n)"
  by (auto simp: entry_def member_or_def member_def list_all_iff split: option.split dest!: map_of_SomeD)

lemma read_request_canon: "unique_keys v \<Longrightarrow> read_request (canon k) (canon v) = read_request k v"
proof (cases v)
  case (JObj kvs)
  assume "unique_keys v"
  then have d: "distinct (map fst kvs)" by (simp add: JObj)
  note e = entry_canon [OF d] has_canon [OF d] keys_canon
  have "read_extra (canon_obj kvs) = read_extra kvs" by (simp add: read_extra_def read_props_def e cong: option.case_cong)
  then have "read_file_replace (canon_obj kvs) = read_file_replace kvs" by (simp add: read_file_replace_def e)
  moreover have "read_control (canon_obj kvs) = read_control kvs" "read_process (canon_obj kvs) = read_process kvs"
    by (simp_all add: read_control_def read_process_def e)
  ultimately show ?thesis by (auto simp: read_request_def JObj expect_some_def keys_canon)
qed (simp_all add: read_request_def expect_some_def)

lemma read_call_canon: "unique_keys v \<Longrightarrow> read_call cp (canon v) = read_call cp v"
proof (cases v)
  case (JObj kvs)
  assume "unique_keys v"
  then have d: "distinct (map fst kvs)" by (simp add: JObj)
  show ?thesis by (simp add: read_call_def JObj expect_some_def keys_canon entry_canon [OF d])
qed (simp_all add: read_call_def expect_some_def)

lemma entry_unique: "unique_keys (JObj obj) \<Longrightarrow> unique_keys (entry obj n)"
  by (rule unique_entry [of _ unique_keys]) simp_all

lemma read_outcome_Inr: "read_outcome v = Inr s \<longleftrightarrow> v = JStr s \<and> s \<in> set (map u outcome_names)"
  by (cases v) (auto simp: read_outcome_def reader_simps)

lemma hex_in_Some: "hex_in n v = Some s \<longleftrightarrow> v = JStr s \<and> hex_text n s"
  by (auto simp: hex_in_def as_simps split: option.splits if_splits)

lemma id_in_Some: "id_in v = Some s \<longleftrightarrow> v = JStr s \<and> journal_id s"
  by (auto simp: id_in_def as_simps split: option.splits if_splits)

lemmas journal_simps = rbind_Inr_iff require_Inr_iff reader_simps hex_in_Some id_in_Some as_simps read_outcome_Inr

lemma begin_operation_canon:
  assumes "unique_keys (JObj obj)" and "entry obj ''sequence'' = JInt i"
  shows "begin_operation (canon_obj obj) op h = begin_operation obj op h"
proof -
  have d: "distinct (map fst obj)" using assms(1) by simp
  have "admit_control (canon_obj obj) req h = admit_control obj req h" for req h
    by (cases req) (simp_all add: has_canon [OF d] entry_canon [OF d])
  moreover have "admit_call (canon_obj obj) cp h = admit_call obj cp h" for cp h
    by (simp add: admit_call_def has_canon [OF d] entry_canon [OF d] read_call_canon entry_unique [OF assms(1)])
  ultimately show ?thesis
    by (simp add: begin_operation_def entry_canon [OF d] read_request_canon entry_unique [OF assms(1)] assms(2))
qed

lemma check_record_canon:
  assumes "unique_keys (JObj obj)" and "entry obj ''sequence'' = JInt i"
  shows "check_record h (canon_obj obj) = check_record h obj"
proof -
  have d: "distinct (map fst obj)" using assms(1) by simp
  have "settle_operation (canon_obj obj) op h = settle_operation obj op h" for op
    by (simp add: settle_operation_def entry_canon [OF d])
  then show ?thesis
    by (simp add: check_record_def entry_canon [OF d] keys_canon begin_operation_canon [OF assms] cong: if_cong)
qed

section \<open>Checked records are readable\<close>

lemma object_readable:
  assumes "keys_are obj names" and "distinct (map fst obj)" and "\<And>n. n \<in> set names \<Longrightarrow> readable (entry obj n)"
  shows "readable (JObj obj)"
proof -
  have "list_all scalar_value (fst kv) \<and> readable (snd kv)" if kv: "kv \<in> set obj" for kv
  proof -
    obtain n where n: "n \<in> set names" "fst kv = u n" using kv assms(1) by (force simp: keys_are_def)
    have "map_of obj (u n) = Some (snd kv)" using kv n assms(2) by (metis map_of_is_SomeI prod.collapse)
    then have "snd kv = entry obj n" by (simp add: entry_def member_or_def member_def)
    then show ?thesis using assms(3) [OF n(1)] n(2) u_scalar by simp
  qed
  then show ?thesis by (simp add: list_all_iff)
qed

lemma digest_readable: "digest_in v = Some s \<Longrightarrow> readable v"
  using digest_scalar by (auto simp: reader_simps)

lemma opt_digest_readable: "none_or digest_in v = Some w \<Longrightarrow> readable v"
  using digest_scalar by (auto simp: reader_simps)

lemma text_in_readable: "text_in names v = Some s \<Longrightarrow> readable v"
  using name_scalar by (auto simp: reader_simps)

lemma hex_in_readable: "hex_in n v = Some s \<Longrightarrow> readable v"
  using hex_scalar by (auto simp: hex_in_Some)

lemma id_in_readable: "id_in v = Some s \<Longrightarrow> readable v"
  using journal_scalar by (auto simp: id_in_Some)

lemma int_in_readable: "int_in low high v = Some i \<Longrightarrow> \<bar>low\<bar> < 10000000000 \<Longrightarrow> \<bar>high\<bar> < 10000000000 \<Longrightarrow> readable v"
  by (auto simp: reader_simps intro!: int_ok)

lemma u_readable: "readable (JStr (u s))"
  by (simp add: u_scalar)

lemmas readable_fields = digest_readable opt_digest_readable text_in_readable hex_in_readable id_in_readable

lemma path_readable: "check_relative v = Inr s \<Longrightarrow> utf8_encode s = Some bs \<Longrightarrow> readable v"
  by (auto simp: check_relative_def journal_simps utf8_encode_def split: if_splits)

lemma has_key: "keys_are obj names \<Longrightarrow> has obj n \<longleftrightarrow> n \<in> set names"
  by (auto simp: keys_are_def has_def member_def map_of_eq_None_iff)

lemma read_request_readable:
  assumes r: "read_request k v = Inr req" and un: "unique_keys v"
  shows "readable v"
proof -
  from r obtain obj where obj: "v = JObj obj" by (auto simp: read_request_def journal_simps)
  have d: "distinct (map fst obj)" using un by (simp add: obj)
  have repl: "readable v" if "keys_are obj names" "read_file_replace obj = Inr req"
      "names \<in> {file_keys, file_keys @ [''root_sha256''], file_keys @ [''root_sha256'', ''before_properties'', ''after_properties'']}" for names
  proof -
    from that(2) obtain p bs a b x where f: "check_relative (entry obj ''path'') = Inr p" "utf8_encode p = Some bs"
        "digest_in (entry obj ''after'') = Some a" "none_or digest_in (entry obj ''before'') = Some b" "read_extra obj = Some x"
      unfolding read_file_replace_def rbind_Inr_iff reader_simps(5) by blast
    have "has obj ''root_sha256'' \<Longrightarrow> readable (entry obj ''root_sha256'')"
      using f(5) digest_readable by (auto simp: read_extra_def split: option.splits)
    moreover have "has obj ''root_sha256'' \<Longrightarrow> has obj ''after_properties'' \<Longrightarrow>
        readable (entry obj ''after_properties'') \<and> readable (entry obj ''before_properties'')"
      using f(5) digest_readable opt_digest_readable by (auto simp: read_extra_def read_props_def split: option.splits)
    ultimately show ?thesis unfolding obj
      using that(1,3) f path_readable digest_readable opt_digest_readable
      by (intro object_readable [OF that(1) d]) (auto simp: has_key [OF that(1)] file_keys_def)
  qed
  have "readable v" if "keys_are obj [''argv_sha256'', ''snapshot_sha256'']" "read_process obj = Inr req"
    unfolding obj using that digest_readable
    by (intro object_readable [OF that(1) d]) (auto simp: read_process_def rbind_Inr_iff reader_simps(5))
  moreover have "readable v" if "keys_are obj control_keys" "read_control obj = Inr req"
  proof -
    from that(2) obtain a1 a2 a3 a4 a5 a6 where "hex_in 32 (entry obj ''request_id'') = Some a1" "int_in 1 1024 (entry obj ''sequence'') = Some a2"
        "int_in 1 16384 (entry obj ''request_bytes'') = Some a3" "text_in control_methods (entry obj ''method'') = Some a4"
        "digest_in (entry obj ''binding_sha256'') = Some a5" "digest_in (entry obj ''request_sha256'') = Some a6"
      unfolding read_control_def Let_def rbind_Inr_iff reader_simps(5) by blast
    then show ?thesis unfolding obj using readable_fields int_in_readable
      by (intro object_readable [OF that(1) d]) (auto simp: control_keys_def)
  qed
  ultimately show ?thesis using r repl
    by (auto simp: read_request_def obj expect_some_def split: if_splits)
qed

lemma read_call_readable:
  assumes r: "read_call cp v = Inr c" and un: "unique_keys v"
  shows "readable v"
proof -
  from r obtain obj a1 a2 a3 a4 where f: "v = JObj obj" "keys_are obj [''run_id'', ''call_id'', ''name'', ''arguments_sha256'']"
      "id_in (entry obj ''run_id'') = Some a1" "id_in (entry obj ''call_id'') = Some a2" "id_in (entry obj ''name'') = Some a3"
      "digest_in (entry obj ''arguments_sha256'') = Some a4"
    unfolding read_call_def Let_def rbind_Inr_iff require_Inr_iff reader_simps(5) as_simps by blast
  moreover have "distinct (map fst obj)" using un by (simp add: f(1))
  ultimately show ?thesis unfolding f(1) using readable_fields
    by (intro object_readable [OF f(2)]) auto
qed

end
