(* ===== verification/Journal_Histories.thy ===== *)
theory Journal_Histories
  imports Journal_Reading
begin

text \<open>
  What the histories of the operation journal keep: each accepted record is inverted into what it changes, and the
  discipline of operations, tool calls and owner controls is an invariant of the checks.
\<close>

section \<open>The discipline of histories\<close>

definition request_of :: "operation_state \<Rightarrow> request" where
  "request_of x = in_request (op_intent x)"

definition controls :: "history \<Rightarrow> control_request list" where
  "controls h = concat (map (\<lambda>x. case request_of (snd x) of Owner_control c \<Rightarrow> [c] | _ \<Rightarrow> []) (hi_operations h))"

definition call_keys :: "operation_state \<Rightarrow> (pytext \<times> pytext) list" where
  "call_keys x = (case in_call (op_intent x) of Some c \<Rightarrow> [(tc_run c, tc_call c)] | None \<Rightarrow> [])"

definition calls_of :: "history \<Rightarrow> (pytext \<times> pytext) list" where
  "calls_of h = concat (map (\<lambda>x. call_keys (snd x)) (hi_operations h))"

definition blocking :: "operation_state \<Rightarrow> bool" where
  "blocking x \<longleftrightarrow> uncertain x \<and> \<not> bypasses (request_of x)"

definition history_ok :: "history \<Rightarrow> bool" where
  "history_ok h \<longleftrightarrow>
     distinct (map fst (hi_operations h)) \<and> (\<forall>x \<in> set (hi_operations h). hex_text 32 (fst x)) \<and>
     (\<forall>x \<in> set (hi_operations h). \<forall>y \<in> set (hi_operations h). is_control (request_of (snd x)) = is_control (request_of (snd y))) \<and>
     length (filter (\<lambda>x. blocking (snd x)) (hi_operations h)) \<le> 1 \<and>
     hi_calls h = calls_of h \<and> distinct (calls_of h) \<and>
     hi_ids h = map cr_id (controls h) \<and> distinct (map cr_id (controls h)) \<and>
     map cr_sequence (controls h) = [1..int (length (controls h))] \<and> hi_sequence h = int (length (controls h)) \<and>
     (\<forall>c \<in> set (controls h). hi_binding h = Some (cr_binding c)) \<and> (controls h = [] \<longrightarrow> hi_binding h = None) \<and>
     hi_bytes h = sum_list (map (\<lambda>c. cr_bytes c + 1) (controls h)) \<and> hi_bytes h \<le> 1048576 \<and>
     (\<forall>x \<in> set (hi_operations h). case op_result (snd x) of None \<Rightarrow> uncertain (snd x)
        | Some r \<Rightarrow> op_outcome (snd x) = oc_outcome r \<and> outcome_fits (request_of (snd x)) (oc_outcome r) = Inr ())"

lemma empty_history_ok: "history_ok empty_history"
  by (simp add: history_ok_def empty_history_def controls_def calls_of_def)

text \<open>What an accepted intent adds.\<close>

lemma begin_operation_Inr:
  assumes "begin_operation obj op h = Inr h'"
  obtains x where "hi_operations h' = hi_operations h @ [(op, x)]" "uncertain x" "op_result x = None"
    "op_sequence x = entry obj ''sequence''" "map_of (hi_operations h) op = None"
    "\<forall>y \<in> set (hi_operations h). is_control (request_of (snd y)) = is_control (request_of x)"
    "bypasses (request_of x) \<or> (\<forall>y \<in> set (hi_operations h). \<not> uncertain (snd y))"
    "\<exists>h1. admit_control obj (request_of x) h = Inr h1 \<and> hi_ids h' = hi_ids h1 \<and> hi_binding h' = hi_binding h1 \<and>
        hi_sequence h' = hi_sequence h1 \<and> hi_bytes h' = hi_bytes h1 \<and> hi_calls h' = hi_calls h1 @ call_keys x \<and>
        set (call_keys x) \<inter> set (hi_calls h1) = {}"
proof -
  from assms obtain req h1 cp h2 call where r: "read_request (entry obj ''kind'') (entry obj ''request'') = Inr req"
      "list_all (\<lambda>x. is_control (in_request (op_intent (snd x))) = is_control req) (hi_operations h)"
      "map_of (hi_operations h) op = None \<and> (bypasses req \<or> list_all (\<lambda>x. \<not> uncertain (snd x)) (hi_operations h))"
      "admit_control obj req h = Inr h1" "admit_call obj cp h1 = Inr (h2, call)"
      and h': "h' = h2\<lparr>hi_operations := hi_operations h2 @ [(op, \<lparr>op_intent = \<lparr>in_request = req, in_checkpoint = cp, in_call = call\<rparr>,
          op_sequence = entry obj ''sequence'', op_outcome = u ''uncertain'', op_result = None\<rparr>)]\<rparr>"
    unfolding begin_operation_def rbind_Inr_iff require_Inr_iff by auto
  have "hi_operations h1 = hi_operations h" using r(4) by (cases req) (auto simp: rbind_Inr_iff require_Inr_iff)
  moreover have "hi_operations h2 = hi_operations h1" using r(5) by (auto simp: admit_call_def rbind_Inr_iff require_Inr_iff split: if_splits)
  ultimately have o: "hi_operations h2 = hi_operations h" by simp
  have c: "case call of None \<Rightarrow> \<not> has obj ''tool_call'' \<and> h2 = h1
      | Some c \<Rightarrow> (tc_run c, tc_call c) \<notin> set (hi_calls h1) \<and> has obj ''tool_call'' \<and> h2 = h1\<lparr>hi_calls := hi_calls h1 @ [(tc_run c, tc_call c)]\<rparr>"
    using r(5) by (auto simp: admit_call_def rbind_Inr_iff require_Inr_iff split: if_splits)
  show ?thesis
  proof (rule that)
    let ?x = "\<lparr>op_intent = \<lparr>in_request = req, in_checkpoint = cp, in_call = call\<rparr>, op_sequence = entry obj ''sequence'',
                 op_outcome = u ''uncertain'', op_result = None\<rparr>"
    show "hi_operations h' = hi_operations h @ [(op, ?x)]" by (simp add: h' o)
    show "\<exists>h1. admit_control obj (request_of ?x) h = Inr h1 \<and> hi_ids h' = hi_ids h1 \<and> hi_binding h' = hi_binding h1 \<and>
        hi_sequence h' = hi_sequence h1 \<and> hi_bytes h' = hi_bytes h1 \<and> hi_calls h' = hi_calls h1 @ call_keys ?x \<and>
        set (call_keys ?x) \<inter> set (hi_calls h1) = {}"
      using r(4) c by (intro exI [of _ h1]) (auto simp: request_of_def call_keys_def h' split: option.splits)
  qed (use r in \<open>auto simp: uncertain_def request_of_def list_all_iff\<close>)
qed

text \<open>What an accepted outcome changes.\<close>

lemma settle_operation_Inr:
  assumes "settle_operation obj op h = Inr h'"
  obtains x oc ev rec where "map_of (hi_operations h) op = Some x" "uncertain x" "outcome_fits (request_of x) oc = Inr ()"
    "op_result x = None \<or> rec" "entry obj ''outcome'' = JStr oc"
    "h' = h\<lparr>hi_operations := AList.update op
        (x\<lparr>op_outcome := oc, op_result := Some \<lparr>oc_outcome = oc, oc_evidence = ev, oc_reconciled = rec\<rparr>\<rparr>) (hi_operations h)\<rparr>"
proof -
  from assms obtain x a oc rec ev where "map_of (hi_operations h) op = Some x" "uncertain x" "entry obj ''outcome'' = JStr oc"
      "outcome_fits (request_of x) oc = Inr a" "op_result x = None \<or> rec"
      "h\<lparr>hi_operations := AList.update op
        (x\<lparr>op_outcome := oc, op_result := Some \<lparr>oc_outcome = oc, oc_evidence = ev, oc_reconciled = rec\<rparr>\<rparr>) (hi_operations h)\<rparr> = h'"
    unfolding settle_operation_def Let_def rbind_Inr_iff require_Inr_iff reader_simps(5) read_outcome_Inr request_of_def sum.inject(2)
    by blast
  then show ?thesis by (intro that) auto
qed

lemma check_record_cases:
  assumes "check_record h obj = Inr h'"
  obtains (intent) op where "entry obj ''operation'' = JStr op" "hex_text 32 op" "entry obj ''type'' = JStr (u ''intent'')" "begin_operation obj op h = Inr h'"
    | (outcome) op where "entry obj ''operation'' = JStr op" "hex_text 32 op" "entry obj ''type'' = JStr (u ''outcome'')" "settle_operation obj op h = Inr h'"
  using assms unfolding check_record_def rbind_Inr_iff reader_simps(5) hex_in_Some by (auto split: if_splits)

lemma update_split:
  "map_of kvs k = Some x \<Longrightarrow> \<exists>xs ys. kvs = xs @ (k, x) # ys \<and> AList.update k y kvs = xs @ (k, y) # ys"
proof (induction kvs)
  case (Cons kv kvs)
  show ?case
  proof (cases "fst kv = k")
    case True
    with Cons.prems have "kv # kvs = [] @ (k, x) # kvs \<and> AList.update k y (kv # kvs) = [] @ (k, y) # kvs" by (cases kv) auto
    then show ?thesis by blast
  next
    case False
    with Cons obtain xs ys where "kvs = xs @ (k, x) # ys" "AList.update k y kvs = xs @ (k, y) # ys" by auto
    with False show ?thesis by (intro exI [of _ "kv # xs"] exI [of _ ys]) (cases kv, auto)
  qed
qed simp

lemma controls_snoc:
  "hi_operations h' = hi_operations h @ [(op, x)] \<Longrightarrow>
     controls h' = controls h @ (case request_of x of Owner_control c \<Rightarrow> [c] | _ \<Rightarrow> [])"
  "hi_operations h' = hi_operations h @ [(op, x)] \<Longrightarrow>
     calls_of h' = calls_of h @ call_keys x"
  by (simp_all add: controls_def calls_of_def split: request.split)

definition control_ok :: "history \<Rightarrow> control_request list \<Rightarrow> bool" where
  "control_ok h cs \<longleftrightarrow>
     hi_ids h = map cr_id cs \<and> distinct (map cr_id cs) \<and> map cr_sequence cs = [1..int (length cs)] \<and>
     hi_sequence h = int (length cs) \<and> (\<forall>c \<in> set cs. hi_binding h = Some (cr_binding c)) \<and>
     (cs = [] \<longrightarrow> hi_binding h = None) \<and> hi_bytes h = sum_list (map (\<lambda>c. cr_bytes c + 1) cs) \<and> hi_bytes h \<le> 1048576"

definition operations_ok :: "(pytext \<times> operation_state) list \<Rightarrow> bool" where
  "operations_ok ops \<longleftrightarrow> distinct (map fst ops) \<and> (\<forall>x \<in> set ops. hex_text 32 (fst x)) \<and>
     (\<forall>x \<in> set ops. \<forall>y \<in> set ops. is_control (request_of (snd x)) = is_control (request_of (snd y))) \<and>
     length (filter (\<lambda>x. blocking (snd x)) ops) \<le> 1 \<and>
     (\<forall>x \<in> set ops. case op_result (snd x) of None \<Rightarrow> uncertain (snd x)
        | Some r \<Rightarrow> op_outcome (snd x) = oc_outcome r \<and> outcome_fits (request_of (snd x)) (oc_outcome r) = Inr ())"

lemma history_ok_parts:
  "history_ok h \<longleftrightarrow> operations_ok (hi_operations h) \<and> control_ok h (controls h) \<and> hi_calls h = calls_of h \<and> distinct (calls_of h)"
  unfolding history_ok_def operations_ok_def control_ok_def by blast

lemma admit_control_ok:
  assumes a: "admit_control obj req h = Inr h1" and c: "control_ok h cs"
  shows "control_ok h1 (cs @ (case req of Owner_control c \<Rightarrow> [c] | _ \<Rightarrow> []))" and "hi_calls h1 = hi_calls h"
proof -
  have "control_ok h1 (cs @ (case req of Owner_control c \<Rightarrow> [c] | _ \<Rightarrow> [])) \<and> hi_calls h1 = hi_calls h"
  proof (cases req)
    case (Owner_control r)
    with a have f: "cr_id r \<notin> set (hi_ids h)" "cr_sequence r = hi_sequence h + 1" "hi_binding h = None \<or> hi_binding h = Some (cr_binding r)"
        "hi_bytes h + (cr_bytes r + 1) \<le> 1048576"
      and h1: "h1 = h\<lparr>hi_ids := hi_ids h @ [cr_id r], hi_binding := Some (cr_binding r), hi_sequence := cr_sequence r,
             hi_bytes := hi_bytes h + (cr_bytes r + 1)\<rparr>" by (auto simp: rbind_Inr_iff require_Inr_iff)
    have "[1..int (length cs)] @ [int (length cs) + 1] = [1..int (length cs) + 1]" by (simp add: upto_rec2)
    moreover have "hi_binding h1 = Some (cr_binding c)" if "c \<in> set (cs @ [r])" for c
      using that f(3) c by (auto simp: control_ok_def h1)
    ultimately show ?thesis using f c by (auto simp: control_ok_def h1 Owner_control ac_simps)
  qed (use a c in auto)
  then show "control_ok h1 (cs @ (case req of Owner_control c \<Rightarrow> [c] | _ \<Rightarrow> []))" "hi_calls h1 = hi_calls h" by auto
qed

lemma operations_snoc:
  assumes "operations_ok ops" "hex_text 32 op" "map_of ops op = None" "uncertain x" "op_result x = None"
    "\<forall>y \<in> set ops. is_control (request_of (snd y)) = is_control (request_of x)"
    "bypasses (request_of x) \<or> (\<forall>y \<in> set ops. \<not> uncertain (snd y))"
  shows "operations_ok (ops @ [(op, x)])"
proof -
  have "length (filter (\<lambda>x. blocking (snd x)) (ops @ [(op, x)])) \<le> 1"
  proof (cases "bypasses (request_of x)")
    case True
    then show ?thesis using assms(1) by (simp add: operations_ok_def blocking_def)
  next
    case False
    then have "filter (\<lambda>x. blocking (snd x)) ops = []" using assms(7) by (auto simp: filter_empty_conv blocking_def)
    then show ?thesis by simp
  qed
  moreover have "op \<notin> set (map fst ops)" using assms(3) by (simp add: map_of_eq_None_iff)
  ultimately show ?thesis using assms by (auto simp: operations_ok_def)
qed

lemma operations_update:
  assumes "operations_ok (xs @ (op, x) # ys)" "uncertain x" "request_of y = request_of x"
    "op_result y = Some r" "op_outcome y = oc_outcome r" "outcome_fits (request_of x) (oc_outcome r) = Inr ()"
  shows "operations_ok (xs @ (op, y) # ys)"
proof -
  let ?ops = "xs @ (op, x) # ys" and ?ops' = "xs @ (op, y) # ys"
  have kind: "is_control (request_of (snd a)) = is_control (request_of (snd b))" if "a \<in> set ?ops" "b \<in> set ?ops" for a b
    using assms(1) that unfolding operations_ok_def by blast
  have same: "\<exists>b \<in> set ?ops. request_of (snd b) = request_of (snd a)" if "a \<in> set ?ops'" for a
    using that assms(3) by auto
  have "is_control (request_of (snd a)) = is_control (request_of (snd b))" if "a \<in> set ?ops'" "b \<in> set ?ops'" for a b
    using same [OF that(1)] same [OF that(2)] kind by metis
  moreover have "length (filter (\<lambda>x. blocking (snd x)) ?ops') \<le> length (filter (\<lambda>x. blocking (snd x)) ?ops)"
    using assms(2,3) by (simp add: blocking_def)
  moreover have "distinct (map fst ?ops')" "\<forall>x \<in> set ?ops'. hex_text 32 (fst x)" "length (filter (\<lambda>x. blocking (snd x)) ?ops) \<le> 1"
    using assms(1) unfolding operations_ok_def by simp_all
  moreover have "case op_result (snd a) of None \<Rightarrow> uncertain (snd a)
        | Some r \<Rightarrow> op_outcome (snd a) = oc_outcome r \<and> outcome_fits (request_of (snd a)) (oc_outcome r) = Inr ()" if "a \<in> set ?ops'" for a
  proof (cases "a \<in> set ?ops")
    case True
    then show ?thesis using assms(1) unfolding operations_ok_def by blast
  next
    case False
    then have "a = (op, y)" using that by auto
    then show ?thesis using assms(3-6) by simp
  qed
  ultimately show ?thesis unfolding operations_ok_def by (meson le_trans)
qed

lemma check_record_ok:
  assumes "history_ok h" and "check_record h obj = Inr h'"
  shows "history_ok h'"
  using assms(2)
proof (cases rule: check_record_cases)
  case (intent op)
  from intent(4) show ?thesis
  proof (cases rule: begin_operation_Inr)
    case (1 x)
    have "operations_ok (hi_operations h')"
      using operations_snoc [of "hi_operations h" op x] 1 intent(2) assms(1) by (simp add: history_ok_parts)
    moreover from 1(8) obtain h1 where h1: "admit_control obj (request_of x) h = Inr h1"
      "hi_ids h' = hi_ids h1" "hi_binding h' = hi_binding h1" "hi_sequence h' = hi_sequence h1" "hi_bytes h' = hi_bytes h1"
      "hi_calls h' = hi_calls h1 @ call_keys x" "set (call_keys x) \<inter> set (hi_calls h1) = {}" by blast
    have h: "control_ok h (controls h)" "hi_calls h = calls_of h" "distinct (calls_of h)" using assms(1) by (simp_all add: history_ok_parts)
    note adm = admit_control_ok [OF h1(1) h(1)]
    have "control_ok h' (controls h')"
      using adm(1) h1(2-5) unfolding controls_snoc(1) [OF 1(1)] by (simp add: control_ok_def)
    moreover have "hi_calls h' = calls_of h' \<and> distinct (calls_of h')"
      using adm(2) h h1(6,7) unfolding controls_snoc(2) [OF 1(1)] by (auto simp: call_keys_def split: option.splits)
    ultimately show ?thesis by (simp add: history_ok_parts)
  qed
next
  case (outcome op)
  from outcome(4) show ?thesis
  proof (cases rule: settle_operation_Inr)
    case (1 x oc ev rec)
    let ?r = "\<lparr>oc_outcome = oc, oc_evidence = ev, oc_reconciled = rec\<rparr>"
    let ?y = "x\<lparr>op_outcome := oc, op_result := Some ?r\<rparr>"
    from update_split [OF 1(1), of ?y] obtain xs ys where
      s: "hi_operations h = xs @ (op, x) # ys" "AList.update op ?y (hi_operations h) = xs @ (op, ?y) # ys" by blast
    have y: "request_of ?y = request_of x" "call_keys ?y = call_keys x" by (simp_all add: request_of_def call_keys_def)
    have h': "hi_operations h' = xs @ (op, ?y) # ys" using 1(6) s(2) by simp
    have "operations_ok (hi_operations h')"
      unfolding h' using operations_update [of xs op x ys ?y ?r] assms(1) 1 y s(1) by (simp add: history_ok_parts)
    moreover have "controls h' = controls h" "calls_of h' = calls_of h" by (simp_all add: controls_def calls_of_def h' s(1) y)
    moreover have "control_ok h' cs = control_ok h cs" "hi_calls h' = hi_calls h" for cs using 1(6) by (simp_all add: control_ok_def)
    ultimately show ?thesis using assms(1) by (simp add: history_ok_parts)
  qed
qed

interpretation journal: stepped check_record history_ok
  by unfold_locales (rule check_record_ok)

lemma states_ok: "states_of records = Inr h \<Longrightarrow> history_ok h"
  unfolding states_of_def using journal.run_inv empty_history_ok .

end
