(* ===== verification/Journal_Runs.thy ===== *)
theory Journal_Runs
  imports Journal_Histories
begin

text \<open>
  The directory of the operation journal: names in order, what an append writes loads again, and the invariant that
  every run of \<open>begin\<close> and \<open>finish\<close> keeps, whatever becomes of the writes.
\<close>

section \<open>Names in order\<close>

lemma digits_length [simp]: "length (digits k n) = k"
  by (induction k arbitrary: n) simp_all

lemma digits_chars: "c \<in> set (digits k n) \<Longrightarrow> 48 \<le> c"
  by (induction k arbitrary: n) auto

lemma append_less: "xs < ys \<Longrightarrow> length xs = length ys \<Longrightarrow> xs @ as < ys @ bs" for xs ys :: "nat list"
  unfolding list_less_def by (rule lexord_sufI) simp_all

lemma digits_less: "m < n \<Longrightarrow> n < 10 ^ k \<Longrightarrow> digits k m < digits k n"
proof (induction k arbitrary: m n)
  case (Suc k)
  show ?case
  proof (cases "m div 10 = n div 10")
    case True
    have "m = m div 10 * 10 + m mod 10" "n = n div 10 * 10 + n mod 10" by simp_all
    with Suc.prems(1) True have "m mod 10 < n mod 10" by linarith
    then have "[48 + m mod 10] < [48 + n mod 10]" by simp
    then show ?thesis using True by (simp add: list_less_def lexord_append_leftI)
  next
    case False
    then have "m div 10 < n div 10" using Suc.prems(1) by (meson div_le_mono le_neq_implies_less less_imp_le)
    moreover have "n div 10 < 10 ^ k" using Suc.prems(2) by (simp add: div_less_iff_less_mult mult.commute)
    ultimately have "digits k (m div 10) < digits k (n div 10)" by (rule Suc.IH)
    then show ?thesis by (simp add: append_less)
  qed
qed simp

lemma record_name_less: "m < n \<Longrightarrow> n < 100000000 \<Longrightarrow> record_name m < record_name n"
  unfolding record_name_def by (intro append_less digits_less) simp_all

lemma record_name_kept: "\<not> ignored_name (record_name n)"
proof
  assume i: "ignored_name (record_name n)"
  obtain c cs where d: "digits 8 n = c # cs" using digits_length [of 8 n] by (cases "digits 8 n") auto
  then have "c \<noteq> 46" using digits_chars [of c 8 n] by auto
  with i d show False by (auto simp: ignored_name_def record_name_def lock_name_def u_def)
qed

lemma pending_ignored: "hex_text 32 i \<Longrightarrow> ignored_name (pending_name i)"
  by (simp add: ignored_name_def pending_name_def u_def)

definition listed :: "bytes list \<Rightarrow> files" where
  "listed raws = zip (map record_name [0..<length raws]) (map Inr raws)"

lemma listed_snoc: "listed (raws @ [raw]) = listed raws @ [(record_name (length raws), Inr raw)]"
  by (simp add: listed_def)

lemma listed_sorted: "length raws \<le> max_records \<Longrightarrow> sort_key fst (listed raws) = listed raws"
proof (rule sort_key_id_if_sorted)
  assume "length raws \<le> max_records"
  then have "sorted (map record_name [0..<length raws])"
    by (auto simp: sorted_iff_nth_mono_less max_records_def intro!: less_imp_le record_name_less)
  then show "sorted (map fst (listed raws))" by (simp add: listed_def)
qed

definition stored :: "files \<Rightarrow> bytes list \<Rightarrow> bool" where
  "stored files raws \<longleftrightarrow> filter (\<lambda>f. \<not> ignored_name (fst f)) files = listed raws"

lemma load_kept:
  "rfold (load_file rp fl sha task session) st fs =
     rfold (load_file rp fl sha task session) st (filter (\<lambda>f. \<not> ignored_name (fst f)) fs)"
  by (induction fs arbitrary: st) (auto simp: load_file_def Let_def intro!: rbind_cong)

lemma load_stored:
  assumes "stored files raws" and "length raws \<le> max_records"
  shows "rfold (load_file rp fl sha task session) nothing_loaded (sort_key fst files)
       = rfold (load_file rp fl sha task session) nothing_loaded (listed raws)"
  using assms unfolding stored_def by (subst load_kept) (simp add: filter_sort listed_sorted)

lemma written_stored:
  assumes "stored files raws"
  obtains "stored (snd (written (record_name (length raws)) raw w files)) (raws @ [raw])" "w = Written \<or> (\<exists>e. w = Landed e)"
    | "stored (snd (written (record_name (length raws)) raw w files)) raws" "\<exists>e. fst (written (record_name (length raws)) raw w files) = Some e"
  using assms that by (cases w) (auto simp: stored_def listed_snoc record_name_kept pending_ignored split: if_splits)

section \<open>What is appended loads again\<close>

lemma request_field: "begin_operation obj op h = Inr h' \<Longrightarrow> unique_keys (JObj obj) \<Longrightarrow> readable (entry obj ''kind'') \<and>
    readable (entry obj ''request'') \<and> readable (entry obj ''checkpoint'') \<and> (has obj ''tool_call'' \<longrightarrow> readable (entry obj ''tool_call''))"
proof -
  assume b: "begin_operation obj op h = Inr h'" and un: "unique_keys (JObj obj)"
  from b obtain req cp h1 h2 call where r: "read_request (entry obj ''kind'') (entry obj ''request'') = Inr req"
      "none_or digest_in (entry obj ''checkpoint'') = Some cp" "admit_call obj cp h1 = Inr (h2, call)"
    unfolding begin_operation_def rbind_Inr_iff reader_simps(5) by auto
  have "readable (entry obj ''kind'')" using r(1) u_readable by (auto simp: read_request_def rbind_Inr_iff split: if_splits)
  moreover have "has obj ''tool_call'' \<longrightarrow> readable (entry obj ''tool_call'')"
    using r(3) read_call_readable entry_unique [OF un] by (auto simp: admit_call_def rbind_Inr_iff)
  ultimately show ?thesis using read_request_readable [OF r(1) entry_unique [OF un]] opt_digest_readable [OF r(2)] by blast
qed

definition meta_ok :: "(pytext \<times> json) list \<Rightarrow> bool" where
  "meta_ok obj \<longleftrightarrow> (\<forall>n \<in> {''schema_version'', ''sequence'', ''previous'', ''task'', ''session''}. readable (entry obj n))"

lemma checked_readable:
  assumes c: "check_record h obj = Inr h'" and un: "unique_keys (JObj obj)" and m: "meta_ok obj"
  shows "readable (JObj obj)"
proof -
  have d: "distinct (map fst obj)" using un by simp
  from c obtain op where op: "hex_in 32 (entry obj ''operation'') = Some op" unfolding check_record_def rbind_Inr_iff reader_simps(5) by blast
  have common: "readable (entry obj n)" if "n \<in> set common_keys" "readable (entry obj ''type'')" for n
    using that m hex_in_readable [OF op] by (auto simp: common_keys_def meta_ok_def)
  have t: "readable (entry obj ''type'')" using c u_readable by (auto simp: check_record_def rbind_Inr_iff split: if_splits)
  have begun: "readable (JObj obj)" if b: "begin_operation obj op h = Inr h'" and
    k: "keys_are obj (common_keys @ [''kind'', ''request'', ''checkpoint'']) \<or> keys_are obj (common_keys @ [''kind'', ''request'', ''checkpoint'', ''tool_call''])" for op
    using k
  proof
    assume k: "keys_are obj (common_keys @ [''kind'', ''request'', ''checkpoint''])"
    show ?thesis by (rule object_readable [OF k d]) (use common t request_field [OF b un] in auto)
  next
    assume k: "keys_are obj (common_keys @ [''kind'', ''request'', ''checkpoint'', ''tool_call''])"
    then have "has obj ''tool_call''" by (simp add: has_key)
    then show ?thesis by (intro object_readable [OF k d]) (use common t request_field [OF b un] in auto)
  qed
  have "readable (JObj obj)" if s: "settle_operation obj op h = Inr h'" and
    k: "keys_are obj (common_keys @ [''outcome'', ''evidence_sha256'', ''reconciled''])" for op
  proof -
    from s obtain a b e where "read_outcome (entry obj ''outcome'') = Inr a" "as_bool (entry obj ''reconciled'') = Some b"
        "digest_in (entry obj ''evidence_sha256'') = Some e"
      unfolding settle_operation_def Let_def rbind_Inr_iff reader_simps(5) by blast
    then have "readable (entry obj ''outcome'')" "readable (entry obj ''reconciled'')" "readable (entry obj ''evidence_sha256'')"
      using name_scalar digest_readable by (auto simp: read_outcome_Inr) (cases "entry obj ''reconciled''"; simp)
    then show ?thesis by (intro object_readable [OF k d]) (use common t in auto)
  qed
  with begun c show ?thesis unfolding check_record_def rbind_Inr_iff by (auto split: if_splits)
qed

lemma uncertain_le_reserve:
  assumes h: "history_ok h" and c: "check_record h obj = Inr h'"
  shows "uncertain_count h' \<le> reserve_of h' obj"
proof (cases "hi_operations h' \<noteq> [] \<and> is_control (in_request (op_intent (snd (hd (hi_operations h')))))")
  case False
  have ok: "history_ok h'" by (rule check_record_ok [OF h c])
  have "\<not> is_control (request_of (snd x))" if "x \<in> set (hi_operations h')" for x
  proof -
    have "hd (hi_operations h') \<in> set (hi_operations h')" using that by (intro hd_in_set) auto
    with ok that have "is_control (request_of (snd x)) = is_control (request_of (snd (hd (hi_operations h'))))"
      unfolding history_ok_def by blast
    then show ?thesis using False that by (auto simp: request_of_def)
  qed
  moreover have "bypasses r \<Longrightarrow> is_control r" for r by (cases r) simp_all
  ultimately have plain: "\<not> bypasses (request_of (snd x))" if "x \<in> set (hi_operations h')" for x using that by blast
  then have "filter (\<lambda>x. uncertain (snd x)) (hi_operations h') = filter (\<lambda>x. blocking (snd x)) (hi_operations h')"
    by (intro filter_cong) (auto simp: blocking_def)
  then have one: "uncertain_count h' \<le> 1" using ok by (simp add: uncertain_count_def history_ok_def)
  show ?thesis using c
  proof (cases rule: check_record_cases)
    case (intent op)
    then show ?thesis using one False by (simp add: reserve_of_def)
  next
    case (outcome op)
    from outcome(4) show ?thesis
    proof (cases rule: settle_operation_Inr)
      case (1 x oc ev rec)
      let ?y = "x\<lparr>op_outcome := oc, op_result := Some \<lparr>oc_outcome = oc, oc_evidence = ev, oc_reconciled = rec\<rparr>\<rparr>"
      from update_split [OF 1(1), of ?y] obtain xs ys where
        s: "hi_operations h = xs @ (op, x) # ys" "hi_operations h' = xs @ (op, ?y) # ys" using 1(6) by auto
      show ?thesis
      proof (cases "oc = u ''uncertain''")
        case True
        then show ?thesis using one 1(5) False by (simp add: reserve_of_def)
      next
        case oc: False
        have nb: "\<not> bypasses (request_of (snd z))" if "z \<in> set xs \<union> set ys" for z using that s(2) plain by auto
        have "\<not> bypasses (request_of ?y)"
          using plain [of "(op, ?y)"] s(2) by simp
        then have "blocking x" using 1(2) by (simp add: blocking_def request_of_def)
        moreover have "length (filter (\<lambda>x. blocking (snd x)) (hi_operations h)) \<le> 1" using h unfolding history_ok_def by blast
        ultimately have "filter (\<lambda>x. blocking (snd x)) xs = []" "filter (\<lambda>x. blocking (snd x)) ys = []" by (simp_all add: s(1))
        then have "\<not> uncertain (snd z)" if "z \<in> set xs \<union> set ys" for z using that nb by (auto simp: filter_empty_conv blocking_def)
        then have "uncertain_count h' = 0" using oc by (auto simp: uncertain_count_def s(2) filter_empty_conv) (simp add: uncertain_def)
        then show ?thesis by simp
      qed
    qed
  qed
qed (simp add: reserve_of_def)

text \<open>
  A directory that holds the records \<open>raws\<close> and loads to \<open>st\<close> with the history \<open>h\<close>, with room left for the outcome
  of every uncertain operation.
\<close>

definition keeps_journal ::
    "(rat \<Rightarrow> pytext) \<Rightarrow> (pytext \<Rightarrow> rat option) \<Rightarrow> (bytes \<Rightarrow> pytext) \<Rightarrow> pytext \<Rightarrow> pytext \<Rightarrow> files \<Rightarrow> bytes list \<Rightarrow> loaded \<Rightarrow> history \<Rightarrow> bool" where
  "keeps_journal rp fl sha task session files raws st h \<longleftrightarrow>
     journal_id task \<and> journal_id session \<and> stored files raws \<and>
     rfold (load_file rp fl sha task session) nothing_loaded (listed raws) = Inr st \<and>
     states_of (ld_records st) = Inr h \<and> length (ld_records st) = length raws \<and>
     (\<forall>d. ld_previous st = Some d \<longrightarrow> digest_text d) \<and>
     length raws + uncertain_count h \<le> max_records \<and> ld_total st + int (uncertain_count h) * max_record \<le> max_journal"

lemma keeps_load: "keeps_journal rp fl sha task session files raws st h \<Longrightarrow> load_journal rp fl sha task session files = Inr st"
  using load_stored [of files raws rp fl sha task session] by (simp add: keeps_journal_def load_journal_def)

lemma empty_keeps: "journal_id task \<Longrightarrow> journal_id session \<Longrightarrow> keeps_journal rp fl sha task session [] [] nothing_loaded empty_history"
  by (simp add: keeps_journal_def stored_def listed_def nothing_loaded_def states_of_def uncertain_count_def empty_history_def
      max_records_def max_journal_def)

lemma loads_record:
  assumes "unique_keys v" and "readable v"
  shows "Option.bind (utf8_decode (dumps rp True v @ [10])) (loads fl) = Some (canon v)"
proof -
  have "ascii_text (dumps rp True (canon v))" by (rule ascii_dumps [OF json_ok_canon [OF assms]])
  then have "ascii_text (dumps rp True v @ [10])" by (simp add: dumps_canon)
  then show ?thesis using loads_canon [OF assms, of "[10]" fl rp True] by (simp add: ascii_bytes)
qed

lemma unique_overridden:
  assumes "unique_keys (JObj given)" and "unique_keys (JObj kvs)"
  shows "unique_keys (JObj (overridden given kvs))"
  using assms by (auto simp: overridden_def list_all_iff distinct_map_fst_filter)

lemma entry_overridden: "entry (overridden given kvs) n = (if u n \<in> set (map fst kvs) then entry kvs n else entry given n)"
proof -
  have m: "map_of (filter (\<lambda>kv. fst kv \<notin> S) given) k = (if k \<in> S then None else map_of given k)" for k S
    by (induction given) auto
  have "map_of (overridden given kvs) (u n) = (if u n \<in> set (map fst kvs) then map_of kvs (u n) else map_of given (u n))"
    unfolding overridden_def map_of_append map_add_def m by (simp add: map_of_eq_None_iff split: option.split) (metis map_of_eq_None_iff option.distinct(1))
  then show ?thesis by (simp add: entry_def member_or_def member_def)
qed

definition meta_fields :: "pytext \<Rightarrow> pytext \<Rightarrow> loaded \<Rightarrow> (pytext \<times> json) list" where
  "meta_fields task session st =
     [(u ''schema_version'', JInt 1), (u ''sequence'', JInt (int (length (ld_records st)))), (u ''previous'', opt_text (ld_previous st)),
      (u ''task'', JStr task), (u ''session'', JStr session)]"

lemma meta_entries:
  "entry (overridden given (meta_fields task session st)) ''schema_version'' = JInt 1"
  "entry (overridden given (meta_fields task session st)) ''sequence'' = JInt (int (length (ld_records st)))"
  "entry (overridden given (meta_fields task session st)) ''previous'' = opt_text (ld_previous st)"
  "entry (overridden given (meta_fields task session st)) ''task'' = JStr task"
  "entry (overridden given (meta_fields task session st)) ''session'' = JStr session"
  by (simp_all add: entry_overridden meta_fields_def)

lemma append_keeps:
  assumes k: "keeps_journal rp fl sha task session files raws st h" and un: "unique_keys (JObj given)"
    and sha: "\<And>x. digest_text (sha x)"
    and obj: "obj = overridden given (meta_fields task session st)" and c: "check_record h obj = Inr h'"
    and raw: "encode_record rp (JObj obj) = Inr raw"
    and room: "length raws + 1 + reserve_of h' obj \<le> max_records"
      "ld_total st + int (length raw) + int (reserve_of h' obj) * max_record \<le> max_journal"
    and files': "stored files' (raws @ [raw])"
  shows "keeps_journal rp fl sha task session files' (raws @ [raw])
    \<lparr>ld_records = ld_records st @ [canon_obj obj], ld_previous = Some (sha raw), ld_total = ld_total st + int (length raw)\<rparr> h'"
proof -
  have u: "unique_keys (JObj obj)" unfolding obj by (rule unique_overridden [OF un]) (simp add: meta_fields_def opt_text_def split: option.split)
  then have d: "distinct (map fst obj)" by simp
  note meta = meta_entries [of given task session st, folded obj]
  have n: "length (ld_records st) = length raws" "length raws < max_records" using k room(1) by (auto simp: keeps_journal_def)
  have "meta_ok obj"
    using k n digest_scalar journal_scalar
    by (auto simp: meta_ok_def meta keeps_journal_def opt_text_def max_records_def intro!: int_ok split: option.split)
  then have rd: "readable (JObj obj)" by (rule checked_readable [OF c u])
  have raw_eq: "raw = dumps rp True (JObj obj) @ [10]" and len: "int (length raw) \<le> max_record"
    using raw by (auto simp: encode_record_def Let_def rbind_Inr_iff require_Inr_iff)
  have rawd: "Option.bind (utf8_decode raw) (loads fl) = Some (JObj (canon_obj obj))"
    using loads_record [OF u rd, of rp fl] by (simp add: raw_eq)
  have enc: "encode_record rp (JObj (canon_obj obj)) = Inr raw"
    using raw dumps_canon [of rp True "JObj obj"] by (simp add: encode_record_def)
  have e: "entry (canon_obj obj) ''schema_version'' = JInt 1" "entry (canon_obj obj) ''sequence'' = JInt (int (length raws))"
    "entry (canon_obj obj) ''previous'' = opt_text (ld_previous st)" "entry (canon_obj obj) ''task'' = JStr task"
    "entry (canon_obj obj) ''session'' = JStr session"
    using n by (simp_all add: entry_canon [OF d] meta opt_text_def split: option.split)
  have total: "ld_total st + int (length raw) \<le> max_journal"
  proof -
    have "0 \<le> int (reserve_of h' obj) * max_record" by (simp add: max_record_def)
    with room(2) show ?thesis by linarith
  qed
  let ?st = "\<lparr>ld_records = ld_records st @ [canon_obj obj], ld_previous = Some (sha raw), ld_total = ld_total st + int (length raw)\<rparr>"
  have "load_file rp fl sha task session st (record_name (length raws), Inr raw) = Inr ?st"
    using n len total e by (simp add: load_file_def Let_def record_name_kept rawd enc expect_some_def del: sort_key_simps)
  then have fold: "rfold (load_file rp fl sha task session) nothing_loaded (listed (raws @ [raw])) = Inr ?st"
    using k by (simp add: listed_snoc rfold_append keeps_journal_def)
  have "check_record h (canon_obj obj) = Inr h'" using check_record_canon [OF u meta(2)] c by simp
  then have states: "states_of (ld_records st @ [canon_obj obj]) = Inr h'"
    using k by (simp add: states_of_def rfold_append keeps_journal_def)
  have "uncertain_count h' \<le> reserve_of h' obj"
    using k uncertain_le_reserve [OF states_ok [of "ld_records st"] c] by (simp add: keeps_journal_def)
  then have "length (raws @ [raw]) + uncertain_count h' \<le> max_records"
    "ld_total st + int (length raw) + int (uncertain_count h') * max_record \<le> max_journal"
    using room by (simp_all add: max_record_def)
  then show ?thesis using k fold states files' n(1) sha by (simp add: keeps_journal_def)
qed

lemma loads_unique: "loads fl t = Some v \<Longrightarrow> unique_keys v"
  by (auto simp: loads_def split: option.splits if_splits)

lemma rbind_Inr_id: "rbind r Inr = r"
  by (cases r) simp_all

text \<open>A later history has every operation with its intent, and a settled one unchanged.\<close>

definition continues :: "history \<Rightarrow> history \<Rightarrow> bool" where
  "continues h h' \<longleftrightarrow>
     (\<forall>op x. map_of (hi_operations h) op = Some x \<longrightarrow>
        (\<exists>y. map_of (hi_operations h') op = Some y \<and> op_intent y = op_intent x \<and> (\<not> uncertain x \<longrightarrow> y = x)))"

lemma continues_refl: "continues h h"
  by (simp add: continues_def)

lemma continues_trans: "continues h h' \<Longrightarrow> continues h' h'' \<Longrightarrow> continues h h''"
  unfolding continues_def by (metis uncertain_def)

lemma check_record_continues: "check_record h obj = Inr h' \<Longrightarrow> continues h h'"
proof (erule check_record_cases)
  fix op assume "begin_operation obj op h = Inr h'"
  then show ?thesis
    by (rule begin_operation_Inr) (auto simp: continues_def map_add_def)
next
  fix op assume "settle_operation obj op h = Inr h'"
  then show ?thesis
    by (rule settle_operation_Inr) (auto simp: continues_def update_conv')
qed

lemma next_record_keeps:
  assumes k: "keeps_journal rp fl sha (jn_task j) (jn_session j) files raws st h" and un: "unique_keys v"
    and sha: "\<And>x. digest_text (sha x)"
    and n: "next_record rp fl sha j v files = Inr (name, raw)"
  shows "name = record_name (length raws)"
    and "\<And>files'. stored files' (raws @ [raw]) \<Longrightarrow>
           \<exists>st' h'. keeps_journal rp fl sha (jn_task j) (jn_session j) files' (raws @ [raw]) st' h' \<and> continues h h'"
proof -
  from n obtain given h' where v: "v = JObj given" and name: "name = record_name (length (ld_records st))"
    and s: "states_of (ld_records st @ [overridden given (meta_fields (jn_task j) (jn_session j) st)]) = Inr h'"
    and e: "encode_record rp (JObj (overridden given (meta_fields (jn_task j) (jn_session j) st))) = Inr raw"
    and r: "length (ld_records st) + 1 + reserve_of h' (overridden given (meta_fields (jn_task j) (jn_session j) st)) \<le> max_records"
      "ld_total st + int (length raw) + int (reserve_of h' (overridden given (meta_fields (jn_task j) (jn_session j) st))) * max_record \<le> max_journal"
    unfolding next_record_def keeps_load [OF k] rbind.simps Let_def rbind_Inr_iff require_Inr_iff reader_simps(5) as_simps
      meta_fields_def [symmetric] by auto
  have l: "length (ld_records st) = length raws" "states_of (ld_records st) = Inr h" using k by (simp_all add: keeps_journal_def)
  then show "name = record_name (length raws)" using name by simp
  have c: "check_record h (overridden given (meta_fields (jn_task j) (jn_session j) st)) = Inr h'"
    using s l(2) by (simp add: states_of_def rfold_append rbind_Inr_id)
  show "\<exists>st' h'. keeps_journal rp fl sha (jn_task j) (jn_session j) files' (raws @ [raw]) st' h' \<and> continues h h'"
    if "stored files' (raws @ [raw])" for files'
    using append_keeps [OF k _ sha refl c e _ _ that] check_record_continues [OF c] un r l(1) v by auto
qed

lemma journal_append_keeps:
  assumes k: "keeps_journal rp fl sha (jn_task j) (jn_session j) files raws st h" and sha: "\<And>x. digest_text (sha x)"
    and a: "journal_append rp fl sha lease w j value files = (err, files')"
  shows "\<exists>raws' st' h'. keeps_journal rp fl sha (jn_task j) (jn_session j) files' raws' st' h' \<and> continues h h'"
proof (cases "files' = files")
  case True
  with k continues_refl show ?thesis by blast
next
  case False
  with a obtain v name raw where v: "\<exists>t. loads fl t = Some v" "next_record rp fl sha j v files = Inr (name, raw)"
      "files' = snd (written name raw w files)"
    by (auto simp: journal_append_def rbind_Inr_iff reader_simps Option.bind_eq_Some_conv split: sum.splits option.splits prod.splits)
      (metis snd_conv)
  have un: "unique_keys v" using v(1) loads_unique by blast
  note next_r = next_record_keeps [OF k un sha v(2)]
  have "stored files raws" using k by (simp add: keeps_journal_def)
  then show ?thesis
  proof (cases rule: written_stored [of _ _ raw w])
    case 1
    then show ?thesis using next_r(2) v(3) next_r(1) by metis
  next
    case 2
    then have "stored files' raws" using v(3) next_r(1) by simp
    then have "keeps_journal rp fl sha (jn_task j) (jn_session j) files' raws st h" using k by (simp add: keeps_journal_def)
    then show ?thesis using continues_refl by blast
  qed
qed

section \<open>Runs of calls\<close>

datatype journal_call = Begin pytext json json json "json option" | Finish pytext json json bool

definition journal_step ::
    "(rat \<Rightarrow> pytext) \<Rightarrow> (pytext \<Rightarrow> rat option) \<Rightarrow> (bytes \<Rightarrow> pytext) \<Rightarrow> journal \<times> files \<Rightarrow> py_error option \<times> write_end \<times> journal_call \<Rightarrow>
     (unit, journal \<times> files) result" where
  "journal_step rp fl sha s a =
     (case a of (lease, w, call) \<Rightarrow>
        Inr (case call of
               Begin op kind req checkpoint tool \<Rightarrow> snd (journal_begin rp fl sha lease w op kind req checkpoint tool s)
             | Finish op oc ev reconciled \<Rightarrow> snd (journal_finish rp fl sha lease w op oc ev reconciled s)))"

text \<open>What a run from a state with the history \<open>h0\<close> keeps.\<close>

definition journal_state ::
    "(rat \<Rightarrow> pytext) \<Rightarrow> (pytext \<Rightarrow> rat option) \<Rightarrow> (bytes \<Rightarrow> pytext) \<Rightarrow> pytext \<Rightarrow> pytext \<Rightarrow> history \<Rightarrow> journal \<times> files \<Rightarrow> bool" where
  "journal_state rp fl sha task session h0 s \<longleftrightarrow>
     jn_task (fst s) = task \<and> jn_session (fst s) = session \<and>
     ((\<forall>x. digest_text (sha x)) \<longrightarrow> (\<exists>raws st h. keeps_journal rp fl sha task session (snd s) raws st h \<and> continues h0 h))"

lemma journal_step_append:
  assumes "journal_step rp fl sha (j, files) a = Inr (j', files')"
  shows "jn_task j' = jn_task j" "jn_session j' = jn_session j"
    "files' = files \<or> (\<exists>lease w value err. journal_append rp fl sha lease w j value files = (err, files'))"
  using assms
  by (auto simp: journal_step_def journal_begin_def journal_finish_def split: prod.splits journal_call.splits option.splits if_splits)

interpretation journal_run: stepped "journal_step rp fl sha" "journal_state rp fl sha task session h0" for rp fl sha task session h0
proof
  fix s a s'
  assume s: "journal_state rp fl sha task session h0 s" and a: "journal_step rp fl sha s a = Inr s'"
  obtain j files j' files' where p: "s = (j, files)" "s' = (j', files')" by fastforce
  note st = journal_step_append [OF a [unfolded p]]
  have "\<exists>raws' st' h'. keeps_journal rp fl sha task session files' raws' st' h' \<and> continues h0 h'"
    if d: "\<forall>x. digest_text (sha x)" and k: "keeps_journal rp fl sha task session files raws st h" "continues h0 h" for raws st h
    using st(3)
  proof
    assume "\<exists>lease w value err. journal_append rp fl sha lease w j value files = (err, files')"
    then show ?thesis
      using journal_append_keeps [of rp fl sha j files raws st h _ _ _ _ files'] s d k continues_trans
      unfolding journal_state_def p by (metis fst_conv)
  qed (use k in blast)
  then show "journal_state rp fl sha task session h0 s'"
    using s st(1,2) unfolding journal_state_def p by auto
qed

lemma journal_reaches:
  assumes "\<And>x. digest_text (sha x)" and "journal_new task session = Inr j0"
    and "rfold (journal_step rp fl sha) (j0, []) calls = Inr (j, files)"
  obtains raws st h where "keeps_journal rp fl sha (jn_task j) (jn_session j) files raws st h"
proof -
  have n: "journal_id task" "journal_id session" "jn_task j0 = task" "jn_session j0 = session"
    using assms(2) by (auto simp: journal_new_def rbind_Inr_iff require_Inr_iff)
  then have "journal_state rp fl sha task session empty_history (j0, [])"
    using empty_keeps [of task session rp fl sha] continues_refl by (auto simp: journal_state_def)
  from journal_run.run_inv [OF this assms(3)] assms(1) that show ?thesis by (auto simp: journal_state_def)
qed

lemma keeps_inspect: "keeps_journal rp fl sha (jn_task j) (jn_session j) files raws st h \<Longrightarrow> journal_inspect rp fl sha j files = Inr h"
  using keeps_load [of rp fl sha "jn_task j" "jn_session j" files raws st h] by (simp add: journal_inspect_def keeps_journal_def)

end
