(* ===== verification/Journal_Properties.thy ===== *)
theory Journal_Properties
  imports Journal_Runs
begin

text \<open>
  The properties of the operation journal: its discipline, that it always reads back and never forgets, that an
  uncertain operation can always be settled, and what an observation and a reading since a frontier tell.
\<close>

section \<open>The size of an outcome record\<close>

definition plain_text :: "pytext \<Rightarrow> bool" where
  "plain_text s \<longleftrightarrow> list_all (\<lambda>c. 32 \<le> c \<and> c < 127 \<and> c \<noteq> 34 \<and> c \<noteq> 92) s"

lemma plain_quoted: "plain_text s \<Longrightarrow> length (quoted True s) = length s + 2"
proof -
  assume "plain_text s"
  then have "concat (map (quote_char True) s) = s" by (induction s) (auto simp: plain_text_def quote_char_def)
  then show ?thesis by (simp add: quoted_def)
qed

lemma commas_length: "length (commas ts) \<le> sum_list (map (\<lambda>t. length t + 1) ts)"
  by (induction ts rule: commas.induct) auto

definition text_fits :: "(rat \<Rightarrow> pytext) \<Rightarrow> nat \<Rightarrow> (pytext \<times> json) list \<Rightarrow> bool" where
  "text_fits rp n kvs \<longleftrightarrow> sum_list (map (\<lambda>kv. length (entry_text rp True kv) + 1) kvs) \<le> n"

lemma fits_all:
  "\<forall>kv \<in> set kvs. plain_text (fst kv) \<and> length (fst kv) \<le> 16 \<and> length (dumps rp True (snd kv)) \<le> 130 \<Longrightarrow>
     text_fits rp (150 * length kvs) kvs"
  by (induction kvs) (auto simp: text_fits_def entry_text_def plain_quoted)

lemma encode_fits:
  assumes "text_fits rp n kvs" and "int n + 3 \<le> max_record"
  obtains raw where "encode_record rp (JObj kvs) = Inr raw" "int (length raw) \<le> max_record"
proof -
  have "dumps rp True (JObj kvs) = 123 # commas (map (entry_text rp True) (sort_key fst kvs)) @ [125]"
    by (simp add: entry_text_def cong: map_cong)
  moreover have "sum_list (map (\<lambda>kv. length (entry_text rp True kv) + 1) (sort_key fst kvs))
      = sum_list (map (\<lambda>kv. length (entry_text rp True kv) + 1) kvs)"
    (is "sum_list (map ?f _) = _")
  proof -
    have "mset (map ?f (sort_key fst kvs)) = mset (map ?f kvs)" by simp
    then show ?thesis unfolding sum_mset_sum_list [symmetric] by (simp only:)
  qed
  ultimately have "length (dumps rp True (JObj kvs)) \<le> n + 2"
    using assms(1) commas_length [of "map (entry_text rp True) (sort_key fst kvs)"] by (simp add: text_fits_def comp_def)
  then have "int (length (dumps rp True (JObj kvs) @ [10])) \<le> max_record" using assms(2) by simp
  then show ?thesis using that by (simp add: encode_record_def del: dumps.simps)
qed

lemma plain_hex: "hex_text n s \<Longrightarrow> plain_text s \<and> length s = n"
  by (auto simp: hex_text_def plain_text_def list_all_iff hex_code_def)

lemma plain_journal: "journal_id s \<Longrightarrow> plain_text s \<and> length s \<le> 128"
  by (auto simp: journal_id_def plain_text_def list_all_iff alnum_code_def lower_code_def digit_code_def)

lemma text_width: "plain_text s \<Longrightarrow> length s \<le> 128 \<Longrightarrow> length (dumps rp True (JStr s)) \<le> 130"
  by (simp add: plain_quoted)

lemma number_width: "n < 100000 \<Longrightarrow> length (dumps rp True (JInt (int n))) \<le> 130"
  using decimal_short [of n 4] by (simp add: int_text_def)

lemma outcome_width: "oc \<in> set (map u outcome_names) \<Longrightarrow> plain_text oc \<and> length oc \<le> 128"
  by (auto simp: outcome_names_def plain_text_def u_def)

lemma key_widths:
  "plain_text (u n) \<and> length (u n) \<le> 16" if "n \<in> {''type'', ''operation'', ''outcome'', ''evidence_sha256'', ''reconciled'',
     ''schema_version'', ''sequence'', ''previous'', ''task'', ''session''}"
  using that by (auto simp: plain_text_def u_def)

definition settled_fields :: "pytext \<Rightarrow> pytext \<Rightarrow> pytext \<Rightarrow> (pytext \<times> json) list" where
  "settled_fields op oc ev =
     [(u ''evidence_sha256'', JStr ev), (u ''operation'', JStr op), (u ''outcome'', JStr oc), (u ''reconciled'', JBool True),
      (u ''type'', JStr (u ''outcome''))]"

definition settled_object :: "pytext \<Rightarrow> pytext \<Rightarrow> pytext \<Rightarrow> pytext \<Rightarrow> pytext \<Rightarrow> loaded \<Rightarrow> (pytext \<times> json) list" where
  "settled_object op oc ev task session st =
     settled_fields op oc ev @ meta_fields task session st"

lemma settled_fits:
  assumes "hex_text 32 op" "oc \<in> set (map u outcome_names)" "digest_text ev" "journal_id task" "journal_id session"
    "length (ld_records st) \<le> max_records" "\<forall>d. ld_previous st = Some d \<longrightarrow> digest_text d"
  shows "text_fits rp 1500 (settled_object op oc ev task session st)"
proof -
  have w: "length (dumps rp True (JStr s)) \<le> 130" if "plain_text s \<and> length s \<le> 128" for s using that text_width by blast
  have o: "plain_text (u ''outcome'') \<and> length (u ''outcome'') \<le> 128" by (simp add: plain_text_def u_def)
  have dg: "plain_text d \<and> length d \<le> 128" if "digest_text d" for d using that plain_hex by (auto simp: digest_text_def)
  have p: "length (dumps rp True (opt_text (ld_previous st))) \<le> 130"
  proof (cases "ld_previous st")
    case None
    then show ?thesis by (simp add: opt_text_def u_def)
  next
    case (Some d)
    then show ?thesis using w [OF dg] assms(7) by (simp add: opt_text_def del: dumps.simps)
  qed
  have op: "plain_text op \<and> length op \<le> 128" using plain_hex [OF assms(1)] by simp
  have b: "length (dumps rp True (JBool True)) \<le> 130" "length (dumps rp True (JInt 1)) \<le> 130" using number_width [of 1 rp] by (simp_all add: u_def)
  have n: "length (dumps rp True (JInt (int (length (ld_records st))))) \<le> 130"
    using assms(6) by (intro number_width) (simp add: max_records_def)
  have v: "length (dumps rp True v) \<le> 130" if "v \<in> set (map snd (settled_object op oc ev task session st))" for v
    using that w [OF op] w [OF o] w [OF outcome_width [OF assms(2)]] w [OF dg [OF assms(3)]] w [OF plain_journal [OF assms(4)]]
      w [OF plain_journal [OF assms(5)]] p b n
    unfolding settled_object_def settled_fields_def meta_fields_def by (auto simp del: dumps.simps)
  have "text_fits rp (150 * length (settled_object op oc ev task session st)) (settled_object op oc ev task session st)"
  proof (rule fits_all, rule ballI)
    fix kv assume kv: "kv \<in> set (settled_object op oc ev task session st)"
    then have "fst kv \<in> u ` {''type'', ''operation'', ''outcome'', ''evidence_sha256'', ''reconciled'',
        ''schema_version'', ''sequence'', ''previous'', ''task'', ''session''}"
      unfolding settled_object_def settled_fields_def meta_fields_def by auto
    then show "plain_text (fst kv) \<and> length (fst kv) \<le> 16 \<and> length (dumps rp True (snd kv)) \<le> 130"
      using key_widths v [of "snd kv"] kv by force
  qed
  then show ?thesis by (simp add: settled_object_def settled_fields_def meta_fields_def)
qed

text \<open>When an append succeeds.\<close>

lemma append_succeeds:
  assumes k: "keeps_journal rp fl sha (jn_task j) (jn_session j) files raws st h" and sha: "\<And>x. digest_text (sha x)"
    and v: "unique_keys v" "readable v" "canon v = JObj given" "encode_record rp v = Inr bs"
    and obj: "obj = overridden given (meta_fields (jn_task j) (jn_session j) st)" and c: "check_record h obj = Inr h'"
    and raw: "encode_record rp (JObj obj) = Inr raw"
    and room: "length raws + 1 + reserve_of h' obj \<le> max_records"
      "ld_total st + int (length raw) + int (reserve_of h' obj) * max_record \<le> max_journal"
  shows "\<exists>files'. journal_append rp fl sha None Written j v files = (None, files') \<and>
    (\<exists>raws' st'. keeps_journal rp fl sha (jn_task j) (jn_session j) files' raws' st' h')"
proof -
  have kd: "stored files raws" "states_of (ld_records st) = Inr h" "length (ld_records st) = length raws"
    using k unfolding keeps_journal_def by blast+
  have "bs = dumps rp True v @ [10]" using v(4) by (auto simp: encode_record_def Let_def rbind_Inr_iff require_Inr_iff)
  then have ld: "Option.bind (utf8_decode bs) (loads fl) = Some (JObj given)" using loads_record [OF v(1,2), of rp fl] by (simp add: v(3))
  have states: "states_of (ld_records st @ [obj]) = Inr h'" using c kd(2) by (simp add: states_of_def rfold_append)
  have fields: "overridden given [(u ''schema_version'', JInt 1), (u ''sequence'', JInt (int (length (ld_records st)))),
      (u ''previous'', opt_text (ld_previous st)), (u ''task'', JStr (jn_task j)), (u ''session'', JStr (jn_session j))] = obj"
    by (simp only: obj meta_fields_def)
  have "next_record rp fl sha j (JObj given) files = Inr (record_name (length raws), raw)"
    unfolding next_record_def keeps_load [OF k] rbind.simps Let_def expect_some_def as_obj.simps option.case fields states raw
    using room kd(3) by (simp add: require_def)
  then have "journal_append rp fl sha None Written j v files = (None, files @ [(record_name (length raws), Inr raw)])"
    by (simp add: journal_append_def v(4) ld expect_some_def)
  moreover have un: "unique_keys (JObj given)" using unique_canon [OF v(1,2)] unfolding v(3) .
  have "stored (files @ [(record_name (length raws), Inr raw)]) (raws @ [raw])"
    using kd(1) by (simp add: stored_def listed_snoc record_name_kept)
  from append_keeps [OF k un sha obj c raw room this] have "\<exists>st'. keeps_journal rp fl sha (jn_task j) (jn_session j) (files @ [(record_name (length raws), Inr raw)]) (raws @ [raw]) st' h'" by blast
  ultimately show ?thesis by blast
qed

lemma fits_prefix: "text_fits rp n (xs @ ys) \<Longrightarrow> text_fits rp n xs"
  by (simp add: text_fits_def)

lemma fits_mset: "mset xs = mset ys \<Longrightarrow> text_fits rp n xs = text_fits rp n ys"
  unfolding text_fits_def sum_mset_sum_list [symmetric] by simp

lemma settled_canon: "canon (finish_value op (JStr oc) (JStr ev) True) = JObj (settled_fields op oc ev)"
  by (simp add: finish_value_def settled_fields_def u_def)

lemma settled_overridden: "overridden (settled_fields op oc ev) (meta_fields task session st) = settled_object op oc ev task session st"
  by (simp add: overridden_def settled_object_def settled_fields_def meta_fields_def u_def)

lemma settled_values:
  "entry (settled_object op oc ev task session st) ''operation'' = JStr op"
  "entry (settled_object op oc ev task session st) ''type'' = JStr (u ''outcome'')"
  "entry (settled_object op oc ev task session st) ''outcome'' = JStr oc"
  "entry (settled_object op oc ev task session st) ''evidence_sha256'' = JStr ev"
  "entry (settled_object op oc ev task session st) ''reconciled'' = JBool True"
  "keys_are (settled_object op oc ev task session st) (common_keys @ [''outcome'', ''evidence_sha256'', ''reconciled''])"
  by (simp_all add: settled_object_def settled_fields_def meta_fields_def)
    (auto simp: keys_are_def common_keys_def)

definition settled_with :: "pytext \<Rightarrow> pytext \<Rightarrow> operation_state \<Rightarrow> operation_state" where
  "settled_with oc ev x = x\<lparr>op_outcome := oc, op_result := Some \<lparr>oc_outcome = oc, oc_evidence = ev, oc_reconciled = True\<rparr>\<rparr>"

lemma settled_checks:
  assumes "hex_text 32 op" "oc \<in> set (map u outcome_names)" "digest_text ev" "map_of (hi_operations h) op = Some x" "uncertain x"
    "outcome_fits (in_request (op_intent x)) oc = Inr ()"
  shows "check_record h (settled_object op oc ev task session st)
       = Inr (h\<lparr>hi_operations := AList.update op (settled_with oc ev x) (hi_operations h)\<rparr>)"
proof -
  have "u ''outcome'' \<noteq> u ''intent''" by (simp add: u_def)
  moreover have "read_outcome (JStr oc) = Inr oc" "digest_in (JStr ev) = Some ev" "hex_in 32 (JStr op) = Some op"
    using assms by (simp_all add: read_outcome_Inr reader_simps hex_in_Some)
  ultimately show ?thesis using assms
    by (simp add: check_record_def settled_values settle_operation_def expect_some_def require_def Let_def settled_with_def)
qed

lemma settled_room:
  assumes "map_of (hi_operations h) op = Some x" "uncertain x" "oc \<noteq> u ''uncertain''"
    and h': "h' = h\<lparr>hi_operations := AList.update op (settled_with oc ev x) (hi_operations h)\<rparr>"
  shows "reserve_of h' (settled_object op oc ev task session st) + 1 \<le> uncertain_count h"
proof -
  from update_split [OF assms(1), of "settled_with oc ev x"] obtain xs ys where
    s: "hi_operations h = xs @ (op, x) # ys" "hi_operations h' = xs @ (op, settled_with oc ev x) # ys" using h' by auto
  have "\<not> uncertain (settled_with oc ev x)" using assms(3) by (simp add: uncertain_def settled_with_def)
  then have "uncertain_count h = uncertain_count h' + 1" using assms(2) by (simp add: uncertain_count_def s)
  moreover have "u ''outcome'' \<noteq> u ''intent''" by (simp add: u_def)
  then have "reserve_of h' (settled_object op oc ev task session st) \<le> uncertain_count h'"
    using assms(3) by (simp add: reserve_of_def settled_values)
  ultimately show ?thesis by simp
qed

lemma settle_written:
  assumes k: "keeps_journal rp fl sha (jn_task j) (jn_session j) files raws st h"
    and sha: "\<And>x. digest_text (sha x)" and x: "map_of (hi_operations h) op = Some x" "uncertain x"
    and oc: "oc \<in> set (map u outcome_names)" "oc \<noteq> u ''uncertain''" "outcome_fits (in_request (op_intent x)) oc = Inr ()"
    and ev: "digest_text ev"
  shows "\<exists>files'. journal_append rp fl sha None Written j (finish_value op (JStr oc) (JStr ev) True) files = (None, files') \<and>
    journal_inspect rp fl sha j files' = Inr (h\<lparr>hi_operations := AList.update op (settled_with oc ev x) (hi_operations h)\<rparr>)"
proof -
  let ?obj = "settled_object op oc ev (jn_task j) (jn_session j) st" and ?v = "finish_value op (JStr oc) (JStr ev) True"
  define h' where "h' = h\<lparr>hi_operations := AList.update op (settled_with oc ev x) (hi_operations h)\<rparr>"
  have kd: "journal_id (jn_task j)" "journal_id (jn_session j)" "stored files raws" "states_of (ld_records st) = Inr h"
      "length (ld_records st) = length raws" "\<forall>d. ld_previous st = Some d \<longrightarrow> digest_text d"
      "length raws + uncertain_count h \<le> max_records" "ld_total st + int (uncertain_count h) * max_record \<le> max_journal"
    using k unfolding keeps_journal_def by blast+
  have op: "hex_text 32 op" using states_ok [OF kd(4)] map_of_SomeD [OF x(1)] unfolding history_ok_def by fastforce
  have fit: "text_fits rp 1500 ?obj" using settled_fits [OF op oc(1) ev kd(1,2)] kd(5-7) by simp
  obtain raw where raw: "encode_record rp (JObj ?obj) = Inr raw" "int (length raw) \<le> max_record"
    by (rule encode_fits [OF fit]) (simp_all add: max_record_def)
  have un: "unique_keys ?v" by (simp add: finish_value_def u_def)
  have rd: "readable ?v" using hex_scalar [OF op] name_scalar [OF oc(1)] digest_scalar [OF ev] by (simp add: finish_value_def u_scalar)
  obtain bs where bs: "encode_record rp ?v = Inr bs"
  proof (rule encode_fits)
    show "text_fits rp 1500 (settled_fields op oc ev)" using fit unfolding settled_object_def by (rule fits_prefix)
  next
    fix bs assume "encode_record rp (JObj (settled_fields op oc ev)) = Inr bs"
    moreover have "dumps rp True (JObj (settled_fields op oc ev)) = dumps rp True ?v"
      using dumps_canon [of rp True ?v] unfolding settled_canon .
    ultimately have "encode_record rp ?v = Inr bs" unfolding encode_record_def by (simp only:)
    then show thesis by (rule that)
  qed (simp add: max_record_def)
  have c: "check_record h ?obj = Inr h'" unfolding h'_def by (rule settled_checks [OF op oc(1) ev x oc(3)])
  have room: "reserve_of h' ?obj + 1 \<le> uncertain_count h" by (rule settled_room [OF x oc(2) h'_def])
  have "int (reserve_of h' ?obj + 1) * max_record \<le> int (uncertain_count h) * max_record"
    using room by (intro mult_right_mono) (simp_all add: max_record_def)
  then have "int (reserve_of h' ?obj) * max_record + max_record \<le> int (uncertain_count h) * max_record" by (simp add: algebra_simps)
  then have fullness: "length raws + 1 + reserve_of h' ?obj \<le> max_records"
      "ld_total st + int (length raw) + int (reserve_of h' ?obj) * max_record \<le> max_journal"
    using room kd(7,8) raw(2) by linarith+
  show ?thesis
    using append_succeeds [OF k sha un rd settled_canon bs settled_overridden [symmetric] c raw(1) fullness] keeps_inspect
    unfolding h'_def by blast
qed

section \<open>A first record\<close>

text \<open>The journal after a first accepted control request, for the concrete cases.\<close>

definition zeros :: "nat \<Rightarrow> pytext" where
  "zeros n = replicate n 48"

definition steer_request :: json where
  "steer_request = JObj [(u ''binding_sha256'', JStr (zeros 64)), (u ''method'', JStr (u ''steer'')), (u ''request_bytes'', JInt 9),
     (u ''request_id'', JStr (zeros 32)), (u ''request_sha256'', JStr (zeros 64)), (u ''sequence'', JInt 1)]"

definition steer_fields :: "(pytext \<times> json) list" where
  "steer_fields = [(u ''checkpoint'', JNull), (u ''kind'', JStr (u ''owner_control'')), (u ''operation'', JStr (zeros 32)),
     (u ''request'', steer_request), (u ''type'', JStr (u ''intent''))]"

definition steer_object :: "(pytext \<times> json) list" where
  "steer_object = steer_fields @ meta_fields (u ''t'') (u ''s'') nothing_loaded"

definition steer_operation :: operation_state where
  "steer_operation = \<lparr>op_intent = \<lparr>in_request = Owner_control \<lparr>cr_binding = zeros 64, cr_request = zeros 64, cr_id = zeros 32,
      cr_sequence = 1, cr_method = u ''steer'', cr_bytes = 9\<rparr>, in_checkpoint = None, in_call = None\<rparr>,
     op_sequence = JInt 0, op_outcome = u ''uncertain'', op_result = None\<rparr>"

definition steer_history :: history where
  "steer_history = \<lparr>hi_operations = [(zeros 32, steer_operation)], hi_calls = [], hi_ids = [zeros 32], hi_binding = Some (zeros 64),
     hi_sequence = 1, hi_bytes = 10\<rparr>"

lemma steer_value: "begin_value (zeros 32) (JStr (u ''owner_control'')) steer_request JNull None =
    JObj [(u ''type'', JStr (u ''intent'')), (u ''operation'', JStr (zeros 32)), (u ''kind'', JStr (u ''owner_control'')),
      (u ''request'', steer_request), (u ''checkpoint'', JNull)]"
  by (simp add: begin_value_def)

lemma steer_canon: "canon (begin_value (zeros 32) (JStr (u ''owner_control'')) steer_request JNull None) = JObj steer_fields"
  by (simp only: steer_value) (simp add: steer_fields_def steer_request_def u_def)

lemma steer_checks: "check_record empty_history steer_object = Inr steer_history"
  by code_simp

lemma steer_encodes: "case encode_record (\<lambda>_. []) (JObj steer_object) of Inr raw \<Rightarrow> int (length raw) < 1000 | Inl e \<Rightarrow> False"
  by code_simp

lemma steer_value_encodes:
  "case encode_record (\<lambda>_. []) (begin_value (zeros 32) (JStr (u ''owner_control'')) steer_request JNull None) of Inr raw \<Rightarrow> True | Inl e \<Rightarrow> False"
  by code_simp

definition steer_call :: "py_error option \<times> write_end \<times> journal_call" where
  "steer_call = (None, Written, Begin (zeros 32) (JStr (u ''owner_control'')) steer_request JNull None)"

lemma zeros_digest: "digest_text (zeros 64)"
  by code_simp

lemma steer_run:
  obtains files where
    "rfold (journal_step (\<lambda>_. []) (\<lambda>_. None) (\<lambda>_. zeros 64)) (\<lparr>jn_task = u ''t'', jn_session = u ''s'', jn_issued = []\<rparr>, []) [steer_call]
       = Inr (\<lparr>jn_task = u ''t'', jn_session = u ''s'', jn_issued = [zeros 32]\<rparr>, files)"
    "\<And>j. jn_task j = u ''t'' \<Longrightarrow> jn_session j = u ''s'' \<Longrightarrow> journal_inspect (\<lambda>_. []) (\<lambda>_. None) (\<lambda>_. zeros 64) j files = Inr steer_history"
    "\<exists>raws st. keeps_journal (\<lambda>_. []) (\<lambda>_. None) (\<lambda>_. zeros 64) (u ''t'') (u ''s'') files raws st steer_history"
proof -
  let ?j = "\<lparr>jn_task = u ''t'', jn_session = u ''s'', jn_issued = []\<rparr>"
    and ?v = "begin_value (zeros 32) (JStr (u ''owner_control'')) steer_request JNull None"
  have k: "keeps_journal (\<lambda>_. []) (\<lambda>_. None) (\<lambda>_. zeros 64) (jn_task ?j) (jn_session ?j) [] [] nothing_loaded empty_history"
    unfolding journal.select_convs by (rule empty_keeps) code_simp+
  obtain raw where raw: "encode_record (\<lambda>_. []) (JObj steer_object) = Inr raw" "int (length raw) < 1000"
    using steer_encodes by (auto split: sum.splits)
  obtain bs where bs: "encode_record (\<lambda>_. []) ?v = Inr bs" using steer_value_encodes by (auto split: sum.splits)
  have un: "unique_keys ?v" "readable ?v" by code_simp+
  have obj: "steer_object = overridden steer_fields (meta_fields (jn_task ?j) (jn_session ?j) nothing_loaded)" by code_simp
  have r: "reserve_of steer_history steer_object = 1" by code_simp
  from append_succeeds [OF k zeros_digest un steer_canon bs obj steer_checks raw(1)] raw(2) r
  obtain files raws st where f: "journal_append (\<lambda>_. []) (\<lambda>_. None) (\<lambda>_. zeros 64) None Written ?j ?v [] = (None, files)"
      "keeps_journal (\<lambda>_. []) (\<lambda>_. None) (\<lambda>_. zeros 64) (jn_task ?j) (jn_session ?j) files raws st steer_history"
    by (auto simp: max_records_def max_journal_def max_record_def nothing_loaded_def)
  show ?thesis
  proof (rule that)
    show "rfold (journal_step (\<lambda>_. []) (\<lambda>_. None) (\<lambda>_. zeros 64)) (?j, []) [steer_call]
       = Inr (\<lparr>jn_task = u ''t'', jn_session = u ''s'', jn_issued = [zeros 32]\<rparr>, files)"
      by (simp add: steer_call_def journal_step_def journal_begin_def f(1))
  next
    fix j :: journal assume "jn_task j = u ''t''" "jn_session j = u ''s''"
    then show "journal_inspect (\<lambda>_. []) (\<lambda>_. None) (\<lambda>_. zeros 64) j files = Inr steer_history"
      using keeps_inspect [of _ _ _ j files] f(2) by simp
  qed (use f(2) in auto)
qed

section \<open>Properties\<close>

text \<open>C30. Whatever records a journal accepts, their history is disciplined: no operation begins twice and no tool call
  is used twice; at most one operation other than a status or cancel request is uncertain; owner controls have one
  binding, distinct request identifiers, the sequence numbers 1, 2, \<dots> without a gap, and a byte budget; and an
  operation that has been answered has an outcome its kind allows.
\<close>

theorem journal_discipline:
  assumes "states_of records = Inr h"
  shows "distinct (map fst (hi_operations h)) \<and> distinct (calls_of h) \<and>
    length (filter (\<lambda>x. uncertain (snd x) \<and> \<not> bypasses (in_request (op_intent (snd x)))) (hi_operations h)) \<le> 1 \<and>
    map cr_sequence (controls h) = [1..int (length (controls h))] \<and> distinct (map cr_id (controls h)) \<and>
    (\<forall>c \<in> set (controls h). \<forall>d \<in> set (controls h). cr_binding c = cr_binding d) \<and>
    sum_list (map (\<lambda>c. cr_bytes c + 1) (controls h)) \<le> 1048576 \<and>
    (\<forall>x \<in> set (hi_operations h). case op_result (snd x) of None \<Rightarrow> uncertain (snd x)
       | Some r \<Rightarrow> op_outcome (snd x) = oc_outcome r \<and> outcome_fits (in_request (op_intent (snd x))) (oc_outcome r) = Inr ())"
proof -
  have ok: "operations_ok (hi_operations h)" "control_ok h (controls h)" "hi_calls h = calls_of h" "distinct (calls_of h)"
    using states_ok [OF assms] unfolding history_ok_parts by blast+
  have b: "hi_binding h = Some (cr_binding c)" if "c \<in> set (controls h)" for c using ok(2) that unfolding control_ok_def by blast
  have "cr_binding c = cr_binding d" if "c \<in> set (controls h)" "d \<in> set (controls h)" for c d using b [OF that(1)] b [OF that(2)] by simp
  moreover have "hi_bytes h = sum_list (map (\<lambda>c. cr_bytes c + 1) (controls h))" "hi_bytes h \<le> 1048576"
    using ok(2) unfolding control_ok_def by blast+
  then have "sum_list (map (\<lambda>c. cr_bytes c + 1) (controls h)) \<le> 1048576" by (simp only:)
  ultimately show ?thesis
    using ok(1,2,4) unfolding operations_ok_def control_ok_def blocking_def request_of_def by blast
qed

lemma journal_discipline_witness: "distinct (map fst (hi_operations steer_history))"
  using journal_discipline [of "[steer_object]" steer_history] steer_checks by (simp add: states_of_def)

text \<open>C29. A journal always reads back and never forgets: after any sequence of begin and finish calls on an empty
  directory, whatever arguments they have and however their writes fail, the directory still loads; and after any
  further calls every operation is still there with the same intent, and one that was settled is unchanged.
\<close>

theorem journal_durable:
  assumes "\<And>x. digest_text (sha x)" and "journal_new task session = Inr j0"
    and "rfold (journal_step rp fl sha) (j0, []) calls = Inr (j1, files1)"
    and "rfold (journal_step rp fl sha) (j1, files1) later = Inr (j2, files2)"
  shows "\<exists>h1 h2. journal_inspect rp fl sha j1 files1 = Inr h1 \<and> journal_inspect rp fl sha j2 files2 = Inr h2 \<and>
    (\<forall>op x. map_of (hi_operations h1) op = Some x \<longrightarrow>
       (\<exists>y. map_of (hi_operations h2) op = Some y \<and> op_intent y = op_intent x \<and> (\<not> uncertain x \<longrightarrow> y = x)))"
proof -
  obtain raws st h1 where k: "keeps_journal rp fl sha (jn_task j1) (jn_session j1) files1 raws st h1"
    using journal_reaches [OF assms(1-3)] .
  then have "journal_state rp fl sha (jn_task j1) (jn_session j1) h1 (j1, files1)"
    using continues_refl by (auto simp: journal_state_def)
  from journal_run.run_inv [OF this assms(4)] assms(1) obtain raws' st' h2 where
    "keeps_journal rp fl sha (jn_task j2) (jn_session j2) files2 raws' st' h2" "continues h1 h2"
    by (auto simp: journal_state_def)
  then show ?thesis using keeps_inspect k unfolding continues_def by blast
qed

lemma journal_durable_witness:
  "\<exists>j files h1. rfold (journal_step (\<lambda>_. []) (\<lambda>_. None) (\<lambda>_. zeros 64)) (\<lparr>jn_task = u ''t'', jn_session = u ''s'', jn_issued = []\<rparr>, [])
       [steer_call] = Inr (j, files) \<and>
     journal_inspect (\<lambda>_. []) (\<lambda>_. None) (\<lambda>_. zeros 64) j files = Inr h1"
proof -
  obtain files where f: "rfold (journal_step (\<lambda>_. []) (\<lambda>_. None) (\<lambda>_. zeros 64)) (\<lparr>jn_task = u ''t'', jn_session = u ''s'', jn_issued = []\<rparr>, [])
      [steer_call] = Inr (\<lparr>jn_task = u ''t'', jn_session = u ''s'', jn_issued = [zeros 32]\<rparr>, files)" by (rule steer_run)
  have n: "journal_new (u ''t'') (u ''s'') = Inr \<lparr>jn_task = u ''t'', jn_session = u ''s'', jn_issued = []\<rparr>" by code_simp
  from journal_durable [OF zeros_digest n f, of "[]"] f show ?thesis by auto
qed

text \<open>C28. An uncertain operation can always be settled: whatever calls have been made on an empty directory, for an
  operation that is uncertain, a final outcome its kind allows and the digest of its evidence, finish with an
  explicit reconciliation succeeds when it gets the lease and its write is done, and the journal then shows that
  outcome. Room is always left for it.
\<close>

theorem journal_settles:
  assumes "\<And>x. digest_text (sha x)" and "journal_new task session = Inr j0"
    and "rfold (journal_step rp fl sha) (j0, []) calls = Inr (j, files)" and "journal_inspect rp fl sha j files = Inr h"
    and "map_of (hi_operations h) op = Some x" and "uncertain x"
    and "oc \<in> set (map u outcome_names)" and "oc \<noteq> u ''uncertain''" and "outcome_fits (in_request (op_intent x)) oc = Inr ()"
    and "digest_text ev"
  shows "\<exists>j' files' h'. journal_finish rp fl sha None Written op (JStr oc) (JStr ev) True (j, files) = (Inr (), j', files') \<and>
    journal_inspect rp fl sha j' files' = Inr h' \<and>
    map_of (hi_operations h') op = Some (x\<lparr>op_outcome := oc, op_result := Some \<lparr>oc_outcome = oc, oc_evidence = ev, oc_reconciled = True\<rparr>\<rparr>) \<and>
    (\<forall>other. other \<noteq> op \<longrightarrow> map_of (hi_operations h') other = map_of (hi_operations h) other)"
proof -
  obtain raws st h0 where k: "keeps_journal rp fl sha (jn_task j) (jn_session j) files raws st h0"
    using journal_reaches [OF assms(1-3)] .
  then have "h0 = h" using keeps_inspect assms(4) by fastforce
  from settle_written [OF k assms(1)] assms(5-10) this obtain files' where
    f: "journal_append rp fl sha None Written j (finish_value op (JStr oc) (JStr ev) True) files = (None, files')"
      "journal_inspect rp fl sha j files' = Inr (h\<lparr>hi_operations := AList.update op (settled_with oc ev x) (hi_operations h)\<rparr>)" by blast
  let ?j = "j\<lparr>jn_issued := remove1 op (jn_issued j)\<rparr>"
  have "journal_finish rp fl sha None Written op (JStr oc) (JStr ev) True (j, files) = (Inr (), ?j, files')"
    by (simp add: journal_finish_def f(1))
  moreover have "journal_inspect rp fl sha ?j files' = journal_inspect rp fl sha j files'" by (simp add: journal_inspect_def)
  ultimately show ?thesis using f(2) by (auto simp: settled_with_def update_conv')
qed

lemma journal_settles_witness:
  "\<exists>j files j' files' h'. journal_finish (\<lambda>_. []) (\<lambda>_. None) (\<lambda>_. zeros 64) None Written (zeros 32) (JStr (u ''completed'')) (JStr (zeros 64))
     True (j, files) = (Inr (), j', files') \<and> journal_inspect (\<lambda>_. []) (\<lambda>_. None) (\<lambda>_. zeros 64) j' files' = Inr h' \<and>
     map_option op_outcome (map_of (hi_operations h') (zeros 32)) = Some (u ''completed'')"
proof -
  let ?j = "\<lparr>jn_task = u ''t'', jn_session = u ''s'', jn_issued = [zeros 32]\<rparr>"
  obtain files where f: "rfold (journal_step (\<lambda>_. []) (\<lambda>_. None) (\<lambda>_. zeros 64)) (\<lparr>jn_task = u ''t'', jn_session = u ''s'', jn_issued = []\<rparr>, [])
      [steer_call] = Inr (?j, files)"
    and i: "journal_inspect (\<lambda>_. []) (\<lambda>_. None) (\<lambda>_. zeros 64) ?j files = Inr steer_history" by (rule steer_run) simp_all
  have n: "journal_new (u ''t'') (u ''s'') = Inr \<lparr>jn_task = u ''t'', jn_session = u ''s'', jn_issued = []\<rparr>" by code_simp
  have x: "map_of (hi_operations steer_history) (zeros 32) = Some steer_operation" "uncertain steer_operation"
    "u ''completed'' \<in> set (map u outcome_names)" "u ''completed'' \<noteq> u ''uncertain''"
    "outcome_fits (in_request (op_intent steer_operation)) (u ''completed'') = Inr ()" by code_simp+
  from journal_settles [OF zeros_digest n f i x zeros_digest] show ?thesis by fastforce
qed

section \<open>Reading what happened since\<close>

lemma load_sequences:
  assumes "load_journal rp fl sha task session files = Inr st"
  shows "\<forall>k < length (ld_records st). entry (ld_records st ! k) ''sequence'' = JInt (int k)"
proof -
  from assms have "rfold (load_file rp fl sha task session) nothing_loaded (sort_key fst files) = Inr st"
    by (auto simp: load_journal_def rbind_Inr_iff)
  then show ?thesis
  proof (rule rfold_preserves)
    fix s f s' assume i: "\<forall>k < length (ld_records s). entry (ld_records s ! k) ''sequence'' = JInt (int k)"
      and "load_file rp fl sha task session s f = Inr s'"
    then have "s' = s \<or> (\<exists>obj. ld_records s' = ld_records s @ [obj] \<and> entry obj ''sequence'' = JInt (int (length (ld_records s))))"
      unfolding load_file_def Let_def by (auto simp: rbind_Inr_iff require_Inr_iff split: if_splits)
    with i show "\<forall>k < length (ld_records s'). entry (ld_records s' ! k) ''sequence'' = JInt (int k)"
      by (auto simp: nth_append less_Suc_eq)
  qed (simp add: nothing_loaded_def)
qed

text \<open>Every operation carries the number of the record it began with; those of a prefix are the ones numbered below it.\<close>

definition numbered_from :: "history \<Rightarrow> nat \<Rightarrow> history \<Rightarrow> bool" where
  "numbered_from hp n h \<longleftrightarrow> (\<forall>x \<in> set (hi_operations h). \<exists>i. op_sequence (snd x) = JInt i \<and> (map_of (hi_operations hp) (fst x) = None \<longleftrightarrow> int n \<le> i))"

lemma check_numbered:
  assumes c: "check_record h obj = Inr h'" and s: "entry obj ''sequence'' = JInt i"
    and b: "\<And>op. map_of (hi_operations h) op = None \<Longrightarrow> map_of (hi_operations hp) op = None \<longleftrightarrow> int n \<le> i" and num: "numbered_from hp n h"
  shows "numbered_from hp n h'"
  using c
proof (cases rule: check_record_cases)
  case (intent op)
  from intent(4) show ?thesis
    by (rule begin_operation_Inr) (use s b num in \<open>auto simp: numbered_from_def\<close>)
next
  case (outcome op)
  from outcome(4) show ?thesis
  proof (cases rule: settle_operation_Inr)
    case (1 x oc ev rec)
    let ?y = "x\<lparr>op_outcome := oc, op_result := Some \<lparr>oc_outcome = oc, oc_evidence = ev, oc_reconciled = rec\<rparr>\<rparr>"
    from update_split [OF 1(1), of ?y] obtain xs ys where
      "hi_operations h = xs @ (op, x) # ys" "hi_operations h' = xs @ (op, ?y) # ys" using 1(6) by auto
    with num show ?thesis by (auto simp: numbered_from_def)
  qed
qed

lemma sequences_snoc:
  "\<forall>k < length (records @ [r]). entry ((records @ [r]) ! k) ''sequence'' = JInt (int k) \<Longrightarrow>
     (\<forall>k < length records. entry (records ! k) ''sequence'' = JInt (int k)) \<and> entry r ''sequence'' = JInt (int (length records))"
  by (auto simp: nth_append split: if_splits)

lemma states_numbers:
  assumes "states_of records = Inr h" and "\<forall>k < length records. entry (records ! k) ''sequence'' = JInt (int k)"
  shows "\<forall>x \<in> set (hi_operations h). \<exists>k < length records. op_sequence (snd x) = JInt (int k)"
  using assms
proof (induction records arbitrary: h rule: rev_induct)
  case Nil
  then show ?case by (auto simp: states_of_def empty_history_def)
next
  case (snoc r records)
  from snoc.prems(1) obtain h0 where h0: "states_of records = Inr h0" "check_record h0 r = Inr h"
    by (auto simp: states_of_def rfold_append rbind_Inr_iff)
  note seq = sequences_snoc [OF snoc.prems(2)]
  have IH: "\<forall>x \<in> set (hi_operations h0). \<exists>k < length (records @ [r]). op_sequence (snd x) = JInt (int k)"
    using snoc.IH [OF h0(1)] seq by (fastforce intro: less_SucI)
  from h0(2) show ?case
  proof (cases rule: check_record_cases)
    case (intent op)
    from intent(4) show ?thesis by (rule begin_operation_Inr) (use IH seq in auto)
  next
    case (outcome op)
    from outcome(4) show ?thesis
    proof (cases rule: settle_operation_Inr)
      case (1 x oc ev rec)
      let ?y = "x\<lparr>op_outcome := oc, op_result := Some \<lparr>oc_outcome = oc, oc_evidence = ev, oc_reconciled = rec\<rparr>\<rparr>"
      from update_split [OF 1(1), of ?y] obtain xs ys where
        "hi_operations h0 = xs @ (op, x) # ys" "hi_operations h = xs @ (op, ?y) # ys" using 1(6) by auto
      with IH show ?thesis by auto
    qed
  qed
qed

lemma states_prefix:
  assumes "states_of records = Inr h" and "n \<le> length records" and "states_of (take n records) = Inr hp"
    and "\<forall>k < length records. entry (records ! k) ''sequence'' = JInt (int k)"
  shows "numbered_from hp n h \<and> continues hp h"
  using assms
proof (induction records arbitrary: h rule: rev_induct)
  case Nil
  then have "hi_operations h = []" "hp = h" by (auto simp: states_of_def empty_history_def)
  then show ?case by (simp add: numbered_from_def continues_def)
next
  case (snoc r records)
  from snoc.prems(1) obtain h0 where h0: "states_of records = Inr h0" "check_record h0 r = Inr h"
    by (auto simp: states_of_def rfold_append rbind_Inr_iff)
  note seq = sequences_snoc [OF snoc.prems(4)]
  show ?case
  proof (cases "n \<le> length records")
    case True
    then have p: "states_of (take n records) = Inr hp" using snoc.prems(3) by simp
    have num: "numbered_from hp n h0" and cont: "continues hp h0" using snoc.IH [OF h0(1) True p] seq by simp_all
    have "map_of (hi_operations hp) op = None" if "map_of (hi_operations h0) op = None" for op
      using cont that unfolding continues_def by (metis not_None_eq)
    then show ?thesis
      using check_numbered [OF h0(2) _ _ num] seq True continues_trans [OF cont check_record_continues [OF h0(2)]] by simp
  next
    case False
    then have n: "n = Suc (length records)" using snoc.prems(2) by simp
    then have eq: "hp = h" using snoc.prems(1,3) by simp
    have "map_of (hi_operations h) (fst x) \<noteq> None" if "x \<in> set (hi_operations h)" for x
      using that by (auto simp: map_of_eq_None_iff)
    then have "numbered_from h n h" using states_numbers [OF snoc.prems(1,4)] n unfolding numbered_from_def by fastforce
    then show ?thesis using continues_refl eq by simp
  qed
qed

text \<open>The head a frontier is taken over: the digest of the last record.\<close>

definition prefix_head :: "(rat \<Rightarrow> pytext) \<Rightarrow> (bytes \<Rightarrow> pytext) \<Rightarrow> (pytext \<times> json) list list \<Rightarrow> pytext option" where
  "prefix_head rp sha rs =
     (if rs = [] then None else case encode_record rp (JObj (last rs)) of Inr raw \<Rightarrow> Some (sha raw) | Inl e \<Rightarrow> None)"

lemma find_prefix_Some:
  "find_prefix rp sha j f n head rs = Inr (Some m) \<Longrightarrow> head = prefix_head rp sha prior \<Longrightarrow> length prior = n \<Longrightarrow>
     n \<le> m \<and> m \<le> n + length rs \<and> fingerprint rp sha j m (prefix_head rp sha (prior @ take (m - n) rs)) = Inr f"
proof (induction rs arbitrary: n head prior)
  case Nil
  then show ?case by (auto simp: rbind_Inr_iff split: if_splits)
next
  case (Cons r rs)
  from Cons.prems(1) obtain g where g: "fingerprint rp sha j n head = Inr g" by (auto simp: rbind_Inr_iff)
  show ?case
  proof (cases "g = f")
    case True
    then show ?thesis using Cons.prems g by auto
  next
    case False
    then obtain raw where raw: "encode_record rp (JObj r) = Inr raw" "find_prefix rp sha j f (n + 1) (Some (sha raw)) rs = Inr (Some m)"
      using Cons.prems(1) g by (auto simp: rbind_Inr_iff)
    have "n + 1 \<le> m \<and> m \<le> n + 1 + length rs \<and> fingerprint rp sha j m (prefix_head rp sha ((prior @ [r]) @ take (m - (n + 1)) rs)) = Inr f"
      by (rule Cons.IH [OF raw(2)]) (use Cons.prems raw(1) in \<open>auto simp: prefix_head_def\<close>)
    moreover from this have "take (m - n) (r # rs) = r # take (m - (n + 1)) rs" by (auto simp: take_Cons')
    ultimately show ?thesis by simp
  qed
qed

text \<open>A frontier can always be taken.\<close>

lemma fingerprint_returns:
  assumes "journal_id (jn_task j)" "journal_id (jn_session j)" "n \<le> max_records" "\<forall>d. head = Some d \<longrightarrow> digest_text d"
  obtains f where "fingerprint rp sha j n head = Inr (sha f)"
proof -
  let ?kvs = "[(u ''task'', JStr (jn_task j)), (u ''session'', JStr (jn_session j)), (u ''count'', JInt (int n)), (u ''head'', opt_text head)]"
  have w: "length (dumps rp True (JStr s)) \<le> 130" if "plain_text s \<and> length s \<le> 128" for s using that text_width by blast
  have "length (dumps rp True (opt_text head)) \<le> 130"
    using assms(4) w plain_hex [of 64] by (cases head) (auto simp: opt_text_def u_def digest_text_def simp del: dumps.simps(5))
  moreover have "length (dumps rp True (JInt (int n))) \<le> 130" using assms(3) by (intro number_width) (simp add: max_records_def)
  moreover have "plain_text k \<and> length k \<le> 16" if "k \<in> u ` {''task'', ''session'', ''count'', ''head''}" for k
    using that by (auto simp: plain_text_def u_def)
  ultimately have "text_fits rp (150 * length ?kvs) ?kvs"
    using w [OF plain_journal [OF assms(1)]] w [OF plain_journal [OF assms(2)]] by (intro fits_all) (auto simp del: dumps.simps)
  then obtain raw where "encode_record rp (JObj ?kvs) = Inr raw"
    by (rule encode_fits) (simp add: max_record_def)
  then show ?thesis using that by (simp add: fingerprint_def)
qed

section \<open>Observing a control request\<close>

definition asks :: "pytext \<Rightarrow> pytext \<times> operation_state \<Rightarrow> bool" where
  "asks i x \<longleftrightarrow> (case in_request (op_intent (snd x)) of Owner_control c \<Rightarrow> cr_id c = i | _ \<Rightarrow> False)"

definition observed :: "observation \<Rightarrow> pytext \<times> operation_state \<Rightarrow> observation" where
  "observed ob x = ob\<lparr>ob_state := op_outcome (snd x), ob_operation := Some (fst x),
     ob_result := (if op_outcome (snd x) = u ''completed'' then map_option oc_evidence (op_result (snd x)) else None)\<rparr>"

lemma observe_operation_Inr:
  "observe_operation b i r ob x = Inr ob' \<longleftrightarrow>
     (\<exists>c. in_request (op_intent (snd x)) = Owner_control c \<and> cr_binding c = b \<and> (cr_id c = i \<longrightarrow> cr_request c = r)) \<and>
     ob' = (if asks i x then observed ob x else ob)"
  by (auto simp: observe_operation_def asks_def observed_def split: request.splits)

lemma observe_all:
  "rfold (observe_operation b i r) ob ops = Inr ob' \<Longrightarrow>
     (\<forall>x \<in> set ops. \<exists>c. in_request (op_intent (snd x)) = Owner_control c \<and> cr_binding c = b \<and> (cr_id c = i \<longrightarrow> cr_request c = r)) \<and>
     ob' = foldl observed ob (filter (asks i) ops)"
  by (induction ops arbitrary: ob) (auto simp: rbind_Inr_iff observe_operation_Inr)

lemma distinct_once: "distinct xs \<Longrightarrow> length (filter (\<lambda>k. k = i) xs) \<le> 1"
  by (induction xs) (auto simp: filter_empty_conv)

lemma asked_once:
  assumes "distinct (map cr_id (controls h))"
  shows "length (filter (asks i) (hi_operations h)) \<le> 1"
proof -
  have "length (filter (asks i) ops) = length (filter (\<lambda>c. cr_id c = i)
      (concat (map (\<lambda>x. case request_of (snd x) of Owner_control c \<Rightarrow> [c] | _ \<Rightarrow> []) ops)))" for ops
    by (induction ops) (auto simp: asks_def request_of_def split: request.splits)
  then have "length (filter (asks i) (hi_operations h)) = length (filter (\<lambda>c. cr_id c = i) (controls h))"
    by (simp add: controls_def)
  also have "\<dots> = length (filter (\<lambda>k. k = i) (map cr_id (controls h)))" by (simp add: filter_map comp_def)
  also have "\<dots> \<le> 1" using assms by (rule distinct_once)
  finally show ?thesis .
qed

text \<open>C32. An observation reports the journal exactly: when it is given, every operation of the
  journal is a control of the given binding, at most one carries the request identifier, and the answer is its state,
  its identifier and, when it is completed, its evidence, with the request digest checked; when none carries it, the
  answer is that it was not observed.
\<close>

theorem control_observation_exact:
  assumes "control_observation rp fl sha j (JStr b) (JStr i) (JStr r) files = Inr ob" and "journal_inspect rp fl sha j files = Inr h"
  shows "(\<forall>x \<in> set (hi_operations h). \<exists>c. in_request (op_intent (snd x)) = Owner_control c \<and> cr_binding c = b) \<and>
    journal_frontier rp fl sha j files = Inr (ob_frontier ob) \<and>
    (case filter (\<lambda>x. \<exists>c. in_request (op_intent (snd x)) = Owner_control c \<and> cr_id c = i) (hi_operations h) of
       [] \<Rightarrow> ob_state ob = u ''not_observed'' \<and> ob_operation ob = None \<and> ob_result ob = None
     | x # xs \<Rightarrow> xs = [] \<and> (\<exists>c. in_request (op_intent (snd x)) = Owner_control c \<and> cr_request c = r) \<and>
         ob_state ob = op_outcome (snd x) \<and> ob_operation ob = Some (fst x) \<and>
         ob_result ob = (if op_outcome (snd x) = u ''completed'' then map_option oc_evidence (op_result (snd x)) else None))"
proof -
  from assms(1) obtain st current h' where st: "load_journal rp fl sha (jn_task j) (jn_session j) files = Inr st"
      "fingerprint rp sha j (length (ld_records st)) (ld_previous st) = Inr current" "states_of (ld_records st) = Inr h'"
      and o: "rfold (observe_operation b i r)
          \<lparr>ob_state = u ''not_observed'', ob_operation = None, ob_result = None, ob_frontier = current\<rparr> (hi_operations h') = Inr ob"
    unfolding control_observation_def Let_def rbind_Inr_iff reader_simps(3,5) hex_in_Some by blast
  have h: "h' = h" using assms(2) st(1,3) by (simp add: journal_inspect_def)
  have ids: "distinct (map cr_id (controls h))" using states_ok [OF st(3)] h unfolding history_ok_def by blast
  note all = observe_all [OF o, unfolded h]
  have f: "filter (\<lambda>x. \<exists>c. in_request (op_intent (snd x)) = Owner_control c \<and> cr_id c = i) (hi_operations h) = filter (asks i) (hi_operations h)"
    by (intro filter_cong) (auto simp: asks_def split: request.splits)
  have fr: "journal_frontier rp fl sha j files = Inr current" using st by (simp add: journal_frontier_def)
  show ?thesis
  proof (cases "filter (asks i) (hi_operations h)")
    case Nil
    then show ?thesis using all fr unfolding f by auto
  next
    case (Cons x xs)
    then have "xs = []" using asked_once [OF ids, of i] by simp
    moreover have "x \<in> set (hi_operations h) \<and> asks i x" using Cons filter_eq_ConsD [OF Cons] by fastforce
    moreover from this obtain c where "in_request (op_intent (snd x)) = Owner_control c" "cr_request c = r"
      using all by (fastforce simp: asks_def)
    ultimately show ?thesis using all fr Cons unfolding f by (auto simp: observed_def)
  qed
qed

section \<open>What happened after a frontier\<close>

text \<open>C31. A reading after a frontier tells exactly what happened since: when it answers, the frontier is that of a prefix of the records in
  which every operation was settled; the operations returned are those of the journal that had not begun in that
  prefix, in their order; the others are as they were in the prefix; and the new frontier is that of the whole journal.
\<close>

theorem after_shows_since:
  assumes "journal_after rp fl sha j (JStr f) files = Inr (g, ops)"
  shows "\<exists>st n hp h. load_journal rp fl sha (jn_task j) (jn_session j) files = Inr st \<and> n \<le> length (ld_records st) \<and>
    fingerprint rp sha j n (prefix_head rp sha (take n (ld_records st))) = Inr f \<and>
    states_of (take n (ld_records st)) = Inr hp \<and> (\<forall>x \<in> set (hi_operations hp). \<not> uncertain (snd x)) \<and>
    journal_inspect rp fl sha j files = Inr h \<and> journal_frontier rp fl sha j files = Inr g \<and>
    ops = filter (\<lambda>x. map_of (hi_operations hp) (fst x) = None) (hi_operations h) \<and>
    (\<forall>op x. map_of (hi_operations hp) op = Some x \<longrightarrow> map_of (hi_operations h) op = Some x)"
proof -
  from assms obtain st n hp h where st: "load_journal rp fl sha (jn_task j) (jn_session j) files = Inr st"
      "find_prefix rp sha j f 0 None (ld_records st) = Inr (Some n)" "states_of (take n (ld_records st)) = Inr hp"
      "uncertain_count hp = 0" "states_of (ld_records st) = Inr h" "fingerprint rp sha j (length (ld_records st)) (ld_previous st) = Inr g"
      "ops = filter (\<lambda>x. case as_int (op_sequence (snd x)) of Some i \<Rightarrow> int n \<le> i | None \<Rightarrow> False) (hi_operations h)"
    unfolding journal_after_def rbind_Inr_iff require_Inr_iff reader_simps(3,5) by auto
  have p: "n \<le> length (ld_records st)" "fingerprint rp sha j n (prefix_head rp sha (take n (ld_records st))) = Inr f"
    using find_prefix_Some [OF st(2), of "[]"] by (simp_all add: prefix_head_def)
  have num: "numbered_from hp n h" and cont: "continues hp h"
    using states_prefix [OF st(5) p(1) st(3) load_sequences [OF st(1)]] by simp_all
  have settled: "\<forall>x \<in> set (hi_operations hp). \<not> uncertain (snd x)" using st(4) by (auto simp: uncertain_count_def filter_empty_conv)
  have "ops = filter (\<lambda>x. map_of (hi_operations hp) (fst x) = None) (hi_operations h)"
    unfolding st(7) using num by (intro filter_cong) (auto simp: numbered_from_def)
  moreover have "map_of (hi_operations h) op = Some x" if "map_of (hi_operations hp) op = Some x" for op x
    using cont settled that map_of_SomeD [OF that] unfolding continues_def by fastforce
  moreover have "journal_inspect rp fl sha j files = Inr h" "journal_frontier rp fl sha j files = Inr g"
    using st by (simp_all add: journal_inspect_def journal_frontier_def)
  ultimately show ?thesis using st(1,3) p settled by blast
qed

lemma steer_loaded:
  obtains files st where "load_journal (\<lambda>_. []) (\<lambda>_. None) (\<lambda>_. zeros 64) (u ''t'') (u ''s'') files = Inr st" "states_of (ld_records st) = Inr steer_history"
    "\<And>n head j. n \<le> length (ld_records st) \<Longrightarrow> \<forall>d. head = Some d \<longrightarrow> digest_text d \<Longrightarrow> jn_task j = u ''t'' \<Longrightarrow> jn_session j = u ''s'' \<Longrightarrow>
        fingerprint (\<lambda>_. []) (\<lambda>_. zeros 64) j n head = Inr (zeros 64)"
    "\<forall>d. ld_previous st = Some d \<longrightarrow> digest_text d"
proof -
  obtain files raws st where k: "keeps_journal (\<lambda>_. []) (\<lambda>_. None) (\<lambda>_. zeros 64) (u ''t'') (u ''s'') files raws st steer_history"
    by (rule steer_run) blast
  then have kd: "journal_id (u ''t'')" "journal_id (u ''s'')" "states_of (ld_records st) = Inr steer_history"
      "length (ld_records st) = length raws" "\<forall>d. ld_previous st = Some d \<longrightarrow> digest_text d"
      "length raws + uncertain_count steer_history \<le> max_records"
    unfolding keeps_journal_def by blast+
  show ?thesis
  proof (rule that [OF keeps_load [OF k] kd(3) _ kd(5)])
    fix n head and j :: journal
    assume "n \<le> length (ld_records st)" "\<forall>d. head = Some d \<longrightarrow> digest_text d" "jn_task j = u ''t''" "jn_session j = u ''s''"
    then show "fingerprint (\<lambda>_. []) (\<lambda>_. zeros 64) j n head = Inr (zeros 64)"
      using fingerprint_returns [of j n head "\<lambda>_. []" "\<lambda>_. zeros 64"] kd by simp
  qed
qed

lemma control_observation_exact_witness:
  "\<exists>j files ob. control_observation (\<lambda>_. []) (\<lambda>_. None) (\<lambda>_. zeros 64) j (JStr (zeros 64)) (JStr (zeros 32)) (JStr (zeros 64)) files = Inr ob \<and>
     ob_state ob = u ''uncertain'' \<and> ob_operation ob = Some (zeros 32)"
proof -
  let ?j = "\<lparr>jn_task = u ''t'', jn_session = u ''s'', jn_issued = []\<rparr>"
  obtain files st where st: "load_journal (\<lambda>_. []) (\<lambda>_. None) (\<lambda>_. zeros 64) (u ''t'') (u ''s'') files = Inr st"
      "states_of (ld_records st) = Inr steer_history"
      "fingerprint (\<lambda>_. []) (\<lambda>_. zeros 64) ?j (length (ld_records st)) (ld_previous st) = Inr (zeros 64)"
    by (rule steer_loaded) (metis journal.select_convs(1,2) order_refl)
  have e: "digest_in (JStr (zeros 64)) = Some (zeros 64)" "hex_in 32 (JStr (zeros 32)) = Some (zeros 32)" by code_simp+
  have "is_ok (rfold (observe_operation (zeros 64) (zeros 32) (zeros 64))
      \<lparr>ob_state = u ''not_observed'', ob_operation = None, ob_result = None, ob_frontier = zeros 64\<rparr> (hi_operations steer_history))"
    by code_simp
  then obtain ob where "control_observation (\<lambda>_. []) (\<lambda>_. None) (\<lambda>_. zeros 64) ?j (JStr (zeros 64)) (JStr (zeros 32)) (JStr (zeros 64)) files = Inr ob"
    using st e by (auto simp: control_observation_def Let_def expect_some_def is_ok_def split: sum.splits)
  moreover have i: "journal_inspect (\<lambda>_. []) (\<lambda>_. None) (\<lambda>_. zeros 64) ?j files = Inr steer_history"
    using st by (simp add: journal_inspect_def)
  moreover have "filter (\<lambda>x. \<exists>c. in_request (op_intent (snd x)) = Owner_control c \<and> cr_id c = zeros 32) (hi_operations steer_history)
      = [(zeros 32, steer_operation)]" by (simp add: steer_history_def steer_operation_def)
  moreover have "op_outcome steer_operation = u ''uncertain''" by (simp add: steer_operation_def)
  ultimately show ?thesis using control_observation_exact [of "\<lambda>_. []" "\<lambda>_. None" "\<lambda>_. zeros 64" ?j "zeros 64" "zeros 32" "zeros 64" files ob]
    by auto
qed

lemma after_shows_since_witness:
  "\<exists>j files g ops. journal_after (\<lambda>_. []) (\<lambda>_. None) (\<lambda>_. zeros 64) j (JStr (zeros 64)) files = Inr (g, ops) \<and>
     (\<exists>h. journal_inspect (\<lambda>_. []) (\<lambda>_. None) (\<lambda>_. zeros 64) j files = Inr h)"
proof -
  let ?j = "\<lparr>jn_task = u ''t'', jn_session = u ''s'', jn_issued = []\<rparr>"
  obtain files st where st: "load_journal (\<lambda>_. []) (\<lambda>_. None) (\<lambda>_. zeros 64) (u ''t'') (u ''s'') files = Inr st"
      "states_of (ld_records st) = Inr steer_history"
      "fingerprint (\<lambda>_. []) (\<lambda>_. zeros 64) ?j (length (ld_records st)) (ld_previous st) = Inr (zeros 64)"
      "fingerprint (\<lambda>_. []) (\<lambda>_. zeros 64) ?j 0 None = Inr (zeros 64)"
    by (rule steer_loaded) (metis journal.select_convs(1,2) order_refl le0 option.distinct(1))
  have "find_prefix (\<lambda>_. []) (\<lambda>_. zeros 64) ?j (zeros 64) 0 None rs = Inr (Some 0)" for rs
    using st(4) by (cases rs) simp_all
  moreover have "digest_in (JStr (zeros 64)) = Some (zeros 64)" by code_simp
  ultimately obtain ops where "journal_after (\<lambda>_. []) (\<lambda>_. None) (\<lambda>_. zeros 64) ?j (JStr (zeros 64)) files = Inr (zeros 64, ops)"
    using st(1-3) by (auto simp: journal_after_def expect_some_def states_of_def uncertain_count_def empty_history_def require_def)
  from after_shows_since [OF this] this show ?thesis by blast
qed

end
