(* ===== verification/Json_Bytes.thy ===== *)
theory Json_Bytes
  imports Utf8
begin

text \<open>
  How \<open>json.loads\<close> reads bytes: the encoding is told from the first bytes, and decoding passes surrogates through.
\<close>

datatype encoding = Utf8 | Utf8_sig | Utf16 | Utf16_be | Utf16_le | Utf32 | Utf32_be | Utf32_le

definition json_encoding :: "bytes \<Rightarrow> encoding" where
  "json_encoding b =
     (if take 4 b = [0, 0, 254, 255] \<or> take 4 b = [255, 254, 0, 0] then Utf32
      else if take 2 b = [254, 255] \<or> take 2 b = [255, 254] then Utf16
      else if take 3 b = [239, 187, 191] then Utf8_sig
      else if 4 \<le> length b then
        (if b ! 0 = 0 then if b ! 1 \<noteq> 0 then Utf16_be else Utf32_be
         else if b ! 1 = 0 then if b ! 2 \<noteq> 0 \<or> b ! 3 \<noteq> 0 then Utf16_le else Utf32_le
         else Utf8)
      else if length b = 2 then if b ! 0 = 0 then Utf16_be else if b ! 1 = 0 then Utf16_le else Utf8
      else Utf8)"

definition pass_char :: "bytes \<Rightarrow> (nat \<times> bytes) option" where
  "pass_char bs =
     (case bs of b0 # b1 # b2 # r \<Rightarrow>
        if b0 = 237 \<and> 160 \<le> b1 \<and> b1 < 192 \<and> continuation b2 then Some (53248 + (b1 - 128) * 64 + (b2 - 128), r) else decode_char bs
      | _ \<Rightarrow> decode_char bs)"

lemma pass_char_shorter: "pass_char bs = Some (c, r) \<Longrightarrow> length r < length bs"
  by (auto simp: pass_char_def dest!: decode_char_shorter split: list.splits if_splits)

function utf8_pass :: "bytes \<Rightarrow> pytext option" where
  "utf8_pass bs =
     (if bs = [] then Some []
      else case pass_char bs of None \<Rightarrow> None | Some (c, r) \<Rightarrow> map_option (\<lambda>t. c # t) (utf8_pass r))"
  by pat_completeness auto
termination by (relation "measure length") (auto dest: pass_char_shorter)

declare utf8_pass.simps [simp del]

text \<open>The units of a number of bytes each, with the most significant byte first or last.\<close>

fun units16 :: "bool \<Rightarrow> bytes \<Rightarrow> nat list option" where
  "units16 big [] = Some []"
| "units16 big [b] = None"
| "units16 big (a # b # r) = map_option (\<lambda>us. (if big then a * 256 + b else b * 256 + a) # us) (units16 big r)"

fun units32 :: "bool \<Rightarrow> bytes \<Rightarrow> nat list option" where
  "units32 big [] = Some []"
| "units32 big (a # b # c # d # r) =
     map_option (\<lambda>us. (if big then ((a * 256 + b) * 256 + c) * 256 + d else ((d * 256 + c) * 256 + b) * 256 + a) # us) (units32 big r)"
| "units32 big _ = None"

fun join_pairs :: "nat list \<Rightarrow> pytext" where
  "join_pairs (h # l # r) =
     (if 55296 \<le> h \<and> h < 56320 \<and> 56320 \<le> l \<and> l < 57344 then (65536 + (h - 55296) * 1024 + (l - 56320)) # join_pairs r
      else h # join_pairs (l # r))"
| "join_pairs us = us"

definition utf16_pass :: "bool \<Rightarrow> bytes \<Rightarrow> pytext option" where
  "utf16_pass big bs = map_option join_pairs (units16 big bs)"

definition utf32_pass :: "bool \<Rightarrow> bytes \<Rightarrow> pytext option" where
  "utf32_pass big bs = (case units32 big bs of Some us \<Rightarrow> if list_all code_point us then Some us else None | None \<Rightarrow> None)"

definition json_text :: "bytes \<Rightarrow> pytext option" where
  "json_text b =
     (case json_encoding b of
        Utf8 \<Rightarrow> utf8_pass b
      | Utf8_sig \<Rightarrow> utf8_pass (drop 3 b)
      | Utf16 \<Rightarrow> utf16_pass (b ! 0 = 254) (drop 2 b)
      | Utf16_be \<Rightarrow> utf16_pass True b
      | Utf16_le \<Rightarrow> utf16_pass False b
      | Utf32 \<Rightarrow> utf32_pass (b ! 0 = 0) (drop 4 b)
      | Utf32_be \<Rightarrow> utf32_pass True b
      | Utf32_le \<Rightarrow> utf32_pass False b)"

lemma utf8_pass_ascii: "list_all (\<lambda>c. c < 128) b \<Longrightarrow> utf8_pass b = Some b"
proof (induction b)
  case (Cons c b)
  then have "pass_char (c # b) = Some (c, b)" by (auto simp: pass_char_def decode_char_def split: list.split)
  with Cons show ?case by (subst utf8_pass.simps) simp
qed (simp add: utf8_pass.simps)

lemma json_text_ascii:
  assumes "list_all (\<lambda>c. c < 128) b" and "b = x # y # r" and "x \<noteq> 0" and "y \<noteq> 0"
  shows "json_text b = Some b"
proof -
  have "json_encoding b = Utf8" using assms by (auto simp: json_encoding_def)
  then show ?thesis using utf8_pass_ascii [OF assms(1)] by (simp add: json_text_def)
qed

end
