(* ===== verification/Broker_Channel.thy ===== *)
theory Broker_Channel
  imports Readers Json_Bytes
begin

text \<open>
  The RPC channel between a supervisor and its worker (\<open>src/ls/core/agent/broker_rpc.py\<close>): framed JSON over an
  inherited stream socket, one call at a time. A channel is the state of one end. The socket is a stream of bytes
  and an answer of the environment for every transfer: all bytes moved, or it stopped with an error after some of
  them. The clock and the cancellation event are read from the environment at every check. A call is cut in two
  phases at each end, so that runs can interleave the ends; sending is the end of the caller's first phase and of
  the server's second.
\<close>

definition max_frame :: nat where "max_frame = 16777216"
definition max_traffic :: nat where "max_traffic = 67108864"
definition max_calls :: nat where "max_calls = 10000"

definition rpc_encode :: "(rat \<Rightarrow> pytext) \<Rightarrow> json \<Rightarrow> (py_error, bytes) result" where
  "rpc_encode rp v =
     (let raw = dumps rp True v
      in rbind (require (length raw \<le> max_frame) (ValueError ''RPC frame exceeds byte limit'')) (\<lambda>_. Inr raw))"

text \<open>The texts of the errors decoding raises (syntax, repeated keys, numbers that are not finite) are not told apart.\<close>

definition rpc_decode :: "(pytext \<Rightarrow> rat option) \<Rightarrow> bytes \<Rightarrow> (py_error, json) result" where
  "rpc_decode fl raw = expect_some (ValueError ''JSON'') (Option.bind (json_text raw) (loads fl))"

section \<open>One end\<close>

record rpc_channel =
  ch_task :: pytext
  ch_session :: pytext
  ch_methods :: "pytext list"
  ch_expires :: rat
  ch_sequence :: nat
  ch_used :: nat
  ch_closed :: bool
  ch_busy :: bool

text \<open>The cancellation event and the clock at a check.\<close>

type_synonym moment = "bool \<times> rat"

definition channel_new :: "rat \<Rightarrow> pytext \<Rightarrow> pytext \<Rightarrow> pytext list \<Rightarrow> rat \<Rightarrow> (py_error, rpc_channel) result" where
  "channel_new now task session methods expires =
     rbind (require (journal_id task \<and> journal_id session) (ValueError ''RPC requires explicit bounded identities'')) (\<lambda>_.
     rbind (require (methods \<noteq> [] \<and> list_all journal_id methods) (ValueError ''RPC requires an explicit immutable method allowlist'')) (\<lambda>_.
     rbind (require (now < expires) (TimeoutError ''RPC deadline expired'')) (\<lambda>_.
       Inr \<lparr>ch_task = task, ch_session = session, ch_methods = methods, ch_expires = expires, ch_sequence = 0, ch_used = 0,
            ch_closed = False, ch_busy = False\<rparr>)))"

definition channel_close :: "rpc_channel \<Rightarrow> rpc_channel" where
  "channel_close ch = ch\<lparr>ch_closed := True\<rparr>"

definition channel_check :: "moment \<Rightarrow> rpc_channel \<Rightarrow> (py_error, unit) result" where
  "channel_check t ch =
     (if ch_closed ch \<or> fst t then Inl (ConnectionError ''RPC channel is closed or cancelled; reconcile pending effects'')
      else if ch_expires ch \<le> snd t then Inl (TimeoutError ''RPC deadline expired; reconcile pending effects'') else Inr ())"

section \<open>Transfers\<close>

datatype transferred = Moved | Stopped py_error nat

definition transfer_out :: "moment \<times> transferred \<Rightarrow> rpc_channel \<Rightarrow> bytes \<Rightarrow> py_error option \<times> bytes" where
  "transfer_out tm ch raw =
     (case channel_check (fst tm) ch of Inl e \<Rightarrow> (Some e, [])
      | Inr _ \<Rightarrow> (case snd tm of Moved \<Rightarrow> (None, raw) | Stopped e n \<Rightarrow> (Some e, take n raw)))"

definition transfer_in :: "moment \<times> transferred \<Rightarrow> rpc_channel \<Rightarrow> nat \<Rightarrow> bytes \<Rightarrow> (py_error, bytes) result \<times> bytes" where
  "transfer_in tm ch n stream =
     (case channel_check (fst tm) ch of Inl e \<Rightarrow> (Inl e, stream)
      | Inr _ \<Rightarrow>
          (case snd tm of
             Moved \<Rightarrow> if n \<le> length stream then (Inr (take n stream), drop n stream)
                      else (Inl (ConnectionError ''RPC connection ended before acknowledgement''), [])
           | Stopped e k \<Rightarrow> (Inl e, drop (min k n) stream)))"

text \<open>\<open>struct.pack('!I', n)\<close> and back.\<close>

definition size_bytes :: "nat \<Rightarrow> bytes" where
  "size_bytes n = [n div 16777216 mod 256, n div 65536 mod 256, n div 256 mod 256, n mod 256]"

fun bytes_size :: "bytes \<Rightarrow> nat" where
  "bytes_size [a, b, c, d] = ((a * 256 + b) * 256 + c) * 256 + d"
| "bytes_size _ = 0"

definition send_value ::
    "(rat \<Rightarrow> pytext) \<Rightarrow> moment \<times> transferred \<Rightarrow> rpc_channel \<Rightarrow> json \<Rightarrow> py_error option \<times> rpc_channel \<times> bytes" where
  "send_value rp tm ch v =
     (case rpc_encode rp v of Inl e \<Rightarrow> (Some e, ch, [])
      | Inr raw \<Rightarrow>
          if max_traffic < ch_used ch + 4 + length raw then (Some (ValueError ''RPC aggregate byte limit exceeded''), ch, [])
          else (case transfer_out tm ch (size_bytes (length raw) @ raw) of
                  (e, sent) \<Rightarrow> (e, ch\<lparr>ch_used := ch_used ch + 4 + length raw\<rparr>, sent)))"

definition receive_value ::
    "(pytext \<Rightarrow> rat option) \<Rightarrow> moment \<times> transferred \<Rightarrow> moment \<times> transferred \<Rightarrow> rpc_channel \<Rightarrow> bytes \<Rightarrow>
     (py_error, json) result \<times> rpc_channel \<times> bytes" where
  "receive_value fl head body ch stream =
     (case transfer_in head ch 4 stream of (Inl e, rest) \<Rightarrow> (Inl e, ch, rest)
      | (Inr h, rest) \<Rightarrow>
          (let size = bytes_size h in
           if max_frame < size \<or> max_traffic < ch_used ch + 4 + size
           then (Inl (ValueError ''RPC incoming frame or aggregate limit exceeded''), ch, rest)
           else let ch' = ch\<lparr>ch_used := ch_used ch + 4 + size\<rparr> in
                (case transfer_in body ch' size rest of (Inl e, rest') \<Rightarrow> (Inl e, ch', rest')
                 | (Inr raw, rest') \<Rightarrow> (rpc_decode fl raw, ch', rest'))))"

section \<open>Envelopes\<close>

definition envelope_object :: "rpc_channel \<Rightarrow> string \<Rightarrow> json \<Rightarrow> json option \<Rightarrow> (pytext \<times> json) list" where
  "envelope_object ch kind data call =
     [(u ''schema_version'', JInt 1), (u ''task'', JStr (ch_task ch)), (u ''session'', JStr (ch_session ch)),
      (u ''sequence'', JInt (int (ch_sequence ch))), (u ''type'', JStr (u kind)), (u ''data'', data)] @
     (case call of None \<Rightarrow> [] | Some m \<Rightarrow> [(u ''method'', m)])"

definition rpc_envelope :: "rpc_channel \<Rightarrow> string \<Rightarrow> json \<Rightarrow> json option \<Rightarrow> (py_error, json) result" where
  "rpc_envelope ch kind data call =
     rbind (expect_some (ValueError ''RPC payload must be an object'') (as_obj data)) (\<lambda>_.
       Inr (JObj (envelope_object ch kind data call)))"

definition envelope_keys :: "string \<Rightarrow> string list" where
  "envelope_keys kind =
     [''schema_version'', ''task'', ''session'', ''sequence'', ''type'', ''data''] @ (if kind = ''request'' then [''method''] else [])"

definition allowed :: "rpc_channel \<Rightarrow> json \<Rightarrow> (py_error, pytext) result" where
  "allowed ch call =
     (case as_str call of
        Some m \<Rightarrow> if m \<in> set (ch_methods ch) then Inr m else Inl (PermissionError ''RPC method is outside the allowlist'')
      | None \<Rightarrow> Inl (PermissionError ''RPC method is outside the allowlist''))"

definition validate_envelope :: "rpc_channel \<Rightarrow> json \<Rightarrow> string \<Rightarrow> (py_error, (pytext \<times> json) list) result" where
  "validate_envelope ch v kind =
     (let bad = ValueError ''RPC envelope identity, schema or sequence mismatch'' in
      rbind (expect_some bad (as_obj v)) (\<lambda>obj.
      rbind (require (keys_are obj (envelope_keys kind) \<and> entry obj ''schema_version'' = JInt 1 \<and>
               entry obj ''sequence'' = JInt (int (ch_sequence ch)) \<and> entry obj ''task'' = JStr (ch_task ch) \<and>
               entry obj ''session'' = JStr (ch_session ch) \<and> entry obj ''type'' = JStr (u kind) \<and> as_obj (entry obj ''data'') \<noteq> None) bad) (\<lambda>_.
      rbind (if kind = ''request'' then rbind (allowed ch (entry obj ''method'')) (\<lambda>_. Inr ()) else Inr ()) (\<lambda>_. Inr obj))))"

section \<open>Calls\<close>

text \<open>Once a call is under way every failure closes the channel and frees it.\<close>

definition channel_fail :: "rpc_channel \<Rightarrow> rpc_channel" where
  "channel_fail ch = ch\<lparr>ch_closed := True, ch_busy := False\<rparr>"

definition channel_done :: "rpc_channel \<Rightarrow> rpc_channel" where
  "channel_done ch = ch\<lparr>ch_sequence := ch_sequence ch + 1, ch_busy := False\<rparr>"

definition channel_enter :: "moment \<Rightarrow> rpc_channel \<Rightarrow> py_error option \<times> rpc_channel" where
  "channel_enter t ch =
     (case channel_check t ch of Inl e \<Rightarrow> (Some e, channel_close ch)
      | Inr _ \<Rightarrow>
          if ch_busy ch then (Some (RuntimeError ''RPC call is already outstanding''), ch)
          else if max_calls \<le> ch_sequence ch then (Some (ValueError ''RPC call count limit exceeded''), channel_close ch)
          else (None, ch\<lparr>ch_busy := True\<rparr>))"

text \<open>\<open>request\<close> up to the sending of the envelope, and from then on.\<close>

definition request_send ::
    "(rat \<Rightarrow> pytext) \<Rightarrow> moment \<Rightarrow> moment \<times> transferred \<Rightarrow> json \<Rightarrow> json \<Rightarrow> rpc_channel \<Rightarrow> py_error option \<times> rpc_channel \<times> bytes" where
  "request_send rp t tm call data ch =
     (case channel_enter t ch of (Some e, ch1) \<Rightarrow> (Some e, ch1, [])
      | (None, ch1) \<Rightarrow>
          (case rbind (allowed ch1 call) (\<lambda>_. rpc_envelope ch1 ''request'' data (Some call)) of
             Inl e \<Rightarrow> (Some e, channel_fail ch1, [])
           | Inr v \<Rightarrow>
               (case send_value rp tm ch1 v of
                  (Some e, ch2, sent) \<Rightarrow> (Some e, channel_fail ch2, sent)
                | (None, ch2, sent) \<Rightarrow> (None, ch2, sent))))"

definition request_receive ::
    "(pytext \<Rightarrow> rat option) \<Rightarrow> moment \<times> transferred \<Rightarrow> moment \<times> transferred \<Rightarrow> moment \<Rightarrow> rpc_channel \<Rightarrow> bytes \<Rightarrow>
     (py_error, json) result \<times> rpc_channel \<times> bytes" where
  "request_receive fl head body t ch stream =
     (case receive_value fl head body ch stream of (r, ch1, rest) \<Rightarrow>
        (case rbind r (\<lambda>v. rbind (validate_envelope ch1 v ''result'') (\<lambda>obj. rbind (channel_check t ch1) (\<lambda>_. Inr obj))) of
           Inl e \<Rightarrow> (Inl e, channel_fail ch1, rest)
         | Inr obj \<Rightarrow> (Inr (entry obj ''data''), channel_done ch1, rest)))"

text \<open>\<open>serve_once\<close> up to the call of the handler, and from its result on; \<open>check\<close> is the server's own callback.\<close>

definition serve_receive ::
    "(pytext \<Rightarrow> rat option) \<Rightarrow> moment \<Rightarrow> moment \<times> transferred \<Rightarrow> moment \<times> transferred \<Rightarrow> (py_error, unit) result \<Rightarrow> moment \<Rightarrow> rpc_channel \<Rightarrow> bytes \<Rightarrow>
     (py_error, json \<times> json) result \<times> rpc_channel \<times> bytes" where
  "serve_receive fl t0 head body check t ch stream =
     (case channel_enter t0 ch of (Some e, ch1) \<Rightarrow> (Inl e, ch1, stream)
      | (None, ch1) \<Rightarrow>
          (case receive_value fl head body ch1 stream of (r, ch2, rest) \<Rightarrow>
             (case rbind r (\<lambda>v. rbind (validate_envelope ch2 v ''request'') (\<lambda>obj.
                     rbind check (\<lambda>_. rbind (channel_check t ch2) (\<lambda>_. Inr obj)))) of
                Inl e \<Rightarrow> (Inl e, channel_fail ch2, rest)
              | Inr obj \<Rightarrow> (Inr (entry obj ''method'', entry obj ''data''), ch2, rest))))"

definition serve_send ::
    "(rat \<Rightarrow> pytext) \<Rightarrow> (py_error, json) result \<Rightarrow> (py_error, unit) result \<Rightarrow> moment \<Rightarrow> moment \<times> transferred \<Rightarrow> rpc_channel \<Rightarrow>
     py_error option \<times> rpc_channel \<times> bytes" where
  "serve_send rp outcome check t tm ch =
     (case rbind outcome (\<lambda>v. rbind check (\<lambda>_. rbind (channel_check t ch) (\<lambda>_. rpc_envelope ch ''result'' v None))) of
        Inl e \<Rightarrow> (Some e, channel_fail ch, [])
      | Inr v \<Rightarrow>
          (case send_value rp tm ch v of
             (Some e, ch1, sent) \<Rightarrow> (Some e, channel_fail ch1, sent)
           | (None, ch1, sent) \<Rightarrow> (None, channel_done ch1, sent)))"

section \<open>A whole serve_once\<close>

text \<open>What the environment answers during one \<open>serve_once\<close>.\<close>

record serve_world =
  wd_enter :: moment
  wd_head :: "moment \<times> transferred"
  wd_body :: "moment \<times> transferred"
  wd_check :: "(py_error, unit) result"
  wd_ready :: moment
  wd_recheck :: "(py_error, unit) result"
  wd_answer :: moment
  wd_send :: "moment \<times> transferred"

definition serve_once ::
    "(rat \<Rightarrow> pytext) \<Rightarrow> (pytext \<Rightarrow> rat option) \<Rightarrow> serve_world \<Rightarrow> (json \<Rightarrow> json \<Rightarrow> (py_error, json) result) \<Rightarrow> rpc_channel \<Rightarrow> bytes \<Rightarrow>
     (json \<times> json) option \<times> py_error option \<times> rpc_channel \<times> bytes \<times> bytes" where
  "serve_once rp fl w handler ch stream =
     (case serve_receive fl (wd_enter w) (wd_head w) (wd_body w) (wd_check w) (wd_ready w) ch stream of
        (Inl e, ch1, rest) \<Rightarrow> (None, Some e, ch1, rest, [])
      | (Inr (call, data), ch1, rest) \<Rightarrow>
          (case serve_send rp (handler call data) (wd_recheck w) (wd_answer w) (wd_send w) ch1 of
             (e, ch2, sent) \<Rightarrow> (Some (call, data), e, ch2, rest, sent)))"

text \<open>The successive calls of a server's loop, with the calls its handler has got.\<close>

type_synonym serving = "rpc_channel \<times> (json \<times> json) list"

definition serve_step ::
    "(rat \<Rightarrow> pytext) \<Rightarrow> (pytext \<Rightarrow> rat option) \<Rightarrow> serving \<Rightarrow> serve_world \<times> (json \<Rightarrow> json \<Rightarrow> (py_error, json) result) \<times> bytes \<Rightarrow>
     (unit, serving) result" where
  "serve_step rp fl s a =
     (case (s, a) of ((ch, got), (w, handler, stream)) \<Rightarrow>
        (case serve_once rp fl w handler ch stream of (call, e, ch', rest, sent) \<Rightarrow>
           Inr (ch', got @ (case call of None \<Rightarrow> [] | Some c \<Rightarrow> [c]))))"

end
