(* ===== verification/Channel_Exchange.thy ===== *)
theory Channel_Exchange
  imports Broker_Channel Json_Canon "HOL-Library.Sublist"
begin

text \<open>
  The properties of the RPC channel: a server against any stream of bytes, and the steps of a client and a server on
  the two streams of a socket as an inductive relation, with the invariant that every step keeps.
\<close>

section \<open>What the phases change\<close>

definition same_ends :: "rpc_channel \<Rightarrow> rpc_channel \<Rightarrow> bool" where
  "same_ends ch ch' \<longleftrightarrow> ch_task ch' = ch_task ch \<and> ch_session ch' = ch_session ch \<and> ch_methods ch' = ch_methods ch"

lemma same_ends_refl [simp]: "same_ends ch ch"
  by (simp add: same_ends_def)

lemma same_ends_trans: "same_ends ch ch' \<Longrightarrow> same_ends ch' ch'' \<Longrightarrow> same_ends ch ch''"
  by (simp add: same_ends_def)

lemma channel_ends [simp]:
  "same_ends ch (channel_close ch') = same_ends ch ch'" "same_ends ch (channel_fail ch') = same_ends ch ch'"
  "same_ends ch (channel_done ch') = same_ends ch ch'" "same_ends ch (ch'\<lparr>ch_busy := b\<rparr>) = same_ends ch ch'"
  "same_ends ch (ch'\<lparr>ch_used := n\<rparr>) = same_ends ch ch'"
  by (simp_all add: same_ends_def channel_close_def channel_fail_def channel_done_def)

lemma channel_simps [simp]:
  "ch_sequence (channel_close ch) = ch_sequence ch" "ch_used (channel_close ch) = ch_used ch" "ch_closed (channel_close ch)"
  "ch_busy (channel_close ch) = ch_busy ch" "ch_sequence (channel_fail ch) = ch_sequence ch" "ch_used (channel_fail ch) = ch_used ch"
  "ch_closed (channel_fail ch)" "\<not> ch_busy (channel_fail ch)" "ch_sequence (channel_done ch) = ch_sequence ch + 1"
  "ch_used (channel_done ch) = ch_used ch" "ch_closed (channel_done ch) = ch_closed ch" "\<not> ch_busy (channel_done ch)"
  by (simp_all add: channel_close_def channel_fail_def channel_done_def)

lemma channel_check_Inr: "channel_check t ch = Inr x \<Longrightarrow> \<not> ch_closed ch"
  by (auto simp: channel_check_def split: if_splits)

lemma channel_enter_cases:
  assumes "channel_enter t ch = (r, ch')"
  obtains (failed) e where "r = Some e" "same_ends ch ch'" "ch_sequence ch' = ch_sequence ch" "ch_used ch' = ch_used ch"
      "ch_busy ch' = ch_busy ch" "ch_closed ch \<longrightarrow> ch_closed ch'" "ch_busy ch \<or> ch_closed ch'"
    | (entered) "r = None" "ch' = ch\<lparr>ch_busy := True\<rparr>" "\<not> ch_closed ch" "\<not> ch_busy ch" "ch_sequence ch < max_calls"
  using assms channel_check_Inr [of t ch]
  by (auto simp: channel_enter_def split: sum.splits if_splits)

lemma send_value_kept:
  assumes "send_value rp tm ch v = (r, ch', sent)" and "ch_used ch \<le> max_traffic"
  shows "same_ends ch ch'" "ch_sequence ch' = ch_sequence ch" "ch_closed ch' = ch_closed ch" "ch_busy ch' = ch_busy ch"
    "ch_used ch' \<le> max_traffic" "ch_closed ch \<Longrightarrow> sent = [] \<and> r \<noteq> None"
  using assms by (auto simp: send_value_def transfer_out_def channel_check_def split: sum.splits if_splits prod.splits transferred.splits)

lemma receive_value_kept:
  assumes "receive_value fl head body ch stream = (r, ch', rest)" and "ch_used ch \<le> max_traffic"
  shows "same_ends ch ch'" "ch_sequence ch' = ch_sequence ch" "ch_closed ch' = ch_closed ch" "ch_busy ch' = ch_busy ch"
    "ch_used ch' \<le> max_traffic"
  using assms by (auto simp: receive_value_def Let_def split: sum.splits if_splits prod.splits)

lemma validate_Inr: "validate_envelope ch v kind = Inr obj \<longleftrightarrow>
    v = JObj obj \<and> keys_are obj (envelope_keys kind) \<and> entry obj ''schema_version'' = JInt 1 \<and>
    entry obj ''sequence'' = JInt (int (ch_sequence ch)) \<and> entry obj ''task'' = JStr (ch_task ch) \<and>
    entry obj ''session'' = JStr (ch_session ch) \<and> entry obj ''type'' = JStr (u kind) \<and> (\<exists>d. entry obj ''data'' = JObj d) \<and>
    (kind = ''request'' \<longrightarrow> (\<exists>m. entry obj ''method'' = JStr m \<and> m \<in> set (ch_methods ch)))"
  by (auto simp: validate_envelope_def Let_def rbind_Inr_iff require_Inr_iff reader_simps as_simps allowed_def split: option.splits if_splits)

section \<open>A server against any stream\<close>

definition serving_ok :: "pytext list \<Rightarrow> serving \<Rightarrow> bool" where
  "serving_ok methods s \<longleftrightarrow>
     (case s of (ch, got) \<Rightarrow>
        ch_methods ch = methods \<and> \<not> ch_busy ch \<and> ch_used ch \<le> max_traffic \<and> ch_sequence ch \<le> max_calls \<and>
        length got \<le> max_calls \<and> (\<not> ch_closed ch \<longrightarrow> length got = ch_sequence ch) \<and>
        (\<forall>(call, data) \<in> set got. (\<exists>m. call = JStr m \<and> m \<in> set methods) \<and> (\<exists>d. data = JObj d)))"

lemma serve_receive_kept:
  assumes r: "serve_receive fl t0 head body check t ch stream = (r, ch', rest)" and ok: "serving_ok methods (ch, got)"
  shows "case r of Inl e \<Rightarrow> serving_ok methods (ch', got) \<and> ch_closed ch'
    | Inr (call, data) \<Rightarrow> ch_busy ch' \<and> ch_methods ch' = methods \<and> ch_used ch' \<le> max_traffic \<and> ch_sequence ch' < max_calls \<and> \<not> ch_closed ch' \<and>
        length got = ch_sequence ch' \<and> (\<exists>m. call = JStr m \<and> m \<in> set methods) \<and> (\<exists>d. data = JObj d)"
proof (cases "channel_enter t0 ch")
  case (Pair re ch1)
  then show ?thesis
  proof (cases rule: channel_enter_cases)
    case (failed e)
    then show ?thesis using r ok Pair by (auto simp: serve_receive_def serving_ok_def same_ends_def)
  next
    case entered
    obtain r2 ch2 rest2 where v: "receive_value fl head body ch1 stream = (r2, ch2, rest2)" by (cases "receive_value fl head body ch1 stream")
    note kept = receive_value_kept [OF v]
    have k: "ch_methods ch2 = methods" "ch_used ch2 \<le> max_traffic" "ch_sequence ch2 = ch_sequence ch" "\<not> ch_closed ch2" "ch_busy ch2"
      using kept entered ok by (auto simp: serving_ok_def same_ends_def)
    show ?thesis
    proof (cases "rbind r2 (\<lambda>v. rbind (validate_envelope ch2 v ''request'') (\<lambda>obj. rbind check (\<lambda>_. rbind (channel_check t ch2) (\<lambda>_. Inr obj))))")
      case (Inl e)
      then show ?thesis using r Pair entered v k ok by (auto simp: serve_receive_def serving_ok_def channel_fail_def)
    next
      case (Inr obj)
      then have "validate_envelope ch2 (JObj obj) ''request'' = Inr obj" by (auto simp: rbind_Inr_iff validate_Inr)
      then show ?thesis using r Pair entered v k ok Inr by (auto simp: serve_receive_def serving_ok_def validate_Inr)
    qed
  qed
qed

lemma serve_send_kept:
  assumes "serve_send rp outcome check t tm ch = (e, ch', sent)" and "ch_used ch \<le> max_traffic" and "\<not> ch_closed ch"
  shows "same_ends ch ch'" "ch_used ch' \<le> max_traffic" "\<not> ch_busy ch'"
    "e = None \<and> ch_sequence ch' = ch_sequence ch + 1 \<and> \<not> ch_closed ch' \<or> e \<noteq> None \<and> ch_sequence ch' = ch_sequence ch \<and> ch_closed ch'"
  using assms
  by (auto simp: serve_send_def split: sum.splits prod.splits option.splits dest: send_value_kept)

interpretation serving: stepped "serve_step rp fl" "serving_ok methods" for rp fl methods
proof
  fix s a s' assume ok: "serving_ok methods s" and a: "serve_step rp fl s a = Inr s'"
  obtain ch got w handler stream where p: "s = (ch, got)" "a = (w, handler, stream)" by (cases s, cases a)
  obtain r ch1 rest where r: "serve_receive fl (wd_enter w) (wd_head w) (wd_body w) (wd_check w) (wd_ready w) ch stream = (r, ch1, rest)"
    by (cases "serve_receive fl (wd_enter w) (wd_head w) (wd_body w) (wd_check w) (wd_ready w) ch stream")
  note kept = serve_receive_kept [OF r ok [unfolded p]]
  show "serving_ok methods s'"
  proof (cases r)
    case (Inl e)
    then show ?thesis using a kept r p by (simp add: serve_step_def serve_once_def)
  next
    case (Inr cd)
    obtain call data where cd: "cd = (call, data)" by fastforce
    obtain e ch2 sent where s: "serve_send rp (handler call data) (wd_recheck w) (wd_answer w) (wd_send w) ch1 = (e, ch2, sent)"
      by (cases "serve_send rp (handler call data) (wd_recheck w) (wd_answer w) (wd_send w) ch1")
    have "s' = (ch2, got @ [(call, data)])" using a r s Inr cd p by (simp add: serve_step_def serve_once_def)
    moreover note k = kept [unfolded Inr cd sum.case prod.case]
    moreover have "ch_used ch1 \<le> max_traffic" "\<not> ch_closed ch1" using k by blast+
    note serve_send_kept [OF s this]
    ultimately show ?thesis using ok p by (auto simp: serving_ok_def same_ends_def)
  qed
qed


section \<open>Frames\<close>

definition frame_of :: "(rat \<Rightarrow> pytext) \<Rightarrow> json \<Rightarrow> bytes" where
  "frame_of rp v = size_bytes (length (dumps rp True v)) @ dumps rp True v"

lemma four_digits: "a = x3 \<Longrightarrow> x2 = x3 * 256 + b \<Longrightarrow> x1 = x2 * 256 + c \<Longrightarrow> n = x1 * 256 + d \<Longrightarrow> ((a * 256 + b) * 256 + c) * 256 + d = (n::nat)"
  by simp

lemma size_round: "n < 4294967296 \<Longrightarrow> bytes_size (size_bytes n) = n"
proof -
  assume n: "n < 4294967296"
  have "n div 65536 div 256 = n div 16777216" "n div 256 div 256 = n div 65536" by (simp_all add: div_mult2_eq [symmetric])
  then have "n div 65536 = n div 16777216 * 256 + n div 65536 mod 256" "n div 256 = n div 65536 * 256 + n div 256 mod 256"
    by (metis div_mult_mod_eq)+
  moreover have "n div 16777216 mod 256 = n div 16777216" using n by (simp add: div_less_iff_less_mult)
  moreover have "n = n div 256 * 256 + n mod 256" by simp
  ultimately show ?thesis unfolding size_bytes_def bytes_size.simps by (intro four_digits)
qed

text \<open>What can be sent: JSON objects without floats, within the limit of a frame.\<close>

definition sendable :: "(rat \<Rightarrow> pytext) \<Rightarrow> json \<Rightarrow> bool" where
  "sendable rp v \<longleftrightarrow> unique_keys v \<and> readable v \<and> length (dumps rp True v) \<le> max_frame"

lemma rpc_codec:
  assumes "sendable rp v" and "v = JObj (kv # kvs)"
  shows "rpc_decode fl (dumps rp True v) = Inr (canon v)"
proof -
  let ?t = "dumps rp True v"
  have un: "unique_keys v" and rd: "readable v" using assms(1) by (simp_all add: sendable_def)
  have "ascii_text (dumps rp True (canon v))" by (rule ascii_dumps [OF json_ok_canon [OF un rd]])
  then have asc: "list_all (\<lambda>c. c < 128) ?t" by (simp add: dumps_canon ascii_text_def)
  obtain kv' kvs' where s: "sort_key fst (kv # kvs) = kv' # kvs'"
    by (metis length_0_conv length_sort list.discI list.exhaust)
  have "\<exists>r. ?t = 123 # 34 # r"
    unfolding assms(2) dumps.simps s by (cases kvs') (simp_all add: quoted_def)
  then obtain r where "?t = 123 # 34 # r" by blast
  from json_text_ascii [OF asc this] have "json_text ?t = Some ?t" by simp
  then show ?thesis using loads_canon [OF un rd, of "[]" fl rp True] by (simp add: rpc_decode_def expect_some_def)
qed

text \<open>From a stream that holds at most one frame, only the whole frame can be received.\<close>

lemma receive_frame:
  assumes p: "prefix stream (frame_of rp v)" and v: "sendable rp v" "v = JObj (kv # kvs)"
    and r: "receive_value fl head body ch stream = (Inr w, ch', rest)"
  shows "stream = frame_of rp v" "w = canon v" "rest = []"
proof -
  let ?raw = "dumps rp True v"
  have n: "length ?raw < 4294967296" using v(1) by (simp add: sendable_def max_frame_def)
  have l: "length (size_bytes (length ?raw)) = 4" by (simp add: size_bytes_def)
  from r obtain h rest1 where h: "transfer_in head ch 4 stream = (Inr h, rest1)"
    by (auto simp: receive_value_def split: sum.splits prod.splits)
  then have h4: "h = take 4 stream" "rest1 = drop 4 stream" "4 \<le> length stream"
    by (auto simp: transfer_in_def split: sum.splits transferred.splits if_splits)
  obtain t where t: "size_bytes (length ?raw) @ ?raw = stream @ t" using p by (auto simp: prefix_def frame_of_def)
  then have "take 4 (size_bytes (length ?raw) @ ?raw) = take 4 stream" using h4(3) by simp
  then have "h = size_bytes (length ?raw)" using l h4(1) by simp
  then have size: "bytes_size h = length ?raw" using size_round [OF n] by simp
  from r h size obtain ch1 raw where b: "transfer_in body ch1 (length ?raw) rest1 = (Inr raw, rest)" "rpc_decode fl raw = Inr w"
    by (auto simp: receive_value_def Let_def split: sum.splits prod.splits if_splits)
  then have raw: "raw = take (length ?raw) rest1" "rest = drop (length ?raw) rest1" "length ?raw \<le> length rest1"
    by (auto simp: transfer_in_def split: sum.splits transferred.splits if_splits)
  have "length stream = 4 + length rest1" using h4 by simp
  then have "length (size_bytes (length ?raw) @ ?raw) \<le> length stream" using raw(3) l by simp
  then have "length t = 0" unfolding t by simp
  then have "t = []" by simp
  with t have s: "stream = size_bytes (length ?raw) @ ?raw" by simp
  then show "stream = frame_of rp v" by (simp add: frame_of_def)
  have "rest1 = ?raw" using s h4(2) l by simp
  then have "raw = ?raw" "rest = []" using raw by simp_all
  then show "w = canon v" "rest = []" using b(2) rpc_codec [OF v, of fl] by simp_all
qed

lemma receive_nothing: "receive_value fl head body ch [] = (r, ch', rest) \<Longrightarrow> \<exists>e. r = Inl e"
  by (auto simp: receive_value_def transfer_in_def split: sum.splits transferred.splits if_splits)

section \<open>Two ends\<close>

record exchange =
  ex_client :: rpc_channel
  ex_server :: rpc_channel
  ex_up :: bytes
  ex_down :: bytes
  ex_issued :: "(json \<times> json) list"
  ex_handled :: "(json \<times> json) list"
  ex_answered :: "json list"
  ex_returned :: "json list"

text \<open>Payloads whose text reads back: objects of JSON values without floats.\<close>

definition payload :: "json \<Rightarrow> bool" where
  "payload v \<longleftrightarrow> unique_keys v \<and> readable v"

text \<open>
  The steps of a client and a server on the two streams of their socket. A call or an answer counts as issued once a
  byte of it has been sent. Both ends may be closed at any time, and several threads may call.
\<close>

inductive exchange_step :: "(rat \<Rightarrow> pytext) \<Rightarrow> (pytext \<Rightarrow> rat option) \<Rightarrow> exchange \<Rightarrow> exchange \<Rightarrow> bool"
  for rp fl where
  call: "payload data \<Longrightarrow> request_send rp t tm name data (ex_client s) = (e, c, sent) \<Longrightarrow>
    exchange_step rp fl s (s\<lparr>ex_client := c, ex_up := ex_up s @ sent,
      ex_issued := ex_issued s @ (if sent = [] then [] else [(name, data)])\<rparr>)"
| serve: "serve_receive fl t0 head body check t (ex_server s) (ex_up s) = (r, c, rest) \<Longrightarrow>
    exchange_step rp fl s (s\<lparr>ex_server := c, ex_up := rest,
      ex_handled := ex_handled s @ (case r of Inr cd \<Rightarrow> [cd] | Inl _ \<Rightarrow> [])\<rparr>)"
| answer: "ch_busy (ex_server s) \<Longrightarrow> payload v \<Longrightarrow> serve_send rp (Inr v) check t tm (ex_server s) = (e, c, sent) \<Longrightarrow>
    exchange_step rp fl s (s\<lparr>ex_server := c, ex_down := ex_down s @ sent,
      ex_answered := ex_answered s @ (if sent = [] then [] else [v])\<rparr>)"
| refuse: "ch_busy (ex_server s) \<Longrightarrow> serve_send rp (Inl err) check t tm (ex_server s) = (e, c, sent) \<Longrightarrow>
    exchange_step rp fl s (s\<lparr>ex_server := c, ex_down := ex_down s @ sent\<rparr>)"
| finish: "ch_busy (ex_client s) \<Longrightarrow> request_receive fl head body t (ex_client s) (ex_down s) = (r, c, rest) \<Longrightarrow>
    exchange_step rp fl s (s\<lparr>ex_client := c, ex_down := rest,
      ex_returned := ex_returned s @ (case r of Inr v \<Rightarrow> [v] | Inl _ \<Rightarrow> [])\<rparr>)"
| close_client: "exchange_step rp fl s (s\<lparr>ex_client := channel_close (ex_client s)\<rparr>)"
| close_server: "exchange_step rp fl s (s\<lparr>ex_server := channel_close (ex_server s)\<rparr>)"

inductive_cases exchange_stepE: "exchange_step rp fl s s'"

definition exchange_start :: "rpc_channel \<Rightarrow> rpc_channel \<Rightarrow> exchange" where
  "exchange_start c d =
     \<lparr>ex_client = c, ex_server = d, ex_up = [], ex_down = [], ex_issued = [], ex_handled = [], ex_answered = [], ex_returned = []\<rparr>"

section \<open>What the phases put on a stream and take from it\<close>

definition request_value :: "rpc_channel \<Rightarrow> nat \<Rightarrow> json \<times> json \<Rightarrow> json" where
  "request_value ch k cd = JObj (envelope_object (ch\<lparr>ch_sequence := k\<rparr>) ''request'' (snd cd) (Some (fst cd)))"

definition result_value :: "rpc_channel \<Rightarrow> nat \<Rightarrow> json \<Rightarrow> json" where
  "result_value ch k v = JObj (envelope_object (ch\<lparr>ch_sequence := k\<rparr>) ''result'' v None)"

lemma values_ends:
  "same_ends ch ch' \<Longrightarrow> request_value ch' k cd = request_value ch k cd" "same_ends ch ch' \<Longrightarrow> result_value ch' k v = result_value ch k v"
  by (simp_all add: request_value_def result_value_def envelope_object_def same_ends_def)

lemma transfer_prefix: "transfer_out tm ch raw = (e, sent) \<Longrightarrow> prefix sent raw"
  by (auto simp: transfer_out_def take_is_prefix split: sum.splits transferred.splits)

lemma send_value_sent:
  assumes "send_value rp tm ch v = (e, ch', sent)" and "sent \<noteq> []"
  shows "prefix sent (frame_of rp v)" "length (dumps rp True v) \<le> max_frame"
  using assms transfer_prefix [of tm ch "frame_of rp v"]
  by (auto simp: send_value_def frame_of_def rpc_encode_def Let_def require_def split: sum.splits if_splits prod.splits)

lemma request_send_cases:
  assumes r: "request_send rp t tm name data ch = (e, ch', sent)" and u: "ch_used ch \<le> max_traffic"
  obtains (silent) "sent = []" "same_ends ch ch'" "ch_sequence ch' = ch_sequence ch" "ch_used ch' \<le> max_traffic"
      "ch_closed ch \<longrightarrow> ch_closed ch'" "ch' = ch \<or> ch_closed ch'"
    | (sent) "sent \<noteq> []" "same_ends ch ch'" "ch_sequence ch' = ch_sequence ch" "ch_used ch' \<le> max_traffic"
      "\<not> ch_closed ch" "\<not> ch_busy ch" "ch_sequence ch < max_calls" "prefix sent (frame_of rp (request_value ch (ch_sequence ch) (name, data)))"
      "length (dumps rp True (request_value ch (ch_sequence ch) (name, data))) \<le> max_frame"
      "\<exists>m. name = JStr m \<and> m \<in> set (ch_methods ch)" "ch_closed ch' \<or> ch_busy ch'"
proof (cases "channel_enter t ch")
  case (Pair re ch1)
  then show ?thesis
  proof (cases rule: channel_enter_cases)
    case (failed x)
    then show ?thesis using r u Pair by (intro that(1)) (auto simp: request_send_def channel_enter_def split: sum.splits if_splits)
  next
    case entered
    show ?thesis
    proof (cases "rbind (allowed ch1 name) (\<lambda>_. rpc_envelope ch1 ''request'' data (Some name))")
      case (Inl x)
      then show ?thesis using r u Pair entered by (intro that(1)) (auto simp: request_send_def)
    next
      case (Inr v)
      then obtain m where m: "name = JStr m" "m \<in> set (ch_methods ch1)" and v: "v = JObj (envelope_object ch1 ''request'' data (Some name))"
        by (auto simp: rbind_Inr_iff allowed_def rpc_envelope_def as_simps split: option.splits if_splits)
      have v': "v = request_value ch (ch_sequence ch) (name, data)" by (simp add: v entered(2) request_value_def envelope_object_def)
      obtain e2 ch2 out where s: "send_value rp tm ch1 v = (e2, ch2, out)" by (cases "send_value rp tm ch1 v")
      note kept = send_value_kept [OF s]
      have k: "same_ends ch ch2" "ch_sequence ch2 = ch_sequence ch" "ch_used ch2 \<le> max_traffic" "\<not> ch_closed ch2" "ch_busy ch2"
        using kept entered u by (simp_all add: same_ends_def)
      have out: "sent = out" "ch' = (if e2 = None then ch2 else channel_fail ch2)"
        using r Pair entered Inr s by (auto simp: request_send_def split: option.splits)
      show ?thesis
      proof (cases "out = []")
        case True
        have "e2 \<noteq> None"
          using s True by (auto simp: send_value_def transfer_out_def size_bytes_def split: sum.splits transferred.splits if_splits prod.splits)
        then show ?thesis using out True k by (intro that(1)) auto
      next
        case False
        then show ?thesis using out k entered send_value_sent [OF s False] v' m by (intro that(2)) auto
      qed
    qed
  qed
qed

lemma serve_send_cases:
  assumes r: "serve_send rp outcome check t tm ch = (e, ch', sent)" and u: "ch_used ch \<le> max_traffic"
  obtains (silent) "sent = []" "same_ends ch ch'" "ch_sequence ch' = ch_sequence ch" "ch_used ch' \<le> max_traffic" "ch_closed ch'"
    | (sent) v where "sent \<noteq> []" "outcome = Inr v" "same_ends ch ch'" "ch_used ch' \<le> max_traffic" "\<not> ch_closed ch"
      "prefix sent (frame_of rp (result_value ch (ch_sequence ch) v))" "\<exists>d. v = JObj d"
      "length (dumps rp True (result_value ch (ch_sequence ch) v)) \<le> max_frame"
      "ch_closed ch' \<and> ch_sequence ch' = ch_sequence ch \<or> ch_sequence ch' = ch_sequence ch + 1 \<and> \<not> ch_closed ch' \<and> \<not> ch_busy ch'"
proof (cases "rbind outcome (\<lambda>v. rbind check (\<lambda>_. rbind (channel_check t ch) (\<lambda>_. rpc_envelope ch ''result'' v None)))")
  case (Inl x)
  then show ?thesis using r u by (intro that(1)) (auto simp: serve_send_def)
next
  case (Inr w)
  then obtain v d where v: "outcome = Inr v" "v = JObj d" "w = JObj (envelope_object ch ''result'' v None)" "\<not> ch_closed ch"
    using channel_check_Inr [of t ch] by (auto simp: rbind_Inr_iff rpc_envelope_def reader_simps as_simps)
  have w: "w = result_value ch (ch_sequence ch) v" by (simp add: v(3) result_value_def)
  obtain e2 ch2 out where s: "send_value rp tm ch w = (e2, ch2, out)" by (cases "send_value rp tm ch w")
  note kept = send_value_kept [OF s u]
  have out: "sent = out" "ch' = (if e2 = None then channel_done ch2 else channel_fail ch2)"
    using r Inr s by (auto simp: serve_send_def split: option.splits)
  show ?thesis
  proof (cases "out = []")
    case True
    have "e2 \<noteq> None"
      using s True by (auto simp: send_value_def transfer_out_def size_bytes_def split: sum.splits transferred.splits if_splits prod.splits)
    then show ?thesis using out True kept by (intro that(1)) auto
  next
    case False
    then show ?thesis using out kept send_value_sent [OF s False] w v by (intro that(2) [of v]) auto
  qed
qed

lemma serve_receive_cases:
  assumes r: "serve_receive fl t0 head body check t ch stream = (r, ch', rest)" and u: "ch_used ch \<le> max_traffic"
  obtains (failed) e where "r = Inl e" "same_ends ch ch'" "ch_sequence ch' = ch_sequence ch" "ch_used ch' \<le> max_traffic"
      "ch_closed ch \<longrightarrow> ch_closed ch'" "ch' = ch \<and> rest = stream \<or> ch_closed ch'"
    | (got) ch1 obj where "r = Inr (entry obj ''method'', entry obj ''data'')" "same_ends ch ch'" "ch_sequence ch' = ch_sequence ch"
      "ch_used ch' \<le> max_traffic" "\<not> ch_closed ch" "\<not> ch_busy ch" "\<not> ch_closed ch'" "ch_busy ch'"
      "receive_value fl head body ch1 stream = (Inr (JObj obj), ch', rest)"
proof (cases "channel_enter t0 ch")
  case (Pair re ch1)
  then show ?thesis
  proof (cases rule: channel_enter_cases)
    case (failed x)
    then show ?thesis using r u Pair that(1) by (auto simp: serve_receive_def channel_enter_def split: sum.splits if_splits)
  next
    case entered
    obtain r2 ch2 rest2 where v: "receive_value fl head body ch1 stream = (r2, ch2, rest2)" by (cases "receive_value fl head body ch1 stream")
    note kept = receive_value_kept [OF v]
    have k: "same_ends ch ch2" "ch_used ch2 \<le> max_traffic" "ch_sequence ch2 = ch_sequence ch" "\<not> ch_closed ch2" "ch_busy ch2"
      using kept entered u by (auto simp: same_ends_def)
    show ?thesis
    proof (cases "rbind r2 (\<lambda>v. rbind (validate_envelope ch2 v ''request'') (\<lambda>obj. rbind check (\<lambda>_. rbind (channel_check t ch2) (\<lambda>_. Inr obj))))")
      case (Inl e)
      then show ?thesis using r Pair entered v k that(1) by (auto simp: serve_receive_def)
    next
      case (Inr obj)
      then have "r2 = Inr (JObj obj)" by (auto simp: rbind_Inr_iff validate_Inr)
      then show ?thesis using r Pair entered v k Inr that(2) by (auto simp: serve_receive_def)
    qed
  qed
qed

lemma request_receive_cases:
  assumes r: "request_receive fl head body t ch stream = (r, ch', rest)" and u: "ch_used ch \<le> max_traffic"
  obtains (failed) e where "r = Inl e" "same_ends ch ch'" "ch_sequence ch' = ch_sequence ch" "ch_used ch' \<le> max_traffic" "ch_closed ch'"
    | (got) ch1 obj where "r = Inr (entry obj ''data'')" "same_ends ch ch'" "ch_sequence ch' = ch_sequence ch + 1"
      "ch_used ch' \<le> max_traffic" "\<not> ch_closed ch" "\<not> ch_closed ch'" "\<not> ch_busy ch'"
      "receive_value fl head body ch stream = (Inr (JObj obj), ch1, rest)"
proof -
  obtain r2 ch2 rest2 where v: "receive_value fl head body ch stream = (r2, ch2, rest2)" by (cases "receive_value fl head body ch stream")
  note k = receive_value_kept [OF v u]
  show ?thesis
  proof (cases "rbind r2 (\<lambda>v. rbind (validate_envelope ch2 v ''result'') (\<lambda>obj. rbind (channel_check t ch2) (\<lambda>_. Inr obj)))")
    case (Inl e)
    then show ?thesis using r v k that(1) by (auto simp: request_receive_def)
  next
    case (Inr obj)
    then have "r2 = Inr (JObj obj)" "\<not> ch_closed ch2" using channel_check_Inr [of t ch2] by (auto simp: rbind_Inr_iff validate_Inr)
    then show ?thesis using r v k Inr that(2) by (auto simp: request_receive_def)
  qed
qed

section \<open>The invariant of an exchange\<close>

definition named_call :: "json \<times> json \<Rightarrow> json \<times> json" where
  "named_call cd = (fst cd, canon (snd cd))"

definition request_fine :: "(rat \<Rightarrow> pytext) \<Rightarrow> rpc_channel \<Rightarrow> nat \<Rightarrow> json \<times> json \<Rightarrow> bool" where
  "request_fine rp ch k cd \<longleftrightarrow> payload (snd cd) \<and> (\<exists>m. fst cd = JStr m \<and> journal_id m) \<and> k < max_calls \<and>
     length (dumps rp True (request_value ch k cd)) \<le> max_frame"

definition result_fine :: "(rat \<Rightarrow> pytext) \<Rightarrow> rpc_channel \<Rightarrow> nat \<Rightarrow> json \<Rightarrow> bool" where
  "result_fine rp ch k v \<longleftrightarrow> payload v \<and> k < max_calls \<and> length (dumps rp True (result_value ch k v)) \<le> max_frame"

text \<open>The counts and contents of the logs.\<close>

definition logs_ok :: "(rat \<Rightarrow> pytext) \<Rightarrow> exchange \<Rightarrow> bool" where
  "logs_ok rp s \<longleftrightarrow>
     length (ex_returned s) = ch_sequence (ex_client s) \<and> length (ex_returned s) \<le> length (ex_answered s) \<and>
     length (ex_answered s) \<le> length (ex_handled s) \<and> length (ex_handled s) \<le> length (ex_issued s) \<and>
     length (ex_issued s) \<le> length (ex_returned s) + 1 \<and>
     (\<forall>k < length (ex_issued s). request_fine rp (ex_client s) k (ex_issued s ! k)) \<and>
     (\<forall>k < length (ex_answered s). result_fine rp (ex_client s) k (ex_answered s ! k)) \<and>
     prefix (ex_handled s) (map named_call (ex_issued s)) \<and> prefix (ex_returned s) (map canon (ex_answered s))"

definition ends_ok :: "exchange \<Rightarrow> bool" where
  "ends_ok s \<longleftrightarrow>
     journal_id (ch_task (ex_client s)) \<and> journal_id (ch_session (ex_client s)) \<and> list_all journal_id (ch_methods (ex_client s)) \<and>
     ch_task (ex_server s) = ch_task (ex_client s) \<and> ch_session (ex_server s) = ch_session (ex_client s) \<and>
     ch_used (ex_client s) \<le> max_traffic \<and> ch_used (ex_server s) \<le> max_traffic"

text \<open>What an open end may rely on: the stream it reads holds part of the next frame, or nothing.\<close>

definition client_ok :: "(rat \<Rightarrow> pytext) \<Rightarrow> exchange \<Rightarrow> bool" where
  "client_ok rp s \<longleftrightarrow> \<not> ch_closed (ex_client s) \<longrightarrow>
     (\<not> ch_busy (ex_client s) \<longrightarrow> length (ex_issued s) = length (ex_returned s)) \<and>
     (if length (ex_returned s) < length (ex_answered s)
      then prefix (ex_down s) (frame_of rp (result_value (ex_client s) (length (ex_returned s)) (ex_answered s ! length (ex_returned s))))
      else ex_down s = [])"

definition server_ok :: "(rat \<Rightarrow> pytext) \<Rightarrow> exchange \<Rightarrow> bool" where
  "server_ok rp s \<longleftrightarrow> \<not> ch_closed (ex_server s) \<longrightarrow>
     length (ex_answered s) = ch_sequence (ex_server s) \<and>
     length (ex_handled s) = ch_sequence (ex_server s) + (if ch_busy (ex_server s) then 1 else 0) \<and>
     (if length (ex_handled s) < length (ex_issued s)
      then prefix (ex_up s) (frame_of rp (request_value (ex_client s) (length (ex_handled s)) (ex_issued s ! length (ex_handled s))))
      else ex_up s = [])"

definition exchange_ok :: "(rat \<Rightarrow> pytext) \<Rightarrow> exchange \<Rightarrow> bool" where
  "exchange_ok rp s \<longleftrightarrow> ends_ok s \<and> logs_ok rp s \<and> client_ok rp s \<and> server_ok rp s"

text \<open>Envelopes of fine payloads can be sent, and are read back with the payload in canonical form.\<close>

lemma payload_entries: "journal_id (ch_task ch) \<Longrightarrow> journal_id (ch_session ch) \<Longrightarrow> ch_sequence ch < max_calls \<Longrightarrow> payload v \<Longrightarrow>
    (call = None \<or> (\<exists>m. call = Some (JStr m) \<and> journal_id m)) \<Longrightarrow>
    unique_keys (JObj (envelope_object ch kind v call)) \<and> readable (JObj (envelope_object ch kind v call))"
  using journal_scalar u_scalar int_ok [of "int (ch_sequence ch)"] int_ok [of 1]
  by (auto simp: envelope_object_def payload_def max_calls_def)

lemma request_sendable:
  assumes "request_fine rp ch k cd" and "journal_id (ch_task ch)" and "journal_id (ch_session ch)"
  shows "sendable rp (request_value ch k cd)"
  using assms payload_entries [of "ch\<lparr>ch_sequence := k\<rparr>" "snd cd" "Some (fst cd)"]
  by (auto simp: request_fine_def sendable_def request_value_def)

lemma result_sendable:
  assumes "result_fine rp ch k v" and "journal_id (ch_task ch)" and "journal_id (ch_session ch)"
  shows "sendable rp (result_value ch k v)"
  using assms payload_entries [of "ch\<lparr>ch_sequence := k\<rparr>" v None]
  by (auto simp: result_fine_def sendable_def result_value_def)

lemma envelope_first: "\<exists>kv kvs. request_value ch k cd = JObj (kv # kvs)" "\<exists>kv kvs. result_value ch k v = JObj (kv # kvs)"
  by (simp_all add: request_value_def result_value_def envelope_object_def)

lemma entries_read:
  assumes "canon (JObj kvs) = JObj obj" and "unique_keys (JObj kvs)"
  shows "entry obj n = canon (entry kvs n)"
proof -
  have "obj = canon_obj kvs" using assms(1) unfolding canon.simps(2) json.inject by (rule sym)
  then show ?thesis using entry_canon [of kvs n] assms(2) by (simp only: unique_keys.simps simp_thms)
qed

lemma request_read:
  assumes "canon (request_value ch k cd) = JObj obj" and "unique_keys (request_value ch k cd)" and "fst cd = JStr m"
  shows "(entry obj ''method'', entry obj ''data'') = named_call cd"
  using assms(3) unfolding entries_read [OF assms(1,2) [unfolded request_value_def]] by (simp add: named_call_def envelope_object_def)

lemma result_read:
  assumes "canon (result_value ch k v) = JObj obj" and "unique_keys (result_value ch k v)"
  shows "entry obj ''data'' = canon v"
  unfolding entries_read [OF assms [unfolded result_value_def]] by (simp add: envelope_object_def)

text \<open>What the ends share does not change.\<close>

lemma fine_ends: "same_ends ch ch' \<Longrightarrow> request_fine rp ch' k cd = request_fine rp ch k cd" "same_ends ch ch' \<Longrightarrow> result_fine rp ch' k v = result_fine rp ch k v"
  by (simp_all add: request_fine_def result_fine_def values_ends)

section \<open>Every step keeps it\<close>

lemma prefix_next:
  assumes "prefix xs (map f ys)" and "length xs < length ys"
  shows "prefix (xs @ [f (ys ! length xs)]) (map f ys)"
proof -
  obtain zs where zs: "map f ys = xs @ zs" using assms(1) by (auto simp: prefix_def)
  then have "zs \<noteq> []" using assms(2) by (metis append_Nil2 length_map less_irrefl)
  then obtain z zs' where "zs = z # zs'" by (cases zs) auto
  moreover from this zs have "f (ys ! length xs) = z" using nth_map [OF assms(2), of f] by (metis nth_append_length)
  ultimately show ?thesis using zs by (simp add: prefix_def)
qed

lemma logs_kept:
  "logs_ok rp (s\<lparr>ex_server := d\<rparr>) = logs_ok rp s" "logs_ok rp (s\<lparr>ex_server := d, ex_up := bs\<rparr>) = logs_ok rp s"
  "same_ends (ex_client s) c \<Longrightarrow> ch_sequence c = ch_sequence (ex_client s) \<Longrightarrow> logs_ok rp (s\<lparr>ex_client := c\<rparr>) = logs_ok rp s"
  "same_ends (ex_client s) c \<Longrightarrow> ch_sequence c = ch_sequence (ex_client s) \<Longrightarrow> logs_ok rp (s\<lparr>ex_client := c, ex_down := bs\<rparr>) = logs_ok rp s"
  by (simp_all add: logs_ok_def values_ends fine_ends)

lemma server_kept:
  "same_ends (ex_client s) c \<Longrightarrow> server_ok rp (s\<lparr>ex_client := c\<rparr>) = server_ok rp s"
  "same_ends (ex_client s) c \<Longrightarrow> server_ok rp (s\<lparr>ex_client := c, ex_down := bs\<rparr>) = server_ok rp s"
  "same_ends (ex_client s) c \<Longrightarrow> server_ok rp (s\<lparr>ex_client := c, ex_down := bs, ex_returned := vs\<rparr>) = server_ok rp s"
  by (simp_all add: server_ok_def values_ends)

lemma unlogged:
  "s\<lparr>ex_client := c, ex_up := ex_up s @ [], ex_issued := ex_issued s @ []\<rparr> = s\<lparr>ex_client := c\<rparr>"
  "s\<lparr>ex_server := c, ex_up := rest, ex_handled := ex_handled s @ []\<rparr> = s\<lparr>ex_server := c, ex_up := rest\<rparr>"
  "s\<lparr>ex_server := c, ex_down := ex_down s @ [], ex_answered := ex_answered s @ []\<rparr> = s\<lparr>ex_server := c\<rparr>"
  "s\<lparr>ex_client := c, ex_down := rest, ex_returned := ex_returned s @ []\<rparr> = s\<lparr>ex_client := c, ex_down := rest\<rparr>"
  by (cases s; simp)+

lemma call_keeps:
  assumes ok: "exchange_ok rp s" and pay: "payload data" and r: "request_send rp t tm name data (ex_client s) = (e, c, sent)"
  shows "exchange_ok rp (s\<lparr>ex_client := c, ex_up := ex_up s @ sent, ex_issued := ex_issued s @ (if sent = [] then [] else [(name, data)])\<rparr>)"
proof -
  have u: "ch_used (ex_client s) \<le> max_traffic" using ok by (simp add: exchange_ok_def ends_ok_def)
  from r u show ?thesis
  proof (cases rule: request_send_cases)
    case silent
    note v = values_ends [OF silent(2)] fine_ends [OF silent(2)]
    have "ends_ok (s\<lparr>ex_client := c\<rparr>)" using ok silent by (auto simp: exchange_ok_def ends_ok_def same_ends_def)
    moreover have "logs_ok rp (s\<lparr>ex_client := c\<rparr>)" using ok logs_kept(3) [OF silent(2,3)] by (simp add: exchange_ok_def)
    moreover have "client_ok rp (s\<lparr>ex_client := c\<rparr>)" using ok silent(6) by (auto simp: exchange_ok_def client_ok_def)
    moreover have "server_ok rp (s\<lparr>ex_client := c\<rparr>)" using ok server_kept(1) [OF silent(2)] by (simp add: exchange_ok_def)
    ultimately show ?thesis unfolding silent(1) if_P [OF refl] unlogged exchange_ok_def by blast
  next
    case sent
    let ?s = "s\<lparr>ex_client := c, ex_up := ex_up s @ sent, ex_issued := ex_issued s @ [(name, data)]\<rparr>"
    note v = values_ends [OF sent(2)] fine_ends [OF sent(2)]
    have logs: "logs_ok rp s" and idle: "length (ex_issued s) = length (ex_returned s)"
      using ok sent(5,6) by (auto simp: exchange_ok_def client_ok_def)
    then have n: "length (ex_issued s) = ch_sequence (ex_client s)" "length (ex_handled s) = ch_sequence (ex_client s)"
      "length (ex_answered s) = ch_sequence (ex_client s)" "length (ex_returned s) = ch_sequence (ex_client s)"
      by (auto simp: logs_ok_def)
    have "list_all journal_id (ch_methods (ex_client s))" using ok by (simp add: exchange_ok_def ends_ok_def)
    then have fine: "request_fine rp (ex_client s) (ch_sequence (ex_client s)) (name, data)"
      using pay sent(7,9,10) by (auto simp: request_fine_def list_all_iff)
    have "logs_ok rp ?s" using logs n fine sent(3) by (auto simp: logs_ok_def v nth_append less_Suc_eq prefix_prefix)
    moreover have "ends_ok ?s" using ok sent by (auto simp: exchange_ok_def ends_ok_def same_ends_def)
    moreover have "client_ok rp ?s" using ok sent(5,11) n by (auto simp: exchange_ok_def client_ok_def v)
    moreover have "server_ok rp ?s" using ok n sent(8) by (auto simp: exchange_ok_def server_ok_def v nth_append)
    ultimately show ?thesis using sent(1) by (simp add: exchange_ok_def)
  qed
qed

lemma serve_keeps:
  assumes ok: "exchange_ok rp s" and r: "serve_receive fl t0 head body check t (ex_server s) (ex_up s) = (r, c, rest)"
  shows "exchange_ok rp (s\<lparr>ex_server := c, ex_up := rest, ex_handled := ex_handled s @ (case r of Inr cd \<Rightarrow> [cd] | Inl _ \<Rightarrow> [])\<rparr>)"
proof -
  have u: "ch_used (ex_server s) \<le> max_traffic" using ok by (simp add: exchange_ok_def ends_ok_def)
  from r u show ?thesis
  proof (cases rule: serve_receive_cases)
    case (failed e)
    let ?s = "s\<lparr>ex_server := c, ex_up := rest\<rparr>"
    have "ends_ok ?s" using ok failed by (auto simp: exchange_ok_def ends_ok_def same_ends_def)
    moreover have "logs_ok rp ?s" using ok by (simp add: exchange_ok_def logs_kept)
    moreover have "client_ok rp ?s" using ok by (simp add: exchange_ok_def client_ok_def)
    moreover have "server_ok rp ?s" using ok failed(6) by (auto simp: exchange_ok_def server_ok_def)
    ultimately show ?thesis unfolding failed(1) sum.case unlogged exchange_ok_def by blast
  next
    case (got ch1 obj)
    let ?n = "length (ex_handled s)" and ?c = "ex_client s"
    have so: "length (ex_answered s) = ch_sequence (ex_server s)" "?n = ch_sequence (ex_server s)"
      "if ?n < length (ex_issued s) then prefix (ex_up s) (frame_of rp (request_value ?c ?n (ex_issued s ! ?n))) else ex_up s = []"
      using ok got(5,6) by (auto simp: exchange_ok_def server_ok_def Let_def)
    have logs: "logs_ok rp s" and ends: "ends_ok s" using ok by (simp_all add: exchange_ok_def)
    have lt: "?n < length (ex_issued s)"
    proof (rule ccontr)
      assume "\<not> ?n < length (ex_issued s)"
      then show False using so(3) got(9) receive_nothing by fastforce
    qed
    let ?cd = "ex_issued s ! ?n" and ?v = "request_value (ex_client s) (length (ex_handled s)) (ex_issued s ! length (ex_handled s))"
    have fine: "request_fine rp ?c ?n ?cd" using logs lt by (simp add: logs_ok_def)
    have snd: "sendable rp ?v" using request_sendable [OF fine] ends by (simp add: ends_ok_def)
    have pre: "prefix (ex_up s) (frame_of rp ?v)" using so(3) lt by simp
    obtain kv kvs where kvs: "?v = JObj (kv # kvs)" using envelope_first by blast
    note rf = receive_frame [OF pre snd kvs got(9)]
    obtain m where m: "fst ?cd = JStr m" using fine by (auto simp: request_fine_def)
    have "unique_keys ?v" using snd by (simp add: sendable_def)
    then have rr: "r = Inr (named_call ?cd)" using request_read [OF rf(2) [symmetric] _ m] got(1) by simp
    let ?s = "s\<lparr>ex_server := c, ex_up := rest, ex_handled := ex_handled s @ [named_call ?cd]\<rparr>"
    have one: "length (ex_issued s) = Suc ?n" using logs lt so by (auto simp: logs_ok_def)
    have "prefix (ex_handled s @ [named_call ?cd]) (map named_call (ex_issued s))"
      by (rule prefix_next [OF _ lt]) (use logs in \<open>simp add: logs_ok_def\<close>)
    then have "logs_ok rp ?s" using logs one unfolding logs_ok_def by simp
    moreover have "ends_ok ?s" using ends got(2,4) by (auto simp: ends_ok_def same_ends_def)
    moreover have "client_ok rp ?s" using ok by (simp add: exchange_ok_def client_ok_def)
    moreover have "server_ok rp ?s" using so got(3,8) rf(3) one by (simp add: server_ok_def)
    ultimately show ?thesis using rr by (simp add: exchange_ok_def)
  qed
qed

lemma answer_keeps:
  assumes ok: "exchange_ok rp s" and b: "ch_busy (ex_server s)" and pay: "\<And>v. outcome = Inr v \<Longrightarrow> payload v"
    and r: "serve_send rp outcome check t tm (ex_server s) = (e, c, sent)"
  shows "exchange_ok rp (s\<lparr>ex_server := c, ex_down := ex_down s @ sent,
      ex_answered := ex_answered s @ (if sent = [] then [] else case outcome of Inr v \<Rightarrow> [v] | Inl _ \<Rightarrow> [])\<rparr>)"
proof -
  have u: "ch_used (ex_server s) \<le> max_traffic" using ok by (simp add: exchange_ok_def ends_ok_def)
  have logs: "logs_ok rp s" and ends: "ends_ok s" and cl: "client_ok rp s" and sv: "server_ok rp s" using ok by (simp_all add: exchange_ok_def)
  from r u show ?thesis
  proof (cases rule: serve_send_cases)
    case silent
    let ?s = "s\<lparr>ex_server := c\<rparr>"
    have "ends_ok ?s" using ends silent(2,4) by (auto simp: ends_ok_def same_ends_def)
    moreover have "server_ok rp ?s" using silent(5) by (simp add: server_ok_def)
    moreover have "client_ok rp ?s" using cl by (simp add: client_ok_def)
    ultimately show ?thesis using logs unfolding silent(1) if_P [OF refl] unlogged exchange_ok_def logs_kept by blast
  next
    case (sent v)
    let ?s = "s\<lparr>ex_server := c, ex_down := ex_down s @ sent, ex_answered := ex_answered s @ [v]\<rparr>"
    let ?m = "ch_sequence (ex_server s)"
    have so: "length (ex_answered s) = ?m" "length (ex_handled s) = ?m + 1" using sv b sent(5) by (simp_all add: server_ok_def)
    have rv: "result_value (ex_server s) k w = result_value (ex_client s) k w" for k w
      using ends by (simp add: ends_ok_def result_value_def envelope_object_def)
    have lt: "?m < max_calls" using logs so by (auto simp: logs_ok_def request_fine_def)
    have fine: "result_fine rp (ex_client s) ?m v" using pay [OF sent(2)] lt sent(8) rv by (simp add: result_fine_def)
    have ret: "length (ex_returned s) \<le> ?m" using logs so by (simp add: logs_ok_def)
    have "logs_ok rp ?s" using logs so fine by (auto simp: logs_ok_def nth_append less_Suc_eq prefix_prefix)
    moreover have "ends_ok ?s" using ends sent(3,4) by (simp add: ends_ok_def same_ends_def)
    moreover have "client_ok rp ?s"
    proof (cases "ch_closed (ex_client s)")
      case False
      have eq: "length (ex_returned s) = ?m" using logs so ret by (simp add: logs_ok_def)
      then have "ex_down s = []" using cl False so(1) by (simp add: client_ok_def)
      then show ?thesis using cl eq so(1) sent(6) rv by (simp add: client_ok_def nth_append)
    qed (simp add: client_ok_def)
    moreover have "server_ok rp ?s"
      using sv sent(5,9) so b by (auto simp: server_ok_def)
    ultimately show ?thesis using sent(1,2) by (simp add: exchange_ok_def)
  qed
qed

lemma finish_keeps:
  assumes ok: "exchange_ok rp s" and b: "ch_busy (ex_client s)"
    and r: "request_receive fl head body t (ex_client s) (ex_down s) = (r, c, rest)"
  shows "exchange_ok rp (s\<lparr>ex_client := c, ex_down := rest, ex_returned := ex_returned s @ (case r of Inr v \<Rightarrow> [v] | Inl _ \<Rightarrow> [])\<rparr>)"
proof -
  have u: "ch_used (ex_client s) \<le> max_traffic" using ok by (simp add: exchange_ok_def ends_ok_def)
  have logs: "logs_ok rp s" and ends: "ends_ok s" and cl: "client_ok rp s" and sv: "server_ok rp s" using ok by (simp_all add: exchange_ok_def)
  from r u show ?thesis
  proof (cases rule: request_receive_cases)
    case (failed e)
    let ?s = "s\<lparr>ex_client := c, ex_down := rest\<rparr>"
    note v = values_ends [OF failed(2)] fine_ends [OF failed(2)]
    have "ends_ok ?s" using ends failed(2,4) by (auto simp: ends_ok_def same_ends_def)
    moreover have "logs_ok rp ?s" using logs logs_kept(4) [OF failed(2,3)] by simp
    moreover have "client_ok rp ?s" using failed(5) by (simp add: client_ok_def)
    moreover have "server_ok rp ?s" using sv server_kept(2) [OF failed(2)] by simp
    ultimately show ?thesis unfolding failed(1) sum.case unlogged exchange_ok_def by blast
  next
    case (got ch1 obj)
    let ?n = "length (ex_returned s)" and ?c = "ex_client s"
    note v = values_ends [OF got(2)] fine_ends [OF got(2)]
    have co: "if ?n < length (ex_answered s) then prefix (ex_down s) (frame_of rp (result_value ?c ?n (ex_answered s ! ?n))) else ex_down s = []"
      using cl got(5) by (simp add: client_ok_def Let_def)
    have lt: "?n < length (ex_answered s)"
    proof (rule ccontr)
      assume "\<not> ?n < length (ex_answered s)"
      then show False using co got(8) receive_nothing by fastforce
    qed
    let ?v = "result_value (ex_client s) (length (ex_returned s)) (ex_answered s ! length (ex_returned s))"
    have fine: "result_fine rp ?c ?n (ex_answered s ! ?n)" using logs lt by (simp add: logs_ok_def)
    have snd: "sendable rp ?v" using result_sendable [OF fine] ends by (simp add: ends_ok_def)
    have pre: "prefix (ex_down s) (frame_of rp ?v)" using co lt by simp
    obtain kv kvs where kvs: "?v = JObj (kv # kvs)" using envelope_first by blast
    note rf = receive_frame [OF pre snd kvs got(8)]
    have "unique_keys ?v" using snd by (simp add: sendable_def)
    then have rr: "r = Inr (canon (ex_answered s ! ?n))" using result_read [OF rf(2) [symmetric]] got(1) by simp
    let ?s = "s\<lparr>ex_client := c, ex_down := rest, ex_returned := ex_returned s @ [canon (ex_answered s ! ?n)]\<rparr>"
    have all: "length (ex_answered s) = Suc ?n" "length (ex_handled s) = Suc ?n" "length (ex_issued s) = Suc ?n"
      using logs lt by (auto simp: logs_ok_def)
    have "prefix (ex_returned s @ [canon (ex_answered s ! ?n)]) (map canon (ex_answered s))"
      by (rule prefix_next [OF _ lt]) (use logs in \<open>simp add: logs_ok_def\<close>)
    then have "logs_ok rp ?s" using logs all got(3) unfolding logs_ok_def by (simp add: v)
    moreover have "ends_ok ?s" using ends got(2,4) by (simp add: ends_ok_def same_ends_def)
    moreover have "client_ok rp ?s" using all rf(3) by (simp add: client_ok_def)
    moreover have "server_ok rp ?s" using sv server_kept(3) [OF got(2)] by simp
    ultimately show ?thesis using rr by (simp add: exchange_ok_def)
  qed
qed

lemma exchange_step_keeps:
  assumes "exchange_step rp fl s s'" and "exchange_ok rp s"
  shows "exchange_ok rp s'"
  using assms
proof (induction rule: exchange_step.induct)
  case (call data t tm name s e c sent)
  then show ?case by (intro call_keeps)
next
  case (serve t0 head body check t s r c rest)
  then show ?case by (intro serve_keeps)
next
  case (answer s v check t tm e c sent)
  then show ?case using answer_keeps [of rp s "Inr v" check t tm e c sent] by (simp cong: if_cong)
next
  case (refuse s err check t tm e c sent)
  then have "sent = []" by (auto simp: serve_send_def)
  with refuse show ?case using answer_keeps [of rp s "Inl err" check t tm e c sent] by simp
next
  case (finish s head body t r c rest)
  then show ?case by (intro finish_keeps)
next
  case (close_client s)
  have "same_ends (ex_client s) (channel_close (ex_client s))" by simp
  then show ?case using close_client logs_kept(3) [of s "channel_close (ex_client s)" rp] server_kept(1) [of s "channel_close (ex_client s)" rp]
    by (simp add: exchange_ok_def client_ok_def ends_ok_def) (simp add: channel_close_def)
next
  case (close_server s)
  then show ?case
    by (simp add: exchange_ok_def ends_ok_def logs_kept client_ok_def server_ok_def) (simp add: channel_close_def)
qed

lemma exchange_start_ok:
  assumes "channel_new now task session methods expires = Inr c" and "channel_new now' task session methods' expires' = Inr d"
  shows "exchange_ok rp (exchange_start c d)"
  using assms
  by (auto simp: channel_new_def rbind_Inr_iff require_Inr_iff exchange_start_def exchange_ok_def ends_ok_def logs_ok_def client_ok_def server_ok_def)

lemma exchange_reaches:
  assumes "channel_new now task session methods expires = Inr c" and "channel_new now' task session methods' expires' = Inr d"
    and "(exchange_step rp fl)\<^sup>*\<^sup>* (exchange_start c d) s"
  shows "exchange_ok rp s"
  using assms(3) by (induction rule: rtranclp_induct) (auto intro: exchange_start_ok [OF assms(1,2)] exchange_step_keeps)

section \<open>A call that nothing disturbs\<close>

definition at_ease :: "rat \<Rightarrow> rpc_channel \<Rightarrow> bool" where
  "at_ease t ch \<longleftrightarrow> \<not> ch_closed ch \<and> t < ch_expires ch"

lemma ease_check: "at_ease t ch \<Longrightarrow> channel_check (False, t) ch = Inr ()"
  by (simp add: at_ease_def channel_check_def)

lemma ease_kept [simp]: "at_ease t (ch\<lparr>ch_used := n\<rparr>) = at_ease t ch" "at_ease t (ch\<lparr>ch_busy := b\<rparr>) = at_ease t ch"
  by (simp_all add: at_ease_def)

lemma send_whole:
  assumes "at_ease t ch" and "length (dumps rp True v) \<le> max_frame" and "ch_used ch + 4 + length (dumps rp True v) \<le> max_traffic"
  shows "send_value rp ((False, t), Moved) ch v = (None, ch\<lparr>ch_used := ch_used ch + 4 + length (dumps rp True v)\<rparr>, frame_of rp v)"
  using assms ease_check by (simp add: send_value_def rpc_encode_def Let_def require_def transfer_out_def frame_of_def)

lemma receive_whole:
  assumes "at_ease t ch" and "sendable rp v" and "v = JObj (kv # kvs)" and "ch_used ch + 4 + length (dumps rp True v) \<le> max_traffic"
  shows "receive_value fl ((False, t), Moved) ((False, t), Moved) ch (frame_of rp v) =
    (Inr (canon v), ch\<lparr>ch_used := ch_used ch + 4 + length (dumps rp True v)\<rparr>, [])"
proof -
  let ?n = "length (dumps rp True v)"
  have n: "?n \<le> max_frame" "?n < 4294967296" using assms(2) by (simp_all add: sendable_def max_frame_def)
  have l: "length (size_bytes ?n) = 4" by (simp add: size_bytes_def)
  have h: "transfer_in ((False, t), Moved) ch 4 (frame_of rp v) = (Inr (size_bytes ?n), dumps rp True v)"
    using l ease_check [OF assms(1)] by (simp add: transfer_in_def frame_of_def)
  have b: "transfer_in ((False, t), Moved) (ch\<lparr>ch_used := k\<rparr>) ?n (dumps rp True v) = (Inr (dumps rp True v), [])" for k
    using ease_check [of t "ch\<lparr>ch_used := k\<rparr>"] assms(1) by (simp add: transfer_in_def)
  show ?thesis using n assms(4) by (simp add: receive_value_def h b size_round rpc_codec [OF assms(2,3)] Let_def)
qed

lemma request_validates:
  assumes "unique_keys (request_value c k (JStr m, JObj data))" and "ch_task ch = ch_task c" "ch_session ch = ch_session c" "ch_sequence ch = k"
    and "m \<in> set (ch_methods ch)"
  shows "\<exists>obj. canon (request_value c k (JStr m, JObj data)) = JObj obj \<and> validate_envelope ch (JObj obj) ''request'' = Inr obj \<and>
    entry obj ''method'' = JStr m \<and> entry obj ''data'' = canon (JObj data)"
proof -
  let ?kvs = "envelope_object (c\<lparr>ch_sequence := k\<rparr>) ''request'' (JObj data) (Some (JStr m))"
  have c: "canon (JObj ?kvs) = JObj (canon_obj ?kvs)" by (rule canon.simps(2))
  have e: "entry (canon_obj ?kvs) n = canon (entry ?kvs n)" for n
    using entries_read [OF c] assms(1) by (simp only: request_value_def fst_conv snd_conv)
  have "keys_are (canon_obj ?kvs) (envelope_keys ''request'')"
    unfolding keys_canon by (simp add: keys_are_def envelope_object_def envelope_keys_def)
  then have "validate_envelope ch (JObj (canon_obj ?kvs)) ''request'' = Inr (canon_obj ?kvs)"
    unfolding validate_Inr e using assms(2-5) by (simp add: envelope_object_def)
  moreover have "entry (canon_obj ?kvs) ''method'' = JStr m" "entry (canon_obj ?kvs) ''data'' = canon (JObj data)"
    unfolding e by (simp_all add: envelope_object_def)
  ultimately show ?thesis using c unfolding request_value_def fst_conv snd_conv by blast
qed

lemma result_validates:
  assumes "unique_keys (result_value c k (JObj v))" and "ch_task ch = ch_task c" "ch_session ch = ch_session c" "ch_sequence ch = k"
  shows "\<exists>obj. canon (result_value c k (JObj v)) = JObj obj \<and> validate_envelope ch (JObj obj) ''result'' = Inr obj \<and>
    entry obj ''data'' = canon (JObj v)"
proof -
  let ?kvs = "envelope_object (c\<lparr>ch_sequence := k\<rparr>) ''result'' (JObj v) None"
  have c: "canon (JObj ?kvs) = JObj (canon_obj ?kvs)" by (rule canon.simps(2))
  have e: "entry (canon_obj ?kvs) n = canon (entry ?kvs n)" for n
    using entries_read [OF c] assms(1) by (simp only: result_value_def)
  have "keys_are (canon_obj ?kvs) (envelope_keys ''result'')"
    unfolding keys_canon by (simp add: keys_are_def envelope_object_def envelope_keys_def)
  then have "validate_envelope ch (JObj (canon_obj ?kvs)) ''result'' = Inr (canon_obj ?kvs)"
    unfolding validate_Inr e using assms(2-4) by (simp add: envelope_object_def)
  moreover have "entry (canon_obj ?kvs) ''data'' = canon (JObj v)"
    unfolding e by (simp add: envelope_object_def)
  ultimately show ?thesis using c unfolding result_value_def by blast
qed

section \<open>Properties of an exchange\<close>

text \<open>C24. Calls happen at most once and in order: at any point of a run of a client and a server, whatever the connection
  does and whoever closes it, the calls handled are the first of those issued, with their payloads in canonical
  form; the results returned are the first of those the handler answered; and at most one call is outstanding, so a
  call without an acknowledgement is the last one ever issued.
\<close>

theorem exchange_at_most_once:
  assumes "channel_new now task session methods expires = Inr c" and "channel_new now' task session methods' expires' = Inr d"
    and "(exchange_step rp fl)\<^sup>*\<^sup>* (exchange_start c d) s"
  shows "prefix (ex_handled s) (map (\<lambda>(name, data). (name, canon data)) (ex_issued s)) \<and>
    prefix (ex_returned s) (map canon (ex_answered s)) \<and>
    length (ex_returned s) \<le> length (ex_answered s) \<and> length (ex_answered s) \<le> length (ex_handled s) \<and>
    length (ex_handled s) \<le> length (ex_issued s) \<and> length (ex_issued s) \<le> length (ex_returned s) + 1"
proof -
  have "logs_ok rp s" using exchange_reaches [OF assms] by (simp add: exchange_ok_def)
  moreover have "named_call = (\<lambda>(name, data). (name, canon data))" by (auto simp: named_call_def)
  ultimately show ?thesis by (simp add: logs_ok_def)
qed

text \<open>The four phases of an undisturbed call, one lemma each.\<close>

lemma sends_request:
  assumes "at_ease t c" "\<not> ch_busy c" "ch_sequence c < max_calls" "name \<in> set (ch_methods c)"
    and "length (dumps rp True (request_value c (ch_sequence c) (JStr name, JObj data))) \<le> max_frame"
    and "ch_used c + 4 + length (dumps rp True (request_value c (ch_sequence c) (JStr name, JObj data))) \<le> max_traffic"
  shows "request_send rp (False, t) ((False, t), Moved) (JStr name) (JObj data) c =
    (None, c\<lparr>ch_busy := True, ch_used := ch_used c + 4 + length (dumps rp True (request_value c (ch_sequence c) (JStr name, JObj data)))\<rparr>,
     frame_of rp (request_value c (ch_sequence c) (JStr name, JObj data)))"
proof -
  let ?c = "c\<lparr>ch_busy := True\<rparr>" and ?v = "request_value c (ch_sequence c) (JStr name, JObj data)"
  have enter: "channel_enter (False, t) c = (None, ?c)" using assms(1-3) ease_check by (simp add: channel_enter_def)
  have v: "rbind (allowed ?c (JStr name)) (\<lambda>_. rpc_envelope ?c ''request'' (JObj data) (Some (JStr name))) = Inr ?v"
    using assms(4) by (simp add: allowed_def rpc_envelope_def expect_some_def request_value_def envelope_object_def)
  show ?thesis using send_whole [of t ?c rp ?v] assms(1,5,6) by (simp add: request_send_def enter v)
qed

lemma serves_request:
  assumes "at_ease t d" "\<not> ch_busy d" "ch_sequence d < max_calls" "name \<in> set (ch_methods d)"
    and "ch_task d = ch_task c" "ch_session d = ch_session c" "ch_sequence d = k"
    and "sendable rp (request_value c k (JStr name, JObj data))"
    and "ch_used d + 4 + length (dumps rp True (request_value c k (JStr name, JObj data))) \<le> max_traffic"
  shows "serve_receive fl (False, t) ((False, t), Moved) ((False, t), Moved) (Inr ()) (False, t) d (frame_of rp (request_value c k (JStr name, JObj data))) =
    (Inr (JStr name, canon (JObj data)),
     d\<lparr>ch_busy := True, ch_used := ch_used d + 4 + length (dumps rp True (request_value c k (JStr name, JObj data)))\<rparr>, [])"
proof -
  let ?v = "request_value c k (JStr name, JObj data)"
  let ?d = "d\<lparr>ch_busy := True\<rparr>"
  let ?d2 = "?d\<lparr>ch_used := ch_used d + 4 + length (dumps rp True ?v)\<rparr>"
  have enter: "channel_enter (False, t) d = (None, ?d)" using assms(1-3) ease_check by (simp add: channel_enter_def)
  obtain kv kvs where kvs: "?v = JObj (kv # kvs)" using envelope_first by blast
  have r: "receive_value fl ((False, t), Moved) ((False, t), Moved) ?d (frame_of rp ?v) = (Inr (canon ?v), ?d2, [])"
    using receive_whole [OF _ assms(8) kvs, of t ?d] assms(1,9) by simp
  have "unique_keys ?v" using assms(8) by (simp add: sendable_def)
  from request_validates [OF this, of ?d2] assms(4-7) obtain obj where
    o: "canon ?v = JObj obj" "validate_envelope ?d2 (JObj obj) ''request'' = Inr obj" "entry obj ''method'' = JStr name"
      "entry obj ''data'' = canon (JObj data)" by auto
  have "channel_check (False, t) ?d2 = Inr ()" using ease_check [of t ?d2] assms(1) by simp
  then show ?thesis unfolding serve_receive_def enter prod.case option.case r o(1) rbind.simps o(2) sum.case by (simp add: o(3,4))
qed

lemma sends_result:
  assumes "at_ease t d" "ch_task d = ch_task c" "ch_session d = ch_session c" "ch_sequence d = k"
    and "length (dumps rp True (result_value c k (JObj v))) \<le> max_frame"
    and "ch_used d + 4 + length (dumps rp True (result_value c k (JObj v))) \<le> max_traffic"
  shows "serve_send rp (Inr (JObj v)) (Inr ()) (False, t) ((False, t), Moved) d =
    (None, channel_done (d\<lparr>ch_used := ch_used d + 4 + length (dumps rp True (result_value c k (JObj v)))\<rparr>), frame_of rp (result_value c k (JObj v)))"
proof -
  let ?v = "result_value c k (JObj v)"
  have v: "rpc_envelope d ''result'' (JObj v) None = Inr ?v"
    using assms(2-4) by (simp add: rpc_envelope_def expect_some_def result_value_def envelope_object_def)
  show ?thesis using send_whole [of t d rp ?v] assms(1,5,6) by (simp add: serve_send_def ease_check v)
qed

lemma receives_result:
  assumes "at_ease t c" "ch_sequence c = k" "ch_task c = ch_task b" "ch_session c = ch_session b" and "sendable rp (result_value b k (JObj v))"
    and "ch_used c + 4 + length (dumps rp True (result_value b k (JObj v))) \<le> max_traffic"
  shows "request_receive fl ((False, t), Moved) ((False, t), Moved) (False, t) c (frame_of rp (result_value b k (JObj v))) =
    (Inr (canon (JObj v)), channel_done (c\<lparr>ch_used := ch_used c + 4 + length (dumps rp True (result_value b k (JObj v)))\<rparr>), [])"
proof -
  let ?v = "result_value b k (JObj v)"
  let ?c2 = "c\<lparr>ch_used := ch_used c + 4 + length (dumps rp True ?v)\<rparr>"
  obtain kv kvs where kvs: "?v = JObj (kv # kvs)" using envelope_first by blast
  note r = receive_whole [OF assms(1,5) kvs assms(6), of fl]
  have un: "unique_keys ?v" using assms(5) by (simp add: sendable_def)
  have e: "ch_task ?c2 = ch_task b" "ch_session ?c2 = ch_session b" "ch_sequence ?c2 = k" using assms(2-4) by simp_all
  obtain obj where
    o: "canon ?v = JObj obj" "validate_envelope ?c2 (JObj obj) ''result'' = Inr obj" "entry obj ''data'' = canon (JObj v)"
    using result_validates [OF un e] by blast
  have "channel_check (False, t) ?c2 = Inr ()" using ease_check [of t ?c2] assms(1) by simp
  then show ?thesis unfolding request_receive_def r prod.case o(1) rbind.simps o(2) sum.case o(3) by (simp add: o(3))
qed

text \<open>The room both ends need for a call.\<close>

definition call_fits :: "(rat \<Rightarrow> pytext) \<Rightarrow> exchange \<Rightarrow> pytext \<Rightarrow> (pytext \<times> json) list \<Rightarrow> (pytext \<times> json) list \<Rightarrow> bool" where
  "call_fits rp s name data v \<longleftrightarrow>
     (let n = ch_sequence (ex_client s);
          a = length (dumps rp True (request_value (ex_client s) n (JStr name, JObj data)));
          b = length (dumps rp True (result_value (ex_client s) n (JObj v))) in
      n < max_calls \<and> a \<le> max_frame \<and> b \<le> max_frame \<and>
      ch_used (ex_client s) + 8 + a + b \<le> max_traffic \<and> ch_used (ex_server s) + 8 + a + b \<le> max_traffic)"

text \<open>C26. An undisturbed call completes: from any point of a run where both ends are open, idle and before their deadlines,
  a call of a method both allow, with a payload and an answer that fit the limits, can be handled with that payload
  and return that answer, and leaves both ends ready for the next call.
\<close>

theorem exchange_completes:
  assumes "channel_new now task session methods expires = Inr c" and "channel_new now' task session methods' expires' = Inr d"
    and "(exchange_step rp fl)\<^sup>*\<^sup>* (exchange_start c d) s"
    and "at_ease t (ex_client s)" and "at_ease t (ex_server s)" and "\<not> ch_busy (ex_client s)" and "\<not> ch_busy (ex_server s)"
    and "name \<in> set (ch_methods (ex_client s))" and "name \<in> set (ch_methods (ex_server s))"
    and "payload (JObj data)" and "payload (JObj v)" and "call_fits rp s name data v"
  shows "\<exists>s'. (exchange_step rp fl)\<^sup>*\<^sup>* s s' \<and> ex_issued s' = ex_issued s @ [(JStr name, JObj data)] \<and>
    ex_handled s' = ex_handled s @ [(JStr name, canon (JObj data))] \<and> ex_returned s' = ex_returned s @ [canon (JObj v)] \<and>
    at_ease t (ex_client s') \<and> at_ease t (ex_server s') \<and> \<not> ch_busy (ex_client s') \<and> \<not> ch_busy (ex_server s')"
proof -
  let ?c = "ex_client s" and ?d = "ex_server s" and ?n = "ch_sequence (ex_client s)"
  let ?R = "request_value ?c ?n (JStr name, JObj data)" and ?Q = "result_value ?c ?n (JObj v)"
  let ?a = "length (dumps rp True ?R)" and ?b = "length (dumps rp True ?Q)"
  have ok: "ends_ok s" "logs_ok rp s" "client_ok rp s" "server_ok rp s" using exchange_reaches [OF assms(1-3)] by (simp_all add: exchange_ok_def)
  have open_ends: "\<not> ch_closed ?c" "\<not> ch_closed ?d" using assms(4,5) by (simp_all add: at_ease_def)
  have n: "length (ex_issued s) = ?n" "length (ex_handled s) = ?n" "length (ex_answered s) = ?n" "ch_sequence ?d = ?n" "length (ex_returned s) = ?n"
    using ok open_ends assms(6,7) by (auto simp: logs_ok_def client_ok_def server_ok_def)
  have streams: "ex_up s = []" "ex_down s = []" using ok(3,4) open_ends n by (auto simp: client_ok_def server_ok_def)
  have ids: "ch_task ?d = ch_task ?c" "ch_session ?d = ch_session ?c" "journal_id (ch_task ?c)" "journal_id (ch_session ?c)"
      "journal_id name" using ok(1) assms(8) by (auto simp: ends_ok_def list_all_iff)
  have room: "?n < max_calls" "?a \<le> max_frame" "?b \<le> max_frame" "ch_used ?c + 8 + ?a + ?b \<le> max_traffic" "ch_used ?d + 8 + ?a + ?b \<le> max_traffic"
    using assms(12) unfolding call_fits_def Let_def by blast+
  have R: "sendable rp ?R" by (rule request_sendable) (use ids assms(10) room in \<open>auto simp: request_fine_def\<close>)
  have Q: "sendable rp ?Q" by (rule result_sendable) (use ids assms(11) room in \<open>auto simp: result_fine_def\<close>)
  define c1 where "c1 = ?c\<lparr>ch_busy := True, ch_used := ch_used ?c + 4 + ?a\<rparr>"
  define d1 where "d1 = ?d\<lparr>ch_busy := True, ch_used := ch_used ?d + 4 + ?a\<rparr>"
  define d2 where "d2 = channel_done (d1\<lparr>ch_used := ch_used d1 + 4 + ?b\<rparr>)"
  define c2 where "c2 = channel_done (c1\<lparr>ch_used := ch_used c1 + 4 + ?b\<rparr>)"
  define s1 where "s1 = s\<lparr>ex_client := c1, ex_up := frame_of rp ?R, ex_issued := ex_issued s @ [(JStr name, JObj data)]\<rparr>"
  define s2 where "s2 = s1\<lparr>ex_server := d1, ex_up := [], ex_handled := ex_handled s @ [(JStr name, canon (JObj data))]\<rparr>"
  define s3 where "s3 = s2\<lparr>ex_server := d2, ex_down := frame_of rp ?Q, ex_answered := ex_answered s @ [JObj v]\<rparr>"
  define s4 where "s4 = s3\<lparr>ex_client := c2, ex_down := [], ex_returned := ex_returned s @ [canon (JObj v)]\<rparr>"
  have ne: "frame_of rp w \<noteq> []" for w by (simp add: frame_of_def size_bytes_def)
  have p1: "request_send rp (False, t) ((False, t), Moved) (JStr name) (JObj data) ?c = (None, c1, frame_of rp ?R)"
    unfolding c1_def by (rule sends_request) (use assms room in auto)
  have "exchange_step rp fl s s1"
    using exchange_step.call [OF assms(10) p1, of fl] ne streams(1) by (simp add: s1_def)
  moreover have p2: "serve_receive fl (False, t) ((False, t), Moved) ((False, t), Moved) (Inr ()) (False, t) ?d (frame_of rp ?R) =
      (Inr (JStr name, canon (JObj data)), d1, [])"
    unfolding d1_def by (rule serves_request) (use assms room n ids R in auto)
  have "exchange_step rp fl s1 s2"
    using exchange_step.serve [of fl "(False, t)" "((False, t), Moved)" "((False, t), Moved)" "Inr ()" "(False, t)" s1
        "Inr (JStr name, canon (JObj data))" d1 "[]" rp] p2 by (simp add: s1_def s2_def)
  moreover have p3: "serve_send rp (Inr (JObj v)) (Inr ()) (False, t) ((False, t), Moved) d1 = (None, d2, frame_of rp ?Q)"
    unfolding d2_def by (rule sends_result) (use assms room n ids in \<open>auto simp: d1_def\<close>)
  have "exchange_step rp fl s2 s3"
    using exchange_step.answer [OF _ assms(11), of s2 rp "Inr ()" "(False, t)" "((False, t), Moved)" None d2 "frame_of rp ?Q" fl] p3 ne streams(2)
    by (simp add: s1_def s2_def s3_def) (simp add: d1_def)
  moreover have p4: "request_receive fl ((False, t), Moved) ((False, t), Moved) (False, t) c1 (frame_of rp ?Q) = (Inr (canon (JObj v)), c2, [])"
    unfolding c2_def by (rule receives_result) (use assms room Q in \<open>auto simp: c1_def\<close>)
  have "exchange_step rp fl s3 s4"
    using exchange_step.finish [of s3 fl "((False, t), Moved)" "((False, t), Moved)" "(False, t)" "Inr (canon (JObj v))" c2 "[]" rp] p4
    by (simp add: s1_def s2_def s3_def s4_def) (simp add: c1_def)
  ultimately have "(exchange_step rp fl)\<^sup>*\<^sup>* s s4" by (meson converse_rtranclp_into_rtranclp rtranclp.rtrancl_refl)
  moreover have "at_ease t (channel_done ch) = at_ease t ch" for ch by (simp add: at_ease_def channel_done_def)
  then have "at_ease t (ex_client s4) \<and> at_ease t (ex_server s4) \<and> \<not> ch_busy (ex_client s4) \<and> \<not> ch_busy (ex_server s4)"
    using assms(4,5) by (simp add: s4_def s3_def s2_def s1_def c2_def d2_def c1_def d1_def)
  ultimately show ?thesis by (intro exI [of _ s4]) (simp add: s4_def s3_def s2_def s1_def)
qed

section \<open>Witnesses\<close>

definition ping_client :: rpc_channel where
  "ping_client = \<lparr>ch_task = u ''t'', ch_session = u ''s'', ch_methods = [u ''ping''], ch_expires = 9, ch_sequence = 0, ch_used = 0,
     ch_closed = False, ch_busy = False\<rparr>"

lemma ping_new: "channel_new 0 (u ''t'') (u ''s'') [u ''ping''] 9 = Inr ping_client"
  by code_simp

definition idle_world :: serve_world where
  "idle_world = \<lparr>wd_enter = (False, 1), wd_head = ((False, 1), Moved), wd_body = ((False, 1), Moved), wd_check = Inr (), wd_ready = (False, 1),
     wd_recheck = Inr (), wd_answer = (False, 1), wd_send = ((False, 1), Moved)\<rparr>"


lemma ping_call:
  "call_fits (\<lambda>_. []) (exchange_start ping_client ping_client) (u ''ping'') [] []"
  "payload (JObj [])" "at_ease 1 ping_client" "u ''ping'' \<in> set (ch_methods ping_client)" "\<not> ch_busy ping_client"
  by code_simp+

lemma exchange_completes_witness:
  "\<exists>s. (exchange_step (\<lambda>_. []) (\<lambda>_. None))\<^sup>*\<^sup>* (exchange_start ping_client ping_client) s \<and>
     ex_handled s = [(JStr (u ''ping''), JObj [])] \<and> ex_returned s = [JObj []]"
proof -
  let ?s = "exchange_start ping_client ping_client"
  have ends: "ex_client ?s = ping_client" "ex_server ?s = ping_client" "ex_handled ?s = []" "ex_returned ?s = []" "ex_issued ?s = []"
    by (simp_all add: exchange_start_def)
  show ?thesis
    using exchange_completes [OF ping_new ping_new rtranclp.rtrancl_refl, of 1 "u ''ping''" "[]" "[]" "\<lambda>_. []" "\<lambda>_. None"] ping_call
    unfolding ends by auto
qed

lemma exchange_at_most_once_witness:
  "\<exists>s. (exchange_step (\<lambda>_. []) (\<lambda>_. None))\<^sup>*\<^sup>* (exchange_start ping_client ping_client) s \<and> ch_closed (ex_server s) \<and>
     length (ex_issued s) \<le> length (ex_returned s) + 1"
proof -
  let ?s = "(exchange_start ping_client ping_client)\<lparr>ex_server := channel_close ping_client\<rparr>"
  have "(exchange_step (\<lambda>_. []) (\<lambda>_. None))\<^sup>*\<^sup>* (exchange_start ping_client ping_client) ?s"
    using exchange_step.close_server [of "\<lambda>_. []" "\<lambda>_. None" "exchange_start ping_client ping_client"] by (simp add: exchange_start_def r_into_rtranclp)
  from exchange_at_most_once [OF ping_new ping_new this] this show ?thesis by (intro exI [of _ ?s]) simp
qed

end
