(* ===== verification/Coding_Protocol.thy ===== *)
theory Coding_Protocol
  imports Broker_Channel
begin

text \<open>
  The supervisor's side of a coding worker (\<open>CodingHandler\<close> of \<open>src/ls/core/agent/coding_protocol.py\<close>): the handler
  behind the RPC channel. The provider, the tools, the owner of the session and the other callbacks are answers of
  the environment; what they are asked is recorded as effects. The payload has passed \<open>request\<close>, which is not
  modelled.
\<close>

definition tool_methods :: "string list" where
  "tool_methods = [''checkpoint.save'', ''file.read'', ''file.write'', ''file.search'', ''file.list'', ''context.refresh'', ''process.run'']"

definition model_tool_methods :: "string list" where
  "model_tool_methods = filter (\<lambda>m. m \<noteq> ''checkpoint.save'') tool_methods"

definition coding_methods :: "string list" where
  "coding_methods = tool_methods @ [''run.start'', ''stream.event'', ''run.finish'', ''run.steering'', ''provider.open'', ''provider.next'', ''provider.close'']"

definition max_stream :: nat where "max_stream = 1048576"

record coding =
  cd_payload :: "(pytext \<times> json) list"
  cd_started :: bool
  cd_finished :: "json option"
  cd_bytes :: nat
  cd_events :: nat
  cd_tools :: nat

text \<open>What the callbacks answer during one call; an absent callback is \<open>None\<close>.\<close>

record coding_world =
  cw_check :: "(py_error, unit) result"
  cw_recheck :: "(py_error, unit) result"
  cw_filter :: "(py_error, json) result option"
  cw_provider :: "(py_error, json) result"
  cw_close :: "(py_error, unit) result"
  cw_steering :: "(py_error, json) result option"
  cw_event :: "(py_error, unit) result"
  cw_checkpoint :: "(py_error, (pytext \<times> json) list) result"
  cw_resume :: "(py_error, unit) result"
  cw_approve :: "(py_error, json) result option"
  cw_tool :: "(py_error, json) result"

datatype coding_effect =
    To_provider pytext json
  | Provider_closed
  | To_sink json
  | To_approval pytext json
  | To_tools pytext json
  | Resumed pytext

definition coding_new :: "(pytext \<times> json) list \<Rightarrow> coding" where
  "coding_new payload = \<lparr>cd_payload = payload, cd_started = False, cd_finished = None, cd_bytes = 0, cd_events = 0, cd_tools = 0\<rparr>"

definition tool_limit :: "coding \<Rightarrow> int" where
  "tool_limit s = (case entry (cd_payload s) ''tool_limit'' of JInt i \<Rightarrow> i | _ \<Rightarrow> 0)"

definition text_bytes :: "pytext \<Rightarrow> (py_error, nat) result" where
  "text_bytes t = rbind (expect_some (ValueError ''surrogates not allowed'') (utf8_encode t)) (\<lambda>b. Inr (length b))"

definition start_run :: "json \<Rightarrow> coding \<Rightarrow> (py_error, json) result \<times> coding \<times> coding_effect list" where
  "start_run data s =
     (if cd_started s \<or> data \<noteq> JObj [] then (Inl (ValueError ''Coding worker may start exactly once''), s, [])
      else (Inr (JObj (filter (\<lambda>kv. fst kv \<noteq> u ''credential'') (cd_payload s))), s\<lparr>cd_started := True\<rparr>, []))"

definition call_provider :: "coding_world \<Rightarrow> pytext \<Rightarrow> json \<Rightarrow> coding \<Rightarrow> (py_error, json) result \<times> coding \<times> coding_effect list" where
  "call_provider w name data s =
     (case (if name = u ''provider.open''
            then (case cw_filter w of None \<Rightarrow> Inr data | Some r \<Rightarrow> rbind r (\<lambda>d. rbind (cw_recheck w) (\<lambda>_. Inr d)))
            else Inr data) of
        Inl e \<Rightarrow> (Inl e, s, [])
      | Inr d \<Rightarrow> (cw_provider w, s, [To_provider name d]))"

definition steering_ok :: "(rat \<Rightarrow> pytext) \<Rightarrow> json \<Rightarrow> (py_error, unit) result" where
  "steering_ok rp v =
     (let bad = ValueError ''Invalid steering payload'' in
      rbind (expect_some bad (as_list v)) (\<lambda>xs.
      rbind (require (length xs \<le> 32) bad) (\<lambda>_.
      rbind (rmap (\<lambda>x. rbind (expect_some bad (as_str x)) (\<lambda>t. rbind (require (t \<noteq> []) bad) (\<lambda>_.
              rbind (text_bytes t) (\<lambda>n. require (n \<le> 8192) bad)))) xs) (\<lambda>_.
      rbind (rpc_encode rp v) (\<lambda>raw. require (length raw \<le> 262144) bad)))))"

definition poll_steering :: "(rat \<Rightarrow> pytext) \<Rightarrow> coding_world \<Rightarrow> json \<Rightarrow> coding \<Rightarrow> (py_error, json) result \<times> coding \<times> coding_effect list" where
  "poll_steering rp w data s =
     (rbind (require (data = JObj []) (ValueError ''Invalid steering poll'')) (\<lambda>_.
      rbind (case cw_steering w of None \<Rightarrow> Inr (JList []) | Some r \<Rightarrow> r) (\<lambda>messages.
      rbind (steering_ok rp messages) (\<lambda>_.
      rbind (cw_recheck w) (\<lambda>_. Inr (JObj [(u ''messages'', messages)]))))), s, [])"

definition take_event :: "(rat \<Rightarrow> pytext) \<Rightarrow> coding_world \<Rightarrow> json \<Rightarrow> coding \<Rightarrow> (py_error, json) result \<times> coding \<times> coding_effect list" where
  "take_event rp w data s =
     (let bad = ValueError ''Invalid coding stream event'' in
      case rbind (expect_some bad (as_obj data)) (\<lambda>obj.
           rbind (require (keys_are obj [''event''] \<and> as_obj (entry obj ''event'') \<noteq> None) bad) (\<lambda>_.
           rbind (rpc_encode rp (entry obj ''event'')) (\<lambda>raw.
           rbind (require (cd_bytes s + length raw \<le> max_stream \<and> cd_events s < 10000) (ValueError ''Coding stream budget exceeded'')) (\<lambda>_.
             Inr (entry obj ''event'', length raw))))) of
        Inl e \<Rightarrow> (Inl e, s, [])
      | Inr (event, n) \<Rightarrow>
          (let s' = s\<lparr>cd_bytes := cd_bytes s + n, cd_events := cd_events s + 1\<rparr> in
           (rbind (cw_event w) (\<lambda>_. rbind (cw_recheck w) (\<lambda>_. Inr (JObj [(u ''accepted'', JInt (int (cd_events s')))]))), s', [To_sink event])))"

definition result_checked :: "(rat \<Rightarrow> pytext) \<Rightarrow> json \<Rightarrow> (py_error, pytext) result" where
  "result_checked rp data =
     (let bounds = ValueError ''Invalid coding result bounds or checkpoint''; usage = ValueError ''Coding usage report exceeds limit'' in
      rbind (expect_some (ValueError ''Invalid coding result fields'') (as_obj data)) (\<lambda>obj.
      rbind (require (keys_are obj [''output'', ''checkpoint'', ''usage'']) (ValueError ''Invalid coding result fields'')) (\<lambda>_.
      rbind (expect_some bounds (as_str (entry obj ''output''))) (\<lambda>out.
      rbind (text_bytes out) (\<lambda>n.
      rbind (require (n \<le> max_stream) bounds) (\<lambda>_.
      rbind (expect_some bounds (digest_in (entry obj ''checkpoint''))) (\<lambda>digest.
      rbind (require (as_obj (entry obj ''usage'') \<noteq> None) usage) (\<lambda>_.
      rbind (rpc_encode rp (entry obj ''usage'')) (\<lambda>raw.
      rbind (require (length raw \<le> 4096) usage) (\<lambda>_. Inr digest))))))))))"

definition run_of :: "coding \<Rightarrow> json" where
  "run_of s = entry (cd_payload s) ''run_id''"

definition finish_run ::
    "(rat \<Rightarrow> pytext) \<Rightarrow> (pytext \<Rightarrow> rat option) \<Rightarrow> coding_world \<Rightarrow> json \<Rightarrow> coding \<Rightarrow> (py_error, json) result \<times> coding \<times> coding_effect list" where
  "finish_run rp fl w data s =
     (case rbind (cw_close w) (\<lambda>_.
           rbind (result_checked rp data) (\<lambda>digest.
           rbind (cw_checkpoint w) (\<lambda>checkpoint.
           rbind (require (entry checkpoint ''run_id'' = run_of s) (PermissionError ''Coding result checkpoint belongs to another run'')) (\<lambda>_.
             Inr digest)))) of
        Inl e \<Rightarrow> (Inl e, s, [Provider_closed])
      | Inr digest \<Rightarrow>
          (case rbind (cw_resume w) (\<lambda>_. rbind (cw_recheck w) (\<lambda>_. rbind (rpc_encode rp data) (\<lambda>raw.
                  expect_some (ValueError ''JSON'') (loads fl raw)))) of
             Inl e \<Rightarrow> (Inl e, s, [Provider_closed, Resumed digest])
           | Inr v \<Rightarrow> (Inr (JObj [(u ''checkpoint'', JStr digest)]), s\<lparr>cd_finished := Some v\<rparr>, [Provider_closed, Resumed digest])))"

definition call_tool :: "coding_world \<Rightarrow> pytext \<Rightarrow> json \<Rightarrow> coding \<Rightarrow> (py_error, json) result \<times> coding \<times> coding_effect list" where
  "call_tool w name data s =
     (let charged = name \<in> set (map u model_tool_methods) in
      if charged \<and> tool_limit s \<le> int (cd_tools s) then (Inl (PermissionError ''Coding tool budget exhausted''), s, [])
      else
        (let s' = (if charged then s\<lparr>cd_tools := cd_tools s + 1\<rparr> else s) in
         (case (if charged then cw_approve w else None) of
            None \<Rightarrow> (cw_tool w, s', [To_tools name data])
          | Some r \<Rightarrow>
              (case rbind r (\<lambda>d. rbind (cw_recheck w) (\<lambda>_. Inr d)) of
                 Inl e \<Rightarrow> (Inl e, s', [To_approval name data])
               | Inr d \<Rightarrow> (cw_tool w, s', [To_approval name data, To_tools name d])))))"

definition coding_call ::
    "(rat \<Rightarrow> pytext) \<Rightarrow> (pytext \<Rightarrow> rat option) \<Rightarrow> coding_world \<Rightarrow> pytext \<Rightarrow> json \<Rightarrow> coding \<Rightarrow> (py_error, json) result \<times> coding \<times> coding_effect list" where
  "coding_call rp fl w name data s =
     (case cw_check w of Inl e \<Rightarrow> (Inl e, s, [])
      | Inr _ \<Rightarrow>
          if cd_finished s \<noteq> None then (Inl (ValueError ''Coding worker already reported its result''), s, [])
          else if name = u ''run.start'' then start_run data s
          else if \<not> cd_started s then (Inl (ValueError ''Coding worker must start before dispatch''), s, [])
          else if name \<in> set (map u [''provider.open'', ''provider.next'', ''provider.close'']) then call_provider w name data s
          else if name = u ''run.steering'' then poll_steering rp w data s
          else if name = u ''stream.event'' then take_event rp w data s
          else if name = u ''run.finish'' then finish_run rp fl w data s
          else call_tool w name data s)"

text \<open>\<open>terminal\<close>: the worker's last line must acknowledge the result.\<close>

definition coding_terminal :: "(pytext \<Rightarrow> rat option) \<Rightarrow> bytes \<Rightarrow> json option \<Rightarrow> (py_error, json) result" where
  "coding_terminal fl raw expected =
     rbind (require (length raw \<le> 4096) (ValueError ''Coding worker did not acknowledge a result'')) (\<lambda>_.
     rbind (expect_some (ValueError ''Coding worker did not acknowledge a result'') expected) (\<lambda>v.
     rbind (rpc_decode fl raw) (\<lambda>r.
     rbind (expect_some (ValueError ''Coding process receipt disagrees with acknowledged result'') (as_obj r)) (\<lambda>obj.
     rbind (require (keys_are obj [''schema_version'', ''status'', ''checkpoint''] \<and> entry obj ''schema_version'' = JInt 1 \<and>
              entry obj ''status'' = JStr (u ''completed'') \<and>
              entry obj ''checkpoint'' = (case v of JObj kvs \<Rightarrow> entry kvs ''checkpoint'' | _ \<Rightarrow> JNull))
              (ValueError ''Coding process receipt disagrees with acknowledged result'')) (\<lambda>_. Inr v)))))"

section \<open>Behind the channel\<close>

text \<open>
  A round of the supervisor: what the worker sent is received, handled and answered. Its calls are those of the
  channel's \<open>serve_once\<close> with the coding handler; the end of the stream only takes the connection off the selector. The
  method of a valid envelope is a string.
\<close>

record supervisor =
  sv_channel :: rpc_channel
  sv_coding :: coding
  sv_effects :: "coding_effect list"
  sv_replies :: "json list"

definition supervise_round ::
    "(rat \<Rightarrow> pytext) \<Rightarrow> (pytext \<Rightarrow> rat option) \<Rightarrow> supervisor \<Rightarrow> serve_world \<times> coding_world \<times> bytes \<Rightarrow> (unit, supervisor) result" where
  "supervise_round rp fl s a =
     (case a of (w, cw, stream) \<Rightarrow>
        Inr (if stream = [] then s else
             case serve_receive fl (wd_enter w) (wd_head w) (wd_body w) (wd_check w) (wd_ready w) (sv_channel s) stream of
               (Inr (JStr name, data), ch, rest) \<Rightarrow>
                 (case coding_call rp fl cw name data (sv_coding s) of (r, c, effects) \<Rightarrow>
                    (case serve_send rp r (wd_recheck w) (wd_answer w) (wd_send w) ch of (e, ch', sent) \<Rightarrow>
                       s\<lparr>sv_channel := ch', sv_coding := c, sv_effects := sv_effects s @ effects,
                         sv_replies := sv_replies s @ (case r of Inr v \<Rightarrow> [v] | Inl _ \<Rightarrow> [])\<rparr>))
             | (_, ch, rest) \<Rightarrow> s\<lparr>sv_channel := ch\<rparr>))"

end
