(* ===== verification/Coding_Budgets.thy ===== *)
theory Coding_Budgets
  imports Coding_Protocol Channel_Exchange
begin

text \<open>
  A coding worker behind its channel stays within its budgets: the invariant of the handler, and of the rounds of the
  supervisor by the contract of stepped components.
\<close>

section \<open>Budgets\<close>

fun charged_effect :: "coding_effect \<Rightarrow> bool" where
  "charged_effect (To_tools name data) = (name \<in> set (map u model_tool_methods))"
| "charged_effect _ = False"

fun sink_size :: "(rat \<Rightarrow> pytext) \<Rightarrow> coding_effect \<Rightarrow> nat" where
  "sink_size rp (To_sink event) = length (dumps rp True event)"
| "sink_size rp _ = 0"

fun is_sink :: "coding_effect \<Rightarrow> bool" where
  "is_sink (To_sink event) = True"
| "is_sink _ = False"

fun is_resumed :: "coding_effect \<Rightarrow> bool" where
  "is_resumed (Resumed digest) = True"
| "is_resumed _ = False"

definition coding_ok :: "(rat \<Rightarrow> pytext) \<Rightarrow> (pytext \<times> json) list \<Rightarrow> coding \<Rightarrow> coding_effect list \<Rightarrow> bool" where
  "coding_ok rp given s effects \<longleftrightarrow>
     cd_payload s = given \<and> length (filter charged_effect effects) \<le> cd_tools s \<and> int (cd_tools s) \<le> max 0 (tool_limit s) \<and>
     length (filter is_sink effects) = cd_events s \<and> cd_events s \<le> 10000 \<and>
     sum_list (map (sink_size rp) effects) = cd_bytes s \<and> cd_bytes s \<le> max_stream \<and>
     (\<not> cd_started s \<longrightarrow> effects = []) \<and> (cd_finished s \<noteq> None \<longrightarrow> effects \<noteq> [] \<and> is_resumed (last effects))"

lemma rpc_encode_Inr: "rpc_encode rp v = Inr raw \<longleftrightarrow> raw = dumps rp True v \<and> length raw \<le> max_frame"
  by (auto simp: rpc_encode_def Let_def require_def)

lemma tool_charged:
  assumes "coding_ok rp given s effects" and "cd_started s" and "cd_finished s = None" and "call_tool w name data s = (r, s', new)"
  shows "coding_ok rp given s' (effects @ new)"
  using assms
  by (auto simp: call_tool_def coding_ok_def tool_limit_def Let_def split: if_splits option.splits sum.splits)

lemma event_counted:
  assumes "coding_ok rp given s effects" and "cd_started s" and "cd_finished s = None" and "take_event rp w data s = (r, s', new)"
  shows "coding_ok rp given s' (effects @ new)"
  using assms
  by (auto simp: take_event_def coding_ok_def tool_limit_def Let_def rbind_Inr_iff require_Inr_iff rpc_encode_Inr split: if_splits option.splits sum.splits)

lemma run_finished:
  assumes "coding_ok rp given s effects" and "cd_started s" and "cd_finished s = None" and "finish_run rp fl w data s = (r, s', new)"
  shows "coding_ok rp given s' (effects @ new)"
  using assms
  by (auto simp: finish_run_def coding_ok_def tool_limit_def split: sum.splits)

lemma coding_call_keeps:
  assumes ok: "coding_ok rp given s effects" and c: "coding_call rp fl w name data s = (r, s', new)"
  shows "coding_ok rp given s' (effects @ new)"
proof (cases "cw_check w")
  case (Inl e)
  then show ?thesis using ok c by (simp add: coding_call_def)
next
  case (Inr x)
  show ?thesis
  proof (cases "cd_finished s \<noteq> None \<or> name = u ''run.start'' \<or> \<not> cd_started s")
    case True
    then show ?thesis using ok c Inr
      by (auto simp: coding_call_def start_run_def coding_ok_def tool_limit_def split: if_splits)
  next
    case False
    have p: "coding_ok rp given s' (effects @ new)" if "call_provider w name data s = (r, s', new)"
      using that ok False by (auto simp: call_provider_def coding_ok_def split: if_splits option.splits sum.splits)
    have q: "coding_ok rp given s' (effects @ new)" if "poll_steering rp w data s = (r, s', new)"
      using that ok by (auto simp: poll_steering_def)
    show ?thesis
      using c Inr False p q tool_charged [OF ok, of w name data r s' new] event_counted [OF ok, of w data r s' new]
        run_finished [OF ok, of fl w data r s' new]
      by (auto simp: coding_call_def split: if_splits)
  qed
qed

definition supervisor_ok :: "(rat \<Rightarrow> pytext) \<Rightarrow> (pytext \<times> json) list \<Rightarrow> supervisor \<Rightarrow> bool" where
  "supervisor_ok rp given s \<longleftrightarrow> coding_ok rp given (sv_coding s) (sv_effects s)"

interpretation supervision: stepped "supervise_round rp fl" "supervisor_ok rp given" for rp fl given
proof
  fix s a s' assume "supervisor_ok rp given s" and "supervise_round rp fl s a = Inr s'"
  then show "supervisor_ok rp given s'"
    using coding_call_keeps [of rp given "sv_coding s" "sv_effects s"]
    by (auto simp: supervise_round_def supervisor_ok_def split: prod.splits sum.splits json.splits)
qed

lemma closed_supervisor:
  assumes "ch_closed (sv_channel s)" and "supervise_round rp fl s a = Inr s'"
  shows "sv_effects s' = sv_effects s \<and> sv_coding s' = sv_coding s \<and> ch_closed (sv_channel s')"
proof -
  obtain w cw stream where a: "a = (w, cw, stream)" by (cases a)
  have "\<exists>e. serve_receive fl (wd_enter w) (wd_head w) (wd_body w) (wd_check w) (wd_ready w) (sv_channel s) stream
      = (Inl e, channel_close (sv_channel s), stream)"
    using assms(1) by (simp add: serve_receive_def channel_enter_def channel_check_def)
  then show ?thesis using assms by (auto simp: supervise_round_def a)
qed

text \<open>C27. A coding worker stays within its budgets whatever it sends: over any rounds of its channel, with any bytes and any
  answers of the callbacks, the model's tools get at most as many calls as the request allows, the sink at most 10,000
  events of together at most 1 MiB; nothing is asked of provider, tools, sink or owner before the run has started;
  after a reported result nothing happens any more; and neither does it once a round has failed and closed the channel.
\<close>

theorem coding_budgets:
  assumes "rfold (supervise_round rp fl) \<lparr>sv_channel = ch, sv_coding = coding_new given, sv_effects = [], sv_replies = []\<rparr> rounds = Inr s"
  shows "int (length (filter charged_effect (sv_effects s))) \<le> max 0 (case entry given ''tool_limit'' of JInt i \<Rightarrow> i | _ \<Rightarrow> 0) \<and>
    length (filter is_sink (sv_effects s)) \<le> 10000 \<and> sum_list (map (sink_size rp) (sv_effects s)) \<le> 1048576 \<and>
    (\<not> cd_started (sv_coding s) \<longrightarrow> sv_effects s = []) \<and>
    (cd_finished (sv_coding s) \<noteq> None \<longrightarrow> is_resumed (last (sv_effects s))) \<and>
    (ch_closed (sv_channel s) \<or> cd_finished (sv_coding s) \<noteq> None \<longrightarrow>
       (\<forall>a s'. supervise_round rp fl s a = Inr s' \<longrightarrow> sv_effects s' = sv_effects s))"
proof -
  have "supervisor_ok rp given \<lparr>sv_channel = ch, sv_coding = coding_new given, sv_effects = [], sv_replies = []\<rparr>"
    by (simp add: supervisor_ok_def coding_ok_def coding_new_def)
  from supervision.run_inv [OF this assms] have ok: "coding_ok rp given (sv_coding s) (sv_effects s)" by (simp add: supervisor_ok_def)
  have "sv_effects s' = sv_effects s" if f: "cd_finished (sv_coding s) \<noteq> None" and a: "supervise_round rp fl s a = Inr s'" for a s'
  proof -
    have "snd (snd (coding_call rp fl w name data (sv_coding s))) = []" for w name data
      using f by (simp add: coding_call_def split: sum.split)
    then show ?thesis using a by (auto simp: supervise_round_def split: prod.splits sum.splits json.splits) (metis snd_conv)+
  qed
  moreover have "int (length (filter charged_effect (sv_effects s))) \<le> max 0 (case entry given ''tool_limit'' of JInt i \<Rightarrow> i | _ \<Rightarrow> 0)"
    using ok by (auto simp: coding_ok_def tool_limit_def)
  moreover have "length (filter is_sink (sv_effects s)) \<le> 10000" "sum_list (map (sink_size rp) (sv_effects s)) \<le> 1048576"
      "\<not> cd_started (sv_coding s) \<longrightarrow> sv_effects s = []" "cd_finished (sv_coding s) \<noteq> None \<longrightarrow> is_resumed (last (sv_effects s))"
    using ok by (auto simp: coding_ok_def max_stream_def)
  ultimately show ?thesis using closed_supervisor by blast
qed

text \<open>A run that starts and then asks for a tool without a budget.\<close>

definition start_channel :: rpc_channel where
  "start_channel = \<lparr>ch_task = u ''t'', ch_session = u ''s'', ch_methods = map u coding_methods, ch_expires = 9, ch_sequence = 0, ch_used = 0,
     ch_closed = False, ch_busy = False\<rparr>"

definition quiet_world :: coding_world where
  "quiet_world = \<lparr>cw_check = Inr (), cw_recheck = Inr (), cw_filter = None, cw_provider = Inr (JObj []), cw_close = Inr (), cw_steering = None,
     cw_event = Inr (), cw_checkpoint = Inr [], cw_resume = Inr (), cw_approve = None, cw_tool = Inr (JObj [])\<rparr>"

definition start_frame :: bytes where
  "start_frame = frame_of (\<lambda>_. []) (request_value start_channel 0 (JStr (u ''run.start''), JObj []))"

lemma start_round:
  "\<exists>s. supervise_round (\<lambda>_. []) (\<lambda>_. None) \<lparr>sv_channel = start_channel, sv_coding = coding_new [(u ''tool_limit'', JInt 0)], sv_effects = [], sv_replies = []\<rparr>
     (idle_world, quiet_world, start_frame) = Inr s \<and> cd_started (sv_coding s)"
proof -
  have v: "sendable (\<lambda>_. []) (request_value start_channel 0 (JStr (u ''run.start''), JObj []))" by code_simp
  have r: "serve_receive (\<lambda>_. None) (False, 1) ((False, 1), Moved) ((False, 1), Moved) (Inr ()) (False, 1) start_channel start_frame =
      (Inr (JStr (u ''run.start''), canon (JObj [])),
       start_channel\<lparr>ch_busy := True, ch_used := ch_used start_channel + 4 +
         length (dumps (\<lambda>_. []) True (request_value start_channel 0 (JStr (u ''run.start''), JObj [])))\<rparr>, [])"
    unfolding start_frame_def by (rule serves_request [OF _ _ _ _ refl refl], code_simp+)
  obtain e ch sent where s: "serve_send (\<lambda>_. []) (Inr (JObj [(u ''tool_limit'', JInt 0)])) (Inr ()) (False, 1) ((False, 1), Moved)
      (start_channel\<lparr>ch_busy := True, ch_used := ch_used start_channel + 4 +
         length (dumps (\<lambda>_. []) True (request_value start_channel 0 (JStr (u ''run.start''), JObj [])))\<rparr>) = (e, ch, sent)"
    by (metis prod_cases3)
  have c: "coding_call (\<lambda>_. []) (\<lambda>_. None) quiet_world (u ''run.start'') (JObj []) (coding_new [(u ''tool_limit'', JInt 0)]) =
      (Inr (JObj [(u ''tool_limit'', JInt 0)]), (coding_new [(u ''tool_limit'', JInt 0)])\<lparr>cd_started := True\<rparr>, [])"
    by code_simp
  have n: "start_frame \<noteq> []" by (simp add: start_frame_def frame_of_def size_bytes_def)
  show ?thesis by (simp add: supervise_round_def idle_world_def r c s n)
qed

lemma coding_budgets_witness:
  "\<exists>s. rfold (supervise_round (\<lambda>_. []) (\<lambda>_. None)) \<lparr>sv_channel = start_channel, sv_coding = coding_new [(u ''tool_limit'', JInt 0)], sv_effects = [], sv_replies = []\<rparr>
     [(idle_world, quiet_world, start_frame)] = Inr s \<and> cd_started (sv_coding s) \<and> length (filter charged_effect (sv_effects s)) = 0"
proof -
  obtain s where s: "rfold (supervise_round (\<lambda>_. []) (\<lambda>_. None)) \<lparr>sv_channel = start_channel, sv_coding = coding_new [(u ''tool_limit'', JInt 0)],
      sv_effects = [], sv_replies = []\<rparr> [(idle_world, quiet_world, start_frame)] = Inr s" "cd_started (sv_coding s)"
    using start_round by auto
  from coding_budgets [OF s(1)] s show ?thesis by auto
qed

end
