(* ===== verification/Spec2Isabelle.thy ===== *)
theory Spec2Isabelle
  imports Packing Versions Layout Dialog Test_Scheduling Test_Workers Inventories Heartbeat Transition Message_Prefix Event_Retention Journal_Properties Channel_Exchange Coding_Budgets
begin

text \<open>
  A verification library of LocalSetup (\<open>src/ls/core\<close>, Python), a framework that installs, supervises and
  connects command line agents.

  \<^bold>\<open>The program's parts.\<close> Under \<open>openpgp\<close>, files travel in signed and encrypted secure containers: a
  preparation splits files over volumes, records what every volume holds, writes the volumes, and readers
  check all of it before anything is used; immutable versions of an artifact form a graph; owners of keys
  hand over to each other. Under \<open>agent\<close>, tasks run supervised: a heartbeat ledger bounds what they may
  consume, an operation journal records what they begin before it is done and how it ended, workers reach their
  supervisor over an RPC channel, where a coding worker's calls are budgeted, an event buffer keeps what the owner can read of a run, dialogs ask the user. Under \<open>terminal_ops\<close>,
  running commands share the rows of a canvas. The test runner divides tests over workers and adapts to memory
  pressure. Effects (GnuPG, files, sockets, databases, terminals) surround these; the library models the
  decisions, with the effects as arguments.

  \<^bold>\<open>Theories and sources.\<close>

  \<^item> \<open>Prelude\<close>, \<open>Python\<close>, \<open>Json\<close>, \<open>Json_Fields\<close>, \<open>Utf8\<close>, \<open>Decimal\<close>, \<open>Base64\<close>, \<open>Json_Text\<close>, \<open>Json_Bytes\<close>,
    \<open>Json_Canon\<close>, \<open>Readers\<close>: Python's values as the code uses them. A raise is \<open>Inl\<close> of an error, \<open>rbind\<close> and \<open>rfold\<close> sequence code and loops that may raise, text is
    a list of code points, bytes are numbers below 256, JSON is a datatype with objects as association lists.
    The locale \<open>stepped\<close> is the contract of an object driven by calls; it is interpreted on the editor, the
    pressure controller, the scheduler, the ledger, the event buffer, the checks of the journal's records, the
    runs of its calls, the rounds of an RPC server and those of a coding worker's supervisor. \<open>Readers\<close> has the field readers and the ASCII texts that records of a fixed schema share.
  \<^item> \<open>Packing\<close> (\<open>openpgp/container_packing.py\<close>): the planner of volumes. Nothing is lost or duplicated, every
    limit holds, the plan is greedy, a split takes the largest prefix that fits, and planning succeeds
    whenever single bytes fit. The locale \<open>size_oracle\<close> is the contract of the memoising measurer.
  \<^item> \<open>Versions\<close> (\<open>openpgp/container_versions.py\<close>): normalisation, heads, common ancestors, merge requirements, and
    the cycle search with an explicit stack, which terminates and finds a cycle exactly when one exists.
  \<^item> \<open>Container_Format\<close>, \<open>Container_Writing\<close>, \<open>Container_Reading\<close> (\<open>openpgp/container_format.py\<close>, the in-memory
    source of \<open>container_sources.py\<close>): writer and readers. What is written reads back, and whatever reads is
    the canonical serialization of what was read.
  \<^item> \<open>Identifiers\<close>, \<open>Text_Grammars\<close>, \<open>Artifact_Records\<close>, \<open>Inventories\<close> (\<open>openpgp/artifact_records.py\<close> with
    \<open>container_delta_records.py\<close>, \<open>container_snapshot_records.py\<close>, \<open>container_worker_records.py\<close>): the protected
    records. An accepted inventory carries every byte of every file exactly once and fixes the framing the
    container readers accept; which errors can leave the validators is exact.
  \<^item> \<open>Message_Prefix\<close> (\<open>artifact_records.py\<close>): canonical JSON bytes and the prefix of a decrypted message, which
    encodes and decodes one to one.
  \<^item> \<open>Contracts\<close>, \<open>Transition\<close> (\<open>openpgp/contracts.py\<close>, \<open>key_records.py\<close>, \<open>transition_contracts.py\<close>): rules of keys and
    owner transitions; an accepted owner's key stays usable through the whole overlap window.
  \<^item> \<open>Heartbeat\<close> (\<open>agent/heartbeat_budget.py\<close>): the replay of reservations, results and reviews; charges never
    exceed the budget, histories are bounded, and only the record the status calls for is accepted.
  \<^item> \<open>Event_Buffer\<close>, \<open>Event_Retention\<close> (\<open>agent/event_buffer.py\<close>): the snapshot codec, the writer and the pages. The
    file is at any time the tail of everything published; a page shows what follows the reader's cursor.
  \<^item> \<open>Operation_Journal\<close>, \<open>Journal_Reading\<close>, \<open>Journal_Histories\<close>, \<open>Journal_Runs\<close>, \<open>Journal_Properties\<close>
    (\<open>agent/operation_journal.py\<close>, \<open>relative\<close> of \<open>file_grants.py\<close>): requests, the checks of \<open>_states\<close> as a fold over
    records, the directory as its files, appends told how their write ends, and the readers of the journal. Its
    histories are disciplined, it reads back and forgets nothing whatever becomes of the writes, room is always
    left to settle what is uncertain, and observations and readings since a frontier are exact.
  \<^item> \<open>Broker_Channel\<close>, \<open>Channel_Exchange\<close> (\<open>agent/broker_rpc.py\<close>): framed JSON calls between two processes. The two
    phases of \<open>request\<close> and of \<open>serve_once\<close> are functions of one end, its stream and what the environment answers;
    the inductive relation \<open>exchange_step\<close> interleaves both ends on an unreliable connection. A server is safe
    against any bytes, calls happen at most once and in order, and an undisturbed call completes.
  \<^item> \<open>Coding_Protocol\<close>, \<open>Coding_Budgets\<close> (\<open>agent/coding_protocol.py\<close>, the broker's branch of \<open>supervise\<close> in
    \<open>agent/supervisor.py\<close>): the handler of a coding worker's calls behind the channel. Whatever the worker sends, tool
    calls, events and stream stay within their budgets, and nothing happens before its start or after its result.
  \<^item> \<open>Layout\<close> (\<open>terminal_ops/command_native_layout.py\<close>): rows of the native canvas; every row is accounted for.
  \<^item> \<open>Dialog\<close> (\<open>terminal_ops/dialog_model.py\<close>): forms, their parser and the editor; the editor never leaves its
    limits, wipes and hands over once.
  \<^item> \<open>Test_Order\<close>, \<open>Test_Workers\<close>, \<open>Pressure\<close>, \<open>Test_Scheduling\<close> (\<open>test_ordering.py\<close>, \<open>test_workers.py\<close>,
    \<open>test_pressure.py\<close>, \<open>test_scheduling.py\<close>): shards partition the tests independently of their order, the worker
    configuration reads back, the controller stays within its bounds and implements a specification over the
    whole history, and every test is in exactly one place, with none starved.

  \<^bold>\<open>How the parts meet.\<close> The packing plan decides which segments a volume's messages carry; the inventory
  records them and \<open>inventory_matches_container\<close> ties the record to the framing of \<open>Container_Format\<close>; message
  prefixes name the segment inside each message; delta and snapshot claims refer to versions of the graph; the
  transition rules use the contracts of keys. The event buffer is read by the heartbeat's owner. Event buffer, journal
  and RPC channel share the JSON codec, its field readers and the identifiers of \<open>Text_Grammars\<close>.

  \<^bold>\<open>Parameters.\<close> SHA-256, Unicode's NFC and upper casing, its control and digit classes, the text of floats, the
  clock, the size callback of the packer, the base class of the scheduler, the environment and processor
  counts, and the outcome of file operations are arguments of the definitions that use them. Theorems hold
  for all of them unless a hypothesis names the documented behaviour it needs.

  \<^bold>\<open>Bounds and fuel.\<close> Loops are structural or have a termination proof. The only fuel is that of the JSON
  reader, the length of the text plus one: each level consumes a character, and \<open>loads_dumps\<close> shows it is
  enough for whatever the writer writes. Python's integers are \<open>int\<close>; limits on digits and sizes are those of
  the source. Finite floats are rationals, whose rounding is not modelled.

  \<^bold>\<open>Not modelled.\<close> What remains is code whose substance is an effect or an external program: GnuPG processes and
  key generation, trust and catalogue databases, HTTP, SSH and socket transports, sandboxes, tmux and curses,
  the GitHub and model provider interfaces, the context index, the command line that plans and applies
  framework files, release and documentation tooling, the shipped skills, vendored packages and tests. The
  large services among them (\<open>terminal_ops/command_service.py\<close>, \<open>github_repo\<close>) interleave decisions with
  those effects and would need their state separated first. Of the modelled files, the locks, the anchored file
  checks, the journal's cancellation callback, the selector loops of the RPC channel and of the supervisor, the check of a coding request's profile and images and Python's recursion limit are
  left out.
\<close>

end
